(* ===== verification/Cpp_Strings.thy ===== *)
theory Cpp_Strings
  imports Prelude
begin

text \<open>
  The part of the C++ standard library that the program computes with: decimal conversion
  (\<open>std::to_string\<close>, \<open>stoull\<close>, \<open>stoi\<close>, \<open>atoi\<close>, \<open>strtol\<close>), \<open>std::string::find\<close> and \<open>substr\<close>,
  and input streams with their end-of-file and failure bits (\<open>std::getline\<close>,
  \<open>istream::read\<close>, a relative \<open>seekg\<close>).  Strings are byte strings (\<open>char list\<close>).
\<close>

abbreviation nl :: char where "nl \<equiv> CHR 0x0A"

section \<open>Decimal printing\<close>

definition digit_char :: "nat \<Rightarrow> char" where
  "digit_char d = char_of (48 + d)"

fun nat_str :: "nat \<Rightarrow> string" where
  "nat_str n = (if n < 10 then [digit_char n] else nat_str (n div 10) @ [digit_char (n mod 10)])"

declare nat_str.simps [simp del]

definition int_str :: "int \<Rightarrow> string" where
  "int_str i = (if i < 0 then CHR ''-'' # nat_str (nat (- i)) else nat_str (nat i))"

section \<open>Decimal parsing\<close>

definition is_digit :: "char \<Rightarrow> bool" where
  "is_digit c = (48 \<le> (of_char c :: nat) \<and> (of_char c :: nat) \<le> 57)"

definition is_space :: "char \<Rightarrow> bool" where
  "is_space c = ((of_char c :: nat) = 32 \<or> (9 \<le> (of_char c :: nat) \<and> (of_char c :: nat) \<le> 13))"

definition digit_val :: "char \<Rightarrow> nat" where
  "digit_val c = of_char c - 48"

fun digits_val :: "nat \<Rightarrow> string \<Rightarrow> nat" where
  "digits_val acc [] = acc"
| "digits_val acc (c # cs) = digits_val (10 * acc + digit_val c) cs"

text \<open>
  \<open>strtol\<close>-style scanning in base 10: white space, an optional sign, the longest run of digits.
  \<open>None\<close>: no conversion.  The pair is the sign (true: minus) and the magnitude.
\<close>

definition scan_num :: "string \<Rightarrow> (bool \<times> nat) option" where
  "scan_num s =
     (let s1 = dropWhile is_space s;
          neg = (case s1 of [] \<Rightarrow> False | c # _ \<Rightarrow> c = CHR ''-'');
          s2 = (case s1 of [] \<Rightarrow> [] | c # cs \<Rightarrow> if c = CHR ''-'' \<or> c = CHR ''+'' then cs else s1);
          ds = takeWhile is_digit s2
      in if ds = [] then None else Some (neg, digits_val 0 ds))"

definition stoull :: "string \<Rightarrow> nat res" where
  "stoull s = (case scan_num s of
      None \<Rightarrow> Inl Invalid_argument
    | Some (neg, v) \<Rightarrow>
        if 2 ^ 64 \<le> v then Inl Out_of_range
        else Inr (if neg then (2 ^ 64 - v) mod 2 ^ 64 else v))"

definition stoi :: "string \<Rightarrow> int res" where
  "stoi s = (case scan_num s of
      None \<Rightarrow> Inl Invalid_argument
    | Some (neg, v) \<Rightarrow>
        let i = (if neg then - int v else int v) in
        if i < - (2 ^ 31) \<or> 2 ^ 31 \<le> i then Inl Out_of_range else Inr i)"

text \<open>\<open>atoi\<close> is \<open>(int) strtol(s, NULL, 10)\<close>: saturation to 64 bits, then truncation to 32.\<close>

definition atoi :: "string \<Rightarrow> int" where
  "atoi s = (case scan_num s of
      None \<Rightarrow> 0
    | Some (neg, v) \<Rightarrow>
        let i = (if neg then max (- (2 ^ 63)) (- int v) else min (2 ^ 63 - 1) (int v))
        in sint (word_of_int i :: 32 word))"

section \<open>Round trip of decimal numbers\<close>

lemma of_char_digit_char: "d < 10 \<Longrightarrow> (of_char (digit_char d) :: nat) = 48 + d"
  by (simp add: digit_char_def)

lemma is_digit_digit_char [simp]: "d < 10 \<Longrightarrow> is_digit (digit_char d)"
  by (simp add: is_digit_def of_char_digit_char)

lemma digit_val_digit_char [simp]: "d < 10 \<Longrightarrow> digit_val (digit_char d) = d"
  by (simp add: digit_val_def of_char_digit_char)

lemma digits_val_append: "digits_val a (xs @ ys) = digits_val (digits_val a xs) ys"
  by (induction xs arbitrary: a) auto

lemma nat_str_digits: "\<forall>c \<in> set (nat_str n). is_digit c"
proof (induction n rule: nat_str.induct)
  case (1 n)
  then show ?case
    by (subst nat_str.simps) auto
qed

lemma nat_str_not_Nil [simp]: "nat_str n \<noteq> []"
  by (subst nat_str.simps) simp

lemma digits_val_nat_str [simp]: "digits_val 0 (nat_str n) = n"
proof (induction n rule: nat_str.induct)
  case (1 n)
  then show ?case
    by (subst nat_str.simps) (auto simp: digits_val_append)
qed

lemma nat_str_inj [simp]: "nat_str m = nat_str n \<longleftrightarrow> m = n"
  by (metis digits_val_nat_str)

lemma digit_not_space: "is_digit c \<Longrightarrow> \<not> is_space c"
  by (auto simp: is_digit_def is_space_def)

lemma is_digit_sign: "is_digit c \<Longrightarrow> c \<noteq> CHR ''-'' \<and> c \<noteq> CHR ''+''"
  by (auto simp: is_digit_def)

lemma scan_num_nat_str: "\<not> is_digit (hd (r @ ''x'')) \<Longrightarrow> scan_num (nat_str n @ r) = Some (False, n)"
proof -
  assume r: "\<not> is_digit (hd (r @ ''x''))"
  obtain c cs where eq: "nat_str n = c # cs"
    by (cases "nat_str n") auto
  have dig: "is_digit c" "\<forall>x \<in> set (c # cs). is_digit x"
    using nat_str_digits [of n] eq by auto
  have rest: "takeWhile is_digit r = []"
    using r by (cases r) auto
  have tw: "takeWhile is_digit (nat_str n @ r) = nat_str n"
    using nat_str_digits [of n] rest by (simp add: takeWhile_append2)
  have dw: "dropWhile is_space (nat_str n @ r) = nat_str n @ r"
    using dig digit_not_space eq by auto
  have "scan_num (nat_str n @ r) = (let ds = takeWhile is_digit (nat_str n @ r)
      in if ds = [] then None else Some (False, digits_val 0 ds))"
    using is_digit_sign [OF dig(1)] unfolding scan_num_def dw by (simp add: eq)
  then show ?thesis
    by (simp add: tw)
qed

lemma scan_num_nat_str_end [simp]: "scan_num (nat_str n) = Some (False, n)"
  using scan_num_nat_str [of "[]" n] by (simp add: is_digit_def)

lemma stoull_nat_str [simp]: "n < 2 ^ 64 \<Longrightarrow> stoull (nat_str n) = Inr n"
  by (simp add: stoull_def)

lemma stoi_nat_str [simp]: "n < 2 ^ 31 \<Longrightarrow> stoi (nat_str n) = Inr (int n)"
  by (simp add: stoi_def)

lemma newline_not_digit [simp]: "\<not> is_digit (CHR 0x0A)"
  by (simp add: is_digit_def)

lemma newline_notin_nat_str [simp]: "CHR 0x0A \<notin> set (nat_str n)"
  using nat_str_digits [of n] by auto

section \<open>Searching and slicing\<close>

fun find_char :: "char \<Rightarrow> string \<Rightarrow> nat option" where
  "find_char d [] = None"
| "find_char d (c # cs) = (if c = d then Some 0 else map_option Suc (find_char d cs))"

definition find_last_char :: "char \<Rightarrow> string \<Rightarrow> nat option" where
  "find_last_char d s = map_option (\<lambda>i. length s - 1 - i) (find_char d (rev s))"

fun is_prefix :: "string \<Rightarrow> string \<Rightarrow> bool" where
  "is_prefix [] s = True"
| "is_prefix (p # ps) [] = False"
| "is_prefix (p # ps) (c # cs) = (p = c \<and> is_prefix ps cs)"

text \<open>\<open>s.find(p)\<close> from position 0; an empty pattern is found at once.\<close>

fun find_str :: "string \<Rightarrow> string \<Rightarrow> nat option" where
  "find_str p [] = (if p = [] then Some 0 else None)"
| "find_str p (c # cs) =
     (if is_prefix p (c # cs) then Some 0 else map_option Suc (find_str p cs))"

definition find_str_from :: "string \<Rightarrow> string \<Rightarrow> nat \<Rightarrow> nat option" where
  "find_str_from p s i = (if length s < i then None else map_option (\<lambda>j. i + j) (find_str p (drop i s)))"

text \<open>\<open>s.substr(pos, n)\<close> raises \<open>std::out_of_range\<close> when \<open>pos\<close> is past the end.\<close>

definition substr :: "string \<Rightarrow> nat \<Rightarrow> nat \<Rightarrow> string res" where
  "substr s pos n = (if length s < pos then Inl Out_of_range else Inr (take n (drop pos s)))"

definition substr_from :: "string \<Rightarrow> nat \<Rightarrow> string res" where
  "substr_from s pos = (if length s < pos then Inl Out_of_range else Inr (drop pos s))"

lemma is_prefix_iff: "is_prefix p s \<longleftrightarrow> (\<exists>r. s = p @ r)"
  by (induction p s rule: is_prefix.induct) auto

lemma is_prefix_append [simp]: "is_prefix p (p @ r)"
  by (auto simp: is_prefix_iff)

lemma find_str_Some: "find_str p s = Some i \<Longrightarrow> i \<le> length s \<and> is_prefix p (drop i s)"
  by (induction p s arbitrary: i rule: find_str.induct) (auto split: if_splits)

lemma find_str_length: "find_str p s = Some i \<Longrightarrow> i + length p \<le> length s"
  by (drule find_str_Some) (auto simp: is_prefix_iff dest: arg_cong [where f = length])

lemma find_char_None [simp]: "find_char d s = None \<longleftrightarrow> d \<notin> set s"
  by (induction s) auto

lemma find_char_append [simp]: "d \<notin> set xs \<Longrightarrow> find_char d (xs @ d # ys) = Some (length xs)"
  by (induction xs) auto

lemma find_char_less: "find_char d s = Some i \<Longrightarrow> i < length s \<and> s ! i = d"
  by (induction s arbitrary: i) (auto split: if_splits)

section \<open>Input streams\<close>

text \<open>
  An input stream is what is left to read and the two state bits.  \<open>is_open\<close> failing is the
  failure bit of a stream on a file that is not there.
\<close>

record istream =
  is_rest :: string
  is_eof :: bool
  is_fail :: bool

definition istream_of :: "string \<Rightarrow> istream" where
  "istream_of s = \<lparr>is_rest = s, is_eof = False, is_fail = False\<rparr>"

text \<open>
  \<open>std::getline(in, line, d)\<close>: a stream that is not good fails and leaves \<open>line\<close> alone;
  otherwise \<open>line\<close> is erased and filled up to the delimiter, which is consumed.  Reaching the
  end sets the end-of-file bit, and the failure bit too when nothing was read.
\<close>

definition getline :: "char \<Rightarrow> istream \<Rightarrow> string \<Rightarrow> bool \<times> string \<times> istream" where
  "getline d st old =
     (if is_eof st \<or> is_fail st then (False, old, st\<lparr>is_fail := True\<rparr>)
      else if is_rest st = [] then (False, [], st\<lparr>is_eof := True, is_fail := True\<rparr>)
      else case dropWhile (\<lambda>c. c \<noteq> d) (is_rest st) of
          [] \<Rightarrow> (True, is_rest st, st\<lparr>is_rest := [], is_eof := True\<rparr>)
        | _ # r \<Rightarrow> (True, takeWhile (\<lambda>c. c \<noteq> d) (is_rest st), st\<lparr>is_rest := r\<rparr>))"

text \<open>\<open>v.resize(n)\<close> keeps the old bytes and pads with zero bytes.\<close>

definition resize :: "nat \<Rightarrow> string \<Rightarrow> string" where
  "resize n v = take n v @ replicate (n - length v) (CHR 0x00)"

text \<open>\<open>in.read(buf, n)\<close>: short input leaves the tail of the buffer and sets both bits.\<close>

definition read_bytes :: "nat \<Rightarrow> istream \<Rightarrow> string \<Rightarrow> string \<times> istream" where
  "read_bytes n st buf =
     (if is_eof st \<or> is_fail st then (buf, st\<lparr>is_fail := True\<rparr>)
      else let got = take n (is_rest st) in
        (got @ drop (length got) buf,
         if length (is_rest st) < n then st\<lparr>is_rest := [], is_eof := True, is_fail := True\<rparr>
         else st\<lparr>is_rest := drop n (is_rest st)\<rparr>))"

text \<open>
  \<open>in.seekg(n + in.tellg())\<close>: \<open>tellg\<close> on a stream that is not good sets the failure bit, and
  \<open>seekg\<close> then clears the end-of-file bit and does nothing else.
\<close>

definition seek_rel :: "nat \<Rightarrow> istream \<Rightarrow> istream" where
  "seek_rel n st =
     (if is_eof st \<or> is_fail st then st\<lparr>is_eof := False, is_fail := True\<rparr>
      else st\<lparr>is_rest := drop n (is_rest st)\<rparr>)"

lemma istream_of_sel [simp]:
  "is_rest (istream_of s) = s" "\<not> is_eof (istream_of s)" "\<not> is_fail (istream_of s)"
  by (simp_all add: istream_of_def)

lemma getline_dec:
  "getline d st old = (True, l, st') \<Longrightarrow> length (is_rest st') < length (is_rest st)"
proof -
  assume g: "getline d st old = (True, l, st')"
  show ?thesis
  proof (cases "dropWhile (\<lambda>c. c \<noteq> d) (is_rest st)")
    case Nil
    show ?thesis using g unfolding getline_def Nil by (auto split: if_splits)
  next
    case (Cons x r)
    then have "length r < length (is_rest st)"
      by (metis Suc_le_eq length_Cons length_dropWhile_le)
    then show ?thesis using g Cons by (auto simp: getline_def split: if_splits)
  qed
qed

lemma getline_le: "getline d st old = (ok, l, st') \<Longrightarrow> length (is_rest st') \<le> length (is_rest st)"
proof -
  assume g: "getline d st old = (ok, l, st')"
  show ?thesis
  proof (cases ok)
    case True
    then show ?thesis using g getline_dec by fastforce
  next
    case False
    then show ?thesis using g by (auto simp: getline_def split: if_splits list.splits)
  qed
qed

lemma getline_line [simp]:
  "d \<notin> set l \<Longrightarrow> getline d (istream_of (l @ d # r)) old = (True, l, istream_of r)"
  by (simp add: getline_def istream_of_def)

lemma getline_empty [simp]:
  "getline d (istream_of []) old =
     (False, [], \<lparr>is_rest = [], is_eof = True, is_fail = True\<rparr>)"
  by (simp add: getline_def istream_of_def)

lemma resize_same [simp]: "length v = n \<Longrightarrow> resize n v = v"
  by (simp add: resize_def)

lemma length_resize [simp]: "length (resize n v) = n"
  by (simp add: resize_def)

lemma read_bytes_exact [simp]:
  "length buf = length v \<Longrightarrow>
   read_bytes (length v) (istream_of (v @ r)) buf = (v, istream_of r)"
  by (simp add: read_bytes_def istream_of_def)

lemma seek_rel_exact [simp]:
  "seek_rel (length v) (istream_of (v @ r)) = istream_of r"
  by (simp add: seek_rel_def istream_of_def)

end
