(* ===== verification/Cpp_Regex.thy ===== *)
theory Cpp_Regex
  imports Cpp_Strings
begin

text \<open>
  \<open>std::regex\<close> as the program uses it: classes of characters, sequences, alternatives, greedy
  repetition of a class, optional parts and capture groups.  The matcher returns every match of a prefix
  in the order in which a backtracking ECMAScript engine tries them (greedy first, left
  alternative first); each match is the captured groups, in order, and what is left.
  \<open>regex_match\<close> is the first match that consumes everything, \<open>regex_search\<close> the first match at
  the leftmost position that has one.
\<close>

section \<open>Expressions and the backtracking matcher\<close>

datatype re =
    Lit string
  | Cls "char \<Rightarrow> bool"
  | Many "char \<Rightarrow> bool"
  | Seq re re
  | Alt re re
  | Opt re
  | Grp re

type_synonym rmatch = "string list \<times> string"

fun lit_matches :: "string \<Rightarrow> string \<Rightarrow> string option" where
  "lit_matches [] s = Some s"
| "lit_matches (p # ps) [] = None"
| "lit_matches (p # ps) (c # cs) = (if p = c then lit_matches ps cs else None)"

text \<open>All ways to consume characters of a class, the longest first.\<close>

fun many_matches :: "(char \<Rightarrow> bool) \<Rightarrow> string \<Rightarrow> string list" where
  "many_matches P [] = [[]]"
| "many_matches P (c # cs) = (if P c then many_matches P cs @ [c # cs] else [c # cs])"

fun matches :: "re \<Rightarrow> string \<Rightarrow> rmatch list" where
  "matches (Lit p) s = (case lit_matches p s of None \<Rightarrow> [] | Some r \<Rightarrow> [([], r)])"
| "matches (Cls P) s = (case s of [] \<Rightarrow> [] | c # cs \<Rightarrow> if P c then [([], cs)] else [])"
| "matches (Many P) s = map (\<lambda>r. ([], r)) (many_matches P s)"
| "matches (Seq a b) s =
     concat (map (\<lambda>(g, r). map (\<lambda>(h, r'). (g @ h, r')) (matches b r)) (matches a s))"
| "matches (Alt a b) s = matches a s @ matches b s"
| "matches (Opt a) s = matches a s @ [([], s)]"
| "matches (Grp a) s = map (\<lambda>(g, r). (take (length s - length r) s # g, r)) (matches a s)"

definition Some1 :: "(char \<Rightarrow> bool) \<Rightarrow> re" where
  "Some1 P = Seq (Cls P) (Many P)"

fun seqs :: "re list \<Rightarrow> re" where
  "seqs [] = Lit []"
| "seqs [r] = r"
| "seqs (r # rs) = Seq r (seqs rs)"

definition regex_match :: "re \<Rightarrow> string \<Rightarrow> string list option" where
  "regex_match r s = map_option fst (find (\<lambda>(g, rest). rest = []) (matches r s))"

text \<open>\<open>regex_search\<close>: the captures and what follows the match (\<open>match.suffix()\<close>).\<close>

fun regex_search :: "re \<Rightarrow> string \<Rightarrow> rmatch option" where
  "regex_search r [] = (case matches r [] of [] \<Rightarrow> None | m # _ \<Rightarrow> Some m)"
| "regex_search r (c # cs) =
     (case matches r (c # cs) of [] \<Rightarrow> regex_search r cs | m # _ \<Rightarrow> Some m)"

section \<open>Character classes\<close>

definition alpha :: "char \<Rightarrow> bool" where
  "alpha c = (let n = (of_char c :: nat) in (65 \<le> n \<and> n \<le> 90) \<or> (97 \<le> n \<and> n \<le> 122))"

text \<open>\<open>.\<close> matches anything but a line terminator.\<close>

definition re_dot :: "char \<Rightarrow> bool" where
  "re_dot c = (c \<noteq> CHR 0x0A \<and> c \<noteq> CHR 0x0D)"

definition to_lower :: "char \<Rightarrow> char" where
  "to_lower c = (let n = (of_char c :: nat) in if 65 \<le> n \<and> n \<le> 90 then char_of (n + 32) else c)"

text \<open>A literal under \<open>std::regex::icase\<close>.\<close>

definition ilit :: "string \<Rightarrow> re" where
  "ilit p = seqs (map (\<lambda>a. Cls (\<lambda>c. to_lower c = to_lower a)) p)"

section \<open>The first match\<close>

text \<open>
  \<open>first_match r s g rest\<close>: the engine's first choice on \<open>s\<close> captures \<open>g\<close> and leaves \<open>rest\<close>.
  The rules follow the expression, so a match of a concrete expression is derived piece by piece.
\<close>

definition first_match :: "re \<Rightarrow> string \<Rightarrow> string list \<Rightarrow> string \<Rightarrow> bool" where
  "first_match r s g rest = (\<exists>ms. matches r s = (g, rest) # ms)"

lemma lit_matches_append [simp]: "lit_matches p (p @ r) = Some r"
  by (induction p) auto

lemma lit_matches_Some: "lit_matches p s = Some r \<longleftrightarrow> s = p @ r"
  by (induction p s rule: lit_matches.induct) auto

lemma first_Lit: "first_match (Lit p) (p @ r) [] r"
  by (simp add: first_match_def)

lemma first_Cls: "P c \<Longrightarrow> first_match (Cls P) (c # r) [] r"
  by (simp add: first_match_def)

lemma many_matches_greedy:
  "\<forall>c \<in> set xs. P c \<Longrightarrow> (case r of [] \<Rightarrow> True | c # _ \<Rightarrow> \<not> P c) \<Longrightarrow>
   \<exists>ms. many_matches P (xs @ r) = r # ms"
proof (induction xs)
  case Nil
  then show ?case by (cases r) auto
next
  case (Cons x xs)
  then show ?case by auto
qed

lemma first_Many:
  "\<forall>c \<in> set xs. P c \<Longrightarrow> (case r of [] \<Rightarrow> True | c # _ \<Rightarrow> \<not> P c) \<Longrightarrow>
   first_match (Many P) (xs @ r) [] r"
  by (drule (1) many_matches_greedy) (auto simp: first_match_def)

lemma first_Seq:
  "first_match a s g r \<Longrightarrow> first_match b r h t \<Longrightarrow> first_match (Seq a b) s (g @ h) t"
  by (auto simp: first_match_def)

lemma first_Alt1: "first_match a s g r \<Longrightarrow> first_match (Alt a b) s g r"
  by (auto simp: first_match_def)

lemma first_Grp: "first_match a (xs @ r) g r \<Longrightarrow> first_match (Grp a) (xs @ r) (xs # g) r"
  by (auto simp: first_match_def)

lemma first_Some1:
  assumes "xs \<noteq> []" "\<forall>c \<in> set xs. P c" "case r of [] \<Rightarrow> True | c # _ \<Rightarrow> \<not> P c"
  shows "first_match (Some1 P) (xs @ r) [] r"
proof -
  obtain x ys where xs: "xs = x # ys"
    using assms(1) by (cases xs) auto
  have "first_match (Many P) (ys @ r) [] r"
    using assms xs by (intro first_Many) auto
  then show ?thesis
    using first_Seq [OF first_Cls [of P x "ys @ r"]] assms(2) xs by (simp add: Some1_def)
qed

lemma first_Lit_Seq:
  "first_match b r h t \<Longrightarrow> first_match (Seq (Lit p) b) (p @ r) h t"
  using first_Seq [OF first_Lit] by fastforce

lemma first_Cls_Seq:
  "P c \<Longrightarrow> first_match b r h t \<Longrightarrow> first_match (Seq (Cls P) b) (c # r) h t"
  using first_Seq [OF first_Cls] by fastforce

lemma first_Grp_Seq:
  "xs \<noteq> [] \<Longrightarrow> \<forall>x \<in> set xs. P x \<Longrightarrow> \<not> P c \<Longrightarrow> first_match b (c # r) h t \<Longrightarrow>
   first_match (Seq (Grp (Some1 P)) b) (xs @ c # r) (xs # h) t"
  using first_Seq [OF first_Grp [OF first_Some1]] by fastforce

lemma first_Grp_end:
  "xs \<noteq> [] \<Longrightarrow> \<forall>x \<in> set xs. P x \<Longrightarrow> first_match (Grp (Some1 P)) xs [xs] []"
  using first_Grp [OF first_Some1 [of xs P "[]"]] by simp

lemma regex_match_first: "first_match r s g [] \<Longrightarrow> regex_match r s = Some g"
  by (auto simp: first_match_def regex_match_def)

lemma search_first: "first_match r s g rest \<Longrightarrow> regex_search r s = Some (g, rest)"
  by (cases s) (auto simp: first_match_def)

lemma search_skip: "matches r (c # cs) = [] \<Longrightarrow> regex_search r (c # cs) = regex_search r cs"
  by simp

text \<open>Every match leaves a suffix of its input.\<close>

lemma many_matches_suffix: "r \<in> set (many_matches P s) \<Longrightarrow> \<exists>p. s = p @ r"
proof (induction P s rule: many_matches.induct)
  case (2 P c cs)
  from "2.prems" consider "P c" "r \<in> set (many_matches P cs)" | "r = c # cs"
    by (auto split: if_splits)
  then show ?case
  proof cases
    case 1
    then obtain p where "cs = p @ r"
      using "2.IH" by blast
    then have "c # cs = (c # p) @ r"
      by simp
    then show ?thesis by blast
  qed simp
qed simp

lemma matches_suffix: "(g, r) \<in> set (matches e s) \<Longrightarrow> \<exists>p. s = p @ r"
proof (induction e arbitrary: s g r)
  case (Lit p)
  then show ?case by (cases "lit_matches p s") (auto simp: lit_matches_Some)
next
  case (Seq a b)
  then obtain g1 r1 g2 where "(g1, r1) \<in> set (matches a s)" "(g2, r) \<in> set (matches b r1)"
    by auto
  then show ?case using Seq.IH by (metis append.assoc)
qed (auto split: list.splits if_splits dest!: many_matches_suffix)

lemma regex_search_suffix: "regex_search e s = Some (g, r) \<Longrightarrow> \<exists>p. s = p @ r"
proof (induction e s rule: regex_search.induct)
  case (1 e)
  then have "(g, r) \<in> set (matches e [])"
    by (auto split: list.splits)
  then show ?case by (rule matches_suffix)
next
  case (2 e c cs)
  show ?case
  proof (cases "matches e (c # cs)")
    case Nil
    then show ?thesis using 2 by (auto intro: exI [of _ "c # _"])
  next
    case (Cons m ms)
    then have "(g, r) \<in> set (matches e (c # cs))"
      using 2 by auto
    then show ?thesis by (rule matches_suffix)
  qed
qed

section \<open>What an expression accepts\<close>

text \<open>\<open>accepts r s t\<close>: some choice of the engine consumes \<open>s\<close> up to \<open>t\<close>.\<close>

definition accepts :: "re \<Rightarrow> string \<Rightarrow> string \<Rightarrow> bool" where
  "accepts r s t \<longleftrightarrow> (\<exists>g. (g, t) \<in> set (matches r s))"

lemma regex_match_accepts: "regex_match r s \<noteq> None \<longleftrightarrow> accepts r s []"
  by (auto simp: regex_match_def accepts_def find_None_iff)

lemma many_matches_set: "t \<in> set (many_matches P s) \<longleftrightarrow> (\<exists>xs. s = xs @ t \<and> (\<forall>c \<in> set xs. P c))"
proof (induction s)
  case (Cons c cs)
  have "(\<exists>xs. c # cs = xs @ t \<and> (\<forall>c \<in> set xs. P c)) \<longleftrightarrow>
      t = c # cs \<or> P c \<and> (\<exists>xs. cs = xs @ t \<and> (\<forall>c \<in> set xs. P c))"
    by (auto simp: Cons_eq_append_conv)
  then show ?case using Cons by auto
qed simp

lemma accepts_simps [simp]:
  "accepts (Lit p) s t \<longleftrightarrow> s = p @ t"
  "accepts (Cls P) s t \<longleftrightarrow> (\<exists>c. s = c # t \<and> P c)"
  "accepts (Many P) s t \<longleftrightarrow> (\<exists>xs. s = xs @ t \<and> (\<forall>c \<in> set xs. P c))"
  "accepts (Alt a b) s t \<longleftrightarrow> accepts a s t \<or> accepts b s t"
proof -
  show "accepts (Lit p) s t \<longleftrightarrow> s = p @ t"
    using lit_matches_Some [of p s t] by (auto simp: accepts_def split: option.splits)
  show "accepts (Cls P) s t \<longleftrightarrow> (\<exists>c. s = c # t \<and> P c)"
    by (auto simp: accepts_def split: list.splits)
  show "accepts (Many P) s t \<longleftrightarrow> (\<exists>xs. s = xs @ t \<and> (\<forall>c \<in> set xs. P c))"
    unfolding many_matches_set [symmetric] by (auto simp: accepts_def)
  show "accepts (Alt a b) s t \<longleftrightarrow> accepts a s t \<or> accepts b s t"
    by (auto simp: accepts_def)
qed

lemma accepts_Seq [simp]: "accepts (Seq a b) s t \<longleftrightarrow> (\<exists>u. accepts a s u \<and> accepts b u t)"
proof
  assume "accepts (Seq a b) s t"
  then show "\<exists>u. accepts a s u \<and> accepts b u t"
    by (auto simp: accepts_def)
next
  assume "\<exists>u. accepts a s u \<and> accepts b u t"
  then obtain g u h where "(g, u) \<in> set (matches a s)" "(h, t) \<in> set (matches b u)"
    by (auto simp: accepts_def)
  then have "(g @ h, t) \<in> set (matches (Seq a b) s)"
    by force
  then show "accepts (Seq a b) s t"
    unfolding accepts_def by blast
qed

lemma accepts_Some1 [simp]:
  "accepts (Some1 P) s t \<longleftrightarrow> (\<exists>xs. s = xs @ t \<and> xs \<noteq> [] \<and> (\<forall>c \<in> set xs. P c))"
proof -
  have "(\<exists>xs. s = xs @ t \<and> xs \<noteq> [] \<and> (\<forall>c \<in> set xs. P c)) \<longleftrightarrow>
      (\<exists>c xs. s = c # xs @ t \<and> P c \<and> (\<forall>c \<in> set xs. P c))"
    by (auto simp: neq_Nil_conv)
  then show ?thesis by (auto simp: Some1_def)
qed

lemma accepts_ilit: "accepts (ilit p) s t \<longleftrightarrow> (\<exists>q. s = q @ t \<and> map to_lower q = map to_lower p)"
proof (induction p arbitrary: s)
  case (Cons a p)
  have "accepts (ilit (a # p)) s t \<longleftrightarrow> (\<exists>c u. s = c # u \<and> to_lower c = to_lower a \<and> accepts (ilit p) u t)"
    by (cases p) (auto simp: ilit_def)
  also have "\<dots> \<longleftrightarrow> (\<exists>q. s = q @ t \<and> map to_lower q = map to_lower (a # p))"
    unfolding Cons.IH by (fastforce simp: map_eq_Cons_conv)
  finally show ?case .
qed (simp add: ilit_def)

end
