(* ===== verification/Msg_Operation.thy ===== *)
theory Msg_Operation
  imports Cpp_Regex
begin

text \<open>
  The string and number helpers of \<open>common/msg_operation.h\<close>: printable bytes, little-endian
  numbers, \<open>split\<close>, \<open>replace\<close> and \<open>remove_leading_space\<close>, with the reference definitions they
  are proved equal to.
\<close>

section \<open>Printable text\<close>

text \<open>\<open>char\<close> is signed on the target: bytes from 128 on are negative and not printable.\<close>

definition is_printable_char :: "char \<Rightarrow> bool" where
  "is_printable_char c = (let n = (of_char c :: nat) in 32 \<le> n \<and> n \<le> 126)"

fun is_printable :: "string \<Rightarrow> bool" where
  "is_printable [] = True"
| "is_printable (c # cs) = (if \<not> is_printable_char c then False else is_printable cs)"

section \<open>Numbers as bytes\<close>

fun le_bytes :: "nat \<Rightarrow> nat \<Rightarrow> string" where
  "le_bytes 0 n = []"
| "le_bytes (Suc k) n = char_of (n mod 256) # le_bytes k (n div 256)"

fun le_val :: "string \<Rightarrow> nat" where
  "le_val [] = 0"
| "le_val (c # cs) = of_char c + 256 * le_val cs"

definition num32_to_binary :: "32 word \<Rightarrow> string" where
  "num32_to_binary w = le_bytes 4 (unat w)"

definition binary_to_num32 :: "string \<Rightarrow> (32 word) res" where
  "binary_to_num32 b =
     (if length b < 4 then Inl Undefined else Inr (word_of_nat (le_val (take 4 b))))"

definition num64_to_binary :: "64 word \<Rightarrow> string" where
  "num64_to_binary w = le_bytes 8 (unat w)"

definition binary_to_num64 :: "string \<Rightarrow> (64 word) res" where
  "binary_to_num64 b =
     (if length b < 8 then Inl Undefined else Inr (word_of_nat (le_val (take 8 b))))"

lemma length_le_bytes [simp]: "length (le_bytes k n) = k"
  by (induction k arbitrary: n) auto

lemma le_val_le_bytes [simp]: "le_val (le_bytes k n) = n mod 256 ^ k"
proof (induction k arbitrary: n)
  case (Suc k)
  have "n mod (256 * 256 ^ k) = 256 * (n div 256 mod 256 ^ k) + n mod 256"
    by (rule mod_mult2_eq)
  then show ?case using Suc by simp
qed simp

section \<open>Splitting at a delimiter\<close>

function split_loop :: "char \<Rightarrow> istream \<Rightarrow> string list" where
  "split_loop d ss =
     (case getline d ss [] of
        (False, _, _) \<Rightarrow> []
      | (True, item, ss') \<Rightarrow> item # split_loop d ss')"
  by pat_completeness auto
termination
  by (relation "measure (\<lambda>(d, ss). length (is_rest ss))") (auto dest: getline_dec [OF sym])

declare split_loop.simps [simp del]

definition split :: "string \<Rightarrow> char \<Rightarrow> string list" where
  "split s delim = split_loop delim (istream_of s)"

lemma split_Nil [simp]: "split [] d = []"
  by (simp add: split_def split_loop.simps)

lemma split_loop_eof [simp]: "is_eof ss \<Longrightarrow> split_loop d ss = []"
  by (subst split_loop.simps) (simp add: getline_def)

lemma split_step [simp]: "d \<notin> set l \<Longrightarrow> split (l @ d # r) d = l # split r d"
  unfolding split_def by (subst split_loop.simps) simp

lemma split_last [simp]: "d \<notin> set l \<Longrightarrow> l \<noteq> [] \<Longrightarrow> split l d = [l]"
  unfolding split_def by (subst split_loop.simps) (simp add: getline_def istream_of_def)

definition unlines :: "char \<Rightarrow> string list \<Rightarrow> string" where
  "unlines d ls = concat (map (\<lambda>l. l @ [d]) ls)"

lemma unlines_simps [simp]:
  "unlines d [] = []" "unlines d (l # ls) = l @ d # unlines d ls"
  by (simp_all add: unlines_def)

lemma split_unlines: "\<forall>l \<in> set ls. d \<notin> set l \<Longrightarrow> split (unlines d ls) d = ls"
  by (induction ls) auto

lemma split_cases:
  fixes s :: string and d :: char
  obtains (nil) "s = []" | (last) "d \<notin> set s" "s \<noteq> []"
    | (more) l r where "d \<notin> set l" "s = l @ d # r"
  using split_list_first [of d s] by blast

lemma unlines_split:
  "unlines d (split s d) = (if s = [] \<or> last s = d then s else s @ [d])"
proof (induction "length s" arbitrary: s rule: less_induct)
  case less
  show ?case
  proof (cases rule: split_cases [where s = s and d = d])
    case (more l r)
    then have "unlines d (split r d) = (if r = [] \<or> last r = d then r else r @ [d])"
      by (intro less) simp
    then show ?thesis using more by simp
  next
    case last
    then show ?thesis by (auto dest: last_in_set)
  qed simp
qed

lemma split_no_delim: "\<forall>l \<in> set (split s d). d \<notin> set l"
proof (induction "length s" arbitrary: s rule: less_induct)
  case less
  show ?case
  proof (cases rule: split_cases [where s = s and d = d])
    case (more l r)
    then have "\<forall>l \<in> set (split r d). d \<notin> set l"
      by (intro less) simp
    then show ?thesis using more by simp
  qed simp_all
qed

section \<open>Replacing every occurrence\<close>

lemma find_str_from_bound:
  "find_str_from p s i = Some j \<Longrightarrow> i \<le> j \<and> j + length p \<le> length s"
  by (auto simp: find_str_from_def split: if_splits dest!: find_str_length)

function replace_loop :: "string \<Rightarrow> string \<Rightarrow> string \<Rightarrow> nat \<Rightarrow> string" where
  "replace_loop str from to index =
     (if from = [] then str
      else case find_str_from from str index of
          None \<Rightarrow> str
        | Some i \<Rightarrow>
            replace_loop (take i str @ to @ drop (i + length from) str) from to (i + length to))"
  by pat_completeness auto
termination
proof (relation "measure (\<lambda>(str, from, to, index). length str - index)", goal_cases)
  case (2 str "from" to index i)
  then obtain n where "index \<le> i" "i + length from \<le> length str" "length from = Suc n"
    by (metis find_str_from_bound length_0_conv not0_implies_Suc)
  then show ?case by (simp add: min_def)
qed simp

declare replace_loop.simps [simp del]

definition replace :: "string \<Rightarrow> string \<Rightarrow> string \<Rightarrow> string" where
  "replace str from to = (if length from \<le> 0 then str else replace_loop str from to 0)"

function subst_all :: "string \<Rightarrow> string \<Rightarrow> string \<Rightarrow> string" where
  "subst_all from to s =
     (if from = [] then s
      else case s of
          [] \<Rightarrow> []
        | c # cs \<Rightarrow>
            if is_prefix from s then to @ subst_all from to (drop (length from) s)
            else c # subst_all from to cs)"
  by pat_completeness auto
termination
  by (relation "measure (\<lambda>(from, to, s). length s)") auto

declare subst_all.simps [simp del]

lemma replace_loop_stop: "find_str_from from str i = None \<Longrightarrow> replace_loop str from to i = str"
  by (simp add: replace_loop.simps)

lemma replace_loop_skip:
  assumes "from \<noteq> []" "\<not> is_prefix from (c # cs)"
  shows "replace_loop (pre @ c # cs) from to (length pre) =
         replace_loop (pre @ c # cs) from to (length (pre @ [c]))"
proof -
  have "find_str_from from (pre @ c # cs) (length pre) =
        find_str_from from (pre @ c # cs) (length (pre @ [c]))"
    using assms by (cases "find_str from cs") (simp_all add: find_str_from_def)
  then show ?thesis
    by (subst (1 2) replace_loop.simps) simp
qed

lemma replace_loop_eq:
  assumes "from \<noteq> []"
  shows "replace_loop (pre @ s) from to (length pre) = pre @ subst_all from to s"
  using assms
proof (induction "length s" arbitrary: pre s rule: less_induct)
  case less
  show ?case
  proof (cases s)
    case Nil
    then show ?thesis using less.prems
      by (simp add: replace_loop_stop find_str_from_def subst_all.simps)
  next
    case (Cons c cs)
    show ?thesis
    proof (cases "is_prefix from s")
      case False
      have "replace_loop (pre @ c # cs) from to (length pre) =
            replace_loop ((pre @ [c]) @ cs) from to (length (pre @ [c]))"
        using replace_loop_skip [OF less.prems] False Cons by simp
      also have "\<dots> = (pre @ [c]) @ subst_all from to cs"
        using less Cons by (intro less(1)) auto
      finally show ?thesis
        using False Cons less.prems by (simp add: subst_all.simps [of _ _ "c # cs"])
    next
      case True
      then obtain r where r: "s = from @ r"
        by (auto simp: is_prefix_iff)
      have "find_str_from from (pre @ s) (length pre) = Some (length pre)"
        using True Cons by (simp add: find_str_from_def)
      then have "replace_loop (pre @ s) from to (length pre) =
          replace_loop (take (length pre) (pre @ s) @ to @
            drop (length pre + length from) (pre @ s)) from to (length pre + length to)"
        using less.prems by (subst replace_loop.simps) simp
      also have "\<dots> = replace_loop ((pre @ to) @ r) from to (length (pre @ to))"
        using r by simp
      also have "\<dots> = (pre @ to) @ subst_all from to r"
        using less.prems r by (intro less(1)) auto
      also have "(pre @ to) @ subst_all from to r = pre @ subst_all from to s"
      proof -
        have "drop (length from) (c # cs) = r"
          using r Cons by (metis append_eq_conv_conj)
        then show ?thesis
          using True Cons less.prems by (subst (2) subst_all.simps) simp
      qed
      finally show ?thesis .
    qed
  qed
qed

section \<open>Leading spaces\<close>

fun remove_leading_space :: "string \<Rightarrow> string" where
  "remove_leading_space [] = []"
| "remove_leading_space (c # cs) = (if c \<noteq> CHR '' '' then c # cs else remove_leading_space cs)"

section \<open>Properties\<close>

text \<open>
  \<open>num32_to_binary\<close> and \<open>num64_to_binary\<close> write the little-endian bytes of a number, and
  \<open>binary_to_num32\<close> and \<open>binary_to_num64\<close> read them back, whatever bytes follow in the buffer.
\<close>

lemma num_binary_roundtrip:
  "binary_to_num32 (num32_to_binary a @ r) = Inr a \<and> length (num32_to_binary a) = 4 \<and>
   binary_to_num64 (num64_to_binary b @ r) = Inr b \<and> length (num64_to_binary b) = 8"
proof -
  have "unat a mod 256 ^ 4 = unat a"
    by (intro mod_less order_less_le_trans [OF unsigned_less]) simp
  moreover have "unat b mod 256 ^ 8 = unat b"
    by (intro mod_less order_less_le_trans [OF unsigned_less]) simp
  ultimately show ?thesis
    by (simp add: binary_to_num32_def num32_to_binary_def binary_to_num64_def num64_to_binary_def)
qed

text \<open>
  \<open>split\<close> is the inverse of writing lines: no piece contains the delimiter, terminating
  each piece with the delimiter gives the string back (with a final delimiter supplied when
  the string has none), and splitting any terminated list of delimiter-free pieces returns it.
\<close>

lemma split_correct:
  "(\<forall>l \<in> set (split s d). d \<notin> set l) \<and>
   unlines d (split s d) = (if s = [] \<or> last s = d then s else s @ [d]) \<and>
   (\<forall>ls. (\<forall>l \<in> set ls. d \<notin> set l) \<longrightarrow> split (unlines d ls) d = ls)"
  using split_no_delim unlines_split split_unlines by blast

text \<open>
  \<open>replace\<close> always terminates and equals the left-to-right substitution of every
  non-overlapping occurrence: text that was substituted is never searched again, so a
  replacement that contains the pattern does not loop.
\<close>

lemma replace_is_subst_all: "replace str from to = subst_all from to str"
proof (cases "from = []")
  case True
  then show ?thesis by (simp add: replace_def subst_all.simps)
next
  case False
  then show ?thesis
    using replace_loop_eq [of "from" "[]" str to] by (simp add: replace_def)
qed

lemma remove_leading_space_eq: "remove_leading_space s = dropWhile (\<lambda>c. c = CHR '' '') s"
  by (induction s) auto

end
