(* ===== verification/Hash.thy ===== *)
theory Hash
  imports Msg_Operation
begin

unbundle bit_operations_syntax

text \<open>
  \<open>common/hash.h\<close>: the 32-bit hash that assigns users to clusters.  A \<open>char\<close> is signed and is
  sign-extended when it is multiplied; all arithmetic is modulo \<open>2 ^ 32\<close>.
\<close>

section \<open>The hash\<close>

definition hash_prime :: "(32 word) list" where
  "hash_prime = [8971, 1531, 4079, 3643, 6079]"

definition char_s32 :: "char \<Rightarrow> 32 word" where
  "char_s32 c = scast (word_of_nat (of_char c) :: 8 word)"

definition hash_step :: "32 word \<Rightarrow> char \<Rightarrow> 32 word \<Rightarrow> 32 word" where
  "hash_step prime c ret =
     (let ret = ret + char_s32 c * prime;
          ret = ret * 3266489917;
          ret = ret XOR drop_bit 15 ret
      in ret * 668265263)"

text \<open>\<open>assert(seed < 5)\<close>, then one step for each byte.\<close>

definition hashh :: "string \<Rightarrow> nat \<Rightarrow> (32 word) res" where
  "hashh data seed =
     (if seed < 5 then Inr (fold (hash_step (hash_prime ! seed)) data 2654435761)
      else Inl Aborted)"

section \<open>Every step is a bijection of the state\<close>

lemma mult_inj_inverse:
  fixes k k' x y :: "32 word"
  assumes "k * k' = 1" "x * k = y * k"
  shows "x = y"
proof -
  have "x * (k * k') = y * (k * k')"
    using assms(2) by (metis mult.assoc)
  then show ?thesis using assms(1) by simp
qed

lemma inv1: "(3266489917 :: 32 word) * 2828982549 = 1"
  by simp

lemma inv2: "(668265263 :: 32 word) * 2701016015 = 1"
  by simp

text \<open>\<open>x XOR (x >> 15)\<close> is undone by two more shifted copies.\<close>

lemma xorshift_inverse:
  fixes x :: "32 word"
  shows "(let y = x XOR drop_bit 15 x in y XOR drop_bit 15 y XOR drop_bit 30 y) = x"
proof (rule bit_word_eqI)
  fix n
  assume "n < LENGTH(32)"
  have "\<not> bit x (45 + n)"
    using bit_imp_le_length [of x "45 + n"] by auto
  then show "bit (let y = x XOR drop_bit 15 x in y XOR drop_bit 15 y XOR drop_bit 30 y) n = bit x n"
    by (auto simp: Let_def bit_xor_iff bit_drop_bit_eq ac_simps)
qed

lemma xorshift_inj: "(x :: 32 word) XOR drop_bit 15 x = y XOR drop_bit 15 y \<Longrightarrow> x = y"
  using xorshift_inverse [of x] xorshift_inverse [of y] by (simp add: Let_def)

lemma hash_mix_inj:
  fixes a b :: "32 word"
  assumes "hash_step p c a = hash_step p d b"
  shows "a + char_s32 c * p = b + char_s32 d * p"
  using assms unfolding hash_step_def Let_def
  by (metis inv1 inv2 mult_inj_inverse xorshift_inj)

lemma hash_step_inj: "hash_step p c a = hash_step p c b \<Longrightarrow> a = b"
  by (drule hash_mix_inj) simp

lemma fold_hash_inj:
  "fold (hash_step p) t a = fold (hash_step p) t b \<Longrightarrow> a = b"
proof (induction t arbitrary: a b)
  case (Cons c t)
  then have "hash_step p c a = hash_step p c b"
    by simp
  then show ?case by (rule hash_step_inj)
qed simp

lemma char_s32_inj: "char_s32 c = char_s32 d \<Longrightarrow> c = d"
proof -
  assume a: "char_s32 c = char_s32 d"
  have up: "is_up (scast :: 8 word \<Rightarrow> 32 word)"
    by (simp add: is_up)
  have "(word_of_nat (of_char c) :: 8 word) = word_of_nat (of_char d)"
    using scast_up_scast_id [OF up] a unfolding char_s32_def by metis
  then have "unat (word_of_nat (of_char c) :: 8 word) = unat (word_of_nat (of_char d) :: 8 word)"
    by simp
  then have "(of_char c :: nat) = of_char d"
    by (simp add: unat_of_nat)
  then show ?thesis by simp
qed

lemma hash_primes_invertible:
  assumes "seed < 5"
  shows "\<exists>k. hash_prime ! seed * k = 1"
proof -
  consider "seed = 0" | "seed = 1" | "seed = 2" | "seed = 3" | "seed = 4"
    using assms by linarith
  then show ?thesis
  proof cases
    case 1
    have "hash_prime ! seed * 483070115 = 1" by (simp add: 1 hash_prime_def)
    then show ?thesis by blast
  next
    case 2
    have "hash_prime ! seed * 2165718323 = 1" by (simp add: 2 hash_prime_def)
    then show ?thesis by blast
  next
    case 3
    have "hash_prime ! seed * 4058054415 = 1" by (simp add: 3 hash_prime_def)
    then show ?thesis by blast
  next
    case 4
    have "hash_prime ! seed * 1626970867 = 1" by (simp add: 4 hash_prime_def)
    then show ?thesis by blast
  next
    case 5
    have "hash_prime ! seed * 1750063167 = 1" by (simp add: 5 hash_prime_def)
    then show ?thesis by blast
  qed
qed

section \<open>Properties\<close>

text \<open>
  No step of the hash loses information: two prefixes that hash differently still hash
  differently after any common continuation, and two strings that differ in exactly one
  position never collide.
\<close>

lemma hash_no_collapse:
  assumes "seed < 5"
  shows "(hashh (s @ t) seed = hashh (s' @ t) seed \<longleftrightarrow> hashh s seed = hashh s' seed) \<and>
    (hashh (s @ c # t) seed = hashh (s @ d # t) seed \<longleftrightarrow> c = d)"
proof -
  let ?p = "hash_prime ! seed"
  let ?h = "\<lambda>s. fold (hash_step ?p) s 2654435761"
  have run: "hashh x seed = Inr (?h x)" for x
    using assms by (simp add: hashh_def)
  obtain k where k: "?p * k = 1"
    using hash_primes_invertible [OF assms] by blast
  have one: "c = d" if "hash_step ?p c a = hash_step ?p d a" for a
  proof -
    have "char_s32 c * ?p = char_s32 d * ?p"
      using hash_mix_inj [OF that] by simp
    then show ?thesis
      using mult_inj_inverse [OF k] char_s32_inj by blast
  qed
  show ?thesis
    using fold_hash_inj [of ?p t] one by (auto simp: run)
qed

end
