(* ===== verification/Address_Parse.thy ===== *)
theory Address_Parse
  imports Msg_Operation
begin

text \<open>
  \<open>common/address_parse.h\<close>: network addresses \<open>ip:port\<close>, their recogniser and their parser.
  The position that \<open>find\<close> returns is stored in a \<open>uint32_t\<close>, so \<open>npos\<close> becomes \<open>2 ^ 32 - 1\<close> and
  the start of the port wraps around to 0.
\<close>

section \<open>Recognising an address\<close>

text \<open>\<open>[0-9]{1,3}\<close> and \<open>[0-9]{1,5}\<close>: one digit and up to that many more, greedily.\<close>

fun digits_up_to :: "nat \<Rightarrow> re" where
  "digits_up_to 0 = Lit []"
| "digits_up_to (Suc 0) = Cls is_digit"
| "digits_up_to (Suc (Suc n)) = Seq (Cls is_digit) (Opt (digits_up_to (Suc n)))"

definition address_regex :: re where
  "address_regex =
     seqs [digits_up_to 3, Lit ''.'', digits_up_to 3, Lit ''.'', digits_up_to 3, Lit ''.'',
           digits_up_to 3, Lit '':'', Grp (digits_up_to 5)]"

definition isAddress :: "string \<Rightarrow> bool" where
  "isAddress name = (regex_match address_regex name \<noteq> None)"

section \<open>Addresses\<close>

record address =
  ad_name :: string
  ad_ip :: string
  ad_port :: int

definition empty_address :: address where
  "empty_address = \<lparr>ad_name = [], ad_ip = [], ad_port = 0\<rparr>"

definition find32 :: "char \<Rightarrow> string \<Rightarrow> 32 word" where
  "find32 d s = (case find_char d s of None \<Rightarrow> -1 | Some i \<Rightarrow> word_of_nat i)"

definition address_init :: "string \<Rightarrow> address res" where
  "address_init name =
     (let pos = find32 (CHR '':'') name in
      rbind (substr name 0 (unat pos)) (\<lambda>ip.
      rbind (substr_from name (unat (pos + 1))) (\<lambda>p.
        Inr \<lparr>ad_name = name, ad_ip = ip, ad_port = atoi p\<rparr>)))"

text \<open>Addresses are compared by name only.\<close>

definition address_eq :: "address \<Rightarrow> address \<Rightarrow> bool" where
  "address_eq a b = (ad_name a = ad_name b)"

section \<open>Parsing gives the parts\<close>

lemma atoi_nat_str: "n < 2 ^ 31 \<Longrightarrow> atoi (nat_str n) = int n"
  by (simp add: atoi_def Let_def signed_of_nat signed_take_bit_int_eq_self)

lemma address_init_parts:
  assumes "CHR '':'' \<notin> set ip" "length ip < 2 ^ 32 - 1" "port < 65536"
  shows "address_init (ip @ '':'' @ nat_str port) =
    Inr \<lparr>ad_name = ip @ '':'' @ nat_str port, ad_ip = ip, ad_port = int port\<rparr>"
proof -
  have u: "unat (word_of_nat (length ip) :: 32 word) = length ip"
    using assms(2) by (simp add: unat_of_nat)
  have "word_of_nat (length ip) + 1 = (word_of_nat (Suc (length ip)) :: 32 word)"
    by simp
  then have "unat (word_of_nat (length ip) + 1 :: 32 word) = Suc (length ip)"
    using assms(2) by (simp only: unat_of_nat) simp
  then show ?thesis
    using assms u atoi_nat_str [of port]
    by (simp add: address_init_def find32_def substr_def substr_from_def)
qed

text \<open>
  A name without a colon is not rejected: its host is the whole name and its port is the number
  the name starts with, since the position after \<open>npos\<close> wraps around to 0.
\<close>

lemma address_no_colon:
  assumes "CHR '':'' \<notin> set name" "length name < 2 ^ 32"
  shows "address_init name = Inr \<lparr>ad_name = name, ad_ip = name, ad_port = atoi name\<rparr>"
proof -
  have none: "find_char (CHR '':'') name = None"
    using assms(1) by simp
  have "unat (- 1 :: 32 word) = 2 ^ 32 - 1"
    by (simp add: unsigned_minus_1_eq_mask mask_eq_exp_minus_1)
  then show ?thesis using assms(2)
    by (simp add: address_init_def find32_def none substr_def substr_from_def)
qed

end
