(* ===== verification/Tcp_Operation.thy ===== *)
theory Tcp_Operation
  imports Msg_Operation
begin

text \<open>
  \<open>common/tcp_operation.h\<close>: complete writes and reads over a socket, and messages framed by their
  length.  The receiving end of a connection is the list of the segments still to arrive: one
  \<open>read\<close> returns part of the first segment, an empty segment or the end of the list is an end of
  file or an error.  The sending end is the list of the results of the successive \<open>write\<close> calls.
\<close>

section \<open>Reading\<close>

definition sys_read :: "nat \<Rightarrow> string list \<Rightarrow> (string \<times> string list) option" where
  "sys_read k sock = (case sock of
      [] \<Rightarrow> None
    | seg # segs \<Rightarrow>
        if seg = [] then None
        else Some (take k seg, if length seg \<le> k then segs else drop k seg # segs))"

lemma sys_read_Some:
  assumes "sys_read k sock = Some (got, sock')"
  shows "concat sock = got @ concat sock'" "length got \<le> k" "0 < k \<Longrightarrow> got \<noteq> []"
  using assms by (auto simp: sys_read_def split: list.splits if_splits)

text \<open>The loop of \<open>tcp_read\<close>: \<open>acc\<close> is the filled part of the buffer.\<close>

function tcp_read_loop :: "nat \<Rightarrow> string \<Rightarrow> string list \<Rightarrow> bool \<times> string \<times> string list" where
  "tcp_read_loop len acc sock =
     (if length acc < len then
        (case sys_read (len - length acc) sock of
           None \<Rightarrow> (False, acc, sock)
         | Some (got, sock') \<Rightarrow> tcp_read_loop len (acc @ got) sock')
      else (True, acc, sock))"
  by pat_completeness auto
termination
proof (relation "measure (\<lambda>(len, acc, sock). len - length acc)", goal_cases)
  case (2 len acc sock p got sock')
  then have "got \<noteq> []"
    using sys_read_Some(3) [of "len - length acc" sock got sock'] by simp
  then show ?case using 2 by (simp add: diff_less_mono2)
qed simp

declare tcp_read_loop.simps [simp del]

definition tcp_read :: "nat \<Rightarrow> string list \<Rightarrow> bool \<times> string \<times> string list" where
  "tcp_read len sock = tcp_read_loop len [] sock"

definition live :: "string list \<Rightarrow> bool" where
  "live sock = (\<forall>seg \<in> set sock. seg \<noteq> [])"

lemma live_sys_read:
  "live sock \<Longrightarrow> sys_read k sock = Some (got, sock') \<Longrightarrow> live sock'"
  by (auto simp: sys_read_def live_def split: list.splits if_splits)

lemma sys_read_None: "live sock \<Longrightarrow> sys_read k sock = None \<longleftrightarrow> concat sock = []"
  by (auto simp: sys_read_def live_def split: list.splits)

lemma tcp_read_loop_ok:
  assumes "live sock" "len \<le> length acc + length (concat sock)" "length acc \<le> len"
  shows "\<exists>sock'. tcp_read_loop len acc sock =
      (True, acc @ take (len - length acc) (concat sock), sock') \<and>
    concat sock' = drop (len - length acc) (concat sock) \<and> live sock'"
  using assms
proof (induction len acc sock rule: tcp_read_loop.induct)
  case (1 len acc sock)
  show ?case
  proof (cases "length acc < len")
    case False
    then show ?thesis using "1.prems" by (simp add: tcp_read_loop.simps)
  next
    case True
    then obtain got sock' where r: "sys_read (len - length acc) sock = Some (got, sock')"
      using sys_read_None [OF "1.prems"(1), of "len - length acc"] "1.prems"(2)
      by (cases "sys_read (len - length acc) sock") fastforce+
    note sr = sys_read_Some [OF r]
    have "\<exists>s. tcp_read_loop len (acc @ got) sock' =
        (True, (acc @ got) @ take (len - length (acc @ got)) (concat sock'), s) \<and>
      concat s = drop (len - length (acc @ got)) (concat sock') \<and> live s"
      using "1.prems" sr live_sys_read [OF _ r] by (intro "1.IH" [OF True r refl]) auto
    then show ?thesis using True sr
      by (subst tcp_read_loop.simps) (auto simp: r)
  qed
qed

lemma tcp_read_ok:
  assumes "live sock" "concat sock = xs @ ys"
  shows "\<exists>sock'. tcp_read (length xs) sock = (True, xs, sock') \<and> concat sock' = ys \<and> live sock'"
  using tcp_read_loop_ok [of sock "length xs" "[]"] assms by (simp add: tcp_read_def)

lemma tcp_read_loop_short:
  assumes "live sock" "length acc + length (concat sock) < len"
  shows "\<exists>sock'. tcp_read_loop len acc sock = (False, acc @ concat sock, sock') \<and> concat sock' = []"
  using assms
proof (induction len acc sock rule: tcp_read_loop.induct)
  case (1 len acc sock)
  then have True: "length acc < len"
    by simp
  show ?case
  proof (cases "sys_read (len - length acc) sock")
    case None
    then show ?thesis
      using True sys_read_None [OF "1.prems"(1)] by (subst tcp_read_loop.simps) auto
  next
    case (Some p)
    obtain got sock' where r: "sys_read (len - length acc) sock = Some (got, sock')"
      using Some by (cases p) auto
    note sr = sys_read_Some [OF r]
    have "\<exists>s. tcp_read_loop len (acc @ got) sock' = (False, (acc @ got) @ concat sock', s) \<and>
        concat s = []"
      using "1.prems" sr live_sys_read [OF _ r] by (intro "1.IH" [OF True r refl]) auto
    then show ?thesis using True sr
      by (subst tcp_read_loop.simps) (auto simp: r)
  qed
qed

section \<open>Writing\<close>

text \<open>
  \<open>tcp_write\<close> over the results of its \<open>write\<close> calls: \<open>None\<close> when the listed calls do not settle
  it (a \<open>write\<close> that returns 0 is repeated), otherwise the verdict and the bytes that went out.
\<close>

fun tcp_write_loop :: "int list \<Rightarrow> string \<Rightarrow> nat \<Rightarrow> (bool \<times> string) option" where
  "tcp_write_loop [] buf sent = (if sent < length buf then None else Some (True, take sent buf))"
| "tcp_write_loop (n # ns) buf sent =
     (if sent < length buf then
        if n < 0 then Some (False, take sent buf)
        else tcp_write_loop ns buf (sent + nat n)
      else Some (True, take sent buf))"

definition tcp_write :: "int list \<Rightarrow> string \<Rightarrow> (bool \<times> string) option" where
  "tcp_write ns buf = tcp_write_loop ns buf 0"

lemma take_is_prefix: "\<exists>r. buf = take n buf @ r"
  by (rule exI [of _ "drop n buf"]) simp

lemma tcp_write_loop_prefix:
  "tcp_write_loop ns buf sent = Some (ok, out) \<Longrightarrow>
   (\<exists>r. buf = out @ r) \<and> (ok \<longrightarrow> out = buf)"
  by (induction ns buf sent rule: tcp_write_loop.induct)
    (auto simp: take_is_prefix split: if_splits)

section \<open>Framed messages\<close>

text \<open>\<open>tcp_write_msg\<close> sends the length as a \<open>size_t\<close> (8 bytes, little-endian), then the message.\<close>

definition frame :: "string \<Rightarrow> string" where
  "frame msg = num64_to_binary (word_of_nat (length msg)) @ msg"

definition tcp_write_msg :: "int list \<Rightarrow> int list \<Rightarrow> string \<Rightarrow> (bool \<times> string) option" where
  "tcp_write_msg ns1 ns2 msg =
     (case tcp_write ns1 (num64_to_binary (word_of_nat (length msg))) of
        None \<Rightarrow> None
      | Some (False, out) \<Rightarrow> Some (False, out)
      | Some (True, out) \<Rightarrow>
          map_option (\<lambda>(ok, out2). (ok, out @ out2)) (tcp_write ns2 msg))"

text \<open>
  \<open>tcp_read_msg\<close>: on failure the message is the partly filled buffer; a length that no vector can
  have raises \<open>std::length_error\<close>.
\<close>

definition tcp_read_msg :: "string list \<Rightarrow> (bool \<times> string \<times> string list) res" where
  "tcp_read_msg sock =
     (case tcp_read 8 sock of
        (False, _, sock') \<Rightarrow> Inr (False, [], sock')
      | (True, header, sock') \<Rightarrow>
          let len = le_val header in
          if 2 ^ 63 \<le> len then Inl Length_error
          else (case tcp_read len sock' of
              (ok, acc, sock'') \<Rightarrow> Inr (ok, resize len acc, sock'')))"

lemma length_num64 [simp]: "length (num64_to_binary w) = 8"
  by (simp add: num64_to_binary_def)

lemma frame_not_Nil [simp]: "frame m \<noteq> []"
  by (metis append_is_Nil_conv frame_def length_0_conv length_num64 zero_neq_numeral)

lemma le_val_num64: "n < 2 ^ 64 \<Longrightarrow> le_val (num64_to_binary (word_of_nat n)) = n"
  by (simp add: num64_to_binary_def unat_of_nat)

lemma tcp_read_msg_frame:
  assumes "live sock" "concat sock = frame msg @ rest" "length msg < 2 ^ 63"
  shows "\<exists>sock'. tcp_read_msg sock = Inr (True, msg, sock') \<and> concat sock' = rest \<and> live sock'"
proof -
  let ?h = "num64_to_binary (word_of_nat (length msg))"
  obtain s1 where s1: "tcp_read 8 sock = (True, ?h, s1)" "concat s1 = msg @ rest" "live s1"
    using tcp_read_ok [OF assms(1), of ?h "msg @ rest"] assms(2) by (auto simp: frame_def)
  obtain s2 where "tcp_read (length msg) s1 = (True, msg, s2)" "concat s2 = rest" "live s2"
    using tcp_read_ok [OF s1(3,2)] by auto
  then show ?thesis
    using assms(3) s1 by (simp add: tcp_read_msg_def le_val_num64)
qed

text \<open>Reading message after message from one connection.\<close>

fun tcp_read_msgs :: "nat \<Rightarrow> string list \<Rightarrow> (string list \<times> string list) res" where
  "tcp_read_msgs 0 sock = Inr ([], sock)"
| "tcp_read_msgs (Suc n) sock =
     rbind (tcp_read_msg sock) (\<lambda>(ok, m, sock').
       if ok then rbind (tcp_read_msgs n sock') (\<lambda>(ms, s). Inr (m # ms, s)) else Inr ([], sock'))"

text \<open>
  C28. Message framing survives any segmentation of the stream: whatever pieces the network
  delivers the bytes of a sequence of framed messages in, reading that many messages returns
  exactly those messages, in order, and leaves exactly the bytes that follow them.
\<close>

theorem tcp_msgs_roundtrip:
  assumes "live sock" "concat sock = concat (map frame ms) @ rest"
    and "\<forall>m \<in> set ms. length m < 2 ^ 63"
  shows "\<exists>sock'. tcp_read_msgs (length ms) sock = Inr (ms, sock') \<and> concat sock' = rest"
  using assms
proof (induction ms arbitrary: sock)
  case (Cons m ms)
  then obtain s1 where s1: "tcp_read_msg sock = Inr (True, m, s1)"
      "concat s1 = concat (map frame ms) @ rest" "live s1"
    using tcp_read_msg_frame [of sock m "concat (map frame ms) @ rest"] by auto
  then obtain s2 where "tcp_read_msgs (length ms) s1 = Inr (ms, s2)" "concat s2 = rest"
    using Cons.IH [of s1] Cons.prems(3) by auto
  then show ?case using s1 by simp
qed simp

theorem tcp_msgs_roundtrip_witness:
  "\<exists>sock'. tcp_read_msgs 2 [take 3 (frame ''GETS''), drop 3 (frame ''GETS'') @ frame '''' @ ''x''] =
    Inr ([''GETS'', ''''], sock') \<and> concat sock' = ''x''"
proof -
  have l: "live [take 3 (frame ''GETS''), drop 3 (frame ''GETS'') @ frame '''' @ ''x'']"
    by (simp add: live_def)
  have c: "concat [take 3 (frame ''GETS''), drop 3 (frame ''GETS'') @ frame '''' @ ''x''] =
      concat (map frame [''GETS'', '''']) @ ''x''"
    by simp
  have p: "\<forall>m \<in> set [''GETS'', '''']. length m < 2 ^ 63" and n: "length [''GETS'', ''''] = 2"
    by simp_all
  show ?thesis
    using tcp_msgs_roundtrip [OF l c p] unfolding n .
qed

text \<open>
  A write sends a prefix of the framed message and reports success only when the whole frame,
  length and body, went out, whatever short counts the kernel returns.
\<close>

lemma tcp_write_msg_sound:
  assumes "tcp_write_msg ns1 ns2 msg = Some (ok, out)"
  shows "(\<exists>r. frame msg = out @ r) \<and> (ok \<longrightarrow> out = frame msg)"
proof -
  let ?h = "num64_to_binary (word_of_nat (length msg))"
  obtain ok1 out1 where w1: "tcp_write ns1 ?h = Some (ok1, out1)"
    using assms by (auto simp: tcp_write_msg_def split: option.splits)
  note p1 = tcp_write_loop_prefix [OF w1 [unfolded tcp_write_def]]
  show ?thesis
  proof (cases ok1)
    case False
    then show ?thesis using assms w1 p1 by (auto simp: tcp_write_msg_def frame_def)
  next
    case True
    then obtain out2 where w2: "tcp_write ns2 msg = Some (ok, out2)" "out = out1 @ out2"
      using assms w1 by (auto simp: tcp_write_msg_def)
    then show ?thesis
      using tcp_write_loop_prefix [OF w2(1) [unfolded tcp_write_def]] p1 True
      by (auto simp: frame_def)
  qed
qed

end
