(* ===== verification/Http_Operation.thy ===== *)
theory Http_Operation
  imports Tcp_Operation
begin

text \<open>
  \<open>common/http_operation.h\<close>: decoding of percent-encoded form data and reading of a line that ends
  in \<open>\r\n\<close>, one byte at a time.
\<close>

section \<open>Decoding\<close>

definition hex_val :: "char \<Rightarrow> nat option" where
  "hex_val c = (let n = (of_char c :: nat) in
     if 48 \<le> n \<and> n \<le> 57 then Some (n - 48)
     else if 65 \<le> n \<and> n \<le> 70 then Some (n - 55)
     else if 97 \<le> n \<and> n \<le> 102 then Some (n - 87)
     else None)"

fun hex_digits :: "nat \<Rightarrow> string \<Rightarrow> nat" where
  "hex_digits acc [] = acc"
| "hex_digits acc (c # cs) =
     (case hex_val c of None \<Rightarrow> acc | Some d \<Rightarrow> hex_digits (16 * acc + d) cs)"

text \<open>
  \<open>std::strtol(s, nullptr, 16)\<close> on the two characters after a percent sign: white space and a sign
  are skipped, a lone \<open>0x\<close> reads as 0 (its \<open>x\<close> is no digit), and no digits at all give 0.
\<close>

definition strtol16 :: "string \<Rightarrow> int" where
  "strtol16 s =
     (let s1 = dropWhile is_space s in
      case s1 of
        [] \<Rightarrow> 0
      | c # cs \<Rightarrow>
          if c = CHR ''-'' then - int (hex_digits 0 cs)
          else if c = CHR ''+'' then int (hex_digits 0 cs)
          else int (hex_digits 0 s1))"

definition char_of_int :: "int \<Rightarrow> char" where
  "char_of_int i = char_of (nat (i mod 256))"

fun http_parse :: "string \<Rightarrow> string" where
  "http_parse [] = []"
| "http_parse (ch # rest) =
     (case (ch = CHR ''%'', rest) of
        (True, a # b # rest') \<Rightarrow> char_of_int (strtol16 [a, b]) # http_parse rest'
      | _ \<Rightarrow> if ch = CHR ''+'' then CHR '' '' # http_parse rest else ch # http_parse rest)"

text \<open>What a browser sends for form data: every byte may be escaped, a space may be a plus.\<close>

definition hex_char :: "nat \<Rightarrow> char" where
  "hex_char d = (if d < 10 then char_of (48 + d) else char_of (55 + d))"

definition escape :: "char \<Rightarrow> string" where
  "escape c = [CHR ''%'', hex_char (of_char c div 16), hex_char (of_char c mod 16)]"

definition encodes :: "char \<Rightarrow> string \<Rightarrow> bool" where
  "encodes c e = (e = escape c \<or> (e = [c] \<and> c \<noteq> CHR ''%'' \<and> c \<noteq> CHR ''+'')
     \<or> (c = CHR '' '' \<and> e = ''+''))"

lemma encodes_intros:
  "encodes c (escape c)"
  "c \<noteq> CHR ''%'' \<Longrightarrow> c \<noteq> CHR ''+'' \<Longrightarrow> encodes c [c]"
  "encodes (CHR '' '') ''+''"
  by (simp_all add: encodes_def)

lemma hex_val_hex_char: "d < 16 \<Longrightarrow> hex_val (hex_char d) = Some d"
  by (auto simp: hex_val_def hex_char_def)

lemma hex_char_not_space: "d < 16 \<Longrightarrow> \<not> is_space (hex_char d)"
  by (auto simp: is_space_def hex_char_def)

lemma hex_char_not_sign: "d < 16 \<Longrightarrow> hex_char d \<noteq> CHR ''-'' \<and> hex_char d \<noteq> CHR ''+''"
  by (auto simp: hex_char_def char_of_eq_iff take_bit_eq_mod)

lemma strtol16_hex:
  assumes "a < 16" "b < 16"
  shows "strtol16 [hex_char a, hex_char b] = int (16 * a + b)"
  using assms hex_char_not_sign [OF assms(1)]
  by (simp add: strtol16_def hex_char_not_space hex_val_hex_char)

lemma char_of_int_of_char: "char_of_int (int (of_char c)) = c"
proof -
  have "(of_char c :: nat) < 256"
    by simp
  then show ?thesis by (simp add: char_of_int_def zmod_int [symmetric] del: of_char_mod_256)
qed

lemma http_parse_escape: "http_parse (escape c @ r) = c # http_parse r"
proof -
  have "(of_char c :: nat) div 16 < 16" "(of_char c :: nat) mod 16 < 16"
    by (simp_all add: div_less_iff_less_mult)
  then have "strtol16 [hex_char (of_char c div 16), hex_char (of_char c mod 16)] = int (of_char c)"
    by (simp add: strtol16_hex)
  then show ?thesis by (simp add: escape_def char_of_int_of_char)
qed

lemma http_parse_encodes: "encodes c e \<Longrightarrow> http_parse (e @ r) = c # http_parse r"
  by (auto simp: encodes_def http_parse_escape)

section \<open>Reading a line\<close>

text \<open>
  The loop of \<open>http_read_line\<close>: \<open>state\<close> is 1 after a carriage return.  A carriage return that does
  not meet a line feed puts the state back to 0, also when it is followed by another one.
\<close>

definition read_char :: "string list \<Rightarrow> (char \<times> string list) option" where
  "read_char sock = (case tcp_read 1 sock of
      (True, c # _, sock') \<Rightarrow> Some (c, sock')
    | _ \<Rightarrow> None)"

lemma read_char_Some: "read_char sock = Some (c, sock') \<Longrightarrow> concat sock = c # concat sock'"
proof -
  assume a: "read_char sock = Some (c, sock')"
  show ?thesis
  proof (cases "sys_read (Suc 0) sock")
    case None
    then show ?thesis using a by (simp add: read_char_def tcp_read_def tcp_read_loop.simps)
  next
    case (Some p)
    obtain got s where p: "p = (got, s)" by (cases p)
    note sr = sys_read_Some [OF Some [unfolded p]]
    then obtain d where "got = [d]"
      by (cases got) auto
    then show ?thesis
      using a Some p sr(1) by (auto simp: read_char_def tcp_read_def tcp_read_loop.simps)
  qed
qed

lemma read_char_live:
  assumes "live sock" "concat sock = c # r"
  obtains sock' where "read_char sock = Some (c, sock')" "concat sock' = r" "live sock'"
  using tcp_read_ok [OF assms(1), of "[c]" r] assms(2) by (auto simp: read_char_def)

function http_read_line_loop :: "nat \<Rightarrow> string \<Rightarrow> string list \<Rightarrow> bool \<times> string \<times> string list" where
  "http_read_line_loop state line sock =
     (if state = 2 then (True, take (length line - 2) line, sock)
      else case read_char sock of
          None \<Rightarrow> (False, line, sock)
        | Some (c, sock') \<Rightarrow>
            let state' = (if state = 0 then (if c = CHR 0x0D then 1 else 0)
                          else (if c = CHR 0x0A then 2 else 0))
            in http_read_line_loop state' (line @ [c]) sock')"
  by pat_completeness auto
termination
  by (relation "measure (\<lambda>(state, line, sock). length (concat sock))")
    (auto dest!: read_char_Some)

declare http_read_line_loop.simps [simp del]

definition http_read_line :: "string list \<Rightarrow> bool \<times> string \<times> string list" where
  "http_read_line sock = http_read_line_loop 0 [] sock"


lemma http_loop_char:
  assumes "live sock" "concat sock = c # r" "c \<noteq> CHR 0x0D"
  obtains sock' where "http_read_line_loop 0 line sock = http_read_line_loop 0 (line @ [c]) sock'"
    "concat sock' = r" "live sock'"
proof -
  obtain s where "read_char sock = Some (c, s)" "concat s = r" "live s"
    using read_char_live [OF assms(1,2)] .
  then show thesis
    using assms(3) by (intro that [of s]) (simp_all add: http_read_line_loop.simps [of 0 line sock])
qed

lemma http_loop_crlf:
  assumes "live sock" "concat sock = CHR 0x0D # CHR 0x0A # r"
  shows "\<exists>sock'. http_read_line_loop 0 line sock = (True, line, sock') \<and> concat sock' = r \<and> live sock'"
proof -
  obtain s1 where s1: "read_char sock = Some (CHR 0x0D, s1)" "concat s1 = CHR 0x0A # r" "live s1"
    using read_char_live [OF assms] .
  obtain s2 where s2: "read_char s1 = Some (CHR 0x0A, s2)" "concat s2 = r" "live s2"
    using read_char_live [OF s1(3,2)] .
  have "http_read_line_loop 0 line sock = http_read_line_loop 1 (line @ [CHR 0x0D]) s1"
    by (subst http_read_line_loop.simps) (simp add: s1)
  also have "\<dots> = http_read_line_loop 2 (line @ [CHR 0x0D, CHR 0x0A]) s2"
    by (subst http_read_line_loop.simps) (simp add: s2)
  also have "\<dots> = (True, line, s2)"
    by (subst http_read_line_loop.simps) simp
  finally show ?thesis using s2 by blast
qed

lemma http_loop_line:
  assumes "live sock" "concat sock = xs @ CHR 0x0D # CHR 0x0A # r" "CHR 0x0D \<notin> set xs"
  shows "\<exists>sock'. http_read_line_loop 0 line sock = (True, line @ xs, sock') \<and>
    concat sock' = r \<and> live sock'"
  using assms
proof (induction xs arbitrary: line sock)
  case Nil
  then show ?case using http_loop_crlf by simp
next
  case (Cons x xs)
  then have "concat sock = x # xs @ CHR 0x0D # CHR 0x0A # r" "x \<noteq> CHR 0x0D"
    by auto
  then obtain s where s: "http_read_line_loop 0 line sock = http_read_line_loop 0 (line @ [x]) s"
      "concat s = xs @ CHR 0x0D # CHR 0x0A # r" "live s"
    using http_loop_char [OF Cons.prems(1)] by metis
  then show ?case using Cons.IH [of s "line @ [x]"] Cons.prems(3) by simp
qed

section \<open>Properties\<close>

text \<open>
  Form decoding inverts form encoding: however the sender chose, byte by byte, between
  escaping, a plus sign for a space and sending the byte as it is, \<open>http_parse\<close> returns the
  original bytes; and a text without percent and plus signs is left alone.
\<close>

lemma http_parse_roundtrip:
  "(list_all2 encodes s es \<longrightarrow> http_parse (concat es) = s) \<and>
   (CHR ''%'' \<notin> set s \<and> CHR ''+'' \<notin> set s \<longrightarrow> http_parse s = s)"
proof (intro conjI impI)
  assume "list_all2 encodes s es"
  then show "http_parse (concat es) = s"
    by (induction s es rule: list_all2_induct) (auto simp: http_parse_encodes)
next
  assume "CHR ''%'' \<notin> set s \<and> CHR ''+'' \<notin> set s"
  then show "http_parse s = s"
    by (induction s) auto
qed

text \<open>
  \<open>http_read_line\<close> returns the text before the first \<open>\r\n\<close> without its terminator and leaves
  the rest of the connection unread, for every text without a carriage return and every
  segmentation of the stream.
\<close>

lemma http_read_line_correct:
  assumes "live sock" "concat sock = line @ CHR 0x0D # CHR 0x0A # rest" "CHR 0x0D \<notin> set line"
  shows "\<exists>sock'. http_read_line sock = (True, line, sock') \<and> concat sock' = rest \<and> live sock'"
  using http_loop_line [OF assms, of "[]"] by (simp add: http_read_line_def)

text \<open>
  A line that ends in \<open>\r\r\n\<close> is not recognised as ended there: the second carriage return resets
  the state.
\<close>

lemma http_read_line_double_cr:
  "\<not> fst (http_read_line [[CHR ''a'', CHR 0x0D, CHR 0x0D, CHR 0x0A]])"
  by (simp add: http_read_line_def http_read_line_loop.simps read_char_def tcp_read_def
      tcp_read_loop.simps sys_read_def)

end
