(* ===== verification/Kv_Interface.thy ===== *)
theory Kv_Interface
  imports Msg_Operation
begin

text \<open>
  The messages of \<open>common/proto.proto\<close> that travel between the servers and the key-value store,
  the status codes of \<open>common/kv_interface.h\<close>, and its client calls.  Serialisation is protobuf's:
  the functions that encode and decode a message, and the exchange of one request for one answer,
  are parameters of the client calls.
\<close>

section \<open>Status codes\<close>

datatype kv_state =
    FINISHED | LINK_ERROR | USER_ERROR | KEY_ERROR | VALUE_ERROR
  | SEQ_ERROR | LOG_ERROR | REC_ERROR | SYNC_ERROR

fun kv_code :: "kv_state \<Rightarrow> int" where
  "kv_code FINISHED = 0"
| "kv_code LINK_ERROR = -1"
| "kv_code USER_ERROR = -2"
| "kv_code KEY_ERROR = -3"
| "kv_code VALUE_ERROR = -4"
| "kv_code SEQ_ERROR = -5"
| "kv_code LOG_ERROR = -6"
| "kv_code REC_ERROR = -7"
| "kv_code SYNC_ERROR = -8"

lemma kv_code_ge0 [simp]: "0 \<le> kv_code s \<longleftrightarrow> s = FINISHED"
  by (cases s) auto

lemma kv_code_inj: "kv_code s = kv_code t \<longleftrightarrow> s = t"
  by (cases s; cases t) auto

section \<open>Messages\<close>

record kv_command =
  c_com :: string
  c_usr :: "string option"
  c_key :: string
  c_value1 :: string
  c_value2 :: string
  c_addrs :: "string list"

definition empty_command :: kv_command where
  "empty_command = \<lparr>c_com = [], c_usr = None, c_key = [], c_value1 = [], c_value2 = [], c_addrs = []\<rparr>"

record kv_ret =
  r_status :: int
  r_val :: string
  r_key_values :: "(string \<times> string) list"

definition empty_ret :: kv_ret where
  "empty_ret = \<lparr>r_status = 0, r_val = [], r_key_values = []\<rparr>"

text \<open>An absent string field reads as the empty string.\<close>

definition cmd_usr :: "kv_command \<Rightarrow> string" where
  "cmd_usr c = (case c_usr c of None \<Rightarrow> [] | Some u \<Rightarrow> u)"

section \<open>Client calls\<close>

text \<open>
  \<open>kv_trans\<close>: \<open>l_ser\<close> may refuse to serialise, \<open>l_xchg\<close> writes the request and reads the answer
  (\<open>None\<close> when either fails) and changes the state \<open>'s\<close> of the other side, \<open>l_parse\<close> decodes the
  answer.  The wire format \<open>'m\<close> is protobuf's.
\<close>

record ('m, 's) link =
  l_ser :: "kv_command \<Rightarrow> 'm option"
  l_xchg :: "'m \<Rightarrow> 's \<Rightarrow> 'm option \<times> 's"
  l_parse :: "'m \<Rightarrow> kv_ret option"

definition kv_trans :: "('m, 's) link \<Rightarrow> kv_command \<Rightarrow> 's \<Rightarrow> kv_ret option \<times> 's" where
  "kv_trans l c s =
     (case l_ser l c of
        None \<Rightarrow> (None, s)
      | Some req \<Rightarrow>
          (case l_xchg l req s of
             (None, s') \<Rightarrow> (None, s')
           | (Some rsp, s') \<Rightarrow> (l_parse l rsp, s')))"

definition puts_cmd :: "string \<Rightarrow> string \<Rightarrow> string \<Rightarrow> kv_command" where
  "puts_cmd u k v = empty_command\<lparr>c_com := ''PUTS'', c_usr := Some u, c_key := k, c_value1 := v\<rparr>"

definition cput_cmd :: "string \<Rightarrow> string \<Rightarrow> string \<Rightarrow> string \<Rightarrow> kv_command" where
  "cput_cmd u k v1 v2 = empty_command\<lparr>c_com := ''CPUT'', c_usr := Some u, c_key := k,
     c_value1 := v1, c_value2 := v2\<rparr>"

definition gets_cmd :: "string \<Rightarrow> string \<Rightarrow> kv_command" where
  "gets_cmd u k = empty_command\<lparr>c_com := ''GETS'', c_usr := Some u, c_key := k\<rparr>"

definition all_cmd :: "string \<Rightarrow> kv_command" where
  "all_cmd u = empty_command\<lparr>c_com := ''ALL'', c_usr := Some u\<rparr>"

definition dele_cmd :: "string \<Rightarrow> string \<Rightarrow> kv_command" where
  "dele_cmd u k = empty_command\<lparr>c_com := ''DELE'', c_usr := Some u, c_key := k\<rparr>"

definition status_of :: "kv_ret option \<Rightarrow> int" where
  "status_of r = (case r of Some ret \<Rightarrow> r_status ret | None \<Rightarrow> kv_code LINK_ERROR)"

definition kv_puts :: "('m, 's) link \<Rightarrow> string \<Rightarrow> string \<Rightarrow> string \<Rightarrow> 's \<Rightarrow> int \<times> 's" where
  "kv_puts l u k v s = (case kv_trans l (puts_cmd u k v) s of (r, s') \<Rightarrow> (status_of r, s'))"

definition kv_cput :: "('m, 's) link \<Rightarrow> string \<Rightarrow> string \<Rightarrow> string \<Rightarrow> string \<Rightarrow> 's \<Rightarrow> int \<times> 's" where
  "kv_cput l u k v1 v2 s = (case kv_trans l (cput_cmd u k v1 v2) s of (r, s') \<Rightarrow> (status_of r, s'))"

text \<open>The out parameter of \<open>kv_gets\<close> keeps its old content \<open>old\<close> on a link error.\<close>

definition kv_gets :: "('m, 's) link \<Rightarrow> string \<Rightarrow> string \<Rightarrow> string \<Rightarrow> 's \<Rightarrow> (int \<times> string) \<times> 's" where
  "kv_gets l old u k s =
     (case kv_trans l (gets_cmd u k) s of
        (Some ret, s') \<Rightarrow> ((r_status ret, r_val ret), s')
      | (None, s') \<Rightarrow> ((kv_code LINK_ERROR, old), s'))"

definition kv_gets_all :: "('m, 's) link \<Rightarrow> string \<Rightarrow> 's \<Rightarrow> (int \<times> (string, string) cmap) \<times> 's" where
  "kv_gets_all l u s =
     (case kv_trans l (all_cmd u) s of
        (Some ret, s') \<Rightarrow>
          ((r_status ret, fold (\<lambda>(k, v) m. AList.update k v m) (r_key_values ret) []), s')
      | (None, s') \<Rightarrow> ((kv_code LINK_ERROR, []), s'))"

definition kv_dele :: "('m, 's) link \<Rightarrow> string \<Rightarrow> string \<Rightarrow> 's \<Rightarrow> int \<times> 's" where
  "kv_dele l u k s = (case kv_trans l (dele_cmd u k) s of (r, s') \<Rightarrow> (status_of r, s'))"

lemma cmd_fields [simp]:
  "c_com (puts_cmd u k v) = ''PUTS''" "c_com (cput_cmd u k v w) = ''CPUT''" "c_com (gets_cmd u k) = ''GETS''"
  "c_com (all_cmd u) = ''ALL''" "c_com (dele_cmd u k) = ''DELE''"
  "cmd_usr (puts_cmd u k v) = u" "cmd_usr (cput_cmd u k v w) = u" "cmd_usr (gets_cmd u k) = u"
  "cmd_usr (dele_cmd u k) = u" "c_usr (all_cmd u) = Some u"
  "c_key (puts_cmd u k v) = k" "c_key (cput_cmd u k v w) = k" "c_key (gets_cmd u k) = k"
  "c_key (dele_cmd u k) = k" "c_value1 (puts_cmd u k v) = v" "c_value1 (cput_cmd u k v w) = v"
  "c_value2 (cput_cmd u k v w) = w"
  by (simp_all add: puts_cmd_def cput_cmd_def gets_cmd_def all_cmd_def dele_cmd_def cmd_usr_def)

text \<open>
  The one-way commands of the master (\<open>kv_trans\<close> without an answer): \<open>send\<close> is the write.
\<close>

definition kv_send :: "(kv_command \<Rightarrow> string option) \<Rightarrow> (string \<Rightarrow> bool) \<Rightarrow> kv_command \<Rightarrow> bool" where
  "kv_send ser send c = (case ser c of None \<Rightarrow> False | Some req \<Rightarrow> send req)"

definition kv_cluster :: "(kv_command \<Rightarrow> string option) \<Rightarrow> (string \<Rightarrow> bool) \<Rightarrow> string list \<Rightarrow> kv_state" where
  "kv_cluster ser send as =
     (if kv_send ser send (empty_command\<lparr>c_com := ''CLUSTER'', c_addrs := as\<rparr>) then FINISHED else LINK_ERROR)"

definition kv_kill :: "(kv_command \<Rightarrow> string option) \<Rightarrow> (string \<Rightarrow> bool) \<Rightarrow> kv_state" where
  "kv_kill ser send =
     (if kv_send ser send (empty_command\<lparr>c_com := ''KILL''\<rparr>) then FINISHED else LINK_ERROR)"

definition kv_restart :: "(kv_command \<Rightarrow> string option) \<Rightarrow> (string \<Rightarrow> bool) \<Rightarrow> kv_state" where
  "kv_restart ser send =
     (if kv_send ser send (empty_command\<lparr>c_com := ''RESTART''\<rparr>) then FINISHED else LINK_ERROR)"

lemma map_of_collect:
  "distinct (map fst kvs) \<Longrightarrow>
   map_of (fold (\<lambda>(k, v) m. AList.update k v m) kvs m) =
     (\<lambda>k. case map_of kvs k of None \<Rightarrow> map_of m k | Some v \<Rightarrow> Some v)"
proof (induction kvs arbitrary: m)
  case (Cons p kvs)
  obtain k v where p: "p = (k, v)" by (cases p)
  have "map_of kvs k = None"
    using Cons.prems p by (simp add: map_of_eq_None_iff)
  then show ?case using Cons p by (auto simp: fun_eq_iff split: option.splits)
qed simp

end
