(* ===== verification/File_Operation.thy ===== *)
theory File_Operation
  imports Msg_Operation
begin

text \<open>
  \<open>common/file_operation.h\<close> over an explicit file system: the files with their contents and the
  directories that exist.  A file can be opened for writing when its directory exists and it is
  not itself a directory.  Paths are absolute and directories are listed without a final slash.
\<close>

section \<open>The file system\<close>

record fsys =
  files :: "(string, string) cmap"
  dirs :: "string list"

definition strip_slash :: "string \<Rightarrow> string" where
  "strip_slash p = (if p \<noteq> [] \<and> last p = CHR ''/'' then butlast p else p)"

definition parent_dir :: "string \<Rightarrow> string" where
  "parent_dir p = (case find_last_char (CHR ''/'') p of None \<Rightarrow> [] | Some i \<Rightarrow> take i p)"

definition can_open :: "string \<Rightarrow> fsys \<Rightarrow> bool" where
  "can_open p fs = (parent_dir p \<in> set (dirs fs) \<and> p \<notin> set (dirs fs))"

definition content :: "fsys \<Rightarrow> string \<Rightarrow> string" where
  "content fs p = (case map_of (files fs) p of None \<Rightarrow> [] | Some s \<Rightarrow> s)"

section \<open>Operations\<close>

definition read_file :: "string \<Rightarrow> fsys \<Rightarrow> string option" where
  "read_file p fs = map_of (files fs) p"

definition write_file :: "string \<Rightarrow> string \<Rightarrow> fsys \<Rightarrow> bool \<times> fsys" where
  "write_file p s fs =
     (if can_open p fs then (True, fs\<lparr>files := AList.update p s (files fs)\<rparr>) else (False, fs))"

text \<open>Opening with \<open>ios::app\<close> and writing \<open>s\<close>: the file is created if it is not there.\<close>

definition append_file :: "string \<Rightarrow> string \<Rightarrow> fsys \<Rightarrow> bool \<times> fsys" where
  "append_file p s fs =
     (if can_open p fs
      then (True, fs\<lparr>files := AList.update p (content fs p @ s) (files fs)\<rparr>) else (False, fs))"

definition exist_file :: "string \<Rightarrow> fsys \<Rightarrow> bool" where
  "exist_file p fs = (strip_slash p \<in> set (dirs fs) \<or> map_of (files fs) p \<noteq> None)"

definition create_dir :: "string \<Rightarrow> fsys \<Rightarrow> bool \<times> fsys" where
  "create_dir p fs =
     (let d = strip_slash p in
      if exist_file d fs \<or> parent_dir d \<notin> set (dirs fs) then (False, fs)
      else (True, fs\<lparr>dirs := d # dirs fs\<rparr>))"

text \<open>\<open>rm -rf path\<close>, for a path that the shell takes as one word: the path and all below it.\<close>

definition below :: "string \<Rightarrow> string \<Rightarrow> bool" where
  "below p q = (q = p \<or> is_prefix (p @ ''/'') q)"

definition remove_file :: "string \<Rightarrow> fsys \<Rightarrow> bool \<times> fsys" where
  "remove_file p fs =
     (True, \<lparr>files = filter (\<lambda>(q, _). \<not> below p q) (files fs),
             dirs = filter (\<lambda>q. \<not> below p q) (dirs fs)\<rparr>)"

section \<open>Facts\<close>

lemma find_char_last:
  "d \<notin> set b \<Longrightarrow> find_last_char d (a @ d # b) = Some (length a)"
  by (simp add: find_last_char_def)

lemma parent_dir_join [simp]: "CHR ''/'' \<notin> set b \<Longrightarrow> parent_dir (a @ CHR ''/'' # b) = a"
  by (simp add: parent_dir_def find_char_last)

lemma read_file_write [simp]:
  "can_open p fs \<Longrightarrow> read_file q (snd (write_file p s fs)) = (if q = p then Some s else read_file q fs)"
  by (simp add: read_file_def write_file_def)

lemma read_file_append [simp]:
  "can_open p fs \<Longrightarrow> read_file q (snd (append_file p s fs)) =
     (if q = p then Some (content fs p @ s) else read_file q fs)"
  by (simp add: read_file_def append_file_def)

lemma content_read: "content fs p = (case read_file p fs of None \<Rightarrow> [] | Some s \<Rightarrow> s)"
  by (simp add: content_def read_file_def)

lemma content_write [simp]:
  "can_open p fs \<Longrightarrow> content (snd (write_file p s fs)) q = (if q = p then s else content fs q)"
  by (simp add: content_read)

lemma content_append [simp]:
  "can_open p fs \<Longrightarrow>
   content (snd (append_file p s fs)) q = (if q = p then content fs p @ s else content fs q)"
  by (simp add: content_read)

lemma dirs_write [simp]:
  "dirs (snd (write_file p s fs)) = dirs fs" "dirs (snd (append_file p s fs)) = dirs fs"
  by (simp_all add: write_file_def append_file_def)

lemma can_open_dirs: "dirs fs' = dirs fs \<Longrightarrow> can_open p fs' = can_open p fs"
  by (simp add: can_open_def)

lemma map_of_filter_key:
  "map_of (filter (\<lambda>(q, _). P q) xs) k = (if P k then map_of xs k else None)"
  by (induction xs) auto

lemma read_file_remove [simp]:
  "read_file q (snd (remove_file p fs)) = (if below p q then None else read_file q fs)"
  by (simp add: read_file_def remove_file_def map_of_filter_key)

lemma content_remove [simp]:
  "content (snd (remove_file p fs)) q = (if below p q then [] else content fs q)"
  by (simp add: content_read)

end
