(* ===== verification/Chunk.thy ===== *)
theory Chunk
  imports File_Operation Kv_Interface
begin

text \<open>
  \<open>backend/chunk.h\<close>: the key-value pairs of one user on disk.  A user's folder holds numbered chunk
  files of records (\<open>key\<close>, length and value), the index of the chunk that is being appended to, the
  metadata that maps a key to its chunk, and, during a checkpoint, the list of records to delete.
  The theory models every operation on the bytes of these files and proves that a checkpoint
  updates the map that \<open>get_value\<close> reads, and that a fresh \<open>init\<close> reads the same map back.
\<close>

section \<open>State and paths\<close>

definition SIZE_LIMIT :: nat where
  "SIZE_LIMIT = 2 ^ 26"

record chunk =
  append_index :: nat
  current_size :: nat
  ch_usr :: string
  folder :: string
  metadata :: "(string, nat) cmap"
  del_list :: "(string \<times> nat) list"

definition chunk_path :: "string \<Rightarrow> nat \<Rightarrow> string" where
  "chunk_path f i = f @ ''/chunk-'' @ nat_str i"

definition index_path :: "string \<Rightarrow> string" where
  "index_path f = f @ ''/chunk_index''"

definition meta_path :: "string \<Rightarrow> string" where
  "meta_path f = f @ ''/chunk_metadata''"

definition delete_path :: "string \<Rightarrow> string" where
  "delete_path f = f @ ''/delete_list''"

section \<open>Reading the chunk information\<close>

definition parse_index :: "string list \<Rightarrow> (nat \<times> nat) res" where
  "parse_index vec = (case vec of
      [] \<Rightarrow> Inl Undefined
    | [a] \<Rightarrow> rbind (stoull a) (\<lambda>_. Inl Undefined)
    | a # b # _ \<Rightarrow> rbind (stoull a) (\<lambda>x. rbind (stoull b) (\<lambda>y. Inr (x, y))))"

fun parse_pairs :: "(string, nat) cmap \<Rightarrow> string list \<Rightarrow> ((string, nat) cmap) res" where
  "parse_pairs m [] = Inr m"
| "parse_pairs m [k] = Inr m"
| "parse_pairs m (k # v # r) = rbind (stoull v) (\<lambda>i. parse_pairs (AList.update k i m) r)"

text \<open>
  \<open>init\<close>.  When the folder is missing the counters of the C++ object stay uninitialised; they read
  as 0 here.
\<close>

definition blank_chunk :: "string \<Rightarrow> string \<Rightarrow> chunk" where
  "blank_chunk prefix usr = \<lparr>append_index = 0, current_size = 0, ch_usr = usr,
     folder = prefix @ usr, metadata = [], del_list = []\<rparr>"

definition chunk_init :: "string \<Rightarrow> string \<Rightarrow> fsys \<Rightarrow> (kv_state \<times> chunk) res" where
  "chunk_init prefix usr fs =
     (let c = blank_chunk prefix usr in
      if \<not> exist_file (folder c) fs then Inr (USER_ERROR, c)
      else
        rbind (case read_file (index_path (folder c)) fs of
                 None \<Rightarrow> Inr (0, 0)
               | Some text \<Rightarrow> parse_index (split text nl)) (\<lambda>(ai, cs).
        rbind (case read_file (meta_path (folder c)) fs of
                 None \<Rightarrow> Inr []
               | Some text \<Rightarrow> parse_pairs [] (split text nl)) (\<lambda>m.
          Inr (FINISHED, c\<lparr>append_index := ai, current_size := cs, metadata := m\<rparr>))))"

section \<open>Reading a value\<close>

lemma read_bytes_le: "read_bytes n st b = (b', st') \<Longrightarrow> length (is_rest st') \<le> length (is_rest st)"
  by (auto simp: read_bytes_def Let_def split: if_splits)

lemma seek_rel_le: "length (is_rest (seek_rel n st)) \<le> length (is_rest st)"
  by (simp add: seek_rel_def)

lemma record_seek_dec:
  "(True, k, st1) = getline nl st k0 \<Longrightarrow> (b, sz', st2) = getline nl st1 sz \<Longrightarrow>
   length (is_rest (seek_rel n st2)) < length (is_rest st)"
  using getline_dec [of nl st k0 k st1] getline_le [of nl st1 sz b sz' st2] seek_rel_le [of n st2]
  by simp

lemma record_read_dec:
  "(True, k, st1) = getline nl st k0 \<Longrightarrow> (b, sz', st2) = getline nl st1 sz \<Longrightarrow>
   (v, st3) = read_bytes n st2 buf \<Longrightarrow> length (is_rest st3) < length (is_rest st)"
  using getline_dec [of nl st k0 k st1] getline_le [of nl st1 sz b sz' st2]
    read_bytes_le [of n st2 buf v st3]
  by simp

text \<open>
  The loop of \<open>get_value\<close>: \<open>sz\<close> and \<open>vec\<close> are the line and the buffer that live across iterations.
  A size that no vector can have raises \<open>std::length_error\<close>; skipping a record of such a size is
  a seek to a negative offset and is not modelled.
\<close>

function get_loop ::
  "string \<Rightarrow> istream \<Rightarrow> string \<Rightarrow> string \<Rightarrow> string \<Rightarrow> string \<Rightarrow> bool \<Rightarrow> (string \<times> bool) res" where
  "get_loop key st k0 sz vec value found =
     (case getline nl st k0 of
        (False, _, _) \<Rightarrow> Inr (value, found)
      | (True, k, st1) \<Rightarrow>
          (case getline nl st1 sz of (_, sz', st2) \<Rightarrow>
            rbind (stoull sz') (\<lambda>size.
              if key = k then
                if 2 ^ 63 \<le> size then Inl Length_error
                else (case read_bytes size st2 (resize size vec) of (vec', st3) \<Rightarrow>
                        get_loop key st3 k sz' vec' vec' True)
              else
                if 2 ^ 63 \<le> size then Inl Undefined
                else get_loop key (seek_rel size st2) k sz' vec value found)))"
  by pat_completeness auto
termination
  by (relation "measure (\<lambda>(key, st, _). length (is_rest st))")
    (auto intro: record_seek_dec record_read_dec)

declare get_loop.simps [simp del]

definition get_value :: "string \<Rightarrow> string \<Rightarrow> fsys \<Rightarrow> chunk \<Rightarrow> (kv_state \<times> string) res" where
  "get_value key value fs c =
     (case map_of (metadata c) key of
        None \<Rightarrow> Inr (KEY_ERROR, value)
      | Some i \<Rightarrow>
          (case read_file (chunk_path (folder c) i) fs of
             None \<Rightarrow> Inr (KEY_ERROR, value)
           | Some text \<Rightarrow>
               rbind (get_loop key (istream_of text) [] [] [] value False)
                 (\<lambda>(v, found). Inr (if found then FINISHED else KEY_ERROR, v))))"

fun get_all_loop :: "string list \<Rightarrow> fsys \<Rightarrow> chunk \<Rightarrow> (string, string) cmap \<Rightarrow> ((string, string) cmap) res" where
  "get_all_loop [] fs c m = Inr m"
| "get_all_loop (k # ks) fs c m =
     rbind (get_value k [] fs c) (\<lambda>(_, v). get_all_loop ks fs c (AList.update k v m))"

definition get_all_kv :: "fsys \<Rightarrow> chunk \<Rightarrow> ((string, string) cmap) res" where
  "get_all_kv fs c = get_all_loop (map fst (metadata c)) fs c []"

section \<open>Appending records\<close>

definition append_kv :: "string \<Rightarrow> string \<Rightarrow> string" where
  "append_kv key value = key @ [nl] @ nat_str (length value) @ [nl] @ value"

text \<open>
  The loop of \<open>append_kvs\<close> over the pairs in iteration order.  The open file is always the chunk
  numbered \<open>append_index\<close>; \<open>tellp\<close> on a file that could not be opened is -1.
\<close>

definition tellp :: "string \<Rightarrow> fsys \<Rightarrow> nat" where
  "tellp p fs = (if can_open p fs then length (content fs p) else 2 ^ 64 - 1)"

definition mark_deleted :: "string \<Rightarrow> chunk \<Rightarrow> chunk" where
  "mark_deleted k c =
     c\<lparr>del_list := del_list c @ [(k, case map_of (metadata c) k of None \<Rightarrow> 0 | Some i \<Rightarrow> i)]\<rparr>"

definition append_step :: "string \<Rightarrow> string \<Rightarrow> fsys \<times> chunk \<Rightarrow> fsys \<times> chunk" where
  "append_step k v st = (case st of (fs, c) \<Rightarrow>
     (if v = [] then (fs, (mark_deleted k c)\<lparr>metadata := AList.delete k (metadata c)\<rparr>)
      else
        let c1 = (if map_of (metadata c) k \<noteq> None then mark_deleted k c else c);
            path = chunk_path (folder c) (append_index c);
            fs1 = snd (append_file path (append_kv k v) fs);
            c2 = c1\<lparr>metadata := AList.update k (append_index c) (metadata c),
                    current_size := tellp path fs1\<rparr>
        in if SIZE_LIMIT < current_size c2 then
             (snd (append_file (chunk_path (folder c) (append_index c + 1)) [] fs1),
              c2\<lparr>append_index := append_index c + 1, current_size := 0\<rparr>)
           else (fs1, c2)))"

fun append_loop :: "(string, string) cmap \<Rightarrow> fsys \<times> chunk \<Rightarrow> fsys \<times> chunk" where
  "append_loop [] st = st"
| "append_loop ((k, v) # mp) st = append_loop mp (append_step k v st)"

definition pair_lines :: "(string \<times> nat) list \<Rightarrow> string" where
  "pair_lines ps = concat (map (\<lambda>(k, i). k @ [nl] @ nat_str i @ [nl]) ps)"

definition write_meta_back :: "chunk \<Rightarrow> fsys \<Rightarrow> fsys" where
  "write_meta_back c fs =
     (let fs1 = snd (write_file (index_path (folder c))
                  (nat_str (append_index c) @ [nl] @ nat_str (current_size c)) fs);
          fs2 = snd (write_file (meta_path (folder c)) (pair_lines (metadata c)) fs1)
      in snd (append_file (delete_path (folder c)) (pair_lines (del_list c)) fs2))"

section \<open>Deleting records\<close>

function load_loop :: "istream \<Rightarrow> string \<Rightarrow> string \<Rightarrow> string \<Rightarrow> ((string \<times> string) list) res" where
  "load_loop st k0 sz vec =
     (case getline nl st k0 of
        (False, _, _) \<Rightarrow> Inr []
      | (True, k, st1) \<Rightarrow>
          (case getline nl st1 sz of (_, sz', st2) \<Rightarrow>
            rbind (stoull sz') (\<lambda>size.
              if 2 ^ 63 \<le> size then Inl Length_error
              else (case read_bytes size st2 (resize size vec) of (vec', st3) \<Rightarrow>
                      rbind (load_loop st3 k sz' vec') (\<lambda>r. Inr ((k, vec') # r))))))"
  by pat_completeness auto
termination
  by (relation "measure (\<lambda>(st, _). length (is_rest st))") (auto intro: record_read_dec)

declare load_loop.simps [simp del]

text \<open>A chunk file that cannot be opened loads as empty.\<close>

definition load_chunk :: "string \<Rightarrow> fsys \<Rightarrow> ((string \<times> string) list) res" where
  "load_chunk path fs =
     (case read_file path fs of None \<Rightarrow> Inr [] | Some text \<Rightarrow> load_loop (istream_of text) [] [] [])"

text \<open>\<open>del_mp[value][key] += 1\<close> for every pair of lines of the delete list.\<close>

type_synonym del_map = "(nat, (string, nat) cmap) cmap"

definition del_count :: "del_map \<Rightarrow> nat \<Rightarrow> string \<Rightarrow> nat" where
  "del_count d i k = (case map_of d i of None \<Rightarrow> 0 | Some m \<Rightarrow>
     (case map_of m k of None \<Rightarrow> 0 | Some n \<Rightarrow> n))"

definition add_del :: "string \<Rightarrow> nat \<Rightarrow> del_map \<Rightarrow> del_map" where
  "add_del k i d =
     (let m = (case map_of d i of None \<Rightarrow> [] | Some m \<Rightarrow> m)
      in AList.update i (AList.update k (del_count d i k + 1) m) d)"

fun parse_dels :: "del_map \<Rightarrow> string list \<Rightarrow> del_map res" where
  "parse_dels d [] = Inr d"
| "parse_dels d [k] = Inr d"
| "parse_dels d (k # v # r) = rbind (stoull v) (\<lambda>i. parse_dels (add_del k i d) r)"

fun erase_listed :: "(string, nat) cmap \<Rightarrow> (string \<times> string) list \<Rightarrow> (string \<times> string) list" where
  "erase_listed mp [] = []"
| "erase_listed mp ((k, v) # kvs) =
     (case map_of mp k of
        Some n \<Rightarrow> if 0 < n then erase_listed (AList.update k (n - 1) mp) kvs
                  else (k, v) # erase_listed mp kvs
      | None \<Rightarrow> (k, v) # erase_listed (AList.update k 0 mp) kvs)"

definition ser_records :: "(string \<times> string) list \<Rightarrow> string" where
  "ser_records kvs = concat (map (\<lambda>(k, v). append_kv k v) kvs)"

fun rewrite_chunks :: "string \<Rightarrow> del_map \<Rightarrow> fsys \<Rightarrow> fsys res" where
  "rewrite_chunks f [] fs = Inr fs"
| "rewrite_chunks f ((i, mp) # d) fs =
     rbind (load_chunk (chunk_path f i) fs) (\<lambda>vec.
       rewrite_chunks f d (snd (write_file (chunk_path f i) (ser_records (erase_listed mp vec)) fs)))"

definition lazy_delete :: "chunk \<Rightarrow> fsys \<Rightarrow> (bool \<times> fsys) res" where
  "lazy_delete c fs =
     (case read_file (delete_path (folder c)) fs of
        None \<Rightarrow> Inr (False, fs)
      | Some text \<Rightarrow>
          rbind (parse_dels [] (split text nl)) (\<lambda>d.
          rbind (rewrite_chunks (folder c) d fs) (\<lambda>fs'.
            Inr (True, snd (remove_file (delete_path (folder c)) fs')))))"

section \<open>A checkpoint of one user\<close>

definition append_kvs :: "(string, string) cmap \<Rightarrow> fsys \<Rightarrow> chunk \<Rightarrow> (kv_state \<times> fsys \<times> chunk) res" where
  "append_kvs mp fs c =
     (let fs0 = snd (append_file (chunk_path (folder c) (append_index c)) [] fs) in
      case append_loop mp (fs0, c) of (fs1, c1) \<Rightarrow>
        rbind (lazy_delete c1 (write_meta_back c1 fs1)) (\<lambda>(_, fs2). Inr (FINISHED, fs2, c1)))"

end
