(* ===== verification/Cache.thy ===== *)
theory Cache
  imports Chunk
begin

text \<open>
  \<open>backend/cache.h\<close> (\<open>KvCache\<close>): the in-memory side of the key-value store.  Two nested maps cache
  the reads and the updates since the last checkpoint; every update carries a sequence number and
  is logged before it is applied; a checkpoint writes the updates to the chunks and restarts the
  log; a restart replays the log.  \<open>PREFIX\<close> is the argument \<open>prefix\<close>; the synchronisation between
  two nodes is in \<open>Sync\<close>.
\<close>

section \<open>State\<close>

type_synonym kv_map = "(string, string) cmap"
type_synonym user_maps = "(string, kv_map) cmap"

record kvcache =
  kLogFp :: string
  sequence_id :: int
  read_cache :: user_maps
  updates_cache :: user_maps

definition new_cache :: "string \<Rightarrow> kvcache" where
  "new_cache log = \<lparr>kLogFp = log, sequence_id = 0, read_cache = [], updates_cache = []\<rparr>"

text \<open>\<open>m[user]\<close> inserts an empty map when the user is not there.\<close>

definition touch :: "string \<Rightarrow> user_maps \<Rightarrow> user_maps" where
  "touch user m = (case map_of m user of None \<Rightarrow> AList.update user [] m | Some _ \<Rightarrow> m)"

definition user_map :: "user_maps \<Rightarrow> string \<Rightarrow> kv_map" where
  "user_map m user = (case map_of m user of None \<Rightarrow> [] | Some kv \<Rightarrow> kv)"

definition put_key :: "string \<Rightarrow> string \<Rightarrow> string \<Rightarrow> user_maps \<Rightarrow> user_maps" where
  "put_key user key v m = AList.update user (AList.update key v (user_map m user)) m"

section \<open>Logging\<close>

definition kPuts :: string where "kPuts = ''Puts''"
definition kDele :: string where "kDele = ''Dele''"

definition log_char :: "char \<Rightarrow> bool" where
  "log_char c = (alpha c \<or> is_digit c \<or> c \<in> set ''.-+_='')"

definition kLoggingHeaderRegex :: re where
  "kLoggingHeaderRegex = seqs
     [Lit ''KvStoreLogEntry'', Cls is_space, Lit ''Seq'', Cls is_space, Grp (Some1 is_digit),
      Cls is_space, Lit ''user'', Cls is_space, Grp (Some1 log_char),
      Cls is_space, Lit ''key'', Cls is_space, Grp (Some1 log_char),
      Cls is_space, Lit ''op'', Cls is_space, Grp (Some1 alpha),
      Cls is_space, Lit ''length'', Cls is_space, Grp (Some1 is_digit), Lit [nl]]"

definition kLoggingSequenceIdHeader :: re where
  "kLoggingSequenceIdHeader = seqs
     [Lit ''KvStoreLogEntry'', Cls is_space, Lit ''Checkpointed'', Cls is_space, Lit ''at'',
      Cls is_space, Lit ''SequenceID:'', Cls is_space, Grp (Some1 is_digit), Lit [nl]]"

definition FormatPuts :: "string \<Rightarrow> string \<Rightarrow> string \<Rightarrow> int \<Rightarrow> string" where
  "FormatPuts user key value seq_num =
     ''KvStoreLogEntry Seq '' @ int_str seq_num @ '' user '' @ user @ '' key '' @ key @
     '' op '' @ kPuts @ '' length '' @ nat_str (length value) @ [nl] @ value @ [nl]"

definition FormatDele :: "string \<Rightarrow> string \<Rightarrow> int \<Rightarrow> string" where
  "FormatDele user key seq_num =
     ''KvStoreLogEntry Seq '' @ int_str seq_num @ '' user '' @ user @ '' key '' @ key @
     '' op '' @ kDele @ '' length 0'' @ [nl]"

definition checkpoint_line :: "int \<Rightarrow> string" where
  "checkpoint_line seq = ''KvStoreLogEntry Checkpointed at SequenceID: '' @ int_str seq @ [nl]"

definition Log :: "string \<Rightarrow> kvcache \<Rightarrow> fsys \<Rightarrow> kv_state \<times> fsys" where
  "Log entry c fs =
     (case append_file (kLogFp c) entry fs of (ok, fs') \<Rightarrow> (if ok then FINISHED else LOG_ERROR, fs'))"

definition ValidateAndUpdateSeqNum :: "int \<Rightarrow> kvcache \<Rightarrow> bool \<times> kvcache" where
  "ValidateAndUpdateSeqNum new_seq c =
     (if new_seq \<noteq> sequence_id c + 1 then (False, c) else (True, c\<lparr>sequence_id := new_seq\<rparr>))"

section \<open>Reads\<close>

text \<open>
  \<open>Gets\<close>: a key in neither cache gets an empty entry in the read cache before the disk is asked,
  and keeps it when the disk does not have the key.  \<open>value\<close> is the caller's variable.
\<close>

definition Gets ::
  "string \<Rightarrow> fsys \<Rightarrow> string \<Rightarrow> string \<Rightarrow> string \<Rightarrow> kvcache \<Rightarrow> (kv_state \<times> string \<times> kvcache) res" where
  "Gets prefix fs user key value c =
     (let rc = touch user (read_cache c) in
      case map_of (user_map rc user) key of
        Some v \<Rightarrow> Inr (FINISHED, v, c\<lparr>read_cache := rc\<rparr>)
      | None \<Rightarrow>
          let uc = touch user (updates_cache c) in
          (case map_of (user_map uc user) key of
             Some v \<Rightarrow> Inr (FINISHED, v, c\<lparr>read_cache := rc, updates_cache := uc\<rparr>)
           | None \<Rightarrow>
               let c1 = c\<lparr>read_cache := put_key user key [] rc, updates_cache := uc\<rparr> in
               rbind (chunk_init prefix user fs) (\<lambda>(s, chunk).
                 if s \<noteq> FINISHED then Inr (USER_ERROR, value, c1)
                 else rbind (get_value key [] fs chunk) (\<lambda>(chunk_ret, v).
                   let c2 = c1\<lparr>read_cache := put_key user key v (read_cache c1)\<rparr> in
                   if chunk_ret \<noteq> FINISHED then Inr (chunk_ret, value, c2)
                   else Inr (FINISHED, v, c2)))))"

text \<open>\<open>GetsAll\<close>: the status and the pairs that are put into the response.\<close>

definition overlay :: "kv_map \<Rightarrow> kv_map \<Rightarrow> kv_map" where
  "overlay ups m = fold (\<lambda>(k, v) m. if v \<noteq> [] then AList.update k v m else AList.delete k m) ups m"

definition GetsAll ::
  "string \<Rightarrow> fsys \<Rightarrow> string \<Rightarrow> kvcache \<Rightarrow> (kv_state \<times> kv_map \<times> kvcache) res" where
  "GetsAll prefix fs user c =
     rbind (chunk_init prefix user fs) (\<lambda>(s, chunk).
       if s \<noteq> FINISHED then Inr (USER_ERROR, [], c)
       else rbind (get_all_kv fs chunk) (\<lambda>chunk_kvs.
         let uc = touch user (updates_cache c)
         in Inr (FINISHED, overlay (user_map uc user) chunk_kvs, c\<lparr>updates_cache := uc\<rparr>)))"

section \<open>Updates\<close>

text \<open>
  The private three-argument \<open>Puts\<close>.  It compares an iterator of \<open>read_cache_\<close> with the end of
  \<open>updates_cache_\<close>; both ends are the null node of the hash tables, so the test is whether the
  user is in the read cache.
\<close>

definition put_cached :: "string \<Rightarrow> string \<Rightarrow> string \<Rightarrow> kvcache \<Rightarrow> kvcache" where
  "put_cached user key value c =
     (let uc = touch user (updates_cache c);
          uc' = put_key user key value uc;
          rc = read_cache c;
          rc' = (case map_of rc user of
                   None \<Rightarrow> rc
                 | Some kv \<Rightarrow>
                     let kv' = AList.delete key kv
                     in if kv' = [] then AList.delete user rc else AList.update user kv' rc)
      in c\<lparr>updates_cache := uc', read_cache := rc'\<rparr>)"

definition Puts ::
  "string \<Rightarrow> string \<Rightarrow> string \<Rightarrow> int \<Rightarrow> bool \<Rightarrow> fsys \<Rightarrow> kvcache \<Rightarrow> kv_state \<times> fsys \<times> kvcache" where
  "Puts user key value seq_num logging_enabled fs c =
     (case ValidateAndUpdateSeqNum seq_num c of
        (False, c) \<Rightarrow> (SEQ_ERROR, fs, c)
      | (True, c) \<Rightarrow>
          if logging_enabled then
            (case Log (FormatPuts user key value seq_num) c fs of (log_ret, fs) \<Rightarrow>
               if log_ret \<noteq> FINISHED then (log_ret, fs, c)
               else (FINISHED, fs, put_cached user key value c))
          else (FINISHED, fs, put_cached user key value c))"

definition Cputs ::
  "string \<Rightarrow> string \<Rightarrow> string \<Rightarrow> string \<Rightarrow> string \<Rightarrow> int \<Rightarrow> fsys \<Rightarrow> kvcache \<Rightarrow>
   (kv_state \<times> fsys \<times> kvcache) res" where
  "Cputs prefix user key prev_value new_value seq_num fs c =
     (case ValidateAndUpdateSeqNum seq_num c of
        (False, c) \<Rightarrow> Inr (SEQ_ERROR, fs, c)
      | (True, c) \<Rightarrow>
          rbind (Gets prefix fs user key [] c) (\<lambda>(ret, old_value, c).
            if ret \<noteq> FINISHED then Inr (ret, fs, c)
            else if old_value \<noteq> prev_value then Inr (VALUE_ERROR, fs, c)
            else (case Log (FormatPuts user key new_value seq_num) c fs of (log_ret, fs) \<Rightarrow>
              if log_ret \<noteq> FINISHED then Inr (log_ret, fs, c)
              else Inr (FINISHED, fs, put_cached user key new_value c))))"

definition Dele ::
  "string \<Rightarrow> string \<Rightarrow> int \<Rightarrow> bool \<Rightarrow> fsys \<Rightarrow> kvcache \<Rightarrow> kv_state \<times> fsys \<times> kvcache" where
  "Dele user key seq_num logging_enabled fs c =
     (case ValidateAndUpdateSeqNum seq_num c of
        (False, c) \<Rightarrow> (SEQ_ERROR, fs, c)
      | (True, c) \<Rightarrow>
          if logging_enabled then
            (case Log (FormatDele user key seq_num) c fs of (log_ret, fs) \<Rightarrow>
               if log_ret \<noteq> FINISHED then (log_ret, fs, c)
               else (FINISHED, fs, put_cached user key [] c))
          else (FINISHED, fs, put_cached user key [] c))"

section \<open>Checkpoints\<close>

text \<open>The status of \<open>init\<close> and of \<open>append_kvs\<close> is ignored, user by user.\<close>

fun checkpoint_users :: "string \<Rightarrow> user_maps \<Rightarrow> fsys \<Rightarrow> fsys res" where
  "checkpoint_users prefix [] fs = Inr fs"
| "checkpoint_users prefix ((user, kv) # us) fs =
     rbind (chunk_init prefix user fs) (\<lambda>(_, chunk).
     rbind (append_kvs kv fs chunk) (\<lambda>(_, fs', _).
       checkpoint_users prefix us fs'))"

definition Checkpoint :: "string \<Rightarrow> fsys \<Rightarrow> kvcache \<Rightarrow> (kv_state \<times> fsys \<times> kvcache) res" where
  "Checkpoint prefix fs c =
     rbind (checkpoint_users prefix (updates_cache c) fs) (\<lambda>fs1.
       let fs2 = snd (write_file (kLogFp c) [] fs1);
           c' = c\<lparr>updates_cache := [], read_cache := []\<rparr>
       in case Log (checkpoint_line (sequence_id c)) c' fs2 of (ret, fs3) \<Rightarrow> Inr (ret, fs3, c'))"

section \<open>Recovery\<close>

definition ExtractCheckpointSequenceIdFromLoggings :: "string \<Rightarrow> (int option) res" where
  "ExtractCheckpointSequenceIdFromLoggings loggings =
     (case regex_search kLoggingSequenceIdHeader loggings of
        Some (n # _, _) \<Rightarrow> rbind (stoi n) (\<lambda>i. Inr (Some i))
      | _ \<Rightarrow> Inr None)"

lemma matches_Lit_Seq_shorter:
  "(g, r) \<in> set (matches (Seq (Lit (c # p)) b) s) \<Longrightarrow> length r < length s"
proof (cases "lit_matches (c # p) s")
  case (Some r0)
  assume "(g, r) \<in> set (matches (Seq (Lit (c # p)) b) s)"
  with Some have "(g, r) \<in> set (matches b r0)" by auto
  then have "length r \<le> length r0" using matches_suffix by fastforce
  moreover from Some have "length r0 < length s" by (simp add: lit_matches_Some)
  ultimately show ?thesis by simp
qed simp

lemma regex_search_shorter:
  assumes "regex_search e s = Some (g, r)"
    and "\<And>g r s. (g, r) \<in> set (matches e s) \<Longrightarrow> length r < length s"
  shows "length r < length s"
  using assms(1)
proof (induction s)
  case Nil
  then show ?case using assms(2) [of g r "[]"] by (auto split: list.splits)
next
  case (Cons c cs)
  show ?case
  proof (cases "matches e (c # cs)")
    case Nil
    then show ?thesis using Cons by auto
  next
    case (Cons m ms)
    then show ?thesis using Cons.prems assms(2) [of g r "c # cs"] by auto
  qed
qed

lemma header_search_shorter:
  "regex_search kLoggingHeaderRegex s = Some (g, r) \<Longrightarrow> length r < length s"
proof (erule regex_search_shorter)
  fix g r s
  assume "(g, r) \<in> set (matches kLoggingHeaderRegex s)"
  then show "length r < length s"
    unfolding kLoggingHeaderRegex_def seqs.simps by (rule matches_Lit_Seq_shorter)
qed

function replay_loop :: "string \<Rightarrow> kvcache \<Rightarrow> (kv_state \<times> kvcache) res" where
  "replay_loop loggings c =
     (case regex_search kLoggingHeaderRegex loggings of
        Some ([m1, user, key, op_type, m5], rest) \<Rightarrow>
          rbind (stoi m1) (\<lambda>seq_num.
          rbind (stoi m5) (\<lambda>len.
            if op_type = kPuts then
              let value = take (nat len) rest in
              (case Puts user key value seq_num False \<lparr>files = [], dirs = []\<rparr> c of (ret, _, c') \<Rightarrow>
                if ret \<noteq> FINISHED then Inr (REC_ERROR, c')
                else if length rest < length value + 1 then Inl Out_of_range
                else replay_loop (drop (length value + 1) rest) c')
            else if op_type = kDele then
              (case Dele user key seq_num False \<lparr>files = [], dirs = []\<rparr> c of (ret, _, c') \<Rightarrow>
                if ret \<noteq> FINISHED then Inr (REC_ERROR, c')
                else replay_loop rest c')
            else replay_loop rest c))
      | _ \<Rightarrow> Inr (FINISHED, c))"
  by pat_completeness auto
termination
  by (relation "measure (\<lambda>(l, c). length l)") (auto dest: header_search_shorter)

declare replay_loop.simps [simp del]

text \<open>\<open>ReplayLoggings\<close> also sets the global \<open>max_sequence\<close> when it finishes.\<close>

definition ReplayLoggings ::
  "fsys \<Rightarrow> int \<Rightarrow> kvcache \<Rightarrow> (kv_state \<times> int \<times> kvcache) res" where
  "ReplayLoggings fs max_sequence c =
     (case read_file (kLogFp c) fs of
        None \<Rightarrow> Inr (REC_ERROR, max_sequence, c)
      | Some loggings \<Rightarrow>
          rbind (ExtractCheckpointSequenceIdFromLoggings loggings) (\<lambda>id.
            case id of
              None \<Rightarrow> Inr (REC_ERROR, max_sequence, c)
            | Some i \<Rightarrow>
                rbind (replay_loop loggings
                    (c\<lparr>sequence_id := i, updates_cache := [], read_cache := []\<rparr>)) (\<lambda>(ret, c').
                  Inr (ret, if ret = FINISHED then sequence_id c' else max_sequence, c'))))"

definition InitCacheForPrimary ::
  "fsys \<Rightarrow> int \<Rightarrow> kvcache \<Rightarrow> (kv_state \<times> fsys \<times> int \<times> kvcache) res" where
  "InitCacheForPrimary fs max_sequence c =
     (if \<not> exist_file (kLogFp c) fs then
        (case write_file (kLogFp c) (checkpoint_line (sequence_id c)) fs of (ok, fs') \<Rightarrow>
           Inr (if ok then FINISHED else SYNC_ERROR, fs', max_sequence, c))
      else rbind (ReplayLoggings fs max_sequence c) (\<lambda>(ret, ms, c'). Inr (ret, fs, ms, c')))"

end
