(* ===== verification/Sync.thy ===== *)
theory Sync
  imports Cache Tcp_Operation
begin

text \<open>
  \<open>backend/cache.h\<close>, second half: bringing a secondary up to date.  The primary sends its log; the
  secondary asks for all files if the primary has checkpointed since, and replays the log.  A
  connection is seen at the level of messages (\<open>tcp_msgs_roundtrip\<close> is what makes that sound): the
  messages that will arrive before the peer is gone, the messages sent, and how many more writes
  will succeed.
\<close>

section \<open>Connections\<close>

record conn =
  inbox :: "string list"
  outbox :: "string list"
  writable :: nat

definition send_msg :: "string \<Rightarrow> conn \<Rightarrow> bool \<times> conn" where
  "send_msg m cn =
     (if writable cn = 0 then (False, cn)
      else (True, cn\<lparr>outbox := outbox cn @ [m], writable := writable cn - 1\<rparr>))"

definition recv_msg :: "conn \<Rightarrow> (string \<times> conn) option" where
  "recv_msg cn = (case inbox cn of [] \<Rightarrow> None | m # ms \<Rightarrow> Some (m, cn\<lparr>inbox := ms\<rparr>))"

section \<open>Messages\<close>

definition kOkResp :: string where "kOkResp = ''OK''"
definition kRequireFullResp :: string where "kRequireFullResp = ''FULL''"
definition kSyncDone :: string where "kSyncDone = ''SYNC DONE''"
definition kSyncError :: string where "kSyncError = ''SYNC ERROR''"
definition kDir :: string where "kDir = ''DIR''"
definition kFile :: string where "kFile = ''FILE''"

definition path_char :: "char \<Rightarrow> bool" where
  "path_char c = (alpha c \<or> is_digit c \<or> c \<in> set ''_./-+='')"

definition kFileTransportHeader :: re where
  "kFileTransportHeader = seqs
     [Lit ''KvStoreSync'', Cls is_space, Lit ''Filename:'', Cls is_space, Grp (Some1 path_char),
      Cls is_space, Lit ''Type:'', Cls is_space, Grp (Some1 alpha),
      Cls is_space, Lit ''size:'', Cls is_space, Grp (Some1 is_digit), Lit [CHR 0x0D, nl]]"

definition transport_header :: "string \<Rightarrow> string \<Rightarrow> nat \<Rightarrow> string" where
  "transport_header path type sz =
     ''KvStoreSync Filename: '' @ path @ '' Type: '' @ type @ '' size: '' @ nat_str sz @ [CHR 0x0D, nl]"

definition ReadFileAndWriteTo :: "string \<Rightarrow> string \<Rightarrow> fsys \<Rightarrow> conn \<Rightarrow> (kv_state \<times> conn) res" where
  "ReadFileAndWriteTo prefix filepath fs cn =
     (case read_file filepath fs of
        None \<Rightarrow> Inr (SYNC_ERROR, cn)
      | Some text \<Rightarrow>
          rbind (substr_from filepath (length prefix)) (\<lambda>sent_fp.
            Inr (FINISHED, snd (send_msg (transport_header sent_fp kFile (length text) @ text) cn))))"

text \<open>The content is everything after the header; the announced size is not used.\<close>

definition MatchHeaderAndExtractContent :: "string \<Rightarrow> ((string \<times> string \<times> int \<times> string) option) res" where
  "MatchHeaderAndExtractContent filestr =
     (case regex_search kFileTransportHeader filestr of
        Some ([file_path, type, sz], rest) \<Rightarrow>
          rbind (stoi sz) (\<lambda>n. Inr (Some (file_path, type, n, rest)))
      | _ \<Rightarrow> Inr None)"

section \<open>The primary\<close>

text \<open>\<open>error\<close> prints and exits.\<close>

definition PrimarySendLogging :: "string \<Rightarrow> fsys \<Rightarrow> kvcache \<Rightarrow> conn \<Rightarrow> (kv_state \<times> conn) res" where
  "PrimarySendLogging prefix fs c cn =
     (if \<not> exist_file (kLogFp c) fs then Inl Aborted
      else ReadFileAndWriteTo prefix (kLogFp c) fs cn)"

text \<open>
  The directory iterator yields the entries below \<open>PREFIX\<close> in an order of its own; \<open>ents\<close> is that
  sequence, directories marked \<open>True\<close>.
\<close>

fun send_entries :: "string \<Rightarrow> fsys \<Rightarrow> (bool \<times> string) list \<Rightarrow> conn \<Rightarrow> (kv_state \<times> conn) res" where
  "send_entries prefix fs [] cn = Inr (FINISHED, cn)"
| "send_entries prefix fs ((is_dir, p) # ents) cn =
     rbind (substr_from p (length prefix)) (\<lambda>fp.
       if is_dir then send_entries prefix fs ents (snd (send_msg (transport_header fp kDir 0) cn))
       else rbind (ReadFileAndWriteTo prefix p fs cn) (\<lambda>(ret, cn').
         if ret \<noteq> FINISHED then Inr (ret, cn') else send_entries prefix fs ents cn'))"

definition PrimarySendAllContent ::
  "string \<Rightarrow> fsys \<Rightarrow> (bool \<times> string) list \<Rightarrow> conn \<Rightarrow> (kv_state \<times> conn) res" where
  "PrimarySendAllContent prefix fs ents cn =
     (if \<not> exist_file prefix fs then Inl Aborted else send_entries prefix fs ents cn)"

definition await_done :: "conn \<Rightarrow> kv_state \<times> conn" where
  "await_done cn = (case recv_msg cn of
      None \<Rightarrow> (SYNC_ERROR, cn)
    | Some (resp, cn') \<Rightarrow> (if resp = kSyncDone then FINISHED else SYNC_ERROR, cn'))"

definition PrimarySyncSecondary ::
  "bool \<Rightarrow> string \<Rightarrow> fsys \<Rightarrow> (bool \<times> string) list \<Rightarrow> kvcache \<Rightarrow> conn \<Rightarrow> (kv_state \<times> conn) res" where
  "PrimarySyncSecondary isPrimary prefix fs ents c cn =
     (if \<not> isPrimary then Inr (SYNC_ERROR, cn)
      else rbind (PrimarySendLogging prefix fs c cn) (\<lambda>(logging_sent, cn1).
        if logging_sent \<noteq> FINISHED then Inr (logging_sent, cn1)
        else case recv_msg cn1 of
            None \<Rightarrow> Inr (SYNC_ERROR, cn1)
          | Some (resp, cn2) \<Rightarrow>
              if resp = kRequireFullResp then
                rbind (PrimarySendAllContent prefix fs ents cn2) (\<lambda>(all, cn3).
                  case send_msg (if all = FINISHED then kSyncDone else kSyncError) cn3 of
                    (False, cn4) \<Rightarrow> Inr (SYNC_ERROR, cn4)
                  | (True, cn4) \<Rightarrow> if all \<noteq> FINISHED then Inr (all, cn4) else Inr (await_done cn4))
              else Inr (await_done cn2)))"

section \<open>The secondary\<close>

definition SecondarySendFinishedRecovery :: "bool \<Rightarrow> bool \<Rightarrow> conn \<Rightarrow> kv_state \<times> conn" where
  "SecondarySendFinishedRecovery isPrimary success cn =
     (if isPrimary then (SYNC_ERROR, cn)
      else case send_msg (if success then kSyncDone else kSyncError) cn of
          (ok, cn') \<Rightarrow> (if ok then FINISHED else SYNC_ERROR, cn'))"

definition NeedFullSync :: "string \<Rightarrow> fsys \<Rightarrow> kvcache \<Rightarrow> bool res" where
  "NeedFullSync loggings fs c =
     rbind (if exist_file (kLogFp c) fs then
              (case read_file (kLogFp c) fs of
                 None \<Rightarrow> Inr None
               | Some l \<Rightarrow> ExtractCheckpointSequenceIdFromLoggings l)
            else Inr (Some 0)) (\<lambda>last.
       case last of
         None \<Rightarrow> Inr True
       | Some last_checkpoint_id \<Rightarrow>
           rbind (ExtractCheckpointSequenceIdFromLoggings loggings) (\<lambda>primary.
             case primary of
               None \<Rightarrow> Inr True
             | Some primary_sequence_id \<Rightarrow> Inr (primary_sequence_id > last_checkpoint_id)))"

text \<open>\<open>ResetLocalStateForFullSync\<close>; the global \<open>max_sequence\<close> is the middle component of the state.\<close>

type_synonym sec_state = "fsys \<times> int \<times> kvcache"

definition ResetLocalStateForFullSync :: "string \<Rightarrow> sec_state \<Rightarrow> sec_state" where
  "ResetLocalStateForFullSync prefix st = (case st of (fs, _, c) \<Rightarrow>
     (snd (remove_file (strip_slash prefix) fs), 0,
      c\<lparr>sequence_id := 0, updates_cache := [], read_cache := []\<rparr>))"

definition replay_here :: "sec_state \<Rightarrow> (kv_state \<times> sec_state) res" where
  "replay_here st = (case st of (fs, ms, c) \<Rightarrow>
     rbind (ReplayLoggings fs ms c) (\<lambda>(ret, ms', c'). Inr (ret, fs, ms', c')))"

text \<open>
  \<open>create_directories\<close>: every missing directory on the way; true if one was made.  A file on the way
  is an error: an exception, or, with an error code, a failure.
\<close>

fun lead_paths :: "string \<Rightarrow> string \<Rightarrow> string list" where
  "lead_paths acc [] = [acc]"
| "lead_paths acc (c # cs) =
     (if c = CHR ''/'' \<and> acc \<noteq> [] then acc # lead_paths (acc @ [c]) cs else lead_paths (acc @ [c]) cs)"

definition create_directories :: "string \<Rightarrow> fsys \<Rightarrow> (bool \<times> fsys) option" where
  "create_directories p fs =
     (let ds = lead_paths [] (strip_slash p);
          new = filter (\<lambda>d. d \<notin> set (dirs fs)) ds
      in if \<exists>d \<in> set ds. map_of (files fs) d \<noteq> None then None
         else Some (new \<noteq> [], fs\<lparr>dirs := new @ dirs fs\<rparr>))"

definition OverwriteFile :: "string \<Rightarrow> string \<Rightarrow> fsys \<Rightarrow> bool \<times> fsys" where
  "OverwriteFile p s fs = write_file p s fs"

definition store_entry :: "string \<Rightarrow> string \<Rightarrow> string \<Rightarrow> fsys \<Rightarrow> (bool \<times> fsys) res" where
  "store_entry file_path type s fs =
     (if type = kDir then
        (case create_directories file_path fs of None \<Rightarrow> Inl Aborted | Some r \<Rightarrow> Inr r)
      else if type = kFile then
        (case create_directories (parent_dir file_path) fs of
           None \<Rightarrow> Inr (False, fs)
         | Some (_, fs1) \<Rightarrow> Inr (OverwriteFile file_path s fs1))
      else Inr (False, fs))"

text \<open>The loop ends with the state, and whether all files were announced as sent.\<close>

fun full_sync_loop :: "string \<Rightarrow> string list \<Rightarrow> fsys \<Rightarrow> (kv_state \<times> bool \<times> fsys \<times> string list) res" where
  "full_sync_loop prefix [] fs = Inr (FINISHED, False, fs, [])"
| "full_sync_loop prefix (m # ms) fs =
     (if m = kSyncDone then Inr (FINISHED, True, fs, ms)
      else if m = kSyncError then Inr (FINISHED, False, fs, ms)
      else rbind (MatchHeaderAndExtractContent m) (\<lambda>r. case r of
          None \<Rightarrow> Inr (SYNC_ERROR, False, fs, ms)
        | Some (file_path, type, _, s) \<Rightarrow>
            rbind (store_entry (prefix @ file_path) type s fs) (\<lambda>(ok, fs1).
              if ok then full_sync_loop prefix ms fs1 else Inr (SYNC_ERROR, False, fs1, ms))))"

definition PerformFullSyncFromPrimary :: "string \<Rightarrow> sec_state \<Rightarrow> conn \<Rightarrow> (kv_state \<times> sec_state \<times> conn) res" where
  "PerformFullSyncFromPrimary prefix st cn = (case st of (fs, ms, c) \<Rightarrow>
     rbind (full_sync_loop prefix (inbox cn) fs) (\<lambda>(ret, all, fs1, rest).
       let cn' = cn\<lparr>inbox := rest\<rparr> in
       if ret \<noteq> FINISHED \<or> \<not> all then Inr (SYNC_ERROR, (fs1, ms, c), cn')
       else rbind (replay_here (fs1, ms, c)) (\<lambda>(ret', st'). Inr (ret', st', cn'))))"

definition OverwriteLoggingAndReplay :: "string \<Rightarrow> sec_state \<Rightarrow> (kv_state \<times> sec_state) res" where
  "OverwriteLoggingAndReplay loggings st = (case st of (fs, ms, c) \<Rightarrow>
     (case OverwriteFile (kLogFp c) loggings fs of
        (False, fs1) \<Rightarrow> Inr (SYNC_ERROR, (fs1, ms, c))
      | (True, fs1) \<Rightarrow> replay_here (fs1, ms, c)))"

text \<open>\<open>sync_msg\<close> is the serialised \<open>SYNC\<close> command.\<close>

definition SecondaryRecoverFromPrimary ::
  "bool \<Rightarrow> string \<Rightarrow> string \<Rightarrow> sec_state \<Rightarrow> conn \<Rightarrow> (kv_state \<times> sec_state \<times> conn) res" where
  "SecondaryRecoverFromPrimary isPrimary prefix sync_msg st cn = (case st of (fs, ms, c) \<Rightarrow>
     (if isPrimary then Inr (SYNC_ERROR, st, cn)
      else case send_msg sync_msg cn of
          (False, cn1) \<Rightarrow> Inr (SYNC_ERROR, st, cn1)
        | (True, cn1) \<Rightarrow> (case recv_msg cn1 of
              None \<Rightarrow> Inr (SYNC_ERROR, st, cn1)
            | Some (logging_file_msg, cn2) \<Rightarrow>
                rbind (MatchHeaderAndExtractContent logging_file_msg) (\<lambda>r. case r of
                    None \<Rightarrow> Inr (SYNC_ERROR, st, cn2)
                  | Some (_, _, _, loggings) \<Rightarrow>
                      rbind (NeedFullSync loggings fs c) (\<lambda>full.
                        if full then
                          (case send_msg kRequireFullResp cn2 of
                             (False, cn3) \<Rightarrow> Inr (SYNC_ERROR, st, cn3)
                           | (True, cn3) \<Rightarrow>
                               PerformFullSyncFromPrimary prefix (ResetLocalStateForFullSync prefix st) cn3)
                        else
                          let cn3 = snd (send_msg kOkResp cn2) in
                          rbind (OverwriteLoggingAndReplay loggings st) (\<lambda>(ret, st').
                            Inr (ret, st', cn3)))))))"

end
