(* ===== verification/Kvstore.thy ===== *)
theory Kvstore
  imports Kv_Interface Address_Parse Sync
begin

text \<open>
  \<open>backend/kvstore.cpp\<close>, \<open>backend/cluster_interface.h\<close> and the globals of \<open>backend/kv_config.h\<close>: one
  node of the key-value store.  A node executes commands one at a time; a primary forwards every
  update to the other nodes of its group before it executes it, and checkpoints every 20 commands.
  Threads, sockets and \<open>epoll\<close> are outside the model: a step is one message read to its end.
\<close>

section \<open>State and environment\<close>

record node =
  nd_prefix :: string
  nd_cache :: kvcache
  nd_fs :: fsys
  max_sequence :: int
  isPrimary :: bool
  killed :: bool
  nd_init :: bool
  secondary :: "address list"
  my_addr :: address
  last_checkpoint_time :: int

text \<open>
  What a command may need from outside: the serialiser, the order of the directory iterator, the
  connection the command came from, and the connection to the primary (\<open>None\<close>: five failed attempts).
\<close>

record env =
  e_ser :: "kv_command \<Rightarrow> string option"
  e_iter :: "fsys \<Rightarrow> (bool \<times> string) list"
  e_sender :: conn
  e_primary :: "conn option"

text \<open>
  The result: the node, the answer, the commands handed to other nodes, the sender's connection and
  the messages sent to the primary.
\<close>

record outcome =
  o_node :: node
  o_ret :: kv_ret
  o_sent :: "(address \<times> kv_command) list"
  o_conn :: conn
  o_primary :: "string list"

definition quiet :: "env \<Rightarrow> kv_ret \<Rightarrow> node \<Rightarrow> outcome" where
  "quiet e ret nd = \<lparr>o_node = nd, o_ret = ret, o_sent = [], o_conn = e_sender e, o_primary = []\<rparr>"

definition sec_of :: "node \<Rightarrow> sec_state" where
  "sec_of nd = (nd_fs nd, max_sequence nd, nd_cache nd)"

definition set_sec :: "sec_state \<Rightarrow> node \<Rightarrow> node" where
  "set_sec st nd = (case st of (fs, ms, c) \<Rightarrow> nd\<lparr>nd_fs := fs, max_sequence := ms, nd_cache := c\<rparr>)"

section \<open>The cluster\<close>

fun init_all :: "string list \<Rightarrow> address list res" where
  "init_all [] = Inr []"
| "init_all (s # ss) = rbind (address_init s) (\<lambda>a. rbind (init_all ss) (\<lambda>as. Inr (a # as)))"

text \<open>\<open>secondary.at(0)\<close> throws on an empty list.  A node is never demoted here.\<close>

definition first_node :: "address list \<Rightarrow> address res" where
  "first_node as = (case as of [] \<Rightarrow> Inl Out_of_range | a # _ \<Rightarrow> Inr a)"

definition parse_secondary_from_master :: "string list \<Rightarrow> node \<Rightarrow> node res" where
  "parse_secondary_from_master addrs nd =
     rbind (init_all addrs) (\<lambda>as.
     rbind (first_node as) (\<lambda>a.
       Inr (nd\<lparr>secondary := as,
               isPrimary := (if ad_port (my_addr nd) = ad_port a then True else isPrimary nd),
               nd_init := True\<rparr>)))"

text \<open>The sends that are attempted; whether one arrives does not change the result.\<close>

definition forward_to_secondary :: "env \<Rightarrow> kv_command \<Rightarrow> node \<Rightarrow> bool \<times> (address \<times> kv_command) list" where
  "forward_to_secondary e command nd =
     (case e_ser e command of
        None \<Rightarrow> (False, [])
      | Some _ \<Rightarrow>
          (True, map (\<lambda>a. (a, command)) (filter (\<lambda>a. ad_port a \<noteq> ad_port (my_addr nd)) (secondary nd))))"

text \<open>
  \<open>checkpoint\<close> receives the cache by value: the files change, the caches of the node do not.
\<close>

definition checkpoint :: "env \<Rightarrow> node \<Rightarrow> (node \<times> (address \<times> kv_command) list) res" where
  "checkpoint e nd =
     rbind (first_node (secondary nd)) (\<lambda>a.
       let sent = (if ad_port a = ad_port (my_addr nd)
                   then snd (forward_to_secondary e (empty_command\<lparr>c_com := ''CKPT''\<rparr>) nd) else [])
       in rbind (Checkpoint (nd_prefix nd) (nd_fs nd) (nd_cache nd)) (\<lambda>(_, fs, _).
            Inr (nd\<lparr>nd_fs := fs\<rparr>, sent)))"

section \<open>Commands\<close>

text \<open>
  Bringing a node up, after the start of the process or a \<open>RESTART\<close>: a primary replays its log, a
  secondary asks the first node of the group.  Every failure exits the process.
\<close>

definition recover_node :: "env \<Rightarrow> kv_ret \<Rightarrow> node \<Rightarrow> outcome res" where
  "recover_node e ret nd =
     (if isPrimary nd then
        rbind (InitCacheForPrimary (nd_fs nd) (max_sequence nd) (nd_cache nd)) (\<lambda>(s, fs, ms, c).
          if s \<noteq> FINISHED then Inl Aborted else Inr (quiet e ret (set_sec (fs, ms, c) nd)))
      else
        rbind (first_node (secondary nd)) (\<lambda>_.
          case e_primary e of
            None \<Rightarrow> Inl Aborted
          | Some cn \<Rightarrow>
              (case e_ser e (empty_command\<lparr>c_com := ''SYNC''\<rparr>) of
                 None \<Rightarrow> Inl Aborted
               | Some sync_msg \<Rightarrow>
                   rbind (SecondaryRecoverFromPrimary False (nd_prefix nd) sync_msg (sec_of nd) cn)
                     (\<lambda>(s, st, cn1).
                       if s \<noteq> FINISHED then Inl Aborted
                       else Inr ((quiet e ret (set_sec st nd))\<lparr>o_primary :=
                              outbox (snd (SecondarySendFinishedRecovery False True cn1))\<rparr>)))))"

definition run_restart :: "env \<Rightarrow> kv_ret \<Rightarrow> node \<Rightarrow> outcome res" where
  "run_restart e ret nd = recover_node e ret (nd\<lparr>killed := False\<rparr>)"

definition run_puts :: "kv_command \<Rightarrow> node \<Rightarrow> kv_state \<times> node" where
  "run_puts command nd =
     (let seq = max_sequence nd + 1 in
      case Puts (cmd_usr command) (c_key command) (c_value1 command) seq True (nd_fs nd) (nd_cache nd) of
        (s, fs, c) \<Rightarrow> (s, set_sec (fs, seq, c) nd))"

definition run_dele :: "kv_command \<Rightarrow> node \<Rightarrow> kv_state \<times> node" where
  "run_dele command nd =
     (let seq = max_sequence nd + 1 in
      case Dele (cmd_usr command) (c_key command) seq True (nd_fs nd) (nd_cache nd) of
        (s, fs, c) \<Rightarrow> (s, set_sec (fs, seq, c) nd))"

text \<open>
  \<open>CPUT\<close>: whatever \<open>Gets\<close> returns, \<open>old_value\<close> is the empty string afterwards (\<open>value\<close> is an empty
  vector), so a password set from the empty string creates the user's folder.
\<close>

definition run_cput :: "kv_command \<Rightarrow> node \<Rightarrow> (kv_state \<times> node) res" where
  "run_cput command nd =
     (let u = cmd_usr command; k = c_key command; dir = nd_prefix nd @ u @ ''/'';
          seq = max_sequence nd + 1 in
      rbind (Gets (nd_prefix nd) (nd_fs nd) u k [] (nd_cache nd)) (\<lambda>(_, _, c).
        let fs = (if k = ''pwd'' \<and> \<not> exist_file dir (nd_fs nd) \<and> c_value1 command = []
                  then snd (create_dir dir (nd_fs nd)) else nd_fs nd) in
        rbind (Cputs (nd_prefix nd) u k (c_value1 command) (c_value2 command) seq fs c)
          (\<lambda>(s, fs', c'). Inr (s, set_sec (fs', seq, c') nd))))"

definition run_gets :: "kv_command \<Rightarrow> node \<Rightarrow> (kv_state \<times> string \<times> node) res" where
  "run_gets command nd =
     rbind (Gets (nd_prefix nd) (nd_fs nd) (cmd_usr command) (c_key command) [] (nd_cache nd))
       (\<lambda>(s, v, c). Inr (s, v, nd\<lparr>nd_cache := c\<rparr>))"

definition run_command :: "env \<Rightarrow> kv_command \<Rightarrow> kv_ret \<Rightarrow> node \<Rightarrow> outcome res" where
  "run_command e command ret nd =
     (let com = c_com command;
          fwd = (if isPrimary nd then snd (forward_to_secondary e command nd) else []);
          update = (\<lambda>s nd'. (quiet e (ret\<lparr>r_status := kv_code s\<rparr>) nd')\<lparr>o_sent := fwd\<rparr>) in
      if com = ''RESTART'' \<and> killed nd then run_restart e ret nd
      else if com = ''CLUSTER'' then
        rbind (parse_secondary_from_master (c_addrs command) nd) (\<lambda>nd'. Inr (quiet e ret nd'))
      else if killed nd then Inr (quiet e ret nd)
      else if com = ''PUTS'' then Inr (case run_puts command nd of (s, nd') \<Rightarrow> update s nd')
      else if com = ''CPUT'' then rbind (run_cput command nd) (\<lambda>(s, nd'). Inr (update s nd'))
      else if com = ''GETS'' then
        rbind (run_gets command nd) (\<lambda>(s, v, nd').
          Inr (quiet e (ret\<lparr>r_status := kv_code s, r_val := v\<rparr>) nd'))
      else if com = ''DELE'' then Inr (case run_dele command nd of (s, nd') \<Rightarrow> update s nd')
      else if com = ''CKPT'' then
        rbind (checkpoint e nd) (\<lambda>(nd', sent). Inr ((quiet e ret nd')\<lparr>o_sent := sent\<rparr>))
      else if com = ''SYNC'' then
        rbind (PrimarySyncSecondary (isPrimary nd) (nd_prefix nd) (nd_fs nd) (e_iter e (nd_fs nd))
                 (nd_cache nd) (e_sender e)) (\<lambda>(s, cn).
          Inr ((quiet e (ret\<lparr>r_status := kv_code s\<rparr>) nd)\<lparr>o_conn := cn\<rparr>))
      else if com = ''ALL'' then
        (case c_usr command of
           None \<Rightarrow> Inr (quiet e (ret\<lparr>r_status := kv_code USER_ERROR\<rparr>) nd)
         | Some u \<Rightarrow>
             rbind (GetsAll (nd_prefix nd) (nd_fs nd) u (nd_cache nd)) (\<lambda>(s, kvs, c).
               Inr (quiet e (ret\<lparr>r_status := kv_code s,
                        r_key_values := (if s = FINISHED then kvs else r_key_values ret)\<rparr>)
                      (nd\<lparr>nd_cache := c\<rparr>))))
      else if com = ''KILL'' then Inr (quiet e ret (nd\<lparr>killed := True, isPrimary := False\<rparr>))
      else Inr (quiet e ret nd))"

text \<open>
  One message of \<open>handle_connect\<close>: the answer (only a primary answers), then the checkpoint that is
  due every 20 messages.
\<close>

definition serve :: "env \<Rightarrow> kv_command \<Rightarrow> node \<Rightarrow> (kv_ret option \<times> outcome) res" where
  "serve e command nd =
     rbind (run_command e command empty_ret
              (nd\<lparr>last_checkpoint_time := last_checkpoint_time nd + 1\<rparr>)) (\<lambda>out.
       let nd1 = o_node out; reply = (if isPrimary nd1 then Some (o_ret out) else None) in
       if isPrimary nd1 \<and> last_checkpoint_time nd1 mod 20 = 0 then
         rbind (checkpoint e nd1) (\<lambda>(nd2, sent).
           Inr (reply, out\<lparr>o_node := nd2, o_sent := o_sent out @ sent\<rparr>))
       else Inr (reply, out))"

section \<open>Start-up\<close>

text \<open>
  \<open>RunServer\<close> up to the loop that waits for the cluster message (\<open>mkdir -p PREFIX\<close> on the files that
  are there), and what it does when the message has come.
\<close>

definition boot :: "int \<Rightarrow> string \<Rightarrow> fsys \<Rightarrow> node res" where
  "boot port prefix fs =
     (if port \<le> 0 \<or> 65536 \<le> port then Inl Aborted
      else rbind (address_init (''127.0.0.1:'' @ int_str port)) (\<lambda>a.
        let p = prefix @ int_str port @ ''/'' in
        case create_directories p fs of
          None \<Rightarrow> Inl Aborted
        | Some (_, fs1) \<Rightarrow>
            Inr \<lparr>nd_prefix = p, nd_cache = new_cache (p @ ''logging''), nd_fs = fs1, max_sequence = 0,
                 isPrimary = False, killed = False, nd_init = False, secondary = [], my_addr = a,
                 last_checkpoint_time = 1\<rparr>))"

definition start_node :: "env \<Rightarrow> node \<Rightarrow> node res" where
  "start_node e nd = rbind (recover_node e empty_ret nd) (\<lambda>out. Inr (o_node out))"

end
