(* ===== verification/Chunk_Correct.thy ===== *)
theory Chunk_Correct
  imports Chunk
begin

text \<open>
  Correctness of the on-disk store of \<open>Chunk\<close>.  The ghost function \<open>recs\<close> gives the records of
  every chunk file; \<open>chunk_lookup\<close> is the map the store stands for.  The theory proves the parsers
  right on the bytes the writers produce, the loop of a checkpoint by an invariant, the lazy
  deletion, and from these the specification of \<open>append_kvs\<close>.
\<close>

section \<open>Parsing what was written\<close>

definition records_ok :: "(string \<times> string) list \<Rightarrow> bool" where
  "records_ok rs = (\<forall>(k, v) \<in> set rs. nl \<notin> set k \<and> length v < 2 ^ 63)"

lemma records_ok_simps [simp]:
  "records_ok []"
  "records_ok ((k, v) # rs) \<longleftrightarrow> nl \<notin> set k \<and> length v < 2 ^ 63 \<and> records_ok rs"
  "records_ok (rs @ qs) \<longleftrightarrow> records_ok rs \<and> records_ok qs"
  by (auto simp: records_ok_def)

lemma ser_records_simps [simp]:
  "ser_records [] = []"
  "ser_records ((k, v) # rs) = k @ nl # nat_str (length v) @ nl # v @ ser_records rs"
  "ser_records (rs @ qs) = ser_records rs @ ser_records qs"
  by (simp_all add: ser_records_def append_kv_def)

lemma ser_records_Nil [simp]: "ser_records rs = [] \<longleftrightarrow> rs = []"
  by (cases rs) auto

definition last_value :: "(string \<times> string) list \<Rightarrow> string \<Rightarrow> string option" where
  "last_value rs k = map_of (rev rs) k"

lemma last_value_simps [simp]:
  "last_value [] k = None"
  "last_value (rs @ [(k', v)]) k = (if k' = k then Some v else last_value rs k)"
  "last_value ((k', v) # rs) k =
     (case last_value rs k of None \<Rightarrow> if k' = k then Some v else None | Some w \<Rightarrow> Some w)"
  by (auto simp: last_value_def map_add_def split: option.splits)

lemma last_value_None: "last_value rs k = None \<longleftrightarrow> k \<notin> fst ` set rs"
  by (simp add: last_value_def map_of_eq_None_iff)

lemma last_value_count: "last_value rs k = None \<longleftrightarrow> count_list (map fst rs) k = 0"
  by (simp add: last_value_None count_list_0_iff)

lemma get_loop_records:
  "records_ok rs \<Longrightarrow>
   get_loop key (istream_of (ser_records rs)) k0 sz vec value found =
     Inr (case last_value rs key of None \<Rightarrow> value | Some v \<Rightarrow> v, found \<or> last_value rs key \<noteq> None)"
proof (induction rs arbitrary: k0 sz vec "value" found)
  case Nil
  then show ?case by (subst get_loop.simps) simp
next
  case (Cons p rs)
  obtain k v where p: "p = (k, v)" by (cases p)
  have step: "get_loop key (istream_of (ser_records (p # rs))) k0 sz vec value found =
      (if key = k then get_loop key (istream_of (ser_records rs)) k (nat_str (length v)) v v True
       else get_loop key (istream_of (ser_records rs)) k (nat_str (length v)) vec value found)"
    using Cons.prems p by (subst get_loop.simps) simp
  show ?case
    unfolding step using Cons.prems p by (auto simp: Cons.IH split: option.splits)
qed

lemma load_loop_records:
  "records_ok rs \<Longrightarrow> load_loop (istream_of (ser_records rs)) k0 sz vec = Inr rs"
proof (induction rs arbitrary: k0 sz vec)
  case Nil
  then show ?case by (subst load_loop.simps) simp
next
  case (Cons p rs)
  obtain k v where p: "p = (k, v)" by (cases p)
  show ?case
    using Cons p by (subst load_loop.simps) simp
qed

lemma load_chunk_content:
  "load_chunk path fs = load_loop (istream_of (content fs path)) [] [] []"
  by (auto simp: load_chunk_def content_read load_loop.simps [of "istream_of []"] split: option.splits)

definition pairs_ok :: "(string \<times> nat) list \<Rightarrow> bool" where
  "pairs_ok ps = (\<forall>(k, i) \<in> set ps. nl \<notin> set k \<and> i < 2 ^ 64)"

lemma pairs_ok_simps [simp]:
  "pairs_ok []"
  "pairs_ok ((k, i) # ps) \<longleftrightarrow> nl \<notin> set k \<and> i < 2 ^ 64 \<and> pairs_ok ps"
  by (auto simp: pairs_ok_def)

lemma pair_lines_simps [simp]:
  "pair_lines [] = []"
  "pair_lines ((k, i) # ps) = k @ nl # nat_str i @ nl # pair_lines ps"
  by (simp_all add: pair_lines_def)

lemma split_pair_lines [simp]:
  "pairs_ok ((k, i) # ps) \<Longrightarrow>
   split (pair_lines ((k, i) # ps)) nl = k # nat_str i # split (pair_lines ps) nl"
  by simp

lemma parse_pairs_lines:
  "pairs_ok ps \<Longrightarrow>
   parse_pairs m (split (pair_lines ps) nl) = Inr (fold (\<lambda>(k, i). AList.update k i) ps m)"
proof (induction ps arbitrary: m)
  case (Cons p ps)
  then show ?case by (cases p) (simp del: pair_lines_simps)
qed simp

lemma fold_update_fresh:
  "wf_map (m @ ps) \<Longrightarrow> fold (\<lambda>(k, i). AList.update k i) ps m = m @ ps"
proof (induction ps arbitrary: m)
  case (Cons p ps)
  obtain k i where p: "p = (k, i)" by (cases p)
  have "map_of m k = None"
    using Cons.prems p by (auto simp: wf_map_def map_of_eq_None_iff)
  then show ?case using Cons p by (simp add: update_fresh)
qed simp

lemma parse_metadata:
  "wf_map ps \<Longrightarrow> pairs_ok ps \<Longrightarrow> parse_pairs [] (split (pair_lines ps) nl) = Inr ps"
  by (simp add: parse_pairs_lines fold_update_fresh)

section \<open>Counting deletions\<close>

lemma del_count_add [simp]:
  "del_count (add_del k i d) j l = del_count d j l + (if j = i \<and> l = k then 1 else 0)"
  by (auto simp: del_count_def add_del_def Let_def split: option.splits)

lemma wf_add_del [simp]: "wf_map d \<Longrightarrow> wf_map (add_del k i d)"
  by (simp add: add_del_def Let_def)

lemma dom_add_del: "fst ` set (add_del k i d) = insert i (fst ` set d)"
  by (simp add: add_del_def Let_def dom_update)

lemma parse_dels_lines:
  assumes "pairs_ok ps"
  shows "\<exists>d'. parse_dels d (split (pair_lines ps) nl) = Inr d' \<and>
    (wf_map d \<longrightarrow> wf_map d') \<and> fst ` set d' = fst ` set d \<union> snd ` set ps \<and>
    (\<forall>i k. del_count d' i k = del_count d i k + count_list ps (k, i))"
  using assms
proof (induction ps arbitrary: d)
  case (Cons p ps)
  obtain k i where p: "p = (k, i)" by (cases p)
  obtain d' where "parse_dels (add_del k i d) (split (pair_lines ps) nl) = Inr d'"
      "wf_map (add_del k i d) \<longrightarrow> wf_map d'"
      "fst ` set d' = fst ` set (add_del k i d) \<union> snd ` set ps"
      "\<forall>j l. del_count d' j l = del_count (add_del k i d) j l + count_list ps (l, j)"
    using Cons.IH [of "add_del k i d"] Cons.prems p by auto
  then show ?case
    using Cons.prems p by (intro exI [of _ d']) (auto simp: dom_add_del simp del: pair_lines_simps)
qed simp

definition mp_count :: "(string, nat) cmap \<Rightarrow> string \<Rightarrow> nat" where
  "mp_count mp k = (case map_of mp k of None \<Rightarrow> 0 | Some n \<Rightarrow> n)"

lemma mp_count_update [simp]:
  "mp_count (AList.update l n mp) k = (if k = l then n else mp_count mp k)"
  by (simp add: mp_count_def)

lemma erase_listed_Cons:
  "erase_listed mp ((k, v) # kvs) =
     (if 0 < mp_count mp k then erase_listed (AList.update k (mp_count mp k - 1) mp) kvs
      else (k, v) # erase_listed (AList.update k 0 mp) kvs)"
proof (cases "map_of mp k")
  case (Some n)
  have "AList.update k n mp = mp"
    using Some by (induction mp) auto
  then show ?thesis using Some by (auto simp: mp_count_def)
qed (simp add: mp_count_def)

lemma erase_listed_count:
  "count_list (map fst (erase_listed mp rs)) k = count_list (map fst rs) k - mp_count mp k"
proof (induction rs arbitrary: mp)
  case (Cons p rs)
  then show ?case by (cases p) (auto simp: erase_listed_Cons simp del: erase_listed.simps(2))
qed simp

lemma erase_listed_last:
  "mp_count mp k < count_list (map fst rs) k \<Longrightarrow>
   last_value (erase_listed mp rs) k = last_value rs k"
proof (induction rs arbitrary: mp)
  case (Cons p rs)
  obtain l v where p: "p = (l, v)" by (cases p)
  show ?case
  proof (cases "l = k")
    case False
    then show ?thesis
      using Cons p
      by (auto simp: erase_listed_Cons simp del: erase_listed.simps(2) split: option.splits)
  next
    case True
    show ?thesis
    proof (cases "0 < mp_count mp k")
      case pos: True
      then have "mp_count mp k - 1 < count_list (map fst rs) k"
        using Cons.prems p True by auto
      moreover from this have "last_value rs k \<noteq> None"
        by (simp add: last_value_count)
      ultimately show ?thesis
        using Cons.IH [of "AList.update k (mp_count mp k - 1) mp"] p True pos
        by (auto simp: erase_listed_Cons simp del: erase_listed.simps(2))
    next
      case zero: False
      show ?thesis
      proof (cases "count_list (map fst rs) k = 0")
        case none: True
        then have "last_value (erase_listed (AList.update k 0 mp) rs) k = None"
            "last_value rs k = None"
          by (simp_all add: last_value_count erase_listed_count)
        then show ?thesis
          using p True zero by (simp add: erase_listed_Cons del: erase_listed.simps(2))
      next
        case some: False
        then show ?thesis
          using Cons.IH [of "AList.update k 0 mp"] p True zero
          by (simp add: erase_listed_Cons del: erase_listed.simps(2))
      qed
    qed
  qed
qed simp

lemma erase_listed_ok: "records_ok rs \<Longrightarrow> records_ok (erase_listed mp rs)"
proof (induction rs arbitrary: mp)
  case (Cons p rs)
  then show ?case by (cases p) (auto simp: erase_listed_Cons simp del: erase_listed.simps(2))
qed simp

section \<open>The invariant\<close>

text \<open>Paths directly inside a folder, and what it takes for all of them to be writable.\<close>

definition folder_ok :: "fsys \<Rightarrow> string \<Rightarrow> bool" where
  "folder_ok fs f =
     (strip_slash f = f \<and> f \<in> set (dirs fs) \<and> (\<forall>q. f @ CHR ''/'' # q \<notin> set (dirs fs)))"

lemma slash_notin_nat_str: "CHR ''/'' \<notin> set (nat_str n)"
  using nat_str_digits [of n] by (auto simp: is_digit_def)

lemma folder_can_open [simp]:
  assumes "folder_ok fs f"
  shows "can_open (chunk_path f i) fs" "can_open (index_path f) fs"
    "can_open (meta_path f) fs" "can_open (delete_path f) fs"
  using assms
  by (simp_all add: can_open_def folder_ok_def chunk_path_def index_path_def meta_path_def
      delete_path_def slash_notin_nat_str)

lemma folder_ok_dirs: "dirs fs' = dirs fs \<Longrightarrow> folder_ok fs' f = folder_ok fs f"
  by (simp add: folder_ok_def)

lemma paths_distinct [simp]:
  "chunk_path f i = chunk_path f j \<longleftrightarrow> i = j"
  "chunk_path f i \<noteq> index_path f" "chunk_path f i \<noteq> meta_path f" "chunk_path f i \<noteq> delete_path f"
  "index_path f \<noteq> chunk_path f i" "meta_path f \<noteq> chunk_path f i" "delete_path f \<noteq> chunk_path f i"
  "index_path f \<noteq> meta_path f" "index_path f \<noteq> delete_path f" "meta_path f \<noteq> index_path f"
  "meta_path f \<noteq> delete_path f" "delete_path f \<noteq> index_path f" "delete_path f \<noteq> meta_path f"
  by (auto simp: chunk_path_def index_path_def meta_path_def delete_path_def)

lemma below_delete [simp]:
  "below (delete_path f) (chunk_path f i) = False" "below (delete_path f) (index_path f) = False"
  "below (delete_path f) (meta_path f) = False" "below (delete_path f) (delete_path f)"
  by (auto simp: below_def is_prefix_iff chunk_path_def index_path_def meta_path_def delete_path_def)

definition store_inv :: "fsys \<Rightarrow> chunk \<Rightarrow> (nat \<Rightarrow> (string \<times> string) list) \<Rightarrow> bool" where
  "store_inv fs c recs \<longleftrightarrow>
     folder_ok fs (folder c) \<and>
     (\<forall>i. content fs (chunk_path (folder c) i) = ser_records (recs i) \<and> records_ok (recs i)) \<and>
     wf_map (metadata c) \<and>
     (\<forall>(k, i) \<in> set (metadata c). nl \<notin> set k \<and> i \<le> append_index c) \<and>
     (\<forall>(k, i) \<in> set (del_list c). nl \<notin> set k \<and> i \<le> append_index c) \<and>
     (\<forall>k i. map_of (metadata c) k = Some i \<longrightarrow>
        count_list (del_list c) (k, i) < count_list (map fst (recs i)) k) \<and>
     current_size c < 2 ^ 64"

definition chunk_lookup :: "chunk \<Rightarrow> (nat \<Rightarrow> (string \<times> string) list) \<Rightarrow> string \<Rightarrow> string option" where
  "chunk_lookup c recs k =
     (case map_of (metadata c) k of None \<Rightarrow> None | Some i \<Rightarrow> last_value (recs i) k)"

lemma store_invD:
  assumes "store_inv fs c recs"
  shows "folder_ok fs (folder c)" "content fs (chunk_path (folder c) i) = ser_records (recs i)"
    "records_ok (recs i)" "wf_map (metadata c)" "current_size c < 2 ^ 64"
    "map_of (metadata c) k = Some i \<Longrightarrow>
       count_list (del_list c) (k, i) < count_list (map fst (recs i)) k"
    "map_of (metadata c) k = Some i \<Longrightarrow> nl \<notin> set k \<and> i \<le> append_index c"
  using assms by (auto simp: store_inv_def dest: map_of_SomeD)

text \<open>Reading a value follows the map.\<close>

lemma get_value_lookup:
  assumes "store_inv fs c recs"
  shows "get_value k v0 fs c = Inr (case chunk_lookup c recs k of
      None \<Rightarrow> (KEY_ERROR, v0) | Some v \<Rightarrow> (FINISHED, v))"
proof (cases "map_of (metadata c) k")
  case None
  then show ?thesis by (simp add: get_value_def chunk_lookup_def)
next
  case (Some i)
  have pos: "last_value (recs i) k \<noteq> None"
    using store_invD(6) [OF assms Some] by (simp add: last_value_count)
  then have "recs i \<noteq> []"
    by auto
  then have "read_file (chunk_path (folder c) i) fs = Some (ser_records (recs i))"
    using store_invD(2) [OF assms, of i]
    by (auto simp: content_read split: option.splits dest!: sym [of "[]"])
  then show ?thesis
    using pos store_invD(3) [OF assms, of i] Some
    by (auto simp: get_value_def chunk_lookup_def get_loop_records)
qed

section \<open>The append loop\<close>

lemma count_list_append1: "count_list (xs @ [x]) y = count_list xs y + (if x = y then 1 else 0)"
  by simp

lemma mark_deleted_sel [simp]:
  "append_index (mark_deleted k c) = append_index c" "folder (mark_deleted k c) = folder c"
  "metadata (mark_deleted k c) = metadata c" "current_size (mark_deleted k c) = current_size c"
  "del_list (mark_deleted k c) =
     del_list c @ [(k, case map_of (metadata c) k of None \<Rightarrow> 0 | Some i \<Rightarrow> i)]"
  by (simp_all add: mark_deleted_def)

lemma delete_step_inv:
  assumes inv: "store_inv fs c recs" and k: "nl \<notin> set k"
    and st: "append_step k [] (fs, c) = (fs', c')"
  shows "fs' = fs \<and> store_inv fs c' recs \<and>
    chunk_lookup c' recs = (chunk_lookup c recs)(k := None) \<and> append_index c' = append_index c"
proof -
  have c': "c' = (mark_deleted k c)\<lparr>metadata := AList.delete k (metadata c)\<rparr>" "fs' = fs"
    using st by (simp_all add: append_step_def)
  have le: "(case map_of (metadata c) k of None \<Rightarrow> 0 | Some i \<Rightarrow> i) \<le> append_index c"
    using store_invD(7) [OF inv] by (auto split: option.splits)
  have sub: "set (AList.delete k (metadata c)) \<subseteq> set (metadata c)"
    by (auto simp: AList.delete_eq)
  have "store_inv fs c' recs"
    using inv k le sub unfolding store_inv_def c' by (auto split: if_splits)
  then show ?thesis
    by (auto simp: c' chunk_lookup_def fun_eq_iff)
qed

text \<open>Writing one record: the chunk that is being appended to gets it at its end.\<close>

lemma put_step_inv:
  assumes inv: "store_inv fs c recs" and k: "nl \<notin> set k" and v: "v \<noteq> []" "length v < 2 ^ 63"
    and fresh: "\<forall>i. (k, i) \<notin> set (del_list c)"
    and st: "append_step k v (fs, c) = (fs', c')"
  defines "recs' \<equiv> recs(append_index c := recs (append_index c) @ [(k, v)])"
  shows "store_inv fs' c' recs' \<and> chunk_lookup c' recs' = (chunk_lookup c recs)(k \<mapsto> v)"
proof -
  let ?a = "append_index c" and ?path = "chunk_path (folder c) (append_index c)"
  define fs1 where "fs1 = snd (append_file ?path (append_kv k v) fs)"
  define c1 where "c1 = (if map_of (metadata c) k \<noteq> None then mark_deleted k c else c)"
  note D = store_invD [OF inv]
  have fok: "folder_ok fs (folder c)"
    using D(1) .
  have fok1: "folder_ok fs1 (folder c)"
    using fok by (simp add: fs1_def folder_ok_def)
  have cont1: "content fs1 (chunk_path (folder c) i) = ser_records (recs' i)" for i
    using D(2) [of i] D(2) [of "append_index c"] fok by (simp add: fs1_def recs'_def append_kv_def)
  have fs': "folder_ok fs' (folder c)" "content fs' (chunk_path (folder c) i) = ser_records (recs' i)" for i
    using st fok1 cont1 v(1) by (auto simp: append_step_def Let_def fs1_def [symmetric] folder_ok_def split: if_splits)
  have c': "folder c' = folder c" "metadata c' = AList.update k ?a (metadata c)"
      "del_list c' = del_list c1" "append_index c \<le> append_index c'" "current_size c' \<le> SIZE_LIMIT"
    using st v(1) by (auto simp: append_step_def Let_def c1_def split: if_splits)
  have rok: "records_ok (recs' i)" for i
    using D(3) [of i] D(3) [of "append_index c"] k v by (simp add: recs'_def)
  have dels0: "\<forall>(l, i) \<in> set (del_list c). nl \<notin> set l \<and> i \<le> append_index c"
    and metas0: "\<forall>(l, i) \<in> set (metadata c). nl \<notin> set l \<and> i \<le> append_index c"
    using inv by (simp_all add: store_inv_def)
  have dels: "\<forall>(l, i) \<in> set (del_list c1). nl \<notin> set l \<and> i \<le> append_index c'"
  proof (cases "map_of (metadata c) k")
    case None
    then show ?thesis using dels0 c'(4) by (auto simp: c1_def)
  next
    case (Some j)
    then show ?thesis using dels0 c'(4) k D(7) [OF Some] by (auto simp: c1_def)
  qed
  have metas: "\<forall>(l, i) \<in> set (metadata c'). nl \<notin> set l \<and> i \<le> append_index c'"
  proof
    fix p
    assume p: "p \<in> set (metadata c')"
    obtain l i where "p = (l, i)" by (cases p)
    moreover from this p have "map_of (metadata c') l = Some i"
      using D(4) c'(2) by (intro map_of_is_SomeI) (simp_all add: wf_map_def distinct_update)
    ultimately show "case p of (l, i) \<Rightarrow> nl \<notin> set l \<and> i \<le> append_index c'"
      using k c'(2,4) D(7) [of l i] by (auto split: if_splits)
  qed
  have cnt: "count_list (del_list c1) (l, i) < count_list (map fst (recs' i)) l"
    if "map_of (metadata c') l = Some i" for l i
  proof (cases "l = k")
    case True
    then have i: "i = ?a"
      using that c'(2) by simp
    have z: "count_list (del_list c) (k, j) = 0" for j
      using fresh by (simp add: count_list_0_iff)
    show ?thesis
      using True i z D(6) [of k] by (auto simp: recs'_def c1_def)
  next
    case False
    then show ?thesis
      using that c'(2) D(6) [of l i] by (auto simp: recs'_def c1_def)
  qed
  have "store_inv fs' c' recs'"
    using fs' rok dels metas cnt c' D(4) unfolding store_inv_def
    by (auto simp: SIZE_LIMIT_def)
  moreover have "chunk_lookup c' recs' = (chunk_lookup c recs)(k \<mapsto> v)"
    by (auto simp: fun_eq_iff chunk_lookup_def c'(2) recs'_def split: option.splits)
  ultimately show ?thesis by blast
qed

text \<open>What a batch of updates does to a map: an empty value deletes the key.\<close>

definition batch :: "(string \<Rightarrow> string option) \<Rightarrow> (string, string) cmap \<Rightarrow> string \<Rightarrow> string option" where
  "batch m mp k = (case map_of mp k of
      None \<Rightarrow> m k | Some v \<Rightarrow> if v = [] then None else Some v)"

definition batch_ok :: "(string, string) cmap \<Rightarrow> bool" where
  "batch_ok mp \<longleftrightarrow> wf_map mp \<and> (\<forall>(k, v) \<in> set mp. nl \<notin> set k \<and> length v < 2 ^ 63)"

lemma batch_Cons:
  "map_of mp k = None \<Longrightarrow>
   batch m ((k, v) # mp) = batch (m(k := (if v = [] then None else Some v))) mp"
  by (auto simp: batch_def fun_eq_iff split: option.splits)

text \<open>Steps touch the files of the chunks only, and add at most one chunk each.\<close>

lemma append_step_frame:
  assumes "append_step k v (fs, c) = (fs', c')" "folder_ok fs (folder c)"
  shows "folder c' = folder c" "append_index c' \<le> append_index c + 1"
    "dirs fs' = dirs fs" "\<forall>i. q \<noteq> chunk_path (folder c) i \<Longrightarrow> read_file q fs' = read_file q fs"
    "fst ` set (del_list c') \<subseteq> insert k (fst ` set (del_list c))"
proof -
  have fok1: "folder_ok (snd (append_file p s fs)) (folder c)" for p s
    using assms(2) by (simp add: folder_ok_def)
  show "folder c' = folder c" "append_index c' \<le> append_index c + 1"
    "dirs fs' = dirs fs" "\<forall>i. q \<noteq> chunk_path (folder c) i \<Longrightarrow> read_file q fs' = read_file q fs"
    "fst ` set (del_list c') \<subseteq> insert k (fst ` set (del_list c))"
    using assms(1) folder_can_open [OF assms(2)] folder_can_open [OF fok1]
    by (auto simp: append_step_def Let_def split: if_splits)
qed

lemma append_loop_inv:
  assumes "store_inv fs c recs" "batch_ok mp" "\<forall>q \<in> set mp. fst q \<notin> fst ` set (del_list c)"
    and "append_loop mp (fs, c) = (fs', c')"
  shows "\<exists>recs'. store_inv fs' c' recs' \<and> chunk_lookup c' recs' = batch (chunk_lookup c recs) mp \<and>
    folder c' = folder c \<and> append_index c' \<le> append_index c + length mp \<and> dirs fs' = dirs fs \<and>
    (\<forall>q. (\<forall>i. q \<noteq> chunk_path (folder c) i) \<longrightarrow> read_file q fs' = read_file q fs)"
  using assms
proof (induction mp arbitrary: fs c recs)
  case Nil
  then show ?case by (auto simp: batch_def)
next
  case (Cons p mp)
  obtain k v where p: "p = (k, v)" by (cases p)
  obtain fs1 c1 where st: "append_step k v (fs, c) = (fs1, c1)"
    by (cases "append_step k v (fs, c)")
  have ok: "nl \<notin> set k" "length v < 2 ^ 63" "batch_ok mp" "map_of mp k = None"
    using Cons.prems(2) p by (auto simp: batch_ok_def wf_map_Cons)
  have fresh: "k \<notin> fst ` set (del_list c)"
    using Cons.prems(3) p by auto
  obtain recs1 where r1: "store_inv fs1 c1 recs1"
      "chunk_lookup c1 recs1 = (chunk_lookup c recs)(k := (if v = [] then None else Some v))"
  proof (cases "v = []")
    case True
    then have st0: "append_step k [] (fs, c) = (fs1, c1)"
      using st by simp
    show thesis
      using delete_step_inv [OF Cons.prems(1) ok(1) st0] True by (intro that [of recs]) simp_all
  next
    case False
    have "\<forall>i. (k, i) \<notin> set (del_list c)"
      using fresh by force
    note P = put_step_inv [OF Cons.prems(1) ok(1) False ok(2) this st]
    show thesis
      using that [OF P [THEN conjunct1]] P [THEN conjunct2] False by simp
  qed
  note fr = append_step_frame [OF st store_invD(1) [OF Cons.prems(1)]]
  have "\<forall>q \<in> set mp. fst q \<notin> fst ` set (del_list c1)"
  proof
    fix q
    assume q: "q \<in> set mp"
    then have "fst q \<noteq> k" "fst q \<notin> fst ` set (del_list c)"
      using Cons.prems(3) ok(4) by (auto simp: map_of_eq_None_iff)
    then show "fst q \<notin> fst ` set (del_list c1)"
      using fr(5) by blast
  qed
  then obtain recs' where F: "store_inv fs' c' recs'"
      "chunk_lookup c' recs' = batch (chunk_lookup c1 recs1) mp"
      "folder c' = folder c1" "append_index c' \<le> append_index c1 + length mp" "dirs fs' = dirs fs1"
      "\<forall>q. (\<forall>i. q \<noteq> chunk_path (folder c1) i) \<longrightarrow> read_file q fs' = read_file q fs1"
    using Cons.IH [OF r1(1) ok(3)] Cons.prems(4) p st by auto
  show ?case
  proof (intro exI conjI allI impI)
    show "store_inv fs' c' recs'"
      by (rule F(1))
    show "chunk_lookup c' recs' = batch (chunk_lookup c recs) (p # mp)"
      by (simp add: F(2) r1(2) p batch_Cons [OF ok(4)])
    show "folder c' = folder c" "dirs fs' = dirs fs"
      using F(3,5) fr(1,3) by simp_all
    show "append_index c' \<le> append_index c + length (p # mp)"
      using F(4) fr(2) by simp
    show "read_file q fs' = read_file q fs" if "\<forall>i. q \<noteq> chunk_path (folder c) i" for q
      using F(6) fr(1) fr(4) [OF that] that by simp
  qed
qed

section \<open>Lazy deletion\<close>

definition erased :: "del_map \<Rightarrow> (nat \<Rightarrow> (string \<times> string) list) \<Rightarrow> nat \<Rightarrow> (string \<times> string) list" where
  "erased d recs i = (case map_of d i of None \<Rightarrow> recs i | Some mp \<Rightarrow> erase_listed mp (recs i))"

lemma rewrite_chunks_records:
  assumes "folder_ok fs f" "wf_map d"
    and "\<forall>i. content fs (chunk_path f i) = ser_records (recs i) \<and> records_ok (recs i)"
  shows "\<exists>fs'. rewrite_chunks f d fs = Inr fs' \<and> dirs fs' = dirs fs \<and>
    (\<forall>i. content fs' (chunk_path f i) = ser_records (erased d recs i)) \<and>
    (\<forall>q. (\<forall>i. q \<noteq> chunk_path f i) \<longrightarrow> read_file q fs' = read_file q fs)"
  using assms
proof (induction d arbitrary: fs recs)
  case Nil
  then show ?case by (simp add: erased_def)
next
  case (Cons p d)
  obtain i mp where p: "p = (i, mp)" by (cases p)
  let ?fs = "snd (write_file (chunk_path f i) (ser_records (erase_listed mp (recs i))) fs)"
  let ?recs = "recs(i := erase_listed mp (recs i))"
  have load: "load_chunk (chunk_path f i) fs = Inr (recs i)"
    using Cons.prems(3) by (simp add: load_chunk_content load_loop_records)
  have fok: "folder_ok ?fs f"
    using Cons.prems(1) by (simp add: folder_ok_def)
  have wf: "wf_map d" "map_of d i = None"
    using Cons.prems(2) p by (simp_all add: wf_map_Cons)
  have c: "\<forall>j. content ?fs (chunk_path f j) = ser_records (?recs j) \<and> records_ok (?recs j)"
    using Cons.prems(1,3) by (simp add: erase_listed_ok)
  obtain fs' where "rewrite_chunks f d ?fs = Inr fs'" "dirs fs' = dirs ?fs"
      "\<forall>j. content fs' (chunk_path f j) = ser_records (erased d ?recs j)"
      "\<forall>q. (\<forall>j. q \<noteq> chunk_path f j) \<longrightarrow> read_file q fs' = read_file q ?fs"
    using Cons.IH [OF fok wf(1) c] by blast
  moreover have "erased d ?recs j = erased (p # d) recs j" for j
    using wf(2) p by (auto simp: erased_def split: option.splits)
  ultimately show ?case
    using p load Cons.prems(1) by simp
qed

lemma erased_last_value:
  assumes "del_count d i k < count_list (map fst (recs i)) k"
  shows "last_value (erased d recs i) k = last_value (recs i) k \<and>
    0 < count_list (map fst (erased d recs i)) k"
proof (cases "map_of d i")
  case None
  then show ?thesis using assms by (simp add: erased_def del_count_def)
next
  case (Some mp)
  then have "mp_count mp k < count_list (map fst (recs i)) k"
    using assms by (simp add: del_count_def mp_count_def)
  then show ?thesis
    using Some by (simp add: erased_def erase_listed_last erase_listed_count)
qed

lemma erase_listed_shorter: "length (ser_records (erase_listed mp rs)) \<le> length (ser_records rs)"
proof (induction rs arbitrary: mp)
  case (Cons p rs)
  then show ?case
    by (cases p) (auto simp: erase_listed_Cons ser_records_def trans_le_add2 simp del: erase_listed.simps(2))
qed simp

lemma erased_shorter: "length (ser_records (erased d recs i)) \<le> length (ser_records (recs i))"
  by (auto simp: erased_def erase_listed_shorter split: option.splits)

lemma erased_ok: "records_ok (recs i) \<Longrightarrow> records_ok (erased d recs i)"
  by (auto simp: erased_def erase_listed_ok split: option.splits)

section \<open>A checkpoint of one user\<close>

lemma folder_remove [simp]:
  assumes "folder_ok fs f"
  shows "dirs (snd (remove_file (delete_path f) fs)) = dirs fs"
proof -
  have "\<not> below (delete_path f) d" if "d \<in> set (dirs fs)" for d
    using assms that by (auto simp: below_def is_prefix_iff folder_ok_def delete_path_def)
  then show ?thesis
    by (auto simp: remove_file_def intro!: filter_True)
qed

lemma append_empty [simp]:
  "content (snd (append_file p [] fs)) q = content fs q"
  "dirs (snd (append_file p [] fs)) = dirs fs"
  by (auto simp: append_file_def content_def)

lemma append_read_other:
  "q \<noteq> p \<Longrightarrow> read_file q (snd (append_file p s fs)) = read_file q fs"
  by (simp add: append_file_def read_file_def)

lemma store_inv_content:
  "store_inv fs c recs \<Longrightarrow> dirs fs' = dirs fs \<Longrightarrow>
   (\<And>i. content fs' (chunk_path (folder c) i) = content fs (chunk_path (folder c) i)) \<Longrightarrow>
   store_inv fs' c recs"
  by (simp add: store_inv_def folder_ok_def)

lemma write_meta_files:
  assumes "folder_ok fs (folder c)"
  shows "dirs (write_meta_back c fs) = dirs fs"
    "read_file (index_path (folder c)) (write_meta_back c fs) =
       Some (nat_str (append_index c) @ [nl] @ nat_str (current_size c))"
    "read_file (meta_path (folder c)) (write_meta_back c fs) = Some (pair_lines (metadata c))"
    "read_file (delete_path (folder c)) (write_meta_back c fs) =
       Some (content fs (delete_path (folder c)) @ pair_lines (del_list c))"
    "q \<notin> {index_path (folder c), meta_path (folder c), delete_path (folder c)} \<Longrightarrow>
       read_file q (write_meta_back c fs) = read_file q fs"
proof -
  have ok: "can_open p (snd (write_file p' s fs)) = can_open p fs"
    "can_open p (snd (write_file p'' s'' (snd (write_file p' s fs)))) = can_open p fs" for p p' s p'' s''
    by (simp_all add: can_open_def)
  show "dirs (write_meta_back c fs) = dirs fs"
    by (simp add: write_meta_back_def Let_def)
  show "read_file (index_path (folder c)) (write_meta_back c fs) =
       Some (nat_str (append_index c) @ [nl] @ nat_str (current_size c))"
    "read_file (meta_path (folder c)) (write_meta_back c fs) = Some (pair_lines (metadata c))"
    "read_file (delete_path (folder c)) (write_meta_back c fs) =
       Some (content fs (delete_path (folder c)) @ pair_lines (del_list c))"
    "q \<notin> {index_path (folder c), meta_path (folder c), delete_path (folder c)} \<Longrightarrow>
       read_file q (write_meta_back c fs) = read_file q fs"
    using assms by (simp_all add: write_meta_back_def Let_def ok)
qed

text \<open>No chunk of the second file system is longer than in the first one.\<close>

definition no_longer :: "string \<Rightarrow> fsys \<Rightarrow> fsys \<Rightarrow> bool" where
  "no_longer f fs fs' \<longleftrightarrow> (\<forall>i. length (content fs' (chunk_path f i)) \<le> length (content fs (chunk_path f i)))"

lemma lazy_delete_store:
  assumes inv: "store_inv fs c recs" and bound: "append_index c < 2 ^ 64"
    and dl: "read_file (delete_path (folder c)) fs = Some (pair_lines (del_list c))"
  shows "\<exists>fs' recs'. lazy_delete c fs = Inr (True, fs') \<and> store_inv fs' (c\<lparr>del_list := []\<rparr>) recs' \<and>
    chunk_lookup c recs' = chunk_lookup c recs \<and> dirs fs' = dirs fs \<and>
    read_file (delete_path (folder c)) fs' = None \<and>
    (\<forall>q. (\<forall>i. q \<noteq> chunk_path (folder c) i) \<and> \<not> below (delete_path (folder c)) q \<longrightarrow>
       read_file q fs' = read_file q fs) \<and> no_longer (folder c) fs fs'"
proof -
  let ?f = "folder c"
  note D = store_invD [OF inv]
  have "pairs_ok (del_list c)"
    using inv bound by (fastforce simp: store_inv_def pairs_ok_def)
  from parse_dels_lines [OF this, of "[]"] obtain d where d:
      "parse_dels [] (split (pair_lines (del_list c)) nl) = Inr d" "wf_map d"
      "\<forall>i k. del_count d i k = count_list (del_list c) (k, i)"
    by (auto simp: del_count_def)
  have cont: "\<forall>i. content fs (chunk_path ?f i) = ser_records (recs i) \<and> records_ok (recs i)"
    using D(2,3) by blast
  obtain fs1 where r: "rewrite_chunks ?f d fs = Inr fs1" "dirs fs1 = dirs fs"
      "\<forall>i. content fs1 (chunk_path ?f i) = ser_records (erased d recs i)"
      "\<forall>q. (\<forall>i. q \<noteq> chunk_path ?f i) \<longrightarrow> read_file q fs1 = read_file q fs"
    using rewrite_chunks_records [OF D(1) d(2) cont] by blast
  let ?fs' = "snd (remove_file (delete_path ?f) fs1)"
  have fok: "folder_ok fs1 ?f"
    using D(1) r(2) by (simp add: folder_ok_def)
  have keep: "last_value (erased d recs i) k = last_value (recs i) k \<and>
      0 < count_list (map fst (erased d recs i)) k" if "map_of (metadata c) k = Some i" for k i
    using D(6) [OF that] d(3) by (intro erased_last_value) simp
  have "store_inv ?fs' (c\<lparr>del_list := []\<rparr>) (erased d recs)"
    using inv fok r(3) keep D(3) folder_remove [OF fok] unfolding store_inv_def
    by (simp add: erased_ok folder_ok_def)
  moreover have "chunk_lookup c (erased d recs) = chunk_lookup c recs"
    using keep by (auto simp: chunk_lookup_def fun_eq_iff split: option.splits)
  moreover have "dirs ?fs' = dirs fs"
    using folder_remove [OF fok] r(2) by simp
  moreover have "lazy_delete c fs = Inr (True, ?fs')"
    by (simp add: lazy_delete_def dl d(1) r(1))
  moreover have "no_longer ?f fs ?fs'"
    using r(3) D(2) by (simp add: no_longer_def erased_shorter)
  ultimately show ?thesis
    using r(4) by (intro exI [of _ ?fs'] exI [of _ "erased d recs"]) simp
qed

text \<open>How the files of the chunks came about: by the loop of \<open>append_kvs\<close>, and by deletions.\<close>

definition appended :: "(string, string) cmap \<Rightarrow> fsys \<Rightarrow> chunk \<Rightarrow> fsys \<Rightarrow> chunk \<Rightarrow> bool" where
  "appended mp fs c fs' c' \<longleftrightarrow> (\<exists>fs0 fs1. append_loop mp (fs0, c) = (fs1, c') \<and> dirs fs0 = dirs fs \<and>
     (\<forall>i. content fs0 (chunk_path (folder c) i) = content fs (chunk_path (folder c) i)) \<and> no_longer (folder c) fs1 fs')"

lemma append_kvs_store:
  assumes inv: "store_inv fs c recs" and nodel: "del_list c = []"
    and nofile: "read_file (delete_path (folder c)) fs = None"
    and mp: "batch_ok mp" and bound: "append_index c + length mp < 2 ^ 64"
  shows "\<exists>fs' c' recs'. append_kvs mp fs c = Inr (FINISHED, fs', c') \<and>
    store_inv fs' (c'\<lparr>del_list := []\<rparr>) recs' \<and> folder c' = folder c \<and>
    append_index c' \<le> append_index c + length mp \<and>
    chunk_lookup c' recs' = batch (chunk_lookup c recs) mp \<and> dirs fs' = dirs fs \<and>
    read_file (delete_path (folder c)) fs' = None \<and>
    read_file (index_path (folder c)) fs' =
      Some (nat_str (append_index c') @ [nl] @ nat_str (current_size c')) \<and>
    read_file (meta_path (folder c)) fs' = Some (pair_lines (metadata c')) \<and>
    (\<forall>q. \<not> is_prefix (folder c @ ''/'') q \<longrightarrow> read_file q fs' = read_file q fs) \<and>
    appended mp fs c fs' c'"
proof -
  let ?f = "folder c"
  define fs0 where "fs0 = snd (append_file (chunk_path ?f (append_index c)) [] fs)"
  have inv0: "store_inv fs0 c recs"
    by (rule store_inv_content [OF inv]) (simp_all add: fs0_def)
  obtain fs1 c1 where l: "append_loop mp (fs0, c) = (fs1, c1)"
    by (cases "append_loop mp (fs0, c)")
  have "\<forall>q \<in> set mp. fst q \<notin> fst ` set (del_list c)"
    by (simp add: nodel)
  from append_loop_inv [OF inv0 mp this l] obtain recs1 where L: "store_inv fs1 c1 recs1"
      "chunk_lookup c1 recs1 = batch (chunk_lookup c recs) mp" "folder c1 = ?f"
      "append_index c1 \<le> append_index c + length mp" "dirs fs1 = dirs fs0"
      "\<forall>q. (\<forall>i. q \<noteq> chunk_path ?f i) \<longrightarrow> read_file q fs1 = read_file q fs0"
    by blast
  define fs2 where "fs2 = write_meta_back c1 fs1"
  have rd0: "q \<noteq> chunk_path ?f (append_index c) \<Longrightarrow> read_file q fs0 = read_file q fs" for q
    by (simp add: fs0_def append_read_other)
  have fok1: "folder_ok fs1 (folder c1)"
    using store_invD(1) [OF L(1)] .
  note W = write_meta_files [OF fok1, folded fs2_def, unfolded L(3)]
  have "content fs1 (delete_path ?f) = []"
    using L(6) rd0 nofile by (simp add: content_read)
  then have dl: "read_file (delete_path (folder c1)) fs2 = Some (pair_lines (del_list c1))"
    using W(4) L(3) by simp
  have inv2: "store_inv fs2 c1 recs1"
    using L(1) by (rule store_inv_content) (simp_all add: W(1,5) content_read L(3))
  have bound1: "append_index c1 < 2 ^ 64"
    using L(4) bound by linarith
  from lazy_delete_store [OF inv2 bound1 dl] obtain fs3 recs3 where Z:
      "lazy_delete c1 fs2 = Inr (True, fs3)" "store_inv fs3 (c1\<lparr>del_list := []\<rparr>) recs3"
      "chunk_lookup c1 recs3 = chunk_lookup c1 recs1" "dirs fs3 = dirs fs2"
      "read_file (delete_path ?f) fs3 = None"
      "\<forall>q. (\<forall>i. q \<noteq> chunk_path ?f i) \<and> \<not> below (delete_path ?f) q \<longrightarrow>
         read_file q fs3 = read_file q fs2" "no_longer ?f fs2 fs3"
    unfolding L(3) by blast
  have "append_kvs mp fs c = Inr (FINISHED, fs3, c1)"
    by (simp add: append_kvs_def fs0_def [symmetric] l fs2_def [symmetric] Z(1))
  moreover have "dirs fs3 = dirs fs"
    using Z(4) W(1) L(5) by (simp add: fs0_def)
  moreover have "read_file (index_path ?f) fs3 =
      Some (nat_str (append_index c1) @ [nl] @ nat_str (current_size c1))"
    "read_file (meta_path ?f) fs3 = Some (pair_lines (metadata c1))"
    using Z(6) W(2,3) by simp_all
  moreover have "read_file q fs3 = read_file q fs" if q: "\<not> is_prefix (?f @ ''/'') q" for q
  proof -
    have ne: "q \<noteq> ?f @ CHR ''/'' # r" for r
      using q by (auto simp: is_prefix_iff)
    have "\<forall>i. q \<noteq> chunk_path ?f i" "\<not> below (delete_path ?f) q"
      "q \<notin> {index_path ?f, meta_path ?f, delete_path ?f}"
      using ne by (auto simp: chunk_path_def index_path_def meta_path_def delete_path_def
          below_def is_prefix_iff)
    then show ?thesis
      using Z(6) W(5) [of q] L(6) rd0 [of q] by auto
  qed
  moreover have "no_longer ?f fs1 fs3"
    using Z(7) by (simp add: no_longer_def W(5) content_read)
  then have "appended mp fs c fs3 c1"
    using l unfolding appended_def by (intro exI [of _ fs0] exI [of _ fs1]) (simp add: fs0_def)
  ultimately show ?thesis
    using Z L by (intro exI [of _ fs3] exI [of _ c1] exI [of _ recs3]) simp
qed

section \<open>The store as a map on disk\<close>

definition disk_get :: "string \<Rightarrow> fsys \<Rightarrow> string \<Rightarrow> string \<Rightarrow> (kv_state \<times> string) res" where
  "disk_get prefix fs usr k =
     rbind (chunk_init prefix usr fs) (\<lambda>(s, c).
       if s \<noteq> FINISHED then Inr (s, []) else get_value k [] fs c)"

definition disk_view :: "string \<Rightarrow> fsys \<Rightarrow> string \<Rightarrow> string \<Rightarrow> string option" where
  "disk_view prefix fs usr k =
     (case disk_get prefix fs usr k of Inr (FINISHED, v) \<Rightarrow> Some v | _ \<Rightarrow> None)"

definition disk_ok :: "string \<Rightarrow> fsys \<Rightarrow> string \<Rightarrow> bool" where
  "disk_ok prefix fs usr \<longleftrightarrow>
     (\<exists>c recs. chunk_init prefix usr fs = Inr (FINISHED, c) \<and> store_inv fs c recs \<and>
        read_file (delete_path (prefix @ usr)) fs = None)"

lemma chunk_init_folder:
  "chunk_init prefix usr fs = Inr (s, c) \<Longrightarrow> folder c = prefix @ usr \<and> del_list c = []"
  by (auto simp: chunk_init_def blank_chunk_def Let_def rbind_eq_Inr split: if_splits)

lemma disk_view_lookup:
  assumes "chunk_init prefix usr fs = Inr (FINISHED, c)" "store_inv fs c recs"
  shows "disk_view prefix fs usr = chunk_lookup c recs"
  using assms(1) get_value_lookup [OF assms(2)]
  by (auto simp: disk_view_def disk_get_def fun_eq_iff split: option.splits)

lemma chunk_init_written:
  assumes inv: "store_inv fs (c\<lparr>del_list := []\<rparr>) recs" and f: "folder c = prefix @ usr"
    and b: "append_index c < 2 ^ 64"
    and i: "read_file (index_path (prefix @ usr)) fs =
      Some (nat_str (append_index c) @ [nl] @ nat_str (current_size c))"
    and m: "read_file (meta_path (prefix @ usr)) fs = Some (pair_lines (metadata c))"
  shows "\<exists>c'. chunk_init prefix usr fs = Inr (FINISHED, c') \<and> store_inv fs c' recs \<and>
    metadata c' = metadata c \<and> append_index c' = append_index c"
proof -
  note D = store_invD [OF inv]
  have ex: "exist_file (prefix @ usr) fs"
    using D(1) f by (simp add: exist_file_def folder_ok_def)
  have ok: "pairs_ok (metadata c)"
    using inv b by (fastforce simp: store_inv_def pairs_ok_def)
  have idx: "parse_index (split (nat_str (append_index c) @ [nl] @ nat_str (current_size c)) nl) =
      Inr (append_index c, current_size c)"
    using D(5) b by (simp add: parse_index_def)
  define c' where "c' = (blank_chunk prefix usr)
    \<lparr>append_index := append_index c, current_size := current_size c, metadata := metadata c\<rparr>"
  have "chunk_init prefix usr fs = Inr (FINISHED, c')"
    using ex i m idx parse_metadata [OF _ ok] D(4)
    by (simp add: chunk_init_def blank_chunk_def c'_def)
  moreover have "store_inv fs c' recs"
    using inv f by (simp add: store_inv_def c'_def blank_chunk_def)
  ultimately show ?thesis
    by (auto simp: c'_def)
qed

section \<open>Properties\<close>

lemma append_kvs_reopened:
  assumes ok: "disk_ok prefix fs usr" and c: "chunk_init prefix usr fs = Inr (FINISHED, c)"
    and mp: "batch_ok mp" and bound: "append_index c + length mp < 2 ^ 64"
  shows "\<exists>fs' c'. append_kvs mp fs c = Inr (FINISHED, fs', c') \<and> disk_ok prefix fs' usr \<and>
    disk_view prefix fs' usr = batch (disk_view prefix fs usr) mp \<and>
    dirs fs' = dirs fs \<and>
    (\<forall>q. \<not> is_prefix (prefix @ usr @ ''/'') q \<longrightarrow> read_file q fs' = read_file q fs) \<and>
    (\<exists>c''. chunk_init prefix usr fs' = Inr (FINISHED, c'') \<and> append_index c'' = append_index c') \<and>
    appended mp fs c fs' c'"
proof -
  obtain recs where inv: "store_inv fs c recs" "read_file (delete_path (prefix @ usr)) fs = None"
    using ok c by (auto simp: disk_ok_def)
  note f = chunk_init_folder [OF c]
  from append_kvs_store [OF inv(1) _ _ mp bound] f inv(2) obtain fs' c' recs' where K:
      "append_kvs mp fs c = Inr (FINISHED, fs', c')" "store_inv fs' (c'\<lparr>del_list := []\<rparr>) recs'"
      "folder c' = prefix @ usr" "append_index c' \<le> append_index c + length mp"
      "chunk_lookup c' recs' = batch (chunk_lookup c recs) mp" "dirs fs' = dirs fs"
      "read_file (delete_path (prefix @ usr)) fs' = None"
      "read_file (index_path (prefix @ usr)) fs' =
         Some (nat_str (append_index c') @ [nl] @ nat_str (current_size c'))"
      "read_file (meta_path (prefix @ usr)) fs' = Some (pair_lines (metadata c'))"
      "\<forall>q. \<not> is_prefix (prefix @ usr @ ''/'') q \<longrightarrow> read_file q fs' = read_file q fs"
      "appended mp fs c fs' c'"
    by auto
  have b: "append_index c' < 2 ^ 64"
    using K(4) bound by linarith
  obtain c'' where I: "chunk_init prefix usr fs' = Inr (FINISHED, c'')" "store_inv fs' c'' recs'"
      "metadata c'' = metadata c'" "append_index c'' = append_index c'"
    using chunk_init_written [OF K(2,3) b K(8,9)] by blast
  have "disk_view prefix fs' usr = chunk_lookup c' recs'"
    using disk_view_lookup [OF I(1,2)] I(3) by (auto simp: chunk_lookup_def fun_eq_iff)
  moreover have "disk_ok prefix fs' usr"
    using I(1,2) K(7) by (auto simp: disk_ok_def)
  moreover have "\<exists>c''. chunk_init prefix usr fs' = Inr (FINISHED, c'') \<and> append_index c'' = append_index c'"
    using I(1,4) by blast
  ultimately show ?thesis
    using K(1,5,6,10,11) disk_view_lookup [OF c inv(1)]
    by - (rule exI [of _ fs'], rule exI [of _ c'], simp)
qed

lemma append_kvs_disk:
  assumes "disk_ok prefix fs usr" "chunk_init prefix usr fs = Inr (FINISHED, c)"
    "batch_ok mp" "append_index c + length mp < 2 ^ 64"
  shows "\<exists>fs' c'. append_kvs mp fs c = Inr (FINISHED, fs', c') \<and> disk_ok prefix fs' usr \<and>
    disk_view prefix fs' usr = batch (disk_view prefix fs usr) mp \<and>
    dirs fs' = dirs fs \<and>
    (\<forall>q. \<not> is_prefix (prefix @ usr @ ''/'') q \<longrightarrow> read_file q fs' = read_file q fs)"
  using append_kvs_reopened [OF assms] by blast

text \<open>
  C18. A checkpoint of one user is a batch update of the map on disk.  For a well-formed user folder,
  any set of pending updates in any iteration order: \<open>append_kvs\<close> finishes without an exception;
  afterwards a freshly initialised \<open>Chunk\<close> reads, through the bytes of the files, exactly the old
  map with every updated key set to its new value and every key with an empty value deleted; the
  folder is well-formed again, and no file outside the folder changed.
\<close>

theorem append_kvs_updates_disk:
  assumes ok: "disk_ok prefix fs usr" and c: "chunk_init prefix usr fs = Inr (FINISHED, c)"
    and mp: "batch_ok mp" and bound: "append_index c + length mp < 2 ^ 64"
  shows "\<exists>fs' c'. append_kvs mp fs c = Inr (FINISHED, fs', c') \<and> disk_ok prefix fs' usr \<and>
    disk_view prefix fs' usr = batch (disk_view prefix fs usr) mp \<and>
    dirs fs' = dirs fs \<and>
    (\<forall>q. \<not> is_prefix (prefix @ usr @ ''/'') q \<longrightarrow> read_file q fs' = read_file q fs)"
  using assms by (rule append_kvs_disk)

text \<open>A new user's folder is well formed and empty.\<close>

lemma disk_ok_fresh:
  assumes "folder_ok fs (prefix @ usr)" "\<And>q. read_file (prefix @ usr @ CHR ''/'' # q) fs = None"
  shows "disk_ok prefix fs usr" "disk_view prefix fs usr = (\<lambda>_. None)"
    "chunk_init prefix usr fs = Inr (FINISHED, blank_chunk prefix usr)"
proof -
  have none: "read_file (chunk_path (prefix @ usr) i) fs = None"
    "read_file (index_path (prefix @ usr)) fs = None"
    "read_file (meta_path (prefix @ usr)) fs = None"
    "read_file (delete_path (prefix @ usr)) fs = None" for i
    using assms(2) by (simp_all add: chunk_path_def index_path_def meta_path_def delete_path_def)
  have "exist_file (prefix @ usr) fs"
    using assms(1) by (simp add: exist_file_def folder_ok_def)
  then show init: "chunk_init prefix usr fs = Inr (FINISHED, blank_chunk prefix usr)"
    by (simp add: chunk_init_def blank_chunk_def none)
  have inv: "store_inv fs (blank_chunk prefix usr) (\<lambda>_. [])"
    using assms(1) by (simp add: store_inv_def blank_chunk_def content_read none)
  then show "disk_ok prefix fs usr"
    using init none by (auto simp: disk_ok_def)
  show "disk_view prefix fs usr = (\<lambda>_. None)"
    using disk_view_lookup [OF init inv] by (simp add: chunk_lookup_def blank_chunk_def fun_eq_iff)
qed

definition example_fs :: fsys where
  "example_fs = \<lparr>files = [], dirs = [''/d'', ''/d/amy'']\<rparr>"

lemma example_fs_ok: "folder_ok example_fs (''/d/'' @ ''amy'')" "read_file p example_fs = None"
  by (simp_all add: example_fs_def folder_ok_def strip_slash_def read_file_def)

lemmas example_fresh = disk_ok_fresh [of example_fs "''/d/''" "''amy''", OF example_fs_ok]

theorem append_kvs_updates_disk_witness:
  "\<exists>fs' c'. append_kvs [(''pwd'', ''x''), (''old'', '''')] example_fs (blank_chunk ''/d/'' ''amy'') =
      Inr (FINISHED, fs', c') \<and> disk_view ''/d/'' fs' ''amy'' ''pwd'' = Some ''x''"
proof -
  have mp: "batch_ok [(''pwd'', ''x''), (''old'', '''')]"
    by (simp add: batch_ok_def wf_map_def)
  have b: "append_index (blank_chunk ''/d/'' ''amy'') + length [(''pwd'', ''x''), (''old'', '''')] < 2 ^ 64"
    by (simp add: blank_chunk_def)
  from append_kvs_updates_disk [OF example_fresh(1,3) mp b] show ?thesis
    by (auto simp: batch_def)
qed

lemma get_all_loop_lookup:
  assumes "store_inv fs c recs"
  shows "\<exists>m'. get_all_loop ks fs c m = Inr m' \<and>
    map_of m' = (\<lambda>k. if k \<in> set ks then Some (case chunk_lookup c recs k of None \<Rightarrow> [] | Some v \<Rightarrow> v)
      else map_of m k)"
proof (induction ks arbitrary: m)
  case (Cons k ks)
  define v where "v = (case chunk_lookup c recs k of None \<Rightarrow> [] | Some v \<Rightarrow> v)"
  obtain s where "get_value k [] fs c = Inr (s, v)"
    using get_value_lookup [OF assms, of k "[]"] by (auto simp: v_def split: option.splits)
  then show ?case
    using Cons.IH [of "AList.update k v m"] by (auto simp: fun_eq_iff v_def)
qed (auto simp: fun_eq_iff)

lemma get_all_kv_lookup:
  assumes "store_inv fs c recs"
  shows "\<exists>m. get_all_kv fs c = Inr m \<and> map_of m = chunk_lookup c recs"
proof -
  have dom: "chunk_lookup c recs k \<noteq> None \<longleftrightarrow> k \<in> fst ` set (metadata c)" for k
  proof (cases "map_of (metadata c) k")
    case None
    then have "k \<notin> fst ` set (metadata c)"
      by (simp only: map_of_eq_None_iff not_False_eq_True)
    then show ?thesis by (simp add: chunk_lookup_def None)
  next
    case (Some i)
    then have "last_value (recs i) k \<noteq> None"
      using store_invD(6) [OF assms Some] by (simp add: last_value_count)
    then show ?thesis
      using Some by (auto simp: chunk_lookup_def dest: map_of_SomeD intro: rev_image_eqI)
  qed
  from get_all_loop_lookup [OF assms, of "map fst (metadata c)" "[]"] obtain m where m:
      "get_all_kv fs c = Inr m" "map_of m = (\<lambda>k. if k \<in> set (map fst (metadata c))
        then Some (case chunk_lookup c recs k of None \<Rightarrow> [] | Some v \<Rightarrow> v) else map_of [] k)"
    unfolding get_all_kv_def by blast
  have "map_of m k = chunk_lookup c recs k" for k
    using dom [of k] by (cases "chunk_lookup c recs k") (auto simp: m(2))
  then show ?thesis
    using m(1) by blast
qed

text \<open>
  Reading agrees with the map on disk and never raises: on a well-formed folder \<open>get_value\<close> of
  any key finishes with the key's current value, or with \<open>KEY_ERROR\<close> and an untouched result
  exactly for the keys the map does not have, and \<open>get_all_kv\<close> returns the whole map.
\<close>

lemma chunk_reads_disk:
  assumes "disk_ok prefix fs usr" "chunk_init prefix usr fs = Inr (FINISHED, c)"
  shows "get_value k v0 fs c = Inr (case disk_view prefix fs usr k of
      None \<Rightarrow> (KEY_ERROR, v0) | Some v \<Rightarrow> (FINISHED, v)) \<and>
    (\<exists>m. get_all_kv fs c = Inr m \<and> map_of m = disk_view prefix fs usr)"
proof -
  obtain recs where inv: "store_inv fs c recs"
    using assms by (auto simp: disk_ok_def)
  show ?thesis
    using get_value_lookup [OF inv] get_all_kv_lookup [OF inv] disk_view_lookup [OF assms(2) inv]
    by simp
qed

end
