(* ===== verification/Cache_Replay.thy ===== *)
theory Cache_Replay
  imports Cache Chunk_Correct
begin

text \<open>
  The log of \<open>Cache\<close>: every entry the writers produce is read back by the header expression, so the
  replay of a log applies exactly the logged operations, whatever bytes the values contain.
\<close>

section \<open>The header expression on one entry\<close>

definition header :: "string \<Rightarrow> string \<Rightarrow> string \<Rightarrow> string \<Rightarrow> string \<Rightarrow> string" where
  "header seq user key op len = ''KvStoreLogEntry Seq '' @ seq @ '' user '' @ user @ '' key '' @ key @
     '' op '' @ op @ '' length '' @ len @ [nl]"

definition token :: "string \<Rightarrow> bool" where
  "token s = (s \<noteq> [] \<and> (\<forall>c \<in> set s. log_char c))"

lemma blank_facts [simp]:
  "is_space CHR '' ''" "is_digit CHR ''0''" "\<not> is_digit CHR '' ''" "\<not> log_char CHR '' ''" "\<not> alpha CHR '' ''"
  by (simp_all add: is_space_def is_digit_def log_char_def alpha_def)

lemma seq_first_match:
  assumes "seq \<noteq> []" "\<forall>c \<in> set seq. is_digit c" "token user" "token key"
    "op \<noteq> []" "\<forall>c \<in> set op. alpha c" "len \<noteq> []" "\<forall>c \<in> set len. is_digit c"
  shows "first_match kLoggingHeaderRegex (header seq user key op len @ r) [seq, user, key, op, len] r"
proof -
  have eq: "header seq user key op len @ r =
      ''KvStoreLogEntry'' @ CHR '' '' # ''Seq'' @ CHR '' '' # seq @ CHR '' '' # ''user'' @ CHR '' '' #
      user @ CHR '' '' # ''key'' @ CHR '' '' # key @ CHR '' '' # ''op'' @ CHR '' '' # op @ CHR '' '' #
      ''length'' @ CHR '' '' # len @ nl # r"
    by (simp add: header_def)
  have nl: "first_match (Lit [nl]) (nl # r) [] r"
    using first_Lit [of "[nl]" r] by simp
  show ?thesis
    unfolding eq kLoggingHeaderRegex_def seqs.simps
    by (intro first_Lit_Seq first_Cls_Seq first_Grp_Seq nl)
      (use assms in \<open>simp_all add: token_def\<close>)
qed

text \<open>The expression starts with a literal, so text without its first letter is skipped.\<close>

lemma header_skip:
  assumes "CHR ''K'' \<notin> set p"
  shows "regex_search kLoggingHeaderRegex (p @ r) = regex_search kLoggingHeaderRegex r"
  using assms
proof (induction p)
  case (Cons c p)
  then have "matches kLoggingHeaderRegex (c # p @ r) = []"
    by (simp add: kLoggingHeaderRegex_def)
  then show ?case using Cons by simp
qed simp

lemma header_skip_checkpoint:
  "regex_search kLoggingHeaderRegex (checkpoint_line (int n) @ r) = regex_search kLoggingHeaderRegex r"
proof -
  have "matches kLoggingHeaderRegex (checkpoint_line (int n) @ r) = []"
    by (simp add: kLoggingHeaderRegex_def checkpoint_line_def)
  moreover have "CHR ''K'' \<notin> set (''vStoreLogEntry Checkpointed at SequenceID: '' @ nat_str n @ [nl])"
    using nat_str_digits [of n] by (auto simp: is_digit_def)
  ultimately show ?thesis
    using header_skip [of "''vStoreLogEntry Checkpointed at SequenceID: '' @ nat_str n @ [nl]" r]
    by (simp add: checkpoint_line_def int_str_def)
qed

lemma sequence_header_match:
  "regex_search kLoggingSequenceIdHeader (checkpoint_line (int n) @ r) = Some ([nat_str n], r)"
proof (rule search_first)
  have eq: "checkpoint_line (int n) @ r =
      ''KvStoreLogEntry'' @ CHR '' '' # ''Checkpointed'' @ CHR '' '' # ''at'' @ CHR '' '' #
      ''SequenceID:'' @ CHR '' '' # nat_str n @ nl # r"
    by (simp add: checkpoint_line_def int_str_def)
  have nl: "first_match (Lit [nl]) (nl # r) [] r"
    using first_Lit [of "[nl]" r] by simp
  show "first_match kLoggingSequenceIdHeader (checkpoint_line (int n) @ r) [nat_str n] r"
    unfolding eq kLoggingSequenceIdHeader_def seqs.simps
    by (intro first_Lit_Seq first_Cls_Seq first_Grp_Seq nl) (simp_all add: nat_str_digits)
qed

lemma extract_sequence:
  "n < 2 ^ 31 \<Longrightarrow>
   ExtractCheckpointSequenceIdFromLoggings (checkpoint_line (int n) @ r) = Inr (Some (int n))"
  by (simp add: ExtractCheckpointSequenceIdFromLoggings_def sequence_header_match)

section \<open>Logs of operations\<close>

datatype log_op = LPut string string string | LDel string string

fun entry :: "nat \<Rightarrow> log_op \<Rightarrow> string" where
  "entry n (LPut user key v) = FormatPuts user key v (int n)"
| "entry n (LDel user key) = FormatDele user key (int n)"

fun log_text :: "nat \<Rightarrow> log_op list \<Rightarrow> string" where
  "log_text n [] = []"
| "log_text n (op # ops) = entry (Suc n) op @ log_text (Suc n) ops"

fun op_ok :: "log_op \<Rightarrow> bool" where
  "op_ok (LPut user key v) \<longleftrightarrow> token user \<and> token key \<and> length v < 2 ^ 31"
| "op_ok (LDel user key) \<longleftrightarrow> token user \<and> token key"

fun apply_op :: "log_op \<Rightarrow> kvcache \<Rightarrow> kvcache" where
  "apply_op (LPut user key v) c = put_cached user key v c"
| "apply_op (LDel user key) c = put_cached user key [] c"

lemma put_cached_sequence [simp]:
  "sequence_id (put_cached user key v c) = sequence_id c"
  "kLogFp (put_cached user key v c) = kLogFp c"
  "put_cached user key v (c\<lparr>sequence_id := s\<rparr>) = (put_cached user key v c)\<lparr>sequence_id := s\<rparr>"
  by (simp_all add: put_cached_def Let_def)

lemma apply_op_sequence [simp]:
  "sequence_id (apply_op op c) = sequence_id c" "kLogFp (apply_op op c) = kLogFp c"
  "apply_op op (c\<lparr>sequence_id := s\<rparr>) = (apply_op op c)\<lparr>sequence_id := s\<rparr>"
  by (cases op; simp)+

lemma fold_apply_sequence [simp]:
  "fold apply_op ops (c\<lparr>sequence_id := s\<rparr>) = (fold apply_op ops c)\<lparr>sequence_id := s\<rparr>"
  by (induction ops arbitrary: c) simp_all

lemma log_text_append: "log_text n (xs @ ys) = log_text n xs @ log_text (n + length xs) ys"
  by (induction xs arbitrary: n) auto

lemma op_letters [simp]: "\<forall>c \<in> set kPuts. alpha c" "\<forall>c \<in> set kDele. alpha c" "kPuts \<noteq> []"
    "kDele \<noteq> []" "kDele \<noteq> kPuts"
  by (simp_all add: kPuts_def kDele_def alpha_def)

lemma entry_header:
  "entry n (LPut user key v) @ r =
     header (nat_str n) user key kPuts (nat_str (length v)) @ v @ nl # r"
  "entry n (LDel user key) @ r = header (nat_str n) user key kDele ''0'' @ r"
  by (simp_all add: header_def FormatPuts_def FormatDele_def int_str_def)

lemma entry_search:
  "op_ok (LPut user key v) \<Longrightarrow> regex_search kLoggingHeaderRegex (entry n (LPut user key v) @ r) =
     Some ([nat_str n, user, key, kPuts, nat_str (length v)], v @ nl # r)"
  "op_ok (LDel user key) \<Longrightarrow> regex_search kLoggingHeaderRegex (entry n (LDel user key) @ r) =
     Some ([nat_str n, user, key, kDele, ''0''], r)"
  using search_first [OF seq_first_match, of "nat_str n" user key kPuts "nat_str (length v)" "v @ nl # r"]
    search_first [OF seq_first_match, of "nat_str n" user key kDele "''0''" r]
  by (simp_all add: entry_header nat_str_digits del: regex_search.simps entry.simps)

lemma replay_step:
  assumes "op_ok op" "Suc n < 2 ^ 31" "sequence_id c = int n"
  shows "replay_loop (entry (Suc n) op @ r) c =
    replay_loop r (apply_op op (c\<lparr>sequence_id := int (Suc n)\<rparr>))"
proof (cases op)
  case (LPut user key v)
  then show ?thesis
    using assms entry_search(1) [of user key v "Suc n" r]
    by (subst replay_loop.simps) (simp add: Puts_def ValidateAndUpdateSeqNum_def)
next
  case (LDel user key)
  have "stoi ''0'' = Inr 0"
    by (simp add: stoi_def scan_num_def is_digit_def is_space_def digit_val_def)
  then show ?thesis
    using assms LDel entry_search(2) [of user key "Suc n" r]
    by (subst replay_loop.simps) (simp add: Dele_def ValidateAndUpdateSeqNum_def)
qed

lemma replay_log:
  "\<forall>op \<in> set ops. op_ok op \<Longrightarrow> n + length ops < 2 ^ 31 \<Longrightarrow> sequence_id c = int n \<Longrightarrow>
   replay_loop (log_text n ops) c =
     Inr (FINISHED, (fold apply_op ops c)\<lparr>sequence_id := int (n + length ops)\<rparr>)"
proof (induction ops arbitrary: n c)
  case Nil
  have "regex_search kLoggingHeaderRegex [] = None"
    by (simp add: kLoggingHeaderRegex_def)
  then show ?case using Nil by (subst replay_loop.simps) simp
next
  case (Cons op ops)
  then show ?case
    using replay_step [of op n c "log_text (Suc n) ops"] by simp
qed

section \<open>The pending updates\<close>

definition upd :: "kvcache \<Rightarrow> string \<Rightarrow> string \<Rightarrow> string option" where
  "upd c u k = map_of (user_map (updates_cache c) u) k"

definition rd :: "kvcache \<Rightarrow> string \<Rightarrow> string \<Rightarrow> string option" where
  "rd c u k = map_of (user_map (read_cache c) u) k"

lemma user_map_touch [simp]: "user_map (touch u m) u' = user_map m u'"
  by (auto simp: user_map_def touch_def split: option.splits)

lemma user_map_put [simp]:
  "user_map (put_key u k v m) u' = (if u' = u then AList.update k v (user_map m u) else user_map m u')"
  by (auto simp: user_map_def put_key_def)

lemma user_map_Nil [simp]: "user_map [] u = []"
  by (simp add: user_map_def)

lemma map_of_Nil_delete: "AList.delete k m = [] \<Longrightarrow> map_of m k' = None \<or> k' = k"
  using map_of_delete [of k m] by (metis fun_upd_apply map_of.simps(1))

lemma upd_put_cached [simp]:
  "upd (put_cached u k v c) u' k' = (if u' = u \<and> k' = k then Some v else upd c u' k')"
  by (simp add: upd_def put_cached_def Let_def)

lemma rd_put_cached [simp]:
  "rd (put_cached u k v c) u' k' = (if u' = u \<and> k' = k then None else rd c u' k')"
  using map_of_Nil_delete [of k "user_map (read_cache c) u" k']
  by (auto simp: rd_def put_cached_def Let_def user_map_def split: option.splits)

lemma upd_sequence [simp]: "upd (c\<lparr>sequence_id := s\<rparr>) = upd c" "rd (c\<lparr>sequence_id := s\<rparr>) = rd c"
  by (simp_all add: upd_def rd_def fun_eq_iff)

lemma fold_apply_frame:
  "kLogFp (fold apply_op ops c) = kLogFp c"
  "read_cache c = [] \<Longrightarrow> read_cache (fold apply_op ops c) = []"
proof (induction ops rule: rev_induct)
  case (snoc op ops)
  { case 1
    then show ?case using snoc by simp }
  { case 2
    then show ?case using snoc by (cases op) (auto simp: put_cached_def Let_def) }
qed simp_all

text \<open>The value a log leaves for a key: its last entry for the key.\<close>

fun op_write :: "log_op \<Rightarrow> (string \<times> string) \<times> string" where
  "op_write (LPut user key v) = ((user, key), v)"
| "op_write (LDel user key) = ((user, key), [])"

definition logged :: "log_op list \<Rightarrow> string \<Rightarrow> string \<Rightarrow> string option" where
  "logged ops user key = map_of (rev (map op_write ops)) (user, key)"

lemma logged_snoc:
  "logged (ops @ [op]) u k = (case op_write op of (p, v) \<Rightarrow> if p = (u, k) then Some v else logged ops u k)"
  by (cases op) (auto simp: logged_def)

lemma logged_Nil [simp]: "logged [] u k = None"
  by (simp add: logged_def)

lemma upd_fold_apply:
  "upd (fold apply_op ops c) u k = (case logged ops u k of Some v \<Rightarrow> Some v | None \<Rightarrow> upd c u k)"
proof (induction ops rule: rev_induct)
  case (snoc op ops)
  then show ?case by (cases op) (auto simp: logged_snoc)
qed simp

lemma replay_log_file:
  assumes "read_file (kLogFp c) fs = Some (checkpoint_line (int n) @ log_text n ops)"
    and "\<forall>op \<in> set ops. op_ok op" "n + length ops < 2 ^ 31"
  shows "\<exists>c'. ReplayLoggings fs ms c = Inr (FINISHED, int (n + length ops), c') \<and>
    sequence_id c' = int (n + length ops) \<and> kLogFp c' = kLogFp c \<and>
    upd c' = logged ops \<and> read_cache c' = [] \<and> updates_cache c' = updates_cache
      (fold apply_op ops (c\<lparr>sequence_id := int n, updates_cache := [], read_cache := []\<rparr>))"
proof -
  define c0 where "c0 = c\<lparr>sequence_id := int n, updates_cache := [], read_cache := []\<rparr>"
  have "replay_loop (checkpoint_line (int n) @ log_text n ops) c0 = replay_loop (log_text n ops) c0"
    using header_skip_checkpoint [of n "log_text n ops"]
    by (simp only: replay_loop.simps [of "checkpoint_line (int n) @ log_text n ops"]
        replay_loop.simps [of "log_text n ops"])
  then have "replay_loop (checkpoint_line (int n) @ log_text n ops) c0 =
      Inr (FINISHED, (fold apply_op ops c0)\<lparr>sequence_id := int (n + length ops)\<rparr>)"
    using replay_log [OF assms(2,3), of c0] by (simp add: c0_def)
  moreover have "n < 2 ^ 31"
    using assms(3) by linarith
  moreover have "upd c0 u k = None" for u k
    by (simp add: upd_def c0_def)
  then have "upd (fold apply_op ops c0) = logged ops"
    by (auto simp: fun_eq_iff upd_fold_apply split: option.splits)
  moreover have "kLogFp (fold apply_op ops c0) = kLogFp c0" "read_cache (fold apply_op ops c0) = []"
    using fold_apply_frame [where ops = ops and c = c0] by (simp_all add: c0_def)
  ultimately show ?thesis
    using assms(1) by (simp add: ReplayLoggings_def extract_sequence c0_def)
qed

text \<open>
  C19. Recovery from the log is exact.  If the log file holds a checkpoint line with number \<open>n\<close> and
  then the entries that \<open>Log\<close> wrote for any sequence of updates with user and key names of the
  characters the header expression accepts, \<open>ReplayLoggings\<close> finishes, whatever bytes the values
  contain (line breaks and text that looks like a log header included); the sequence number is that
  of the last entry, also in the global \<open>max_sequence\<close>, and the pending updates are exactly the last
  write of every logged key, whatever the cache held before.
\<close>

theorem replay_restores_log:
  assumes "read_file (kLogFp c) fs = Some (checkpoint_line (int n) @ log_text n ops)"
    and "\<forall>op \<in> set ops. op_ok op" "n + length ops < 2 ^ 31"
  shows "\<exists>c'. ReplayLoggings fs ms c = Inr (FINISHED, int (n + length ops), c') \<and>
    sequence_id c' = int (n + length ops) \<and> kLogFp c' = kLogFp c \<and>
    upd c' = logged ops \<and> read_cache c' = []"
  using replay_log_file [OF assms] by blast

theorem replay_restores_log_witness:
  "\<exists>c'. ReplayLoggings \<lparr>files = [(''/d/logging'', checkpoint_line (int 3) @
       log_text 3 [LPut ''amy'' ''k'' [nl, CHR ''x''], LPut ''amy'' ''j'' ''y'', LDel ''amy'' ''j''])], dirs = [''/d'']\<rparr>
     0 (new_cache ''/d/logging'') = Inr (FINISHED, 6, c') \<and> sequence_id c' = 6 \<and>
     upd c' ''amy'' ''k'' = Some [nl, CHR ''x''] \<and> upd c' ''amy'' ''j'' = Some []"
proof -
  let ?ops = "[LPut ''amy'' ''k'' [nl, CHR ''x''], LPut ''amy'' ''j'' ''y'', LDel ''amy'' ''j'']"
  let ?fs = "\<lparr>files = [(''/d/logging'', checkpoint_line (int 3) @ log_text 3 ?ops)], dirs = [''/d'']\<rparr>"
  have "read_file (kLogFp (new_cache ''/d/logging'')) ?fs = Some (checkpoint_line (int 3) @ log_text 3 ?ops)"
    by (simp only: read_file_def new_cache_def fsys.simps kvcache.simps map_of.simps fst_conv
        snd_conv fun_upd_same)
  moreover have "\<forall>op \<in> set ?ops. op_ok op" "3 + length ?ops < 2 ^ 31"
    by (simp_all add: token_def log_char_def alpha_def)
  ultimately show ?thesis
    using replay_restores_log [of "new_cache ''/d/logging''" ?fs 3 ?ops 0] by (auto simp: logged_def)
qed

section \<open>Gaps\<close>

lemma entry_gap:
  assumes "op_ok op" "m < 2 ^ 31" "sequence_id c = int n" "m \<noteq> Suc n"
  shows "replay_loop (entry m op @ r) c = Inr (REC_ERROR, c)"
proof (cases op)
  case (LPut user key v)
  then show ?thesis
    using assms entry_search(1) [of user key v m r]
    by (subst replay_loop.simps) (simp add: Puts_def ValidateAndUpdateSeqNum_def)
next
  case (LDel user key)
  have "stoi ''0'' = Inr 0"
    by (simp add: stoi_def scan_num_def is_digit_def is_space_def digit_val_def)
  then show ?thesis
    using assms LDel entry_search(2) [of user key m r]
    by (subst replay_loop.simps) (simp add: Dele_def ValidateAndUpdateSeqNum_def)
qed

lemma replay_log_gap:
  "\<forall>op \<in> set ops. op_ok op \<Longrightarrow> n + length ops < 2 ^ 31 \<Longrightarrow> sequence_id c = int n \<Longrightarrow>
   op_ok op \<Longrightarrow> m < 2 ^ 31 \<Longrightarrow> m \<noteq> Suc (n + length ops) \<Longrightarrow>
   replay_loop (log_text n ops @ entry m op @ r) c =
     Inr (REC_ERROR, (fold apply_op ops c)\<lparr>sequence_id := int (n + length ops)\<rparr>)"
proof (induction ops arbitrary: n c)
  case Nil
  then show ?case using entry_gap [of op m c n r] by simp
next
  case (Cons a ops)
  then show ?case
    using replay_step [of a n c "log_text (Suc n) ops @ entry m op @ r"] by simp
qed

text \<open>A log whose entries skip a number is refused at the gap, and what follows it is lost.\<close>

lemma replay_refuses_gap:
  assumes "read_file (kLogFp c) fs = Some (checkpoint_line (int n) @ log_text n ops @ entry m op @ r)"
    and "\<forall>op \<in> set ops. op_ok op" "n + length ops < 2 ^ 31"
    and "op_ok op" "m < 2 ^ 31" "m \<noteq> Suc (n + length ops)"
  shows "\<exists>c'. ReplayLoggings fs ms c = Inr (REC_ERROR, ms, c')"
proof -
  define c0 where "c0 = c\<lparr>sequence_id := int n, updates_cache := [], read_cache := []\<rparr>"
  let ?t = "log_text n ops @ entry m op @ r"
  have "replay_loop (checkpoint_line (int n) @ ?t) c0 = replay_loop ?t c0"
    using header_skip_checkpoint [of n ?t]
    by (simp only: replay_loop.simps [of "checkpoint_line (int n) @ ?t"] replay_loop.simps [of ?t])
  moreover have "n < 2 ^ 31"
    using assms(3) by linarith
  ultimately show ?thesis
    using assms(1) replay_log_gap [OF assms(2,3) _ assms(4-6), of c0 r]
    by (simp add: ReplayLoggings_def extract_sequence c0_def)
qed

end
