(* ===== verification/Cache_Correct.thy ===== *)
theory Cache_Correct
  imports Cache_Replay
begin

text \<open>
  The operations of \<open>Cache\<close> against the map they stand for: \<open>cval\<close>, the value of a key as the pending
  updates and the files of the chunks determine it, with the empty string for an absent key.
\<close>

section \<open>What a user's data depends on\<close>

definition same_user :: "string \<Rightarrow> string \<Rightarrow> fsys \<Rightarrow> fsys \<Rightarrow> bool" where
  "same_user prefix u fs fs' \<longleftrightarrow>
     (\<forall>q. q = prefix @ u \<or> (\<exists>r. q = prefix @ u @ CHR ''/'' # r) \<longrightarrow>
        read_file q fs' = read_file q fs \<and> (q \<in> set (dirs fs') \<longleftrightarrow> q \<in> set (dirs fs)))"

text \<open>The log is a file \<open>logging\<close> beside the folders, so no user may have that name.\<close>

definition name_ok :: "string \<Rightarrow> bool" where
  "name_ok u \<longleftrightarrow> u \<noteq> [] \<and> CHR ''/'' \<notin> set u \<and> u \<noteq> ''logging''"

lemma token_name: "token u \<Longrightarrow> u \<noteq> ''logging'' \<Longrightarrow> name_ok u"
  by (auto simp: token_def name_ok_def log_char_def alpha_def is_digit_def)

lemma strip_name [simp]: "name_ok u \<Longrightarrow> strip_slash (prefix @ u) = prefix @ u"
  by (metis append_is_Nil_conv last_appendR last_in_set name_ok_def strip_slash_def)

lemma same_user_refl [simp]: "same_user prefix u fs fs"
  by (simp add: same_user_def)

lemma same_user_sym: "same_user prefix u fs fs' \<Longrightarrow> same_user prefix u fs' fs"
  by (simp add: same_user_def)

lemma same_user_trans: "same_user prefix u fs fs' \<Longrightarrow> same_user prefix u fs' fs'' \<Longrightarrow> same_user prefix u fs fs''"
  by (simp add: same_user_def)

lemma same_user_files:
  assumes "same_user prefix u fs fs'"
  shows "read_file (index_path (prefix @ u)) fs' = read_file (index_path (prefix @ u)) fs"
    "read_file (meta_path (prefix @ u)) fs' = read_file (meta_path (prefix @ u)) fs"
    "read_file (delete_path (prefix @ u)) fs' = read_file (delete_path (prefix @ u)) fs"
    "read_file (chunk_path (prefix @ u) i) fs' = read_file (chunk_path (prefix @ u) i) fs"
  using assms
  by (simp_all add: same_user_def index_path_def meta_path_def delete_path_def chunk_path_def)

lemma same_user_exist:
  "same_user prefix u fs fs' \<Longrightarrow> name_ok u \<Longrightarrow> exist_file (prefix @ u) fs' = exist_file (prefix @ u) fs"
  by (simp add: same_user_def exist_file_def read_file_def)

lemma same_user_init:
  assumes "same_user prefix u fs fs'" "name_ok u"
  shows "chunk_init prefix u fs' = chunk_init prefix u fs"
  using same_user_files [OF assms(1)] same_user_exist [OF assms]
  by (simp add: chunk_init_def blank_chunk_def Let_def)

lemma same_user_get:
  "same_user prefix u fs fs' \<Longrightarrow> folder c = prefix @ u \<Longrightarrow> get_value k v fs' c = get_value k v fs c"
  by (simp add: get_value_def same_user_files split: option.split)

lemma same_user_view:
  assumes "same_user prefix u fs fs'" "name_ok u"
  shows "disk_view prefix fs' u = disk_view prefix fs u"
proof -
  have "disk_get prefix fs' u k = disk_get prefix fs u k" for k
    unfolding disk_get_def same_user_init [OF assms]
    by (rule rbind_cong) (auto simp: same_user_get [OF assms(1)] dest: chunk_init_folder)
  then show ?thesis
    by (simp add: disk_view_def fun_eq_iff)
qed

lemma same_user_folder: "same_user prefix u fs fs' \<Longrightarrow> folder_ok fs' (prefix @ u) = folder_ok fs (prefix @ u)"
  by (auto simp: folder_ok_def same_user_def)

lemma same_user_ok:
  assumes "same_user prefix u fs fs'" "name_ok u"
  shows "disk_ok prefix fs' u \<longleftrightarrow> disk_ok prefix fs u"
proof -
  have "store_inv fs' c recs = store_inv fs c recs" if "chunk_init prefix u fs = Inr (FINISHED, c)" for c recs
    using chunk_init_folder [OF that]
    by (simp add: store_inv_def same_user_folder [OF assms(1)] content_read same_user_files [OF assms(1)])
  then show ?thesis
    by (auto simp: disk_ok_def same_user_init [OF assms] same_user_files [OF assms(1)])
qed

text \<open>
  A user's data is usable: the folder is there and well formed, or there is nothing under its name.
\<close>

definition no_user :: "string \<Rightarrow> fsys \<Rightarrow> string \<Rightarrow> bool" where
  "no_user prefix fs u \<longleftrightarrow>
     (\<forall>q. q = prefix @ u \<or> (\<exists>r. q = prefix @ u @ CHR ''/'' # r) \<longrightarrow>
        read_file q fs = None \<and> q \<notin> set (dirs fs))"

definition user_ok :: "string \<Rightarrow> fsys \<Rightarrow> string \<Rightarrow> bool" where
  "user_ok prefix fs u \<longleftrightarrow> disk_ok prefix fs u \<or> no_user prefix fs u"

lemma same_user_user_ok:
  assumes "same_user prefix u fs fs'" "name_ok u"
  shows "user_ok prefix fs' u \<longleftrightarrow> user_ok prefix fs u"
  using same_user_ok [OF assms] assms(1) by (simp add: user_ok_def no_user_def same_user_def)

lemma no_user_init:
  assumes "no_user prefix fs u" "name_ok u"
  shows "chunk_init prefix u fs = Inr (USER_ERROR, blank_chunk prefix u)"
    "disk_view prefix fs u = (\<lambda>_. None)" "exist_file (prefix @ u) fs = False"
proof -
  show e: "exist_file (prefix @ u) fs = False"
    using assms by (simp add: no_user_def exist_file_def read_file_def)
  then show i: "chunk_init prefix u fs = Inr (USER_ERROR, blank_chunk prefix u)"
    by (simp add: chunk_init_def Let_def blank_chunk_def)
  show "disk_view prefix fs u = (\<lambda>_. None)"
    by (simp add: disk_view_def disk_get_def i fun_eq_iff)
qed

lemma user_ok_cases:
  assumes "user_ok prefix fs u" "name_ok u"
  obtains c where "disk_ok prefix fs u" "chunk_init prefix u fs = Inr (FINISHED, c)"
      "\<And>k v0. get_value k v0 fs c = Inr (case disk_view prefix fs u k of
         None \<Rightarrow> (KEY_ERROR, v0) | Some v \<Rightarrow> (FINISHED, v))"
      "\<exists>m. get_all_kv fs c = Inr m \<and> map_of m = disk_view prefix fs u"
  | "no_user prefix fs u" "chunk_init prefix u fs = Inr (USER_ERROR, blank_chunk prefix u)"
      "disk_view prefix fs u = (\<lambda>_. None)"
proof (cases "disk_ok prefix fs u")
  case True
  then obtain c recs where c: "chunk_init prefix u fs = Inr (FINISHED, c)" "store_inv fs c recs"
    by (auto simp: disk_ok_def)
  show ?thesis
    using that(1) [OF True c(1)] get_value_lookup [OF c(2)] get_all_kv_lookup [OF c(2)]
      disk_view_lookup [OF c] by simp
next
  case False
  then show ?thesis
    using that(2) no_user_init [OF _ assms(2)] assms(1) by (simp add: user_ok_def)
qed

section \<open>The value of a key\<close>

definition dval :: "string \<Rightarrow> fsys \<Rightarrow> string \<Rightarrow> string \<Rightarrow> string" where
  "dval prefix fs u k = (case disk_view prefix fs u k of None \<Rightarrow> [] | Some v \<Rightarrow> v)"

definition cval :: "string \<Rightarrow> fsys \<Rightarrow> kvcache \<Rightarrow> string \<Rightarrow> string \<Rightarrow> string" where
  "cval prefix fs c u k = (case upd c u k of Some v \<Rightarrow> v | None \<Rightarrow> dval prefix fs u k)"

text \<open>The read cache agrees with the disk and never hides an update.\<close>

definition coherent :: "string \<Rightarrow> fsys \<Rightarrow> kvcache \<Rightarrow> string \<Rightarrow> bool" where
  "coherent prefix fs c u \<longleftrightarrow>
     (\<forall>k v. rd c u k = Some v \<longrightarrow> upd c u k = None \<and> v = dval prefix fs u k)"

definition cached :: "kvcache \<Rightarrow> string \<Rightarrow> string \<Rightarrow> bool" where
  "cached c u k \<longleftrightarrow> rd c u k \<noteq> None \<or> upd c u k \<noteq> None"

definition same_ids :: "kvcache \<Rightarrow> kvcache \<Rightarrow> bool" where
  "same_ids c c' \<longleftrightarrow> sequence_id c' = sequence_id c \<and> kLogFp c' = kLogFp c"

section \<open>Reading\<close>

lemma Gets_cached:
  assumes "coherent prefix fs c u" "cached c u k"
  shows "\<exists>c'. Gets prefix fs u k v0 c = Inr (FINISHED, cval prefix fs c u k, c') \<and>
    upd c' = upd c \<and> rd c' = rd c \<and> same_ids c c'"
proof (cases "rd c u k")
  case None
  then obtain v where "upd c u k = Some v"
    using assms(2) by (auto simp: cached_def)
  then show ?thesis
    using None by (auto simp: Gets_def rd_def upd_def cval_def same_ids_def fun_eq_iff)
next
  case (Some v)
  then have "upd c u k = None" "v = dval prefix fs u k"
    using assms(1) by (auto simp: coherent_def)
  then show ?thesis
    using Some by (auto simp: Gets_def rd_def upd_def cval_def same_ids_def fun_eq_iff)
qed

lemma Gets_miss:
  assumes "name_ok u" "user_ok prefix fs u" "\<not> cached c u k"
  shows "\<exists>ret c'. Gets prefix fs u k v0 c =
      Inr (case disk_view prefix fs u k of Some v \<Rightarrow> (FINISHED, v, c') | None \<Rightarrow> (ret, v0, c')) \<and>
    ret = (if disk_ok prefix fs u then KEY_ERROR else USER_ERROR) \<and> upd c' = upd c \<and> same_ids c c' \<and>
    rd c' = (\<lambda>u' k'. if u' = u \<and> k' = k then Some (dval prefix fs u k) else rd c u' k')"
proof -
  have m: "map_of (user_map (read_cache c) u) k = None" "map_of (user_map (updates_cache c) u) k = None"
    using assms(3) by (simp_all add: cached_def rd_def upd_def)
  show ?thesis
    using assms(2,1)
  proof (cases rule: user_ok_cases)
    case (1 ch)
    let ?c' = "c\<lparr>read_cache := put_key u k (dval prefix fs u k) (put_key u k [] (touch u (read_cache c))),
      updates_cache := touch u (updates_cache c)\<rparr>"
    have "Gets prefix fs u k v0 c = Inr (case disk_view prefix fs u k of
        Some v \<Rightarrow> (FINISHED, v, ?c') | None \<Rightarrow> (KEY_ERROR, v0, ?c'))"
      using 1(2,3) m by (simp add: Gets_def Let_def dval_def split: option.split)
    then show ?thesis
      using 1(1) by (intro exI [of _ KEY_ERROR] exI [of _ ?c'])
        (simp add: fun_eq_iff rd_def upd_def same_ids_def)
  next
    case 2
    let ?c' = "c\<lparr>read_cache := put_key u k [] (touch u (read_cache c)),
      updates_cache := touch u (updates_cache c)\<rparr>"
    have "Gets prefix fs u k v0 c = Inr (USER_ERROR, v0, ?c')"
      using 2(2) m by (simp add: Gets_def Let_def)
    moreover have "\<not> disk_ok prefix fs u"
      using 2(2) by (simp add: disk_ok_def)
    ultimately show ?thesis
      using 2(3) by (intro exI [of _ USER_ERROR] exI [of _ ?c'])
        (simp add: fun_eq_iff rd_def upd_def same_ids_def dval_def)
  qed
qed

text \<open>
  \<open>Gets\<close> in every case: the value is that of the key (the caller's value is kept when the key is
  absent and was never asked for); afterwards the key is cached, and nothing else changed.
\<close>

lemma Gets_spec:
  assumes "name_ok u" "user_ok prefix fs u" "coherent prefix fs c u"
  obtains ret v c' where "Gets prefix fs u k v0 c = Inr (ret, v, c')"
    "ret = FINISHED \<longleftrightarrow> cached c u k \<or> disk_view prefix fs u k \<noteq> None"
    "ret = FINISHED \<Longrightarrow> v = cval prefix fs c u k"
    "ret \<noteq> FINISHED \<Longrightarrow> v = v0 \<and> cval prefix fs c u k = [] \<and>
       ret = (if disk_ok prefix fs u then KEY_ERROR else USER_ERROR)"
    "upd c' = upd c" "cached c' u k" "same_ids c c'" "\<And>u' k'. cval prefix fs c' u' k' = cval prefix fs c u' k'"
    "\<And>u'. coherent prefix fs c u' \<Longrightarrow> coherent prefix fs c' u'"
proof (cases "cached c u k")
  case True
  then obtain c' where G: "Gets prefix fs u k v0 c = Inr (FINISHED, cval prefix fs c u k, c')"
      "upd c' = upd c" "rd c' = rd c" "same_ids c c'"
    using Gets_cached [OF assms(3) True, of v0] by blast
  show ?thesis
    by (rule that [OF G(1)]) (use True G in \<open>simp_all add: cached_def cval_def coherent_def\<close>)
next
  case False
  obtain ret c' where G: "Gets prefix fs u k v0 c =
      Inr (case disk_view prefix fs u k of Some v \<Rightarrow> (FINISHED, v, c') | None \<Rightarrow> (ret, v0, c'))"
    "ret = (if disk_ok prefix fs u then KEY_ERROR else USER_ERROR)" "upd c' = upd c" "same_ids c c'"
    "rd c' = (\<lambda>u' k'. if u' = u \<and> k' = k then Some (dval prefix fs u k) else rd c u' k')"
    using Gets_miss [OF assms(1,2) False] by blast
  have none: "upd c u k = None"
    using False by (simp add: cached_def)
  have rest: "upd c' = upd c" "cached c' u k" "same_ids c c'"
    "\<And>u' k'. cval prefix fs c' u' k' = cval prefix fs c u' k'"
    "\<And>u'. coherent prefix fs c u' \<Longrightarrow> coherent prefix fs c' u'"
    using G(3-5) none by (auto simp: cached_def cval_def coherent_def)
  show ?thesis
  proof (cases "disk_view prefix fs u k")
    case None
    then show ?thesis
      using that [OF _ _ _ _ rest] G(1,2) False none by (simp add: cval_def dval_def)
  next
    case (Some v)
    then show ?thesis
      using that [OF _ _ _ _ rest] G(1) none by (simp add: cval_def dval_def)
  qed
qed

section \<open>Updating\<close>

text \<open>The log lies outside the folder of \<open>u\<close>; a user named like the log file does not have this.\<close>

definition apart :: "string \<Rightarrow> string \<Rightarrow> string \<Rightarrow> bool" where
  "apart prefix log u \<longleftrightarrow> log \<noteq> prefix @ u \<and> (\<forall>r. log \<noteq> prefix @ u @ CHR ''/'' # r)"

lemma same_user_append: "apart prefix p u \<Longrightarrow> same_user prefix u fs (snd (append_file p s fs))"
  by (simp add: same_user_def apart_def append_file_def read_file_def) metis

lemma same_user_write: "apart prefix p u \<Longrightarrow> same_user prefix u fs (snd (write_file p s fs))"
  by (simp add: same_user_def apart_def write_file_def read_file_def) metis

lemma same_user_vals:
  assumes "same_user prefix u fs fs'" "name_ok u"
  shows "dval prefix fs' u k = dval prefix fs u k" "cval prefix fs' c u k = cval prefix fs c u k"
    "coherent prefix fs' c u = coherent prefix fs c u"
  using same_user_view [OF assms]
  by (simp_all add: cval_def dval_def coherent_def split: option.split)

lemma cval_put [simp]:
  "cval prefix fs (put_cached u k v c) u' k' = (if u' = u \<and> k' = k then v else cval prefix fs c u' k')"
  by (simp add: cval_def)

lemma cval_sequence [simp]: "cval prefix fs (c\<lparr>sequence_id := s\<rparr>) = cval prefix fs c"
  "coherent prefix fs (c\<lparr>sequence_id := s\<rparr>) = coherent prefix fs c"
  by (simp_all add: cval_def coherent_def fun_eq_iff)

lemma coherent_put: "coherent prefix fs c u' \<Longrightarrow> coherent prefix fs (put_cached u k v c) u'"
  by (auto simp: coherent_def)

text \<open>An accepted update: a logged entry, then the in-memory write.\<close>

definition committed :: "log_op \<Rightarrow> fsys \<Rightarrow> kvcache \<Rightarrow> fsys \<times> kvcache" where
  "committed op fs c =
     (snd (append_file (kLogFp c) (entry (nat (sequence_id c + 1)) op) fs),
      apply_op op (c\<lparr>sequence_id := sequence_id c + 1\<rparr>))"

lemma Log_ok:
  "can_open (kLogFp c) fs \<Longrightarrow> Log e c fs = (FINISHED, snd (append_file (kLogFp c) e fs))"
  by (simp add: Log_def append_file_def)

lemma Puts_commits:
  "can_open (kLogFp c) fs \<Longrightarrow> 0 \<le> sequence_id c \<Longrightarrow> s = sequence_id c + 1 \<Longrightarrow>
   Puts u k v s True fs c = (FINISHED, committed (LPut u k v) fs c)"
  by (simp add: Puts_def ValidateAndUpdateSeqNum_def Log_ok committed_def)

lemma Dele_commits:
  "can_open (kLogFp c) fs \<Longrightarrow> 0 \<le> sequence_id c \<Longrightarrow> s = sequence_id c + 1 \<Longrightarrow>
   Dele u k s True fs c = (FINISHED, committed (LDel u k) fs c)"
  by (simp add: Dele_def ValidateAndUpdateSeqNum_def Log_ok committed_def)

lemma out_of_sequence:
  "s \<noteq> sequence_id c + 1 \<Longrightarrow> Puts u k v s l fs c = (SEQ_ERROR, fs, c)"
  "s \<noteq> sequence_id c + 1 \<Longrightarrow> Dele u k s l fs c = (SEQ_ERROR, fs, c)"
  "s \<noteq> sequence_id c + 1 \<Longrightarrow> Cputs prefix u k v w s fs c = Inr (SEQ_ERROR, fs, c)"
  by (simp_all add: Puts_def Dele_def Cputs_def ValidateAndUpdateSeqNum_def)

fun op_user :: "log_op \<Rightarrow> string" where
  "op_user (LPut u k v) = u"
| "op_user (LDel u k) = u"

lemma committed_facts:
  assumes "committed op fs c = (fs', c')" "can_open (kLogFp c) fs"
  shows "dirs fs' = dirs fs" "kLogFp c' = kLogFp c" "sequence_id c' = sequence_id c + 1"
    "read_file (kLogFp c) fs = Some t \<Longrightarrow>
       read_file (kLogFp c) fs' = Some (t @ entry (nat (sequence_id c + 1)) op)"
    "apart prefix (kLogFp c) u \<Longrightarrow> same_user prefix u fs fs'"
    "upd c' u k = (if fst (op_write op) = (u, k) then Some (snd (op_write op)) else upd c u k)"
    "coherent prefix fs c u \<Longrightarrow> coherent prefix fs c' u"
proof -
  have E: "fs' = snd (append_file (kLogFp c) (entry (nat (sequence_id c + 1)) op) fs)"
    "c' = apply_op op (c\<lparr>sequence_id := sequence_id c + 1\<rparr>)"
    using assms(1) by (simp_all add: committed_def)
  show "dirs fs' = dirs fs" "kLogFp c' = kLogFp c" "sequence_id c' = sequence_id c + 1"
    "read_file (kLogFp c) fs = Some t \<Longrightarrow>
       read_file (kLogFp c) fs' = Some (t @ entry (nat (sequence_id c + 1)) op)"
    "apart prefix (kLogFp c) u \<Longrightarrow> same_user prefix u fs fs'"
    using assms(2) by (simp_all add: E content_read same_user_append)
  show "upd c' u k = (if fst (op_write op) = (u, k) then Some (snd (op_write op)) else upd c u k)"
    by (cases op) (auto simp: E)
  show "coherent prefix fs c u \<Longrightarrow> coherent prefix fs c' u"
    by (cases op) (auto simp: E intro: coherent_put)
qed

text \<open>
  What the log and the files of the chunks determine is what the node shows: \<open>durable\<close>.
\<close>

definition durable :: "string \<Rightarrow> fsys \<Rightarrow> kvcache \<Rightarrow> nat \<Rightarrow> log_op list \<Rightarrow> bool" where
  "durable prefix fs c n ops \<longleftrightarrow>
     read_file (kLogFp c) fs = Some (checkpoint_line (int n) @ log_text n ops) \<and>
     sequence_id c = int (n + length ops) \<and> (\<forall>op \<in> set ops. op_ok op) \<and>
     (\<forall>u k. name_ok u \<longrightarrow>
        cval prefix fs c u k = (case logged ops u k of Some v \<Rightarrow> v | None \<Rightarrow> dval prefix fs u k))"

lemma durable_commit:
  assumes "durable prefix fs c n ops" "committed op fs c = (fs', c')" "can_open (kLogFp c) fs"
    "op_ok op" "\<And>u. name_ok u \<Longrightarrow> apart prefix (kLogFp c) u"
  shows "durable prefix fs' c' n (ops @ [op])"
proof -
  note F = committed_facts [OF assms(2,3)]
  have "sequence_id c = int (n + length ops)"
    using assms(1) by (simp add: durable_def)
  then have seq: "nat (sequence_id c + 1) = Suc (n + length ops)"
    by linarith
  have "cval prefix fs' c' u k = (case logged (ops @ [op]) u k of Some v \<Rightarrow> v | None \<Rightarrow> dval prefix fs' u k)"
    if "name_ok u" for u k
  proof -
    note same = same_user_vals(1) [OF F(5) [OF assms(5) [OF that]] that, of k]
    have "cval prefix fs c u k = (case logged ops u k of Some v \<Rightarrow> v | None \<Rightarrow> dval prefix fs u k)"
      using assms(1) that by (simp add: durable_def)
    then show ?thesis
      using same by (cases "op_write op") (auto simp: logged_snoc cval_def F(6) split: option.splits)
  qed
  moreover have "read_file (kLogFp c) fs' = Some (checkpoint_line (int n) @ log_text n (ops @ [op]))"
    using F(4) assms(1) by (simp add: durable_def log_text_append seq)
  ultimately show ?thesis
    using assms(1,4) F(2,3) by (simp add: durable_def)
qed

lemma Gets_updates:
  "Gets prefix fs u k v0 c = Inr (ret, v, c') \<Longrightarrow>
   updates_cache c' = updates_cache c \<or> updates_cache c' = touch u (updates_cache c)"
  by (auto simp: Gets_def Let_def rbind_eq_Inr split: option.splits if_splits)

lemma Cputs_cached:
  assumes "coherent prefix fs c u" "cached c u k" "s = sequence_id c + 1" "0 \<le> sequence_id c"
    "can_open (kLogFp c) fs"
  shows "\<exists>c'. Cputs prefix u k prev new s fs c =
      Inr (if cval prefix fs c u k = prev then (FINISHED, committed (LPut u k new) fs c')
           else (VALUE_ERROR, fs, c'\<lparr>sequence_id := s\<rparr>)) \<and>
    upd c' = upd c \<and> rd c' = rd c \<and> same_ids c c' \<and>
    (updates_cache c' = updates_cache c \<or> updates_cache c' = touch u (updates_cache c))"
proof -
  have "coherent prefix fs (c\<lparr>sequence_id := s\<rparr>) u" "cached (c\<lparr>sequence_id := s\<rparr>) u k"
    using assms(1,2) by (simp_all add: cached_def)
  from Gets_cached [OF this, of "[]"] obtain c1 where G:
      "Gets prefix fs u k [] (c\<lparr>sequence_id := s\<rparr>) = Inr (FINISHED, cval prefix fs c u k, c1)"
      "upd c1 = upd c" "rd c1 = rd c" "sequence_id c1 = s" "kLogFp c1 = kLogFp c"
    by (auto simp: same_ids_def)
  then have "Cputs prefix u k prev new s fs c =
      Inr (if cval prefix fs c u k = prev
           then (FINISHED, committed (LPut u k new) fs (c1\<lparr>sequence_id := sequence_id c\<rparr>))
           else (VALUE_ERROR, fs, (c1\<lparr>sequence_id := sequence_id c\<rparr>)\<lparr>sequence_id := s\<rparr>))"
    using assms(3-5) by (simp add: Cputs_def ValidateAndUpdateSeqNum_def Log_ok committed_def)
  then show ?thesis
    using G Gets_updates [OF G(1)]
    by (intro exI [of _ "c1\<lparr>sequence_id := sequence_id c\<rparr>"]) (simp add: same_ids_def)
qed

section \<open>Recovery\<close>

lemma durable_recovers:
  assumes "durable prefix fs c n ops" "n + length ops < 2 ^ 31" "kLogFp c0 = kLogFp c"
  shows "\<exists>c'. ReplayLoggings fs ms c0 = Inr (FINISHED, sequence_id c, c') \<and>
    durable prefix fs c' n ops \<and> kLogFp c' = kLogFp c \<and>
    updates_cache c' = updates_cache
      (fold apply_op ops (c0\<lparr>sequence_id := int n, updates_cache := [], read_cache := []\<rparr>)) \<and>
    (\<forall>u k. name_ok u \<longrightarrow> cval prefix fs c' u k = cval prefix fs c u k \<and> coherent prefix fs c' u)"
proof -
  have "read_file (kLogFp c0) fs = Some (checkpoint_line (int n) @ log_text n ops)"
    using assms(1,3) by (simp add: durable_def)
  from replay_log_file [OF this _ assms(2), of ms] assms(1) obtain c' where R:
      "ReplayLoggings fs ms c0 = Inr (FINISHED, int (n + length ops), c')"
      "sequence_id c' = int (n + length ops)" "kLogFp c' = kLogFp c0" "upd c' = logged ops"
      "read_cache c' = []" "updates_cache c' = updates_cache
      (fold apply_op ops (c0\<lparr>sequence_id := int n, updates_cache := [], read_cache := []\<rparr>))"
    by (auto simp: durable_def)
  then have "cval prefix fs c' u k = (case logged ops u k of Some v \<Rightarrow> v | None \<Rightarrow> dval prefix fs u k)"
    for u k by (simp add: cval_def)
  then show ?thesis
    using R assms(1,3) by (auto simp: durable_def coherent_def rd_def)
qed

section \<open>Checkpoints\<close>

text \<open>A user without a folder: nothing is written, and the pending updates are gone.\<close>

lemma append_kvs_no_folder:
  assumes "no_user prefix fs u" "folder c = prefix @ u"
  shows "\<exists>c'. append_kvs mp fs c = Inr (FINISHED, fs, c')"
proof -
  have shut: "can_open (chunk_path (prefix @ u) i) fs = False" "can_open (index_path (prefix @ u)) fs = False"
    "can_open (meta_path (prefix @ u)) fs = False" "can_open (delete_path (prefix @ u)) fs = False" for i
    using assms(1) unfolding no_user_def chunk_path_def index_path_def meta_path_def delete_path_def
    by (simp_all only: can_open_def append_Cons append_Nil parent_dir_join)
      (simp_all add: slash_notin_nat_str parent_dir_join [of _ "prefix @ u", simplified])
  have "append_loop mp (fs, c) = (fs, snd (append_loop mp (fs, c))) \<and>
      folder (snd (append_loop mp (fs, c))) = prefix @ u" for mp
    using assms(2)
  proof (induction mp arbitrary: c)
    case (Cons p mp)
    obtain k v where p: "p = (k, v)" by (cases p)
    have "fst (append_step k v (fs, c)) = fs" "folder (snd (append_step k v (fs, c))) = prefix @ u"
      using Cons.prems shut by (simp_all add: append_step_def append_file_def mark_deleted_def Let_def)
    then show ?case
      using Cons.IH [of "snd (append_step k v (fs, c))"] p by (metis append_loop.simps(2) prod.collapse)
  qed simp
  then obtain c1 where c1: "append_loop mp (fs, c) = (fs, c1)" "folder c1 = prefix @ u"
    by metis
  have "read_file (delete_path (prefix @ u)) fs = None"
    using assms(1) by (simp add: no_user_def delete_path_def)
  then show ?thesis
    using assms(2) c1 shut
    by (simp add: append_kvs_def append_file_def write_meta_back_def write_file_def lazy_delete_def)
qed

text \<open>What a checkpoint needs of one user's pending updates; \<open>room\<close>: chunk numbers do not wrap.\<close>

definition room :: "string \<Rightarrow> fsys \<Rightarrow> string \<Rightarrow> kv_map \<Rightarrow> bool" where
  "room prefix fs u kv \<longleftrightarrow>
     (\<forall>ch. chunk_init prefix u fs = Inr (FINISHED, ch) \<longrightarrow> append_index ch + length kv < 2 ^ 64)"

definition pending_ok :: "string \<Rightarrow> fsys \<Rightarrow> string \<Rightarrow> kv_map \<Rightarrow> bool" where
  "pending_ok prefix fs u kv \<longleftrightarrow> name_ok u \<and> batch_ok kv \<and>
     (if kv = [] then user_ok prefix fs u else disk_ok prefix fs u) \<and> room prefix fs u kv"

lemma same_user_pending:
  assumes "same_user prefix u fs fs'" "name_ok u"
  shows "pending_ok prefix fs' u kv = pending_ok prefix fs u kv"
  unfolding pending_ok_def room_def same_user_ok [OF assms] same_user_user_ok [OF assms] same_user_init [OF assms]
  by simp

lemma slash_split:
  assumes "w @ CHR ''/'' # s = u @ CHR ''/'' # r" "CHR ''/'' \<notin> set w" "CHR ''/'' \<notin> set u"
  shows "w = u"
  using arg_cong [OF assms(1), of "takeWhile (\<lambda>c. c \<noteq> CHR ''/'')"] assms(2,3) by simp

lemma other_user:
  assumes "name_ok u" "name_ok w" "u \<noteq> w" "dirs fs' = dirs fs"
    "\<forall>q. \<not> is_prefix (prefix @ u @ ''/'') q \<longrightarrow> read_file q fs' = read_file q fs"
  shows "same_user prefix w fs fs'"
proof -
  have no: "prefix @ w \<noteq> prefix @ u @ CHR ''/'' # r" "prefix @ w @ CHR ''/'' # s \<noteq> prefix @ u @ CHR ''/'' # r" for r s
    using assms(1-3) slash_split [of w s u r] by (auto simp: name_ok_def)
  show ?thesis
    using assms(4,5) no by (auto simp: same_user_def is_prefix_iff)
qed

definition after_batch :: "string \<Rightarrow> fsys \<Rightarrow> string \<Rightarrow> kv_map \<Rightarrow> fsys \<Rightarrow> bool" where
  "after_batch prefix fs u kv fs' \<longleftrightarrow> user_ok prefix fs' u \<and>
     (disk_ok prefix fs u \<longrightarrow> disk_ok prefix fs' u) \<and>
     (\<forall>k. dval prefix fs' u k = (case map_of kv k of Some v \<Rightarrow> v | None \<Rightarrow> dval prefix fs u k))"

lemma checkpoint_one:
  assumes "pending_ok prefix fs u kv"
  obtains fs' where "checkpoint_users prefix ((u, kv) # us) fs = checkpoint_users prefix us fs'"
    "dirs fs' = dirs fs" "after_batch prefix fs u kv fs'"
    "\<forall>q. \<not> is_prefix (prefix @ u @ ''/'') q \<longrightarrow> read_file q fs' = read_file q fs"
proof (cases "disk_ok prefix fs u")
  case True
  then obtain ch where ch: "chunk_init prefix u fs = Inr (FINISHED, ch)"
    by (auto simp: disk_ok_def)
  have "batch_ok kv" "append_index ch + length kv < 2 ^ 64"
    using assms ch by (simp_all add: pending_ok_def room_def)
  from append_kvs_disk [OF True ch this] obtain fs' ch' where K:
      "append_kvs kv fs ch = Inr (FINISHED, fs', ch')" "disk_ok prefix fs' u"
      "disk_view prefix fs' u = batch (disk_view prefix fs u) kv" "dirs fs' = dirs fs"
      "\<forall>q. \<not> is_prefix (prefix @ u @ ''/'') q \<longrightarrow> read_file q fs' = read_file q fs"
    by blast
  have "after_batch prefix fs u kv fs'"
    using K(2,3) by (auto simp: after_batch_def user_ok_def dval_def batch_def split: option.splits)
  then show ?thesis
    using that K ch by simp
next
  case False
  then have kv: "kv = []" "user_ok prefix fs u" "no_user prefix fs u" "name_ok u"
    using assms by (auto simp: pending_ok_def user_ok_def split: if_splits)
  obtain ch' where "append_kvs kv fs (blank_chunk prefix u) = Inr (FINISHED, fs, ch')"
    using append_kvs_no_folder [OF kv(3), of "blank_chunk prefix u" kv] by (auto simp: blank_chunk_def)
  then show ?thesis
    using that [of fs] kv no_user_init(1) [OF kv(3,4)] by (simp add: after_batch_def)
qed

lemma checkpoint_users_spec:
  assumes "distinct (map fst us)" "\<forall>(u, kv) \<in> set us. pending_ok prefix fs u kv"
  shows "\<exists>fs'. checkpoint_users prefix us fs = Inr fs' \<and> dirs fs' = dirs fs \<and>
    (\<forall>(u, kv) \<in> set us. after_batch prefix fs u kv fs') \<and>
    (\<forall>w. name_ok w \<longrightarrow> w \<notin> fst ` set us \<longrightarrow> same_user prefix w fs fs') \<and>
    (\<forall>q. (\<forall>u \<in> fst ` set us. \<not> is_prefix (prefix @ u @ ''/'') q) \<longrightarrow> read_file q fs' = read_file q fs)"
  using assms
proof (induction us arbitrary: fs)
  case (Cons p us)
  obtain u kv where p: "p = (u, kv)" by (cases p)
  then have pu: "pending_ok prefix fs u kv" "name_ok u" "u \<notin> fst ` set us"
    using Cons.prems by (auto simp: pending_ok_def)
  obtain fs1 where one: "checkpoint_users prefix ((u, kv) # us) fs = checkpoint_users prefix us fs1"
    "dirs fs1 = dirs fs" "after_batch prefix fs u kv fs1"
    "\<forall>q. \<not> is_prefix (prefix @ u @ ''/'') q \<longrightarrow> read_file q fs1 = read_file q fs"
    using checkpoint_one [OF pu(1)] by blast
  have oth: "same_user prefix w fs fs1" if "name_ok w" "w \<noteq> u" for w
    using other_user [OF pu(2) that(1) _ one(2,4)] that(2) by blast
  have names: "name_ok w \<and> w \<noteq> u" if "(w, kw) \<in> set us" for w kw
    using Cons.prems(2) that pu(3) by (force simp: pending_ok_def)
  have pend: "\<forall>(w, kw) \<in> set us. pending_ok prefix fs1 w kw"
    using Cons.prems(2) names same_user_pending [OF oth] by fastforce
  obtain fs' where R: "checkpoint_users prefix us fs1 = Inr fs'" "dirs fs' = dirs fs1"
    "\<forall>(w, kw) \<in> set us. after_batch prefix fs1 w kw fs'"
    "\<forall>w. name_ok w \<longrightarrow> w \<notin> fst ` set us \<longrightarrow> same_user prefix w fs1 fs'"
    "\<forall>q. (\<forall>u \<in> fst ` set us. \<not> is_prefix (prefix @ u @ ''/'') q) \<longrightarrow> read_file q fs' = read_file q fs1"
    using Cons.IH [OF _ pend] Cons.prems(1) by auto
  have su: "same_user prefix u fs1 fs'"
    using R(4) pu(2,3) by blast
  have "after_batch prefix fs u kv fs'"
    using one(3) same_user_user_ok [OF su pu(2)] same_user_ok [OF su pu(2)] same_user_vals(1) [OF su pu(2)]
    by (simp add: after_batch_def)
  moreover have "after_batch prefix fs w kw fs'" if "(w, kw) \<in> set us" for w kw
  proof -
    have "after_batch prefix fs1 w kw fs'"
      using R(3) that by blast
    then show ?thesis
      using same_user_vals(1) [OF oth [of w]] same_user_ok [OF oth [of w]] names [OF that]
      by (simp add: after_batch_def split: option.splits)
  qed
  moreover have "same_user prefix w fs fs'" if "name_ok w" "w \<notin> fst ` set (p # us)" for w
    using R(4) oth [of w] that p same_user_trans by auto
  ultimately show ?case
    using R one p by (intro exI [of _ fs']) auto
qed simp

text \<open>
  A checkpoint moves the pending updates to the disk: the values stay what they were, for the cache
  it is called on, emptied or not, and the new log describes them.
\<close>

definition cache_ok :: "string \<Rightarrow> fsys \<Rightarrow> kvcache \<Rightarrow> bool" where
  "cache_ok prefix fs c \<longleftrightarrow> wf_map (updates_cache c) \<and>
     (\<forall>(u, kv) \<in> set (updates_cache c). pending_ok prefix fs u kv)"

lemma upd_cases:
  assumes "cache_ok prefix fs c"
  shows "(user_map (updates_cache c) u = [] \<and> u \<notin> fst ` set (updates_cache c)) \<or>
    (u, user_map (updates_cache c) u) \<in> set (updates_cache c)"
proof (cases "map_of (updates_cache c) u")
  case None
  then have "u \<notin> fst ` set (updates_cache c)"
    by (simp only: map_of_eq_None_iff not_False_eq_True)
  then show ?thesis using None by (simp add: user_map_def)
next
  case (Some kv)
  then show ?thesis by (auto simp: user_map_def dest: map_of_SomeD)
qed

lemma Checkpoint_spec:
  assumes dur: "durable prefix fs c n ops" and ok: "cache_ok prefix fs c"
    and log: "can_open (kLogFp c) fs" "\<And>u. name_ok u \<Longrightarrow> apart prefix (kLogFp c) u"
    and users: "\<And>u. name_ok u \<Longrightarrow> user_ok prefix fs u"
  shows "\<exists>fs' c'. Checkpoint prefix fs c = Inr (FINISHED, fs', c') \<and>
    c' = c\<lparr>updates_cache := [], read_cache := []\<rparr> \<and> dirs fs' = dirs fs \<and>
    durable prefix fs' c' (n + length ops) [] \<and> durable prefix fs' c (n + length ops) [] \<and>
    (\<forall>u. name_ok u \<longrightarrow> user_ok prefix fs' u \<and>
      (\<forall>k. cval prefix fs' c' u k = cval prefix fs c u k \<and> cval prefix fs' c u k = cval prefix fs c u k) \<and>
      coherent prefix fs' c' u \<and> (coherent prefix fs c u \<longrightarrow> coherent prefix fs' c u) \<and>
      (disk_ok prefix fs u \<longrightarrow> disk_ok prefix fs' u))"
proof -
  let ?us = "updates_cache c"
  define c' where "c' = c\<lparr>updates_cache := [], read_cache := []\<rparr>"
  obtain fs1 where U: "checkpoint_users prefix ?us fs = Inr fs1" "dirs fs1 = dirs fs"
    "\<forall>(u, kv) \<in> set ?us. after_batch prefix fs u kv fs1"
    "\<forall>w. name_ok w \<longrightarrow> w \<notin> fst ` set ?us \<longrightarrow> same_user prefix w fs fs1"
    using checkpoint_users_spec [of ?us prefix fs] ok by (auto simp: cache_ok_def wf_map_def)
  define fs2 where "fs2 = snd (write_file (kLogFp c) [] fs1)"
  define fs3 where "fs3 = snd (append_file (kLogFp c) (checkpoint_line (sequence_id c)) fs2)"
  have op: "can_open (kLogFp c) fs1" "can_open (kLogFp c) fs2"
    using log(1) U(2) by (simp_all add: can_open_def fs2_def)
  have chk: "Checkpoint prefix fs c = Inr (FINISHED, fs3, c')"
    using op Log_ok [of c' fs2] by (simp add: Checkpoint_def U(1) fs2_def [symmetric] c'_def [symmetric])
      (simp add: c'_def fs3_def)
  have log3: "read_file (kLogFp c) fs3 = Some (checkpoint_line (sequence_id c))"
    using op by (simp add: fs3_def fs2_def)
  have dirs3: "dirs fs3 = dirs fs"
    using U(2) by (simp add: fs3_def fs2_def)
  have vals: "user_ok prefix fs3 u \<and> (\<forall>k. dval prefix fs3 u k = cval prefix fs c u k) \<and>
      (disk_ok prefix fs u \<longrightarrow> disk_ok prefix fs3 u)"
    if "name_ok u" for u
  proof -
    have s13: "same_user prefix u fs1 fs3"
      using log(2) [OF that] same_user_append same_user_write same_user_trans unfolding fs2_def fs3_def
      by metis
    have "user_ok prefix fs1 u \<and> (\<forall>k. dval prefix fs1 u k = cval prefix fs c u k) \<and>
        (disk_ok prefix fs u \<longrightarrow> disk_ok prefix fs1 u)"
    proof (cases "u \<in> fst ` set ?us")
      case True
      then have "after_batch prefix fs u (user_map ?us u) fs1"
        using upd_cases [OF ok, of u] U(3) by blast
      then show ?thesis
        by (simp add: after_batch_def cval_def upd_def)
    next
      case False
      then have "user_map ?us u = []"
        using upd_cases [OF ok, of u] by (metis fst_conv image_eqI)
      moreover have s: "same_user prefix u fs fs1"
        using U(4) False that by blast
      ultimately show ?thesis
        using same_user_user_ok [OF s that] same_user_ok [OF s that] same_user_vals(1) [OF s that] users [OF that]
        by (simp add: cval_def upd_def)
    qed
    then show ?thesis
      using same_user_user_ok [OF s13 that] same_user_ok [OF s13 that] same_user_vals(1) [OF s13 that] by simp
  qed
  have empty: "upd c' u k = None" "rd c' u k = None" for u k
    by (simp_all add: c'_def upd_def rd_def)
  have live_val: "cval prefix fs3 c u k = cval prefix fs c u k" if "name_ok u" for u k
    using vals [OF that] by (auto simp: cval_def split: option.splits)
  have coh: "coherent prefix fs3 c u" if "coherent prefix fs c u" "name_ok u" for u
    using that(1) vals [OF that(2)] by (auto simp: coherent_def cval_def)
  have seq: "sequence_id c = int (n + length ops)"
    using dur by (simp add: durable_def)
  have dur3: "durable prefix fs3 c' (n + length ops) []" "durable prefix fs3 c (n + length ops) []"
    using vals live_val empty log3 seq by (simp_all add: durable_def cval_def c'_def)
  show ?thesis
    using chk dirs3 dur3 vals live_val coh empty c'_def by (intro exI [of _ fs3] exI [of _ c']) (simp add: cval_def coherent_def)
qed

end
