(* ===== verification/Kv_Client.thy ===== *)
theory Kv_Client
  imports Kv_Interface
begin

text \<open>
  What a client of the key-value store may rely on, as the interface \<open>kv_link\<close>: the calls of
  \<open>common/kv_interface.h\<close> over a link behave as operations on a map from users and keys to values,
  in which an absent key has the empty value.  \<open>Kvstore_Correct\<close> interprets it on the model of a node.
\<close>

definition set_val :: "string \<Rightarrow> string \<Rightarrow> string \<Rightarrow> (string \<Rightarrow> string \<Rightarrow> string) \<Rightarrow> string \<Rightarrow> string \<Rightarrow> string" where
  "set_val u k v m = (\<lambda>u' k'. if u' = u \<and> k' = k then v else m u' k')"

lemma set_val_apply [simp]:
  "set_val u k v m u k = v" "u' \<noteq> u \<or> k' \<noteq> k \<Longrightarrow> set_val u k v m u' k' = m u' k'"
  by (auto simp: set_val_def)

lemma set_val_same [simp]: "set_val u k v (set_val u k w m) = set_val u k v m"
  by (auto simp: set_val_def fun_eq_iff)

text \<open>
  \<open>known\<close>: the users that have signed up.  A read of an absent key may answer \<open>KEY_ERROR\<close>, or
  \<open>USER_ERROR\<close> for an unknown user, or \<open>FINISHED\<close> with the empty value.
\<close>

locale kv_link =
  fixes l :: "('m, 's) link"
    and inv :: "'s \<Rightarrow> bool"
    and val :: "'s \<Rightarrow> string \<Rightarrow> string \<Rightarrow> string"
    and known :: "'s \<Rightarrow> string \<Rightarrow> bool"
    and okd :: "string \<Rightarrow> string \<Rightarrow> string \<Rightarrow> bool"
  assumes puts_law: "inv s \<Longrightarrow> known s u \<Longrightarrow> okd u k v \<Longrightarrow>
      \<exists>s'. kv_puts l u k v s = (kv_code FINISHED, s') \<and> inv s' \<and> val s' = set_val u k v (val s) \<and>
        known s' = known s"
    and dele_law: "inv s \<Longrightarrow> known s u \<Longrightarrow> okd u k v \<Longrightarrow>
      \<exists>s'. kv_dele l u k s = (kv_code FINISHED, s') \<and> inv s' \<and> val s' = set_val u k [] (val s) \<and>
        known s' = known s"
    and gets_law: "inv s \<Longrightarrow> okd u k v \<Longrightarrow>
      \<exists>st s'. kv_gets l old u k s = ((kv_code st, val s u k), s') \<and> inv s' \<and> val s' = val s \<and>
        known s' = known s \<and> (val s u k \<noteq> [] \<longrightarrow> st = FINISHED) \<and>
        (st = FINISHED \<or> st = (if known s u then KEY_ERROR else USER_ERROR))"
    and cput_law: "inv s \<Longrightarrow> known s u \<or> k = ''pwd'' \<and> v1 = [] \<or> val s u k \<noteq> v1 \<Longrightarrow> okd u k v2 \<Longrightarrow>
      \<exists>s'. kv_cput l u k v1 v2 s =
          (kv_code (if val s u k = v1 then FINISHED else VALUE_ERROR), s') \<and> inv s' \<and>
        val s' = (if val s u k = v1 then set_val u k v2 (val s) else val s) \<and>
        known s' = (if val s u k = v1 then (\<lambda>w. w = u \<or> known s w) else known s)"
begin

lemma get_after_put:
  assumes "inv s" "known s u" "okd u k v" "v \<noteq> []"
  shows "\<exists>s' s''. kv_puts l u k v s = (0, s') \<and> kv_gets l old u k s' = ((0, v), s'') \<and> inv s''"
proof -
  obtain s' where s': "kv_puts l u k v s = (0, s')" "inv s'" "val s' = set_val u k v (val s)"
    using puts_law [OF assms(1-3)] by auto
  obtain st s'' where "kv_gets l old u k s' = ((kv_code st, v), s'')" "inv s''" "st = FINISHED"
    using gets_law [OF s'(2) assms(3), of old] s'(3) assms(4) by auto
  then show ?thesis
    using s' by auto
qed

lemma get_after_dele:
  assumes "inv s" "known s u" "okd u k v"
  shows "\<exists>s' st s''. kv_dele l u k s = (0, s') \<and> kv_gets l old u k s' = ((kv_code st, []), s'') \<and> inv s''"
proof -
  obtain s' where s': "kv_dele l u k s = (0, s')" "inv s'" "val s' = set_val u k [] (val s)"
    using dele_law [OF assms] by auto
  obtain st s'' where "kv_gets l old u k s' = ((kv_code st, val s' u k), s'')" "inv s''"
    using gets_law [OF s'(2) assms(3), of old] by blast
  then show ?thesis
    using s' by (metis set_val_apply(1))
qed

text \<open>Of two writers that start from the same old value only the first one wins.\<close>

lemma one_writer_wins:
  assumes "inv s" "known s u" "val s u k = old" "okd u k v" "okd u k w" "v \<noteq> old"
  shows "\<exists>s' s''. kv_cput l u k old v s = (0, s') \<and>
    kv_cput l u k old w s' = (kv_code VALUE_ERROR, s'') \<and> inv s'' \<and> val s'' = set_val u k v (val s)"
proof -
  obtain s' where s': "kv_cput l u k old v s = (0, s')" "inv s'" "val s' = set_val u k v (val s)"
    using cput_law [OF assms(1) disjI1 [OF assms(2)] assms(4), of old] assms(3) by auto
  have "known s' u \<or> k = ''pwd'' \<and> old = [] \<or> val s' u k \<noteq> old"
    using s'(3) assms(6) by simp
  from cput_law [OF s'(2) this assms(5)] s'(3) assms(6) show ?thesis
    using s'(1) by auto
qed

end

text \<open>The same for a store in which a shorter value is as good as a longer one.\<close>

locale sized_kv_link = kv_link +
  assumes okd_shorter: "okd u k v \<Longrightarrow> length w \<le> length v \<Longrightarrow> okd u k w"
begin

lemma okd_empty: "okd u k v \<Longrightarrow> okd u k []"
  by (erule okd_shorter) simp

lemma okd_same_length: "okd u k v \<Longrightarrow> length w = length v \<Longrightarrow> okd u k w"
  by (erule okd_shorter) simp

end

end
