(* ===== verification/Kvstore_Correct.thy ===== *)
theory Kvstore_Correct
  imports Kvstore Cache_Correct Kv_Client
begin

text \<open>
  A node of the key-value store implements a map from users and keys to values: every command is
  the corresponding operation on \<open>nval\<close>, the invariant \<open>node_ok\<close> is kept, and no exception is
  raised.  This discharges
  the interface \<open>kv_link\<close> of the clients.
\<close>

section \<open>The invariant\<close>

definition cache_wf :: "string \<Rightarrow> fsys \<Rightarrow> kvcache \<Rightarrow> bool" where
  "cache_wf prefix fs c \<longleftrightarrow> wf_map (updates_cache c) \<and> (\<forall>u. map_of (updates_cache c) u \<noteq> None \<longrightarrow> name_ok u) \<and>
     (\<forall>u. batch_ok (user_map (updates_cache c) u) \<and>
          (user_map (updates_cache c) u \<noteq> [] \<longrightarrow> disk_ok prefix fs u))"

definition base_ok :: "string \<Rightarrow> fsys \<Rightarrow> bool" where
  "base_ok prefix fs \<longleftrightarrow> (\<exists>d. prefix = d @ ''/'' \<and> d \<in> set (dirs fs)) \<and>
     prefix @ ''logging'' \<notin> set (dirs fs)"

definition state_ok :: "string \<Rightarrow> fsys \<Rightarrow> kvcache \<Rightarrow> bool" where
  "state_ok prefix fs c \<longleftrightarrow> kLogFp c = prefix @ ''logging'' \<and> base_ok prefix fs \<and> 0 \<le> sequence_id c \<and>
     (\<forall>u. name_ok u \<longrightarrow> user_ok prefix fs u \<and> coherent prefix fs c u) \<and> cache_wf prefix fs c"

definition node_ok :: "node \<Rightarrow> bool" where
  "node_ok nd \<longleftrightarrow> state_ok (nd_prefix nd) (nd_fs nd) (nd_cache nd) \<and>
     max_sequence nd = sequence_id (nd_cache nd)"

definition nval :: "node \<Rightarrow> string \<Rightarrow> string \<Rightarrow> string" where
  "nval nd u k = (if name_ok u then cval (nd_prefix nd) (nd_fs nd) (nd_cache nd) u k else [])"

text \<open>A user the node knows: one whose folder is there.\<close>

definition knows :: "node \<Rightarrow> string \<Rightarrow> bool" where
  "knows nd u \<longleftrightarrow> disk_ok (nd_prefix nd) (nd_fs nd) u"

definition data_ok :: "string \<Rightarrow> string \<Rightarrow> string \<Rightarrow> bool" where
  "data_ok u k v \<longleftrightarrow> token u \<and> u \<noteq> ''logging'' \<and> token k \<and> length v < 2 ^ 31"

lemma state_okD:
  assumes "state_ok prefix fs c"
  shows "kLogFp c = prefix @ ''logging''" "0 \<le> sequence_id c" "cache_wf prefix fs c" "base_ok prefix fs"
    "name_ok u \<Longrightarrow> user_ok prefix fs u" "name_ok u \<Longrightarrow> coherent prefix fs c u"
  using assms by (simp_all add: state_ok_def)

lemma base_can_open: "base_ok prefix fs \<Longrightarrow> can_open (prefix @ ''logging'') fs"
  using parent_dir_join [of "''logging''"] by (auto simp: base_ok_def can_open_def)

lemma log_apart: "name_ok u \<Longrightarrow> apart prefix (prefix @ ''logging'') u"
proof -
  assume u: "name_ok u"
  have "''logging'' \<noteq> u @ CHR ''/'' # r" for r
  proof
    assume "''logging'' = u @ CHR ''/'' # r"
    then have "CHR ''/'' \<in> set ''logging''" by (metis in_set_conv_decomp)
    then show False by simp
  qed
  then show ?thesis using u by (auto simp: apart_def name_ok_def)
qed

lemma wf_map_all:
  "wf_map m \<Longrightarrow> (\<forall>p \<in> set m. P (fst p) (snd p)) \<longleftrightarrow> (\<forall>k v. map_of m k = Some v \<longrightarrow> P k v)"
  by (fastforce simp: wf_map_def)

lemma batch_ok_map:
  "batch_ok m \<longleftrightarrow> wf_map m \<and> (\<forall>k v. map_of m k = Some v \<longrightarrow> nl \<notin> set k \<and> length v < 2 ^ 63)"
  using wf_map_all [of m "\<lambda>k v. nl \<notin> set k \<and> length v < 2 ^ 63"]
  by (auto simp: batch_ok_def case_prod_beta)

lemma batch_ok_update: "batch_ok m \<Longrightarrow> nl \<notin> set k \<Longrightarrow> length v < 2 ^ 63 \<Longrightarrow> batch_ok (AList.update k v m)"
  by (auto simp: batch_ok_map)

lemma batch_ok_Nil [simp]: "batch_ok []"
  by (simp add: batch_ok_def)

lemma wf_touch [simp]: "wf_map m \<Longrightarrow> wf_map (touch u m)"
  by (simp add: touch_def split: option.split)

lemma wf_put_key [simp]: "wf_map m \<Longrightarrow> wf_map (put_key u k v m)"
  by (simp add: put_key_def)

lemma map_of_touch [simp]: "map_of (touch u m) u' = None \<longleftrightarrow> u' \<noteq> u \<and> map_of m u' = None"
  by (auto simp: touch_def split: option.split)

lemma map_of_put_key [simp]: "map_of (put_key u k v m) u' = None \<longleftrightarrow> u' \<noteq> u \<and> map_of m u' = None"
  by (auto simp: put_key_def)

lemma cache_wf_touch:
  assumes "cache_wf prefix fs c" "name_ok u" "updates_cache c' = touch u (updates_cache c)"
  shows "cache_wf prefix fs c'"
  using assms by (auto simp: cache_wf_def)

lemma cache_wf_put:
  assumes "cache_wf prefix fs c" "name_ok u" "disk_ok prefix fs u" "nl \<notin> set k" "length v < 2 ^ 63"
  shows "cache_wf prefix fs (put_cached u k v c)"
proof -
  let ?uc = "put_key u k v (touch u (updates_cache c))"
  have "updates_cache (put_cached u k v c) = ?uc"
    by (simp add: put_cached_def Let_def)
  then show ?thesis
    using assms by (auto simp: cache_wf_def batch_ok_update)
qed

lemma cache_wf_same:
  assumes "\<And>u. name_ok u \<Longrightarrow> same_user prefix u fs fs'" "updates_cache c' = updates_cache c"
    "cache_wf prefix fs c"
  shows "cache_wf prefix fs' c'"
proof -
  have "disk_ok prefix fs' u" if u: "user_map (updates_cache c) u \<noteq> []" for u
  proof -
    have "map_of (updates_cache c) u \<noteq> None"
      using u by (auto simp: user_map_def split: option.splits)
    then have "name_ok u" "disk_ok prefix fs u"
      using assms(3) u by (auto simp: cache_wf_def)
    then show ?thesis using same_user_ok [OF assms(1)] by blast
  qed
  then show ?thesis using assms(2,3) by (auto simp: cache_wf_def)
qed

lemma cache_wf_sequence [simp]: "cache_wf prefix fs (c\<lparr>sequence_id := s\<rparr>) = cache_wf prefix fs c"
  by (simp add: cache_wf_def)

section \<open>Operations keep the invariant\<close>

lemma state_commit:
  assumes ok: "state_ok prefix fs c" and op: "op_ok op" "name_ok (op_user op)" "disk_ok prefix fs (op_user op)"
    and c': "committed op fs c = (fs', c')"
  shows "state_ok prefix fs' c'" "sequence_id c' = sequence_id c + 1" "kLogFp c' = kLogFp c"
    "name_ok u \<Longrightarrow> same_user prefix u fs fs'"
    "name_ok u \<Longrightarrow> cval prefix fs' c' u k =
       (if fst (op_write op) = (u, k) then snd (op_write op) else cval prefix fs c u k)"
proof -
  note D = state_okD [OF ok]
  have op': "can_open (kLogFp c) fs"
    using base_can_open [OF D(4)] D(1) by simp
  note F = committed_facts [OF c' op']
  show same: "same_user prefix u fs fs'" if "name_ok u" for u
    using F(5) log_apart [OF that] D(1) by simp
  show "sequence_id c' = sequence_id c + 1" "kLogFp c' = kLogFp c"
    using F(2,3) by simp_all
  show "cval prefix fs' c' u k =
      (if fst (op_write op) = (u, k) then snd (op_write op) else cval prefix fs c u k)" if "name_ok u"
    using F(6) same_user_vals(1) [OF same [OF that] that] by (simp add: cval_def split: option.split)
  have "nl \<notin> set s" if "token s" for s
    using that by (auto simp: token_def log_char_def alpha_def is_digit_def)
  then have wf: "cache_wf prefix fs c'"
    using op c' cache_wf_put D(3) by (cases op) (auto simp: committed_def)
  have "cache_wf prefix fs' c'"
    by (rule cache_wf_same [OF same _ wf]) simp_all
  moreover have "base_ok prefix fs'"
    using D(4) F(1) by (simp add: base_ok_def)
  moreover have "user_ok prefix fs' w \<and> coherent prefix fs' c' w" if "name_ok w" for w
    using same_user_user_ok [OF same [OF that] that] D(5) [OF that]
      same_user_vals(3) [OF same [OF that] that] F(7) [OF D(6) [OF that]] by simp
  ultimately show "state_ok prefix fs' c'"
    using D F by (simp add: state_ok_def)
qed

lemma state_gets:
  assumes ok: "state_ok prefix fs c" and u: "name_ok u"
  obtains ret v c' where "Gets prefix fs u k v0 c = Inr (ret, v, c')" "state_ok prefix fs c'"
    "ret = FINISHED \<longleftrightarrow> cached c u k \<or> disk_view prefix fs u k \<noteq> None"
    "ret = FINISHED \<Longrightarrow> v = cval prefix fs c u k"
    "ret \<noteq> FINISHED \<Longrightarrow> v = v0 \<and> cval prefix fs c u k = [] \<and>
       ret = (if disk_ok prefix fs u then KEY_ERROR else USER_ERROR)"
    "upd c' = upd c" "cached c' u k" "same_ids c c'" "\<And>u' k'. cval prefix fs c' u' k' = cval prefix fs c u' k'"
proof -
  note D = state_okD [OF ok]
  obtain ret v c' where G: "Gets prefix fs u k v0 c = Inr (ret, v, c')"
    "ret = FINISHED \<longleftrightarrow> cached c u k \<or> disk_view prefix fs u k \<noteq> None"
    "ret = FINISHED \<Longrightarrow> v = cval prefix fs c u k"
    "ret \<noteq> FINISHED \<Longrightarrow> v = v0 \<and> cval prefix fs c u k = [] \<and>
       ret = (if disk_ok prefix fs u then KEY_ERROR else USER_ERROR)"
    "upd c' = upd c" "cached c' u k" "same_ids c c'" "\<And>u' k'. cval prefix fs c' u' k' = cval prefix fs c u' k'"
    "\<And>u'. coherent prefix fs c u' \<Longrightarrow> coherent prefix fs c' u'"
    using Gets_spec [OF u D(5) [OF u] D(6) [OF u], of k v0] by metis
  have "cache_wf prefix fs c'"
    using Gets_updates [OF G(1)] cache_wf_touch [OF D(3) u]
      cache_wf_same [OF same_user_refl _ D(3)] by blast
  then have "state_ok prefix fs c'"
    using D G(7,9) by (simp add: state_ok_def same_ids_def)
  then show ?thesis
    using that G by blast
qed

lemma disk_ok_exists: "disk_ok prefix fs u \<Longrightarrow> exist_file (prefix @ u) fs"
  by (auto simp: disk_ok_def chunk_init_def blank_chunk_def Let_def split: if_splits)

text \<open>Creating the folder of a new user.\<close>

lemma state_create:
  assumes ok: "state_ok prefix fs c" and u: "name_ok u" and new: "no_user prefix fs u"
    and fs': "create_dir (prefix @ u @ ''/'') fs = (b, fs')"
  shows "b" "state_ok prefix fs' c" "disk_ok prefix fs' u"
    "\<And>w k. name_ok w \<Longrightarrow> cval prefix fs' c w k = cval prefix fs c w k"
    "\<And>w. name_ok w \<Longrightarrow> w \<noteq> u \<Longrightarrow> same_user prefix w fs fs'" "files fs' = files fs"
    "\<And>w k. name_ok w \<Longrightarrow> dval prefix fs' w k = dval prefix fs w k"
proof -
  note D = state_okD [OF ok]
  obtain d where d: "prefix = d @ ''/''" "d \<in> set (dirs fs)"
    using D(4) by (auto simp: base_ok_def)
  have strip: "strip_slash (prefix @ u @ ''/'') = prefix @ u"
    by (simp add: strip_slash_def butlast_append)
  have ns: "CHR ''/'' \<notin> set u"
    using u by (simp add: name_ok_def)
  have "parent_dir (prefix @ u) = d"
    using parent_dir_join [OF ns, of d] d(1) by simp
  moreover have ne: "exist_file (prefix @ u) fs = False"
    using no_user_init(3) [OF new u] .
  ultimately show b: "b" and "files fs' = files fs"
    using fs' d(2) by (auto simp: create_dir_def strip Let_def)
  have fs'_eq: "fs' = fs\<lparr>dirs := (prefix @ u) # dirs fs\<rparr>"
    using fs' b by (auto simp: create_dir_def strip Let_def split: if_splits)
  have rd: "read_file q fs' = read_file q fs" for q
    by (simp add: fs'_eq read_file_def)
  have ds: "set (dirs fs') = insert (prefix @ u) (set (dirs fs))"
    by (simp add: fs'_eq)
  show same: "same_user prefix w fs fs'" if "name_ok w" "w \<noteq> u" for w
    using that ns ds by (auto simp: same_user_def rd)
  have "folder_ok fs' (prefix @ u)"
    using new strip_name [OF u] ns by (auto simp: folder_ok_def fs'_eq no_user_def)
  then have fresh: "disk_ok prefix fs' u" "disk_view prefix fs' u = (\<lambda>_. None)"
    using disk_ok_fresh [of fs' prefix u] new by (auto simp: rd no_user_def)
  show "disk_ok prefix fs' u" using fresh(1) .
  show dv: "dval prefix fs' w k = dval prefix fs w k" if "name_ok w" for w k
  proof (cases "w = u")
    case True
    then show ?thesis using fresh(2) no_user_init(2) [OF new u] by (simp add: dval_def)
  next
    case False
    then show ?thesis using same_user_vals(1) [OF same [OF that] that] by simp
  qed
  then show cv: "cval prefix fs' c w k = cval prefix fs c w k" if "name_ok w" for w k
    using that by (simp add: cval_def split: option.split)
  have "user_ok prefix fs' w \<and> coherent prefix fs' c w" if "name_ok w" for w
  proof (cases "w = u")
    case True
    then show ?thesis using fresh(1) D(6) [OF u] dv [OF u] by (simp add: user_ok_def coherent_def)
  next
    case False
    then show ?thesis
      using same_user_user_ok [OF same [OF that] that] D(5,6) [OF that] dv [OF that]
      by (simp add: coherent_def)
  qed
  moreover have "cache_wf prefix fs' c"
  proof -
    have "disk_ok prefix fs' w" if w: "user_map (updates_cache c) w \<noteq> []" for w
    proof (cases "w = u")
      case False
      have "name_ok w" "disk_ok prefix fs w"
        using D(3) w by (auto simp: cache_wf_def user_map_def split: option.splits)
      then show ?thesis using same_user_ok [OF same] False by blast
    qed (simp add: fresh)
    then show ?thesis using D(3) by (simp add: cache_wf_def)
  qed
  moreover have "base_ok prefix fs'"
    using D(4) u by (auto simp: base_ok_def fs'_eq name_ok_def)
  ultimately show "state_ok prefix fs' c"
    using D by (simp add: state_ok_def)
qed

section \<open>The commands as map operations\<close>

lemma set_sec_sel [simp]:
  "nd_prefix (set_sec (fs, ms, c) nd) = nd_prefix nd" "nd_fs (set_sec (fs, ms, c) nd) = fs"
  "max_sequence (set_sec (fs, ms, c) nd) = ms" "nd_cache (set_sec (fs, ms, c) nd) = c"
  "isPrimary (set_sec (fs, ms, c) nd) = isPrimary nd" "killed (set_sec (fs, ms, c) nd) = killed nd"
  "secondary (set_sec (fs, ms, c) nd) = secondary nd" "my_addr (set_sec (fs, ms, c) nd) = my_addr nd"
  by (simp_all add: set_sec_def)

text \<open>What a command leaves alone: its place in the group, and who is known.\<close>

definition same_role :: "node \<Rightarrow> node \<Rightarrow> bool" where
  "same_role nd nd' \<longleftrightarrow> nd_prefix nd' = nd_prefix nd \<and> isPrimary nd' = isPrimary nd \<and>
     killed nd' = killed nd \<and> secondary nd' = secondary nd \<and> my_addr nd' = my_addr nd"

lemma same_role_set [simp]: "same_role nd (set_sec st nd)" "same_role nd (nd\<lparr>nd_cache := c\<rparr>)"
  by (cases st; simp add: same_role_def set_sec_def)+

text \<open>The log of a node and the files of its chunks determine its values.\<close>

definition logged_node :: "node \<Rightarrow> nat \<Rightarrow> log_op list \<Rightarrow> bool" where
  "logged_node nd n ops \<longleftrightarrow> durable (nd_prefix nd) (nd_fs nd) (nd_cache nd) n ops \<and>
     (\<forall>op \<in> set ops. name_ok (op_user op) \<and> knows nd (op_user op))"

text \<open>Another state of files and cache that shows the same values from the same log.\<close>

definition same_show :: "node \<Rightarrow> fsys \<Rightarrow> kvcache \<Rightarrow> bool" where
  "same_show nd fs c \<longleftrightarrow> state_ok (nd_prefix nd) fs c \<and> same_ids (nd_cache nd) c \<and>
     read_file (kLogFp c) fs = read_file (kLogFp c) (nd_fs nd) \<and>
     (\<forall>u. name_ok u \<longrightarrow> (knows nd u \<longrightarrow> disk_ok (nd_prefix nd) fs u) \<and>
        (\<forall>k. cval (nd_prefix nd) fs c u k = nval nd u k \<and>
              dval (nd_prefix nd) fs u k = dval (nd_prefix nd) (nd_fs nd) u k))"

lemma same_show_durable:
  "same_show nd fs c \<Longrightarrow> durable (nd_prefix nd) (nd_fs nd) (nd_cache nd) n ops \<Longrightarrow>
   durable (nd_prefix nd) fs c n ops"
  by (auto simp: same_show_def durable_def same_ids_def nval_def split: option.splits)

definition log_grows :: "node \<Rightarrow> node \<Rightarrow> log_op \<Rightarrow> bool" where
  "log_grows nd nd' op \<longleftrightarrow> (\<forall>t. read_file (nd_prefix nd @ ''logging'') (nd_fs nd) = Some t \<longrightarrow>
     read_file (nd_prefix nd @ ''logging'') (nd_fs nd') = Some (t @ entry (nat (max_sequence nd + 1)) op))"

lemma commit_node:
  assumes nd: "node_ok nd" and show_c: "same_show nd fs c"
    and op: "op_ok op" "name_ok (op_user op)" "disk_ok (nd_prefix nd) fs (op_user op)"
    and c': "committed op fs c = (fs', c')"
    and nd': "nd' = set_sec (fs', max_sequence nd + 1, c') nd"
  shows "node_ok nd'" "nval nd' = set_val (fst (fst (op_write op))) (snd (fst (op_write op))) (snd (op_write op)) (nval nd)"
    "max_sequence nd' = max_sequence nd + 1" "same_role nd nd'"
    "\<And>u. name_ok u \<Longrightarrow> knows nd' u = disk_ok (nd_prefix nd) fs u"
    "\<And>n ops. logged_node nd n ops \<Longrightarrow> logged_node nd' n (ops @ [op])" "log_grows nd nd' op"
proof -
  have c: "state_ok (nd_prefix nd) fs c" "same_ids (nd_cache nd) c"
    "\<And>u k. name_ok u \<Longrightarrow> cval (nd_prefix nd) fs c u k = nval nd u k"
    using show_c by (simp_all add: same_show_def)
  note C = state_commit [OF c(1) op c']
  note D = state_okD [OF c(1)]
  show "node_ok nd'"
    using nd C(1,2) c(2) by (simp add: node_ok_def nd' same_ids_def)
  have "fst (fst (op_write op)) = op_user op"
    by (cases op) simp_all
  then show "nval nd' = set_val (fst (fst (op_write op))) (snd (fst (op_write op))) (snd (op_write op)) (nval nd)"
    using C(5) c(3) op(2) by (cases "op_write op") (auto simp: nval_def set_val_def nd' fun_eq_iff)
  show "max_sequence nd' = max_sequence nd + 1" "same_role nd nd'"
    by (simp_all add: nd')
  show kn: "knows nd' u = disk_ok (nd_prefix nd) fs u" if "name_ok u" for u
    using same_user_ok [OF C(4) [OF that] that] by (simp add: knows_def nd')
  show "logged_node nd' n (ops @ [op])" if l: "logged_node nd n ops" for n ops
  proof -
    have "can_open (kLogFp c) fs"
      using base_can_open [OF D(4)] D(1) by simp
    then have "durable (nd_prefix nd) fs' c' n (ops @ [op])"
      using durable_commit [OF same_show_durable [OF show_c] c' _ op(1)] l log_apart D(1)
      by (simp add: logged_node_def)
    moreover have "\<forall>o' \<in> set (ops @ [op]). name_ok (op_user o') \<and> knows nd' (op_user o')"
      using l kn op(2,3) show_c by (auto simp: logged_node_def same_show_def)
    ultimately show ?thesis
      by (simp add: logged_node_def nd')
  qed
  have op': "can_open (kLogFp c) fs"
    using base_can_open [OF D(4)] D(1) by simp
  have "sequence_id c = max_sequence nd"
    using show_c nd by (simp add: same_show_def node_ok_def same_ids_def)
  moreover have "read_file (kLogFp c) fs = read_file (kLogFp c) (nd_fs nd)"
    using show_c unfolding same_show_def by blast
  ultimately show "log_grows nd nd' op"
    using committed_facts(4) [OF c' op'] D(1) by (simp add: log_grows_def nd')
qed

lemma same_show_refl: "node_ok nd \<Longrightarrow> same_show nd (nd_fs nd) (nd_cache nd)"
  by (simp add: same_show_def node_ok_def same_ids_def nval_def knows_def)

text \<open>\<open>updates nd nd' u k v\<close>: the node has taken one update.\<close>

definition updates :: "node \<Rightarrow> node \<Rightarrow> string \<Rightarrow> string \<Rightarrow> string \<Rightarrow> bool" where
  "updates nd nd' u k v \<longleftrightarrow> node_ok nd' \<and> nval nd' = set_val u k v (nval nd) \<and>
     max_sequence nd' = max_sequence nd + 1 \<and> same_role nd nd' \<and>
     (\<forall>w. name_ok w \<longrightarrow> knows nd' w = (w = u \<or> knows nd w)) \<and>
     (\<exists>op. op_ok op \<and> log_grows nd nd' op \<and>
        (\<forall>n ops. logged_node nd n ops \<longrightarrow> logged_node nd' n (ops @ [op])))"

lemma commit_updates:
  assumes "node_ok nd" "same_show nd fs c" "op_ok op" "op_write op = ((u, k), v)" "name_ok u"
    and "\<And>w. name_ok w \<Longrightarrow> disk_ok (nd_prefix nd) fs w = (w = u \<or> knows nd w)"
    and "committed op fs c = (fs', c')"
  shows "updates nd (set_sec (fs', max_sequence nd + 1, c') nd) u k v"
proof -
  have u: "op_user op = u"
    using assms(4) by (cases op) simp_all
  have p: "name_ok (op_user op)" "disk_ok (nd_prefix nd) fs (op_user op)"
    using assms(5,6) by (simp_all add: u)
  note C = commit_node [OF assms(1-3) p assms(7) refl]
  show ?thesis
    unfolding updates_def using C(1-5) assms(4,6) by (intro conjI exI [of _ op] assms(3) C(6,7) allI impI) auto
qed

lemma node_state:
  assumes "node_ok nd"
  shows "state_ok (nd_prefix nd) (nd_fs nd) (nd_cache nd)" "can_open (kLogFp (nd_cache nd)) (nd_fs nd)"
    "max_sequence nd = sequence_id (nd_cache nd)" "0 \<le> sequence_id (nd_cache nd)"
    "name_ok u \<Longrightarrow> cval (nd_prefix nd) (nd_fs nd) (nd_cache nd) u k = nval nd u k"
  using assms base_can_open state_okD [of "nd_prefix nd" "nd_fs nd" "nd_cache nd"]
  by (simp_all add: node_ok_def nval_def)

lemma same_ids_refl [simp]: "same_ids c c"
  by (simp add: same_ids_def)

lemma data_okD: "data_ok u k v \<Longrightarrow> name_ok u \<and> op_ok (LPut u k v) \<and> op_ok (LDel u k)"
  by (simp add: data_ok_def token_name)

lemma run_puts_spec:
  assumes nd: "node_ok nd" and u: "knows nd u" and d: "data_ok u k v"
  shows "\<exists>nd'. run_puts (puts_cmd u k v) nd = (FINISHED, nd') \<and> updates nd nd' u k v"
proof -
  note N = node_state [OF nd]
  obtain fs' c' where c': "committed (LPut u k v) (nd_fs nd) (nd_cache nd) = (fs', c')"
    by fastforce
  have kn: "disk_ok (nd_prefix nd) (nd_fs nd) w = (w = u \<or> knows nd w)" for w
    using u by (auto simp: knows_def)
  have "updates nd (set_sec (fs', max_sequence nd + 1, c') nd) u k v"
    using commit_updates [OF nd same_show_refl [OF nd] _ _ _ kn c'] data_okD [OF d] by simp
  moreover have "run_puts (puts_cmd u k v) nd = (FINISHED, set_sec (fs', max_sequence nd + 1, c') nd)"
    using Puts_commits [OF N(2,4)] N(3) c' by (simp add: run_puts_def Let_def)
  ultimately show ?thesis
    by blast
qed

lemma run_dele_spec:
  assumes nd: "node_ok nd" and u: "knows nd u" and d: "data_ok u k v"
  shows "\<exists>nd'. run_dele (dele_cmd u k) nd = (FINISHED, nd') \<and> updates nd nd' u k []"
proof -
  note N = node_state [OF nd]
  obtain fs' c' where c': "committed (LDel u k) (nd_fs nd) (nd_cache nd) = (fs', c')"
    by fastforce
  have kn: "disk_ok (nd_prefix nd) (nd_fs nd) w = (w = u \<or> knows nd w)" for w
    using u by (auto simp: knows_def)
  have "updates nd (set_sec (fs', max_sequence nd + 1, c') nd) u k []"
    using commit_updates [OF nd same_show_refl [OF nd] _ _ _ kn c'] data_okD [OF d] by simp
  moreover have "run_dele (dele_cmd u k) nd = (FINISHED, set_sec (fs', max_sequence nd + 1, c') nd)"
    using Dele_commits [OF N(2,4)] N(3) c' by (simp add: run_dele_def Let_def)
  ultimately show ?thesis
    by blast
qed

text \<open>\<open>keeps nd nd'\<close>: the values and the users are the same; \<open>n\<close> sequence numbers were used.\<close>

definition keeps :: "nat \<Rightarrow> node \<Rightarrow> node \<Rightarrow> bool" where
  "keeps n nd nd' \<longleftrightarrow> node_ok nd' \<and> nval nd' = nval nd \<and> max_sequence nd' = max_sequence nd + int n \<and>
     same_role nd nd' \<and> knows nd' = knows nd \<and> nd_fs nd' = nd_fs nd \<and>
     (n = 0 \<longrightarrow> (\<forall>m ops. logged_node nd m ops \<longrightarrow> logged_node nd' m ops))"

lemma run_gets_spec:
  assumes nd: "node_ok nd" and u: "name_ok u"
  shows "\<exists>s nd'. run_gets (gets_cmd u k) nd = Inr (s, nval nd u k, nd') \<and> keeps 0 nd nd' \<and>
    (s = FINISHED \<longleftrightarrow> cached (nd_cache nd) u k \<or> disk_view (nd_prefix nd) (nd_fs nd) u k \<noteq> None) \<and>
    (nval nd u k \<noteq> [] \<longrightarrow> s = FINISHED) \<and> cached (nd_cache nd') u k \<and>
    (s \<noteq> FINISHED \<longrightarrow> s = (if knows nd u then KEY_ERROR else USER_ERROR))"
proof -
  note N = node_state [OF nd]
  obtain s v c' where G: "Gets (nd_prefix nd) (nd_fs nd) u k [] (nd_cache nd) = Inr (s, v, c')"
    "state_ok (nd_prefix nd) (nd_fs nd) c'"
    "s = FINISHED \<longleftrightarrow> cached (nd_cache nd) u k \<or> disk_view (nd_prefix nd) (nd_fs nd) u k \<noteq> None"
    "s = FINISHED \<Longrightarrow> v = cval (nd_prefix nd) (nd_fs nd) (nd_cache nd) u k"
    "s \<noteq> FINISHED \<Longrightarrow> v = [] \<and> cval (nd_prefix nd) (nd_fs nd) (nd_cache nd) u k = [] \<and>
       s = (if disk_ok (nd_prefix nd) (nd_fs nd) u then KEY_ERROR else USER_ERROR)"
    "cached c' u k" "same_ids (nd_cache nd) c'"
    "\<And>u' k'. cval (nd_prefix nd) (nd_fs nd) c' u' k' = cval (nd_prefix nd) (nd_fs nd) (nd_cache nd) u' k'"
    using state_gets [OF N(1) u, of k "[]"] by metis
  have "v = nval nd u k"
    using G(4,5) u by (cases "s = FINISHED") (simp_all add: nval_def)
  moreover have "keeps 0 nd (nd\<lparr>nd_cache := c'\<rparr>)"
    using nd G(2,7,8) by (simp add: keeps_def node_ok_def nval_def same_ids_def knows_def fun_eq_iff
        logged_node_def durable_def)
  moreover have "nval nd u k \<noteq> [] \<longrightarrow> s = FINISHED"
    using G(5) N(5) [OF u] by auto
  moreover have "s \<noteq> FINISHED \<longrightarrow> s = (if knows nd u then KEY_ERROR else USER_ERROR)"
    using G(5) by (auto simp: knows_def)
  ultimately show ?thesis
    using G(1,3,6) by (intro exI [of _ s] exI [of _ "nd\<lparr>nd_cache := c'\<rparr>"]) (simp add: run_gets_def)
qed

lemma unknown_user:
  assumes nd: "node_ok nd" and u: "name_ok u" "\<not> knows nd u"
  shows "no_user (nd_prefix nd) (nd_fs nd) u" "nval nd u k = []"
proof -
  note D = state_okD [OF node_state(1) [OF nd]]
  show n: "no_user (nd_prefix nd) (nd_fs nd) u"
    using D(5) [OF u(1)] u(2) by (simp add: user_ok_def knows_def)
  have "user_map (updates_cache (nd_cache nd)) u = []"
    using D(3) u(2) by (auto simp: cache_wf_def knows_def)
  then have "upd (nd_cache nd) u k = None"
    by (simp add: upd_def)
  then show "nval nd u k = []"
    using no_user_init(2) [OF n u(1)] by (simp add: nval_def cval_def dval_def)
qed

lemma known_folder:
  assumes "knows nd u"
  shows "exist_file (nd_prefix nd @ u @ ''/'') (nd_fs nd)"
proof -
  obtain c recs where "chunk_init (nd_prefix nd) u (nd_fs nd) = Inr (FINISHED, c)" "store_inv (nd_fs nd) c recs"
    using assms by (auto simp: knows_def disk_ok_def)
  then have "folder_ok (nd_fs nd) (nd_prefix nd @ u)"
    using store_invD(1) chunk_init_folder by metis
  moreover have "strip_slash (nd_prefix nd @ u @ ''/'') = nd_prefix nd @ u"
    by (simp add: strip_slash_def butlast_append)
  ultimately show ?thesis
    by (simp add: exist_file_def folder_ok_def)
qed

lemma unknown_folder:
  assumes "no_user (nd_prefix nd) (nd_fs nd) u"
  shows "\<not> exist_file (nd_prefix nd @ u @ ''/'') (nd_fs nd)"
proof -
  have "strip_slash (nd_prefix nd @ u @ ''/'') = nd_prefix nd @ u"
    by (simp add: strip_slash_def butlast_append)
  then show ?thesis
    using assms by (simp add: exist_file_def no_user_def read_file_def)
qed

lemma refused_node:
  assumes "node_ok nd" "state_ok (nd_prefix nd) (nd_fs nd) c" "same_ids (nd_cache nd) c"
    "\<And>u k. name_ok u \<Longrightarrow> cval (nd_prefix nd) (nd_fs nd) c u k = nval nd u k"
  shows "keeps 1 nd (set_sec (nd_fs nd, max_sequence nd + 1, c\<lparr>sequence_id := max_sequence nd + 1\<rparr>) nd)"
  using assms node_state(3,4) [OF assms(1)]
  by (auto simp: keeps_def node_ok_def state_ok_def nval_def knows_def fun_eq_iff)

lemma run_cput_spec:
  assumes nd: "node_ok nd" and d: "data_ok u k v2"
    and known: "knows nd u \<or> k = ''pwd'' \<and> v1 = [] \<or> nval nd u k \<noteq> v1"
  shows "\<exists>nd'. run_cput (cput_cmd u k v1 v2) nd =
      Inr (if nval nd u k = v1 then FINISHED else VALUE_ERROR, nd') \<and>
    (if nval nd u k = v1 then updates nd nd' u k v2 else keeps 1 nd nd')"
proof -
  note N = node_state [OF nd]
  let ?p = "nd_prefix nd" and ?fs = "nd_fs nd"
  have u: "name_ok u" "op_ok (LPut u k v2)"
    using data_okD [OF d] by simp_all
  obtain s v c1 where G: "Gets ?p ?fs u k [] (nd_cache nd) = Inr (s, v, c1)" "state_ok ?p ?fs c1"
    "cached c1 u k" "same_ids (nd_cache nd) c1"
    "\<And>u' k'. cval ?p ?fs c1 u' k' = cval ?p ?fs (nd_cache nd) u' k'"
    using state_gets [OF N(1) u(1), of k "[]"] by metis
  define fs1 where "fs1 = (if k = ''pwd'' \<and> \<not> exist_file (?p @ u @ ''/'') ?fs \<and> v1 = []
      then snd (create_dir (?p @ u @ ''/'') ?fs) else ?fs)"
  have run: "run_cput (cput_cmd u k v1 v2) nd =
      rbind (Cputs ?p u k v1 v2 (max_sequence nd + 1) fs1 c1)
        (\<lambda>(s, fs', c'). Inr (s, set_sec (fs', max_sequence nd + 1, c') nd))"
    by (simp add: run_cput_def Let_def G(1) fs1_def)
  have F: "state_ok ?p fs1 c1 \<and> (\<forall>w k. name_ok w \<longrightarrow> cval ?p fs1 c1 w k = nval nd w k) \<and>
      (\<forall>w k. name_ok w \<longrightarrow> dval ?p fs1 w k = dval ?p ?fs w k) \<and> (\<forall>q. read_file q fs1 = read_file q ?fs) \<and>
      (\<forall>w. name_ok w \<longrightarrow> w \<noteq> u \<longrightarrow> disk_ok ?p fs1 w = knows nd w) \<and>
      (nval nd u k = v1 \<longrightarrow> disk_ok ?p fs1 u) \<and> (nval nd u k \<noteq> v1 \<longrightarrow> fs1 = ?fs)"
  proof (cases "knows nd u")
    case True
    then have "fs1 = ?fs"
      using known_folder [OF True] by (simp add: fs1_def)
    then show ?thesis
      using True G(2,5) N(5) by (simp add: knows_def)
  next
    case False
    note un = unknown_user [OF nd u(1) False]
    show ?thesis
    proof (cases "nval nd u k = v1")
      case True
      then have cr: "k = ''pwd''" "v1 = []"
        using known False un(2) by auto
      obtain b where fs1: "create_dir (?p @ u @ ''/'') ?fs = (b, fs1)"
        using unknown_folder [OF un(1)] cr by (cases "create_dir (?p @ u @ ''/'') ?fs") (simp add: fs1_def)
      note C = state_create [OF G(2) u(1) un(1) fs1]
      show ?thesis
        using C(2-4,6,7) G(5) N(5) same_user_ok [OF C(5)] True by (simp add: knows_def read_file_def)
    next
      case False
      then have "fs1 = ?fs"
        using un(2) by (auto simp: fs1_def)
      then show ?thesis
        using False G(2,5) N(5) by (simp add: knows_def)
    qed
  qed
  then have st1: "state_ok ?p fs1 c1" "\<And>w k. name_ok w \<Longrightarrow> cval ?p fs1 c1 w k = nval nd w k"
    by blast+
  note D1 = state_okD [OF st1(1)]
  have open1: "can_open (kLogFp c1) fs1"
    using base_can_open [OF D1(4)] D1(1) by simp
  have seq: "sequence_id c1 = max_sequence nd"
    using G(4) N(3) by (simp add: same_ids_def)
  obtain c2 where P: "Cputs ?p u k v1 v2 (max_sequence nd + 1) fs1 c1 =
      Inr (if cval ?p fs1 c1 u k = v1 then (FINISHED, committed (LPut u k v2) fs1 c2)
           else (VALUE_ERROR, fs1, c2\<lparr>sequence_id := max_sequence nd + 1\<rparr>))"
    "upd c2 = upd c1" "rd c2 = rd c1" "same_ids c1 c2"
    "updates_cache c2 = updates_cache c1 \<or> updates_cache c2 = touch u (updates_cache c1)"
    using Cputs_cached [OF D1(6) [OF u(1)] G(3) _ D1(2) open1, of "max_sequence nd + 1" v1 v2] seq by auto
  have c2: "state_ok ?p fs1 c2" "\<And>w k. name_ok w \<Longrightarrow> cval ?p fs1 c2 w k = nval nd w k"
    "same_ids (nd_cache nd) c2"
  proof -
    have "cache_wf ?p fs1 c2"
      using P(5) cache_wf_touch [OF D1(3) u(1)] cache_wf_same [OF same_user_refl _ D1(3)] by blast
    then show "state_ok ?p fs1 c2"
      using st1(1) P(2-4) by (simp add: state_ok_def same_ids_def coherent_def)
    show "cval ?p fs1 c2 w k = nval nd w k" if "name_ok w" for w k
      using st1(2) [OF that] P(2) by (simp add: cval_def)
    show "same_ids (nd_cache nd) c2"
      using P(4) G(4) by (simp add: same_ids_def)
  qed
  show ?thesis
  proof (cases "nval nd u k = v1")
    case True
    obtain fs' c' where c': "committed (LPut u k v2) fs1 c2 = (fs', c')"
      by fastforce
    have "disk_ok ?p fs1 w = (w = u \<or> knows nd w)" if "name_ok w" for w
      using F True that by (cases "w = u") simp_all
    moreover have "same_show nd fs1 c2"
      using c2 F True by (auto simp: same_show_def knows_def)
    ultimately have "updates nd (set_sec (fs', max_sequence nd + 1, c') nd) u k v2"
      using commit_updates [OF nd _ u(2) _ u(1) _ c'] by simp
    then show ?thesis
      using True P(1) c' st1(2) [OF u(1)] run by simp
  next
    case False
    then have "fs1 = ?fs"
      using F by blast
    then show ?thesis
      using False refused_node [OF nd _ c2(3)] c2 P(1) st1(2) [OF u(1)] run by simp
  qed
qed

section \<open>The client interface, on a node\<close>

text \<open>A primary that serves: the link executes one command and brings back the answer.\<close>

definition node_link :: "env \<Rightarrow> (kv_command + kv_ret, node) link" where
  "node_link e = \<lparr>l_ser = (\<lambda>c. Some (Inl c)),
     l_xchg = (\<lambda>m nd. case m of
         Inr _ \<Rightarrow> (None, nd)
       | Inl c \<Rightarrow> (case run_command e c empty_ret nd of
             Inl _ \<Rightarrow> (None, nd)
           | Inr out \<Rightarrow> (if isPrimary (o_node out) then Some (Inr (o_ret out)) else None, o_node out))),
     l_parse = (\<lambda>m. case m of Inl _ \<Rightarrow> None | Inr r \<Rightarrow> Some r)\<rparr>"

definition serving :: "node \<Rightarrow> bool" where
  "serving nd \<longleftrightarrow> node_ok nd \<and> isPrimary nd \<and> \<not> killed nd"

definition member :: "node \<Rightarrow> string \<Rightarrow> bool" where
  "member nd u \<longleftrightarrow> name_ok u \<and> knows nd u"

lemma quiet_sel [simp]: "o_node (quiet e r nd) = nd" "o_ret (quiet e r nd) = r"
  "o_sent (quiet e r nd) = []"
  by (simp_all add: quiet_def)

lemma serving_role: "serving nd \<Longrightarrow> same_role nd nd' \<Longrightarrow> node_ok nd' \<Longrightarrow> serving nd'"
  by (simp add: serving_def same_role_def)

lemma updates_serving:
  assumes "serving nd" "updates nd nd' u k v" "name_ok u"
  shows "serving nd'" "nval nd' = set_val u k v (nval nd)"
    "member nd' = (\<lambda>w. w = u \<or> member nd w)" "isPrimary nd'"
  using assms by (auto simp: updates_def serving_def same_role_def member_def fun_eq_iff)

lemma keeps_serving:
  assumes "serving nd" "keeps n nd nd'"
  shows "serving nd'" "nval nd' = nval nd" "member nd' = member nd" "isPrimary nd'"
  using assms by (auto simp: keeps_def serving_def same_role_def member_def fun_eq_iff)

interpretation kv_node: kv_link "node_link e" serving nval member data_ok for e
proof
  fix s u k v
  assume s: "serving s" "member s u" "data_ok u k v"
  then have nd: "node_ok s" "knows s u" "name_ok u" "\<not> killed s"
    by (auto simp: serving_def member_def)
  have m: "member s = (\<lambda>w. w = u \<or> member s w)"
    using s(2) by auto
  show "\<exists>s'. kv_puts (node_link e) u k v s = (kv_code FINISHED, s') \<and> serving s' \<and>
      nval s' = set_val u k v (nval s) \<and> member s' = member s"
  proof -
    obtain nd' where P: "run_puts (puts_cmd u k v) s = (FINISHED, nd')" "updates s nd' u k v"
      using run_puts_spec [OF nd(1,2) s(3)] by blast
    then show ?thesis
      using updates_serving [OF s(1) P(2) nd(3)] nd(4) m
      by (simp add: kv_puts_def kv_trans_def node_link_def run_command_def status_of_def)
  qed
  show "\<exists>s'. kv_dele (node_link e) u k s = (kv_code FINISHED, s') \<and> serving s' \<and>
      nval s' = set_val u k [] (nval s) \<and> member s' = member s"
  proof -
    obtain nd' where P: "run_dele (dele_cmd u k) s = (FINISHED, nd')" "updates s nd' u k []"
      using run_dele_spec [OF nd(1,2) s(3)] by blast
    then show ?thesis
      using updates_serving [OF s(1) P(2) nd(3)] nd(4) m
      by (simp add: kv_dele_def kv_trans_def node_link_def run_command_def status_of_def)
  qed
next
  fix s u k v old
  assume s: "serving s" "data_ok u k v"
  then have nd: "node_ok s" "name_ok u" "\<not> killed s"
    using data_okD by (auto simp: serving_def)
  obtain st nd' where G: "run_gets (gets_cmd u k) s = Inr (st, nval s u k, nd')" "keeps 0 s nd'"
    "nval s u k \<noteq> [] \<longrightarrow> st = FINISHED" "st \<noteq> FINISHED \<longrightarrow> st = (if knows s u then KEY_ERROR else USER_ERROR)"
    using run_gets_spec [OF nd(1,2), of k] by blast
  show "\<exists>st s'. kv_gets (node_link e) old u k s = ((kv_code st, nval s u k), s') \<and> serving s' \<and>
      nval s' = nval s \<and> member s' = member s \<and> (nval s u k \<noteq> [] \<longrightarrow> st = FINISHED) \<and>
      (st = FINISHED \<or> st = (if member s u then KEY_ERROR else USER_ERROR))"
    using G keeps_serving [OF s(1) G(2)] nd
    by (intro exI [of _ st] exI [of _ nd'])
      (auto simp: kv_gets_def kv_trans_def node_link_def run_command_def member_def)
next
  fix s u k v1 v2
  assume s: "serving s" "data_ok u k v2"
    and kn: "member s u \<or> k = ''pwd'' \<and> v1 = [] \<or> nval s u k \<noteq> v1"
  then have nd: "node_ok s" "name_ok u" "\<not> killed s"
    using data_okD by (auto simp: serving_def)
  have kn': "knows s u \<or> k = ''pwd'' \<and> v1 = [] \<or> nval s u k \<noteq> v1"
    using kn by (auto simp: member_def)
  obtain nd' where C: "run_cput (cput_cmd u k v1 v2) s =
      Inr (if nval s u k = v1 then FINISHED else VALUE_ERROR, nd')"
    "if nval s u k = v1 then updates s nd' u k v2 else keeps 1 s nd'"
    using run_cput_spec [OF nd(1) s(2) kn'] by blast
  show "\<exists>s'. kv_cput (node_link e) u k v1 v2 s =
        (kv_code (if nval s u k = v1 then FINISHED else VALUE_ERROR), s') \<and> serving s' \<and>
      nval s' = (if nval s u k = v1 then set_val u k v2 (nval s) else nval s) \<and>
      member s' = (if nval s u k = v1 then (\<lambda>w. w = u \<or> member s w) else member s)"
  proof (cases "nval s u k = v1")
    case True
    then have "updates s nd' u k v2" using C(2) by simp
    note U = updates_serving [OF s(1) this nd(2)]
    show ?thesis
      using True C(1) U nd(3)
      by (simp add: kv_cput_def kv_trans_def node_link_def run_command_def status_of_def)
  next
    case False
    then have "keeps 1 s nd'" using C(2) by simp
    note K = keeps_serving [OF s(1) this]
    show ?thesis
      using False C(1) K nd(3)
      by (simp add: kv_cput_def kv_trans_def node_link_def run_command_def status_of_def)
  qed
qed

interpretation sized_node: sized_kv_link "node_link e" serving nval member data_ok for e
  by unfold_locales (simp add: data_ok_def)

section \<open>Updates as steps of an abstract map\<close>

text \<open>The specification: compare-and-swap, put and delete on a map with a set of known users.\<close>

datatype update = UPut string string string | UCas string string string string | UDel string string

fun to_cmd :: "update \<Rightarrow> kv_command" where
  "to_cmd (UPut u k v) = puts_cmd u k v"
| "to_cmd (UCas u k v1 v2) = cput_cmd u k v1 v2"
| "to_cmd (UDel u k) = dele_cmd u k"

fun spec_status :: "update \<Rightarrow> (string \<Rightarrow> string \<Rightarrow> string) \<Rightarrow> kv_state" where
  "spec_status (UCas u k v1 v2) m = (if m u k = v1 then FINISHED else VALUE_ERROR)"
| "spec_status _ m = FINISHED"

fun spec_vals :: "update \<Rightarrow> (string \<Rightarrow> string \<Rightarrow> string) \<Rightarrow> (string \<Rightarrow> string \<Rightarrow> string)" where
  "spec_vals (UPut u k v) m = set_val u k v m"
| "spec_vals (UCas u k v1 v2) m = (if m u k = v1 then set_val u k v2 m else m)"
| "spec_vals (UDel u k) m = set_val u k [] m"

fun spec_known :: "update \<Rightarrow> (string \<Rightarrow> string \<Rightarrow> string) \<Rightarrow> (string \<Rightarrow> bool) \<Rightarrow> string \<Rightarrow> bool" where
  "spec_known (UCas u k v1 v2) m kn = (if m u k = v1 then (\<lambda>w. w = u \<or> kn w) else kn)"
| "spec_known _ m kn = kn"

text \<open>Updates of known users, and the sign-up of a new one.\<close>

fun allowed :: "(string \<Rightarrow> string \<Rightarrow> string) \<Rightarrow> (string \<Rightarrow> bool) \<Rightarrow> update \<Rightarrow> bool" where
  "allowed m kn (UPut u k v) \<longleftrightarrow> kn u \<and> data_ok u k v"
| "allowed m kn (UCas u k v1 v2) \<longleftrightarrow> (kn u \<or> k = ''pwd'' \<and> v1 = [] \<or> m u k \<noteq> v1) \<and> data_ok u k v2"
| "allowed m kn (UDel u k) \<longleftrightarrow> kn u \<and> data_ok u k []"

definition live_node :: "node \<Rightarrow> bool" where
  "live_node nd \<longleftrightarrow> node_ok nd \<and> \<not> killed nd"

lemma run_update:
  assumes nd: "live_node nd" and c: "allowed (nval nd) (member nd) c"
  shows "\<exists>nd'. run_command e (to_cmd c) empty_ret nd =
      Inr ((quiet e (empty_ret\<lparr>r_status := kv_code (spec_status c (nval nd))\<rparr>) nd')
        \<lparr>o_sent := (if isPrimary nd then snd (forward_to_secondary e (to_cmd c) nd) else [])\<rparr>) \<and>
    live_node nd' \<and> nval nd' = spec_vals c (nval nd) \<and> member nd' = spec_known c (nval nd) (member nd) \<and>
    max_sequence nd' = max_sequence nd + 1 \<and> same_role nd nd' \<and>
    (spec_status c (nval nd) = FINISHED \<longrightarrow>
      (\<forall>n ops. logged_node nd n ops \<longrightarrow> (\<exists>op. logged_node nd' n (ops @ [op]))))"
proof -
  have nd': "node_ok nd" "\<not> killed nd"
    using nd by (simp_all add: live_node_def)
  have up: "live_node n \<and> nval n = set_val u k v (nval nd) \<and> member n = (\<lambda>w. w = u \<or> member nd w) \<and>
      max_sequence n = max_sequence nd + 1 \<and> same_role nd n \<and>
      (\<forall>m ops. logged_node nd m ops \<longrightarrow> (\<exists>op. logged_node n m (ops @ [op])))"
    if "updates nd n u k v" "name_ok u" for n u k v
  proof -
    have "\<forall>m ops. logged_node nd m ops \<longrightarrow> (\<exists>op. logged_node n m (ops @ [op]))"
      using that(1) unfolding updates_def by blast
    then show ?thesis
      using that nd' by (simp add: updates_def live_node_def same_role_def member_def fun_eq_iff) blast
  qed
  show ?thesis
  proof (cases c)
    case (UPut u k v)
    then have p: "knows nd u" "data_ok u k v" "name_ok u"
      using c by (auto simp: member_def)
    then obtain n where "run_puts (puts_cmd u k v) nd = (FINISHED, n)" "updates nd n u k v"
      using run_puts_spec [OF nd'(1)] by blast
    moreover have "(\<lambda>w. w = u \<or> member nd w) = member nd"
      using p by (auto simp: member_def)
    ultimately show ?thesis
      using UPut up [of n u k v] nd'(2) p(3) by (intro exI [of _ n]) (simp add: run_command_def)
  next
    case (UCas u k v1 v2)
    then have p: "data_ok u k v2" "name_ok u" "knows nd u \<or> k = ''pwd'' \<and> v1 = [] \<or> nval nd u k \<noteq> v1"
      using c data_okD by (auto simp: member_def)
    obtain n where n: "run_cput (cput_cmd u k v1 v2) nd =
        Inr (if nval nd u k = v1 then FINISHED else VALUE_ERROR, n)"
      "if nval nd u k = v1 then updates nd n u k v2 else keeps 1 nd n"
      using run_cput_spec [OF nd'(1) p(1,3)] by blast
    show ?thesis
    proof (cases "nval nd u k = v1")
      case True
      then show ?thesis
        using UCas n up [of n u k v2] nd'(2) p(2) by (intro exI [of _ n]) (simp add: run_command_def)
    next
      case False
      then have "live_node n \<and> nval n = nval nd \<and> member n = member nd \<and>
          max_sequence n = max_sequence nd + 1 \<and> same_role nd n"
        using n(2) nd' by (simp add: keeps_def live_node_def same_role_def member_def fun_eq_iff)
      then show ?thesis
        using UCas n(1) nd'(2) False by (intro exI [of _ n]) (simp add: run_command_def)
    qed
  next
    case (UDel u k)
    then have p: "knows nd u" "data_ok u k []" "name_ok u"
      using c by (auto simp: member_def)
    then obtain n where "run_dele (dele_cmd u k) nd = (FINISHED, n)" "updates nd n u k []"
      using run_dele_spec [OF nd'(1)] by blast
    moreover have "(\<lambda>w. w = u \<or> member nd w) = member nd"
      using p by (auto simp: member_def)
    ultimately show ?thesis
      using UDel up [of n u k "[]"] nd'(2) p(3) by (intro exI [of _ n]) (simp add: run_command_def)
  qed
qed

text \<open>A sequence of updates on one node, with the statuses and the forwarded commands.\<close>

fun run_updates :: "env \<Rightarrow> update list \<Rightarrow> node \<Rightarrow> (int list \<times> (address \<times> kv_command) list \<times> node) res" where
  "run_updates e [] nd = Inr ([], [], nd)"
| "run_updates e (c # cs) nd =
     rbind (run_command e (to_cmd c) empty_ret nd) (\<lambda>out.
     rbind (run_updates e cs (o_node out)) (\<lambda>(sts, sent, nd').
       Inr (r_status (o_ret out) # sts, o_sent out @ sent, nd')))"

fun all_allowed :: "(string \<Rightarrow> string \<Rightarrow> string) \<Rightarrow> (string \<Rightarrow> bool) \<Rightarrow> update list \<Rightarrow> bool" where
  "all_allowed m kn [] \<longleftrightarrow> True"
| "all_allowed m kn (c # cs) \<longleftrightarrow> allowed m kn c \<and> all_allowed (spec_vals c m) (spec_known c m kn) cs"

fun spec_run :: "update list \<Rightarrow> (string \<Rightarrow> string \<Rightarrow> string) \<Rightarrow> int list \<times> (string \<Rightarrow> string \<Rightarrow> string)" where
  "spec_run [] m = ([], m)"
| "spec_run (c # cs) m = (case spec_run cs (spec_vals c m) of
     (sts, m') \<Rightarrow> (kv_code (spec_status c m) # sts, m'))"

lemma run_updates_spec:
  assumes "live_node nd" "all_allowed (nval nd) (member nd) cs"
  shows "\<exists>sent nd'. run_updates e cs nd = Inr (fst (spec_run cs (nval nd)), sent, nd') \<and>
    live_node nd' \<and> nval nd' = snd (spec_run cs (nval nd)) \<and>
    max_sequence nd' = max_sequence nd + int (length cs) \<and> same_role nd nd' \<and>
    sent = (if isPrimary nd then concat (map (\<lambda>c. snd (forward_to_secondary e (to_cmd c) nd)) cs) else []) \<and>
    ((\<forall>st \<in> set (fst (spec_run cs (nval nd))). st = 0) \<longrightarrow> (\<forall>n ops. logged_node nd n ops \<longrightarrow>
      (\<exists>ops'. length ops' = length ops + length cs \<and> logged_node nd' n ops')))"
  using assms
proof (induction cs arbitrary: nd)
  case Nil
  then show ?case by (auto simp: same_role_def)
next
  case (Cons c cs)
  obtain n where n: "run_command e (to_cmd c) empty_ret nd =
      Inr ((quiet e (empty_ret\<lparr>r_status := kv_code (spec_status c (nval nd))\<rparr>) n)
        \<lparr>o_sent := (if isPrimary nd then snd (forward_to_secondary e (to_cmd c) nd) else [])\<rparr>)"
    "live_node n" "nval n = spec_vals c (nval nd)" "member n = spec_known c (nval nd) (member nd)"
    "max_sequence n = max_sequence nd + 1" "same_role nd n"
    "spec_status c (nval nd) = FINISHED \<Longrightarrow> logged_node nd m ops \<Longrightarrow> \<exists>op. logged_node n m (ops @ [op])" for m ops
    using run_update [OF Cons.prems(1), of c e] Cons.prems(2) by auto
  have fwd: "forward_to_secondary e x n = forward_to_secondary e x nd" for x
    using n(6) by (simp add: forward_to_secondary_def same_role_def split: option.split)
  have "all_allowed (nval n) (member n) cs"
    using Cons.prems(2) n(3,4) by simp
  from Cons.IH [OF n(2) this] obtain sent n' where r:
      "run_updates e cs n = Inr (fst (spec_run cs (nval n)), sent, n')" "live_node n'"
      "nval n' = snd (spec_run cs (nval n))" "max_sequence n' = max_sequence n + int (length cs)"
      "same_role n n'"
      "sent = (if isPrimary n then concat (map (\<lambda>c. snd (forward_to_secondary e (to_cmd c) n)) cs) else [])"
      "\<forall>st \<in> set (fst (spec_run cs (nval n))). st = 0 \<Longrightarrow> logged_node n m ops \<Longrightarrow>
        \<exists>ops'. length ops' = length ops + length cs \<and> logged_node n' m ops'" for m ops
    by blast
  have role: "isPrimary n = isPrimary nd" "same_role nd n'"
    using n(6) r(5) by (simp_all add: same_role_def)
  have "\<exists>ops'. length ops' = length ops + length (c # cs) \<and> logged_node n' m ops'"
    if st: "\<forall>st \<in> set (fst (spec_run (c # cs) (nval nd))). st = 0" and l: "logged_node nd m ops" for m ops
  proof -
    have "kv_code (spec_status c (nval nd)) = 0" "\<forall>st \<in> set (fst (spec_run cs (nval n))). st = 0"
      using st n(3) by (simp_all add: case_prod_beta)
    then obtain op where "logged_node n m (ops @ [op])"
      using n(7) [OF _ l] kv_code_inj [of _ FINISHED] by auto
    then show ?thesis
      using r(7) [of m "ops @ [op]"] \<open>\<forall>st \<in> set (fst (spec_run cs (nval n))). st = 0\<close> by auto
  qed
  then show ?case
    using n(1-6) r(1-6) role fwd by (auto simp: case_prod_beta)
qed

end
