(* ===== verification/Replication.thy ===== *)
theory Replication
  imports Kvstore_Correct
begin

text \<open>
  What the nodes of a group promise together: replicas that run the forwarded updates stay equal,
  a node that replays its log is the node that wrote it, and a checkpoint changes no value; and where
  the code breaks these promises.
\<close>

section \<open>Updates\<close>


section \<open>A group of two nodes\<close>

definition example_node :: "bool \<Rightarrow> int \<Rightarrow> node" where
  "example_node prim port = \<lparr>nd_prefix = ''/d/'', nd_cache = new_cache ''/d/logging'',
     nd_fs = \<lparr>files = [(''/d/logging'', checkpoint_line 0)], dirs = [''/d'', ''/d/amy'']\<rparr>,
     max_sequence = 0, isPrimary = prim, killed = False, nd_init = True,
     secondary = [\<lparr>ad_name = ''a'', ad_ip = [], ad_port = 1\<rparr>, \<lparr>ad_name = ''b'', ad_ip = [], ad_port = 2\<rparr>],
     my_addr = \<lparr>ad_name = (if port = 1 then ''a'' else ''b''), ad_ip = [], ad_port = port\<rparr>,
     last_checkpoint_time = 1\<rparr>"

definition example_env :: env where
  "example_env = \<lparr>e_ser = (\<lambda>c. Some (c_com c)), e_iter = (\<lambda>_. []),
     e_sender = \<lparr>inbox = [], outbox = [], writable = 0\<rparr>, e_primary = None\<rparr>"

lemma example_files: "read_file q \<lparr>files = [(''/d/logging'', t)], dirs = ds\<rparr> = (if q = ''/d/logging'' then Some t else None)"
  by (simp add: read_file_def)

lemma example_node_ok [simp]:
  "live_node (example_node prim port)" "nval (example_node prim port) = (\<lambda>_ _. [])"
  "member (example_node prim port) = (\<lambda>w. w = ''amy'')"
  "logged_node (example_node prim port) 0 []"
proof -
  let ?fs = "nd_fs (example_node prim port)" and ?c = "nd_cache (example_node prim port)"
  have nd: "nd_prefix (example_node prim port) = ''/d/''" "?c = new_cache ''/d/logging''"
    "dirs ?fs = [''/d'', ''/d/amy'']" "read_file q ?fs = (if q = ''/d/logging'' then Some (checkpoint_line 0) else None)" for q
    by (simp_all add: example_node_def example_files)
  have log: "''/d/logging'' \<noteq> ''/d/'' @ u" "''/d/logging'' \<noteq> ''/d/'' @ u @ CHR ''/'' # r" if "name_ok u" for u r
    using log_apart [OF that, of "''/d/''"] by (auto simp: apart_def)
  have amy: "name_ok ''amy''"
    by (simp add: name_ok_def)
  have "folder_ok ?fs (''/d/'' @ ''amy'')"
    by (simp add: folder_ok_def nd strip_slash_def)
  moreover have "read_file (''/d/'' @ ''amy'' @ CHR ''/'' # q) ?fs = None" for q
    by (simp add: nd)
  ultimately have fresh: "disk_ok ''/d/'' ?fs ''amy''" "disk_view ''/d/'' ?fs ''amy'' = (\<lambda>_. None)"
    using disk_ok_fresh [of ?fs "''/d/''" "''amy''"] by blast+
  have no: "no_user ''/d/'' ?fs u" if "name_ok u" "u \<noteq> ''amy''" for u
  proof -
    have "''/d/'' @ u \<notin> set (dirs ?fs)" "''/d/'' @ u @ CHR ''/'' # r \<notin> set (dirs ?fs)" for r
    proof -
      show "''/d/'' @ u \<notin> set (dirs ?fs)" using that by (auto simp: nd name_ok_def)
      have "''/d/'' @ u @ CHR ''/'' # r \<noteq> ''/d/'' @ ''amy''"
      proof
        assume "''/d/'' @ u @ CHR ''/'' # r = ''/d/'' @ ''amy''"
        then have "CHR ''/'' \<in> set ''amy''" by (metis append_same_eq in_set_conv_decomp same_append_eq)
        then show False by simp
      qed
      then show "''/d/'' @ u @ CHR ''/'' # r \<notin> set (dirs ?fs)" by (simp add: nd)
    qed
    then show ?thesis using log [OF that(1)] by (auto simp: no_user_def nd)
  qed
  have dv: "disk_view ''/d/'' ?fs u k = None" if "name_ok u" for u k
    using fresh no_user_init(2) [OF no [OF that] that] by (cases "u = ''amy''") simp_all
  have up: "upd ?c u k = None" "rd ?c u k = None" for u k
    by (simp_all add: nd new_cache_def upd_def rd_def)
  have ok: "user_ok ''/d/'' ?fs u" if "name_ok u" for u
    using fresh no [OF that] by (cases "u = ''amy''") (simp_all add: user_ok_def)
  have "base_ok ''/d/'' ?fs"
    unfolding base_ok_def nd(3) by (intro conjI exI [of _ "''/d''"]) simp_all
  then have "state_ok ''/d/'' ?fs ?c"
    using ok up by (simp add: state_ok_def coherent_def cache_wf_def nd new_cache_def)
  moreover have seq: "max_sequence (example_node prim port) = 0" "killed (example_node prim port) = False"
      "sequence_id ?c = 0"
    by (simp_all add: example_node_def new_cache_def)
  ultimately show "live_node (example_node prim port)"
    by (simp add: live_node_def node_ok_def nd(1))
  show nv: "nval (example_node prim port) = (\<lambda>_ _. [])"
    using dv up by (simp add: nval_def cval_def dval_def nd(1) fun_eq_iff)
  have "\<not> disk_ok ''/d/'' ?fs u" if "name_ok u" "u \<noteq> ''amy''" for u
    using no_user_init(1) [OF no [OF that] that(1)] by (simp add: disk_ok_def)
  then show "member (example_node prim port) = (\<lambda>w. w = ''amy'')"
    using amy fresh by (auto simp: member_def knows_def nd(1) fun_eq_iff)
  show "logged_node (example_node prim port) 0 []"
    using dv up seq by (simp add: logged_node_def durable_def nd(1) cval_def dval_def)
      (simp add: nd new_cache_def)
qed

definition example_updates :: "update list" where
  "example_updates = [UCas ''bob'' ''pwd'' [] ''x'', UPut ''amy'' ''k'' ''v'', UCas ''amy'' ''k'' ''w'' ''z'',
     UDel ''amy'' ''k'']"

lemma example_updates_ok [simp]:
  "all_allowed (\<lambda>_ _. []) (\<lambda>w. w = ''amy'') example_updates"
  "fst (spec_run example_updates (\<lambda>_ _. [])) = [0, 0, -4, 0]"
  "snd (spec_run example_updates (\<lambda>_ _. [])) ''bob'' ''pwd'' = ''x''"
  by (simp_all add: example_updates_def data_ok_def token_def log_char_def alpha_def set_val_def)


section \<open>Replicas\<close>

definition in_sync :: "node \<Rightarrow> node \<Rightarrow> bool" where
  "in_sync p s \<longleftrightarrow> nval p = nval s \<and> max_sequence p = max_sequence s"

text \<open>The commands among those sent that go to one address.\<close>

definition delivered :: "address \<Rightarrow> (address \<times> kv_command) list \<Rightarrow> kv_command list" where
  "delivered a sent = map snd (filter (\<lambda>m. fst m = a) sent)"

lemma delivered_append [simp]: "delivered a (xs @ ys) = delivered a xs @ delivered a ys"
  by (simp add: delivered_def)

lemma delivered_forward:
  assumes "e_ser e c \<noteq> None" "ad_port a \<noteq> ad_port (my_addr nd)"
    and "filter (\<lambda>x. x = a) (secondary nd) = [a]"
  shows "delivered a (snd (forward_to_secondary e c nd)) = [c]"
proof -
  have "filter ((\<lambda>m. fst m = a) \<circ> (\<lambda>a. (a, c))) (filter (\<lambda>a. ad_port a \<noteq> ad_port (my_addr nd)) (secondary nd)) = [a]"
    using assms(2,3) by (simp add: comp_def filter_filter conj_commute)
      (metis (mono_tags, lifting) filter_cong)
  then show ?thesis
    using assms(1) by (auto simp: forward_to_secondary_def delivered_def filter_map)
qed



section \<open>Crashes\<close>

lemma cache_wf_fold:
  assumes "\<forall>op \<in> set ops. op_ok op \<and> name_ok (op_user op) \<and> disk_ok prefix fs (op_user op)"
    and "cache_wf prefix fs c"
  shows "cache_wf prefix fs (fold apply_op ops c)"
  using assms
proof (induction ops arbitrary: c)
  case (Cons op ops)
  have "nl \<notin> set s" if "token s" for s
    using that by (auto simp: token_def log_char_def alpha_def is_digit_def)
  then have "cache_wf prefix fs (apply_op op c)"
    using Cons.prems by (cases op) (auto intro!: cache_wf_put)
  then show ?case using Cons by simp
qed simp

text \<open>\<open>nd0\<close> is what a crash leaves of \<open>nd\<close>: its files and the place of its log.\<close>

definition crashed :: "node \<Rightarrow> node \<Rightarrow> bool" where
  "crashed nd nd0 \<longleftrightarrow> nd_prefix nd0 = nd_prefix nd \<and> nd_fs nd0 = nd_fs nd \<and>
     kLogFp (nd_cache nd0) = kLogFp (nd_cache nd) \<and> \<not> killed nd0 \<and> isPrimary nd0"

lemma recover_primary:
  assumes nd: "node_ok nd" and log: "logged_node nd n ops" "n + length ops < 2 ^ 31"
    and nd0: "crashed nd nd0"
  shows "\<exists>nd'. recover_node e ret nd0 = Inr (quiet e ret nd') \<and> live_node nd' \<and> nval nd' = nval nd \<and>
    member nd' = member nd \<and> max_sequence nd' = max_sequence nd \<and> logged_node nd' n ops"
proof -
  let ?p = "nd_prefix nd" and ?fs = "nd_fs nd" and ?c = "nd_cache nd" and ?old = "nd_cache nd0"
  note D = state_okD [OF node_state(1) [OF nd]]
  have dur: "durable ?p ?fs ?c n ops"
    using log(1) by (simp add: logged_node_def)
  have k: "kLogFp ?old = kLogFp ?c"
    using nd0 by (simp add: crashed_def)
  obtain c' where R: "ReplayLoggings ?fs (max_sequence nd0) ?old = Inr (FINISHED, sequence_id ?c, c')"
    "durable ?p ?fs c' n ops" "kLogFp c' = kLogFp ?c"
    "updates_cache c' = updates_cache
      (fold apply_op ops (?old\<lparr>sequence_id := int n, updates_cache := [], read_cache := []\<rparr>))"
    "\<And>u k. name_ok u \<Longrightarrow> cval ?p ?fs c' u k = cval ?p ?fs ?c u k"
    "\<And>u. name_ok u \<Longrightarrow> coherent ?p ?fs c' u"
    using durable_recovers [OF dur log(2) k, of "max_sequence nd0"] by metis
  have ex: "exist_file (kLogFp ?c) ?fs"
    using dur by (simp add: durable_def exist_file_def read_file_def)
  define nd' where "nd' = set_sec (?fs, sequence_id ?c, c') nd0"
  have "recover_node e ret nd0 = Inr (quiet e ret nd')"
    using nd0 R(1) k ex by (simp add: recover_node_def crashed_def InitCacheForPrimary_def nd'_def)
  moreover have "cache_wf ?p ?fs c'"
  proof -
    have "\<forall>op \<in> set ops. op_ok op \<and> name_ok (op_user op) \<and> disk_ok ?p ?fs (op_user op)"
      using log(1) dur by (simp add: logged_node_def durable_def knows_def)
    then have "cache_wf ?p ?fs (fold apply_op ops (?old\<lparr>sequence_id := int n, updates_cache := [], read_cache := []\<rparr>))"
      by (rule cache_wf_fold) (simp add: cache_wf_def)
    then show ?thesis
      using R(4) cache_wf_same [OF same_user_refl] by blast
  qed
  moreover have "sequence_id c' = sequence_id ?c"
    using R(2) dur by (simp add: durable_def)
  ultimately show ?thesis
    using R D nd nd0 dur log(1)
    by (intro exI [of _ nd'])
      (auto simp: nd'_def live_node_def node_ok_def state_ok_def crashed_def nval_def member_def
        knows_def logged_node_def fun_eq_iff)
qed

text \<open>
  C2. Acknowledged updates survive a crash.  If every update of a sequence was answered
  \<open>FINISHED\<close>, then a process started afterwards as the primary on the files the node left, whatever
  its caches hold, replays the log without an error and shows exactly the values of the
  specification after these updates, for the same users, and continues with the sequence number
  that follows.  The log holds fewer than 2^31 entries.
\<close>

theorem acknowledged_updates_survive:
  assumes "live_node nd" "logged_node nd n ops" "all_allowed (nval nd) (member nd) cs"
    and "\<forall>st \<in> set (fst (spec_run cs (nval nd))). st = 0" "n + length ops + length cs < 2 ^ 31"
    and "run_updates e cs nd = Inr (sts, sent, nd')" "crashed nd' nd0"
  shows "\<exists>nd''. recover_node e ret nd0 = Inr (quiet e ret nd'') \<and> live_node nd'' \<and>
    nval nd'' = snd (spec_run cs (nval nd)) \<and> member nd'' = member nd' \<and>
    max_sequence nd'' = max_sequence nd + int (length cs)"
proof -
  have R: "live_node nd'" "nval nd' = snd (spec_run cs (nval nd))"
    "max_sequence nd' = max_sequence nd + int (length cs)"
    "\<exists>ops'. length ops' = length ops + length cs \<and> logged_node nd' n ops'"
    using run_updates_spec [OF assms(1,3), of e] assms(2,4,6) by auto
  then obtain ops' where l: "length ops' = length ops + length cs" "logged_node nd' n ops'"
    by blast
  have "n + length ops' < 2 ^ 31"
    using l(1) assms(5) by simp
  moreover have "node_ok nd'"
    using R(1) by (simp add: live_node_def)
  ultimately show ?thesis
    using recover_primary [OF _ l(2) _ assms(7), of e ret] R(2,3) by auto
qed

definition crash :: "node \<Rightarrow> node" where
  "crash nd = nd\<lparr>nd_cache := new_cache (kLogFp (nd_cache nd)), max_sequence := 0, isPrimary := True,
     killed := False\<rparr>"

lemma crashed_crash [simp]: "crashed nd (crash nd)"
  by (simp add: crashed_def crash_def new_cache_def)

theorem acknowledged_updates_survive_witness:
  "\<exists>sts sent nd' nd''. run_updates example_env [UPut ''amy'' ''k'' [nl, CHR ''v'']] (example_node True 1) =
      Inr (sts, sent, nd') \<and>
    recover_node example_env empty_ret (crash nd') = Inr (quiet example_env empty_ret nd'') \<and>
    nval nd'' ''amy'' ''k'' = [nl, CHR ''v'']"
proof -
  let ?cs = "[UPut ''amy'' ''k'' [nl, CHR ''v'']]"
  have a: "all_allowed (nval (example_node True 1)) (member (example_node True 1)) ?cs"
    by (simp add: data_ok_def token_def log_char_def alpha_def)
  obtain sts sent nd' where r: "run_updates example_env ?cs (example_node True 1) = Inr (sts, sent, nd')"
    using run_updates_spec [OF example_node_ok(1) a] by blast
  have s: "\<forall>st \<in> set (fst (spec_run ?cs (nval (example_node True 1)))). st = 0"
    "0 + length ([] :: log_op list) + length ?cs < 2 ^ 31"
    by simp_all
  show ?thesis
    using acknowledged_updates_survive [OF example_node_ok(1,4) a s r crashed_crash, of empty_ret] r
    by auto
qed

lemma run_single:
  assumes "live_node nd"
  shows "data_ok u k v2 \<Longrightarrow> nval nd u k \<noteq> v1 \<Longrightarrow>
      \<exists>n. run_command e (cput_cmd u k v1 v2) empty_ret nd =
        Inr ((quiet e (empty_ret\<lparr>r_status := kv_code VALUE_ERROR\<rparr>) n)
          \<lparr>o_sent := (if isPrimary nd then snd (forward_to_secondary e (cput_cmd u k v1 v2) nd) else [])\<rparr>) \<and>
      keeps 1 nd n"
    and "data_ok u k v \<Longrightarrow> member nd u \<Longrightarrow>
      \<exists>n. run_command e (puts_cmd u k v) empty_ret nd =
        Inr ((quiet e (empty_ret\<lparr>r_status := kv_code FINISHED\<rparr>) n)
          \<lparr>o_sent := (if isPrimary nd then snd (forward_to_secondary e (puts_cmd u k v) nd) else [])\<rparr>) \<and>
      updates nd n u k v"
proof -
  have nd: "node_ok nd" "\<not> killed nd"
    using assms by (simp_all add: live_node_def)
  { assume d: "data_ok u k v2" "nval nd u k \<noteq> v1"
    then obtain n where "run_cput (cput_cmd u k v1 v2) nd = Inr (VALUE_ERROR, n)" "keeps 1 nd n"
      using run_cput_spec [OF nd(1) d(1), of v1] by auto
    then show "\<exists>n. run_command e (cput_cmd u k v1 v2) empty_ret nd =
        Inr ((quiet e (empty_ret\<lparr>r_status := kv_code VALUE_ERROR\<rparr>) n)
          \<lparr>o_sent := (if isPrimary nd then snd (forward_to_secondary e (cput_cmd u k v1 v2) nd) else [])\<rparr>) \<and>
      keeps 1 nd n"
      using nd(2) by (intro exI [of _ n]) (simp add: run_command_def) }
  { assume d: "data_ok u k v" "member nd u"
    then obtain n where "run_puts (puts_cmd u k v) nd = (FINISHED, n)" "updates nd n u k v"
      using run_puts_spec [OF nd(1) _ d(1)] by (auto simp: member_def)
    then show "\<exists>n. run_command e (puts_cmd u k v) empty_ret nd =
        Inr ((quiet e (empty_ret\<lparr>r_status := kv_code FINISHED\<rparr>) n)
          \<lparr>o_sent := (if isPrimary nd then snd (forward_to_secondary e (puts_cmd u k v) nd) else [])\<rparr>) \<and>
      updates nd n u k v"
      using nd(2) by (intro exI [of _ n]) (simp add: run_command_def) }
qed

text \<open>
  C29. A refused \<open>CPUT\<close> makes the log unreadable.  On a node whose log is complete, one compare-and-swap
  with a wrong old value (a sign-up with a name that is taken, say), answered \<open>VALUE_ERROR\<close>, and then
  one write that is answered \<open>FINISHED\<close>: a primary that restarts on these files does not come up, it
  exits, because the refused command used up a sequence number without a log entry.
\<close>

theorem refused_cput_breaks_recovery:
  assumes nd: "live_node nd" "logged_node nd n ops" "n + length ops + 2 < 2 ^ 31"
    and cas: "data_ok u k v2" "nval nd u k \<noteq> v1" and put: "member nd w" "data_ok w j x"
  shows "\<exists>sent nd'. run_updates e [UCas u k v1 v2, UPut w j x] nd =
      Inr ([kv_code VALUE_ERROR, kv_code FINISHED], sent, nd') \<and>
    (\<forall>nd0. crashed nd' nd0 \<longrightarrow> recover_node e ret nd0 = Inl Aborted)"
proof -
  obtain n1 where R1: "run_command e (cput_cmd u k v1 v2) empty_ret nd =
      Inr ((quiet e (empty_ret\<lparr>r_status := kv_code VALUE_ERROR\<rparr>) n1)
        \<lparr>o_sent := (if isPrimary nd then snd (forward_to_secondary e (cput_cmd u k v1 v2) nd) else [])\<rparr>)"
    "keeps 1 nd n1"
    using run_single(1) [OF nd(1) cas] by blast
  have n1: "live_node n1" "member n1 w"
    using R1(2) nd(1) put(1) by (auto simp: keeps_def live_node_def same_role_def member_def)
  obtain n2 where R2: "run_command e (puts_cmd w j x) empty_ret n1 =
      Inr ((quiet e (empty_ret\<lparr>r_status := kv_code FINISHED\<rparr>) n2)
        \<lparr>o_sent := (if isPrimary n1 then snd (forward_to_secondary e (puts_cmd w j x) n1) else [])\<rparr>)"
    "updates n1 n2 w j x"
    using run_single(2) [OF n1(1) put(2) n1(2)] by blast
  have dur: "durable (nd_prefix nd) (nd_fs nd) (nd_cache nd) n ops"
    using nd(2) by (simp add: logged_node_def)
  have ok: "kLogFp (nd_cache nd) = nd_prefix nd @ ''logging''" "kLogFp (nd_cache n2) = nd_prefix n2 @ ''logging''"
    "nd_prefix n1 = nd_prefix nd" "nd_prefix n2 = nd_prefix nd" "nd_fs n1 = nd_fs nd"
    using nd(1) R1(2) R2(2)
    by (auto simp: live_node_def node_ok_def state_ok_def updates_def keeps_def same_role_def)
  have "max_sequence n1 = int (n + length ops) + 1"
    using nd(1) dur R1(2) by (simp add: live_node_def node_ok_def durable_def keeps_def)
  then have seq: "nat (max_sequence n1 + 1) = n + length ops + 2"
    by linarith
  have old: "read_file (nd_prefix nd @ ''logging'') (nd_fs nd) = Some (checkpoint_line (int n) @ log_text n ops)"
    using dur ok(1) by (simp add: durable_def)
  obtain op where op: "op_ok op" "log_grows n1 n2 op"
    using R2(2) unfolding updates_def by blast
  have log2: "read_file (nd_prefix nd @ ''logging'') (nd_fs n2) =
      Some (checkpoint_line (int n) @ log_text n ops @ entry (n + length ops + 2) op @ [])"
    using op(2) old ok seq by (simp add: log_grows_def)
  have "recover_node e ret nd0 = Inl Aborted" if c: "crashed n2 nd0" for nd0
  proof -
    have p: "kLogFp (nd_cache nd0) = nd_prefix nd @ ''logging''" "nd_fs nd0 = nd_fs n2" "isPrimary nd0"
      using c ok by (simp_all add: crashed_def)
    have b: "\<forall>op \<in> set ops. op_ok op" "n + length ops < 2 ^ 31" "n + length ops + 2 < 2 ^ 31"
      "n + length ops + 2 \<noteq> Suc (n + length ops)"
      using dur nd(3) by (simp_all add: durable_def)
    have log0: "read_file (kLogFp (nd_cache nd0)) (nd_fs nd0) =
        Some (checkpoint_line (int n) @ log_text n ops @ entry (n + length ops + 2) op @ [])"
      using log2 p by simp
    obtain c' where "ReplayLoggings (nd_fs nd0) (max_sequence nd0) (nd_cache nd0) =
        Inr (REC_ERROR, max_sequence nd0, c')"
      using replay_refuses_gap [OF log0 b(1,2) op(1) b(3,4)] by blast
    moreover have "exist_file (kLogFp (nd_cache nd0)) (nd_fs nd0)"
      using log0 by (simp add: exist_file_def read_file_def)
    ultimately show ?thesis
      using p(3) by (simp add: recover_node_def InitCacheForPrimary_def)
  qed
  then show ?thesis
    using R1(1) R2(1) by simp
qed

theorem refused_cput_breaks_recovery_witness:
  "\<exists>sent nd'. run_updates example_env [UCas ''amy'' ''pwd'' ''wrong'' ''x'', UPut ''amy'' ''k'' ''v''] (example_node True 1) =
      Inr ([-4, 0], sent, nd') \<and> recover_node example_env empty_ret (crash nd') = Inl Aborted"
proof -
  have d: "0 + length ([] :: log_op list) + 2 < 2 ^ 31" "data_ok ''amy'' ''pwd'' ''x''"
    "nval (example_node True 1) ''amy'' ''pwd'' \<noteq> ''wrong''" "member (example_node True 1) ''amy''"
    "data_ok ''amy'' ''k'' ''v''"
    by (simp_all add: data_ok_def token_def log_char_def alpha_def)
  show ?thesis
    using refused_cput_breaks_recovery [OF example_node_ok(1,4) d, of example_env empty_ret] by auto
qed

section \<open>Checkpoints\<close>

definition roomy :: "node \<Rightarrow> bool" where
  "roomy nd \<longleftrightarrow> (\<forall>(u, kv) \<in> set (updates_cache (nd_cache nd)). room (nd_prefix nd) (nd_fs nd) u kv)"

lemma cache_wf_ok:
  assumes "cache_wf prefix fs c" "\<And>u. name_ok u \<Longrightarrow> user_ok prefix fs u"
    and "\<forall>(u, kv) \<in> set (updates_cache c). room prefix fs u kv"
  shows "cache_ok prefix fs c"
proof -
  have "pending_ok prefix fs u kv" if "(u, kv) \<in> set (updates_cache c)" for u kv
  proof -
    have m: "map_of (updates_cache c) u = Some kv"
      using assms(1) that by (simp add: cache_wf_def wf_map_def)
    then have kv: "user_map (updates_cache c) u = kv"
      by (simp add: user_map_def)
    have n: "name_ok u"
      using assms(1) m by (auto simp: cache_wf_def)
    have "batch_ok kv" "kv \<noteq> [] \<Longrightarrow> disk_ok prefix fs u"
      using assms(1) kv by (auto simp: cache_wf_def)
    then show ?thesis
      using n assms(2) [OF n] assms(3) that by (auto simp: pending_ok_def)
  qed
  then show ?thesis
    using assms(1) by (auto simp: cache_ok_def cache_wf_def)
qed

text \<open>
  C27. A checkpoint changes no value, and the new log with the new chunk files are as good as the old
  ones: on a well-formed node in a group, with room for the chunk numbers, \<open>checkpoint\<close> does not
  raise; the node shows the same values, and a primary started on the files it leaves shows them as
  well.  But \<open>checkpoint\<close> gets the cache by value: the node's own caches are not emptied.
\<close>

theorem checkpoint_keeps_values:
  assumes nd: "live_node nd" "logged_node nd n ops" "n + length ops < 2 ^ 31" "roomy nd" "secondary nd \<noteq> []"
  shows "\<exists>nd' sent. checkpoint e nd = Inr (nd', sent) \<and> nd_cache nd' = nd_cache nd \<and>
    nval nd' = nval nd \<and> logged_node nd' (n + length ops) [] \<and>
    (\<forall>nd0. crashed nd' nd0 \<longrightarrow> (\<exists>nd''. recover_node e ret nd0 = Inr (quiet e ret nd'') \<and> live_node nd'' \<and>
       nval nd'' = nval nd \<and> max_sequence nd'' = max_sequence nd))"
proof -
  let ?p = "nd_prefix nd" and ?fs = "nd_fs nd" and ?c = "nd_cache nd"
  have ok: "node_ok nd"
    using nd(1) by (simp add: live_node_def)
  note D = state_okD [OF node_state(1) [OF ok]]
  have dur: "durable ?p ?fs ?c n ops"
    using nd(2) by (simp add: logged_node_def)
  have "cache_ok ?p ?fs ?c"
    using cache_wf_ok [OF D(3,5)] nd(4) by (simp add: roomy_def)
  moreover have "apart ?p (kLogFp ?c) u" if "name_ok u" for u
    using log_apart [OF that] D(1) by simp
  ultimately obtain fs' c' where K: "Checkpoint ?p ?fs ?c = Inr (FINISHED, fs', c')" "dirs fs' = dirs ?fs"
    "durable ?p fs' ?c (n + length ops) []"
    "\<And>u. name_ok u \<Longrightarrow> user_ok ?p fs' u \<and> (\<forall>k. cval ?p fs' ?c u k = cval ?p ?fs ?c u k) \<and>
       coherent ?p fs' ?c u \<and> (disk_ok ?p ?fs u \<longrightarrow> disk_ok ?p fs' u)"
    using Checkpoint_spec [OF dur _ node_state(2) [OF ok] _ D(5)] D(6) by metis
  then have dk: "\<And>u. name_ok u \<Longrightarrow> disk_ok ?p ?fs u \<Longrightarrow> disk_ok ?p fs' u"
    by blast
  obtain a where "first_node (secondary nd) = Inr a"
    using nd(5) by (cases "secondary nd") (simp_all add: first_node_def)
  then obtain sent where C: "checkpoint e nd = Inr (nd\<lparr>nd_fs := fs'\<rparr>, sent)"
    using K(1) by (simp add: checkpoint_def)
  define nd' where "nd' = nd\<lparr>nd_fs := fs'\<rparr>"
  have sel: "nd_prefix nd' = ?p" "nd_cache nd' = ?c" "nd_fs nd' = fs'" "max_sequence nd' = max_sequence nd"
    by (simp_all add: nd'_def)
  have "cache_wf ?p fs' ?c"
    using D(3) dk by (auto simp: cache_wf_def user_map_def split: option.splits)
  then have ok': "node_ok nd'"
    using ok K(2,4) by (simp add: node_ok_def state_ok_def base_ok_def sel)
  have nv: "nval nd' = nval nd"
    using K(4) by (simp add: nval_def sel fun_eq_iff)
  have lg: "logged_node nd' (n + length ops) []"
    using K(3) by (simp add: logged_node_def sel)
  have "\<exists>nd''. recover_node e ret nd0 = Inr (quiet e ret nd'') \<and> live_node nd'' \<and>
       nval nd'' = nval nd \<and> max_sequence nd'' = max_sequence nd" if "crashed nd' nd0" for nd0
    using recover_primary [OF ok' lg _ that, of e ret] nd(3) nv sel(4) by auto
  then show ?thesis
    using C nd'_def nv lg sel by blast
qed

theorem checkpoint_keeps_values_witness:
  "\<exists>nd' sent. checkpoint example_env (example_node True 1) = Inr (nd', sent) \<and>
    nval nd' = nval (example_node True 1) \<and> logged_node nd' 0 []"
proof -
  have r: "roomy (example_node True 1)" "secondary (example_node True 1) \<noteq> []"
    by (simp_all add: roomy_def example_node_def new_cache_def)
  have b: "0 + length ([] :: log_op list) < 2 ^ 31"
    by simp
  show ?thesis
    using checkpoint_keeps_values [OF example_node_ok(1,4) b r, of example_env empty_ret] by auto
qed

section \<open>Reads of absent keys, and users without a folder\<close>

text \<open>
  The status of a read depends on the history: the first \<open>GETS\<close> of a key that does not exist is answered
  \<open>KEY_ERROR\<close> or \<open>USER_ERROR\<close>, the same \<open>GETS\<close> once more \<open>FINISHED\<close> with the empty value, although nothing was stored.
\<close>

lemma absent_key_read_twice:
  assumes "live_node nd" "name_ok u" "\<not> cached (nd_cache nd) u k"
    and "disk_view (nd_prefix nd) (nd_fs nd) u k = None"
  shows "\<exists>nd1 nd2. run_gets (gets_cmd u k) nd =
      Inr (if knows nd u then KEY_ERROR else USER_ERROR, [], nd1) \<and>
    run_gets (gets_cmd u k) nd1 = Inr (FINISHED, [], nd2) \<and> nval nd2 = nval nd"
proof -
  have nd: "node_ok nd"
    using assms(1) by (simp add: live_node_def)
  obtain s nd1 where G: "run_gets (gets_cmd u k) nd = Inr (s, nval nd u k, nd1)" "keeps 0 nd nd1"
    "s = FINISHED \<longleftrightarrow> cached (nd_cache nd) u k \<or> disk_view (nd_prefix nd) (nd_fs nd) u k \<noteq> None"
    "nval nd u k \<noteq> [] \<longrightarrow> s = FINISHED" "cached (nd_cache nd1) u k"
    "s \<noteq> FINISHED \<longrightarrow> s = (if knows nd u then KEY_ERROR else USER_ERROR)"
    using run_gets_spec [OF nd assms(2), of k] by blast
  have nd1: "node_ok nd1" "nval nd1 = nval nd"
    using G(2) by (simp_all add: keeps_def)
  obtain s2 nd2 where H: "run_gets (gets_cmd u k) nd1 = Inr (s2, nval nd1 u k, nd2)" "keeps 0 nd1 nd2"
    "s2 = FINISHED \<longleftrightarrow> cached (nd_cache nd1) u k \<or> disk_view (nd_prefix nd1) (nd_fs nd1) u k \<noteq> None"
    using run_gets_spec [OF nd1(1) assms(2), of k] by blast
  have "s \<noteq> FINISHED" "s2 = FINISHED" "nval nd u k = []"
    using G(3-5) H(3) assms(3,4) by auto
  then show ?thesis
    using G(1,6) H(1,2) nd1(2) by (auto simp: keeps_def)
qed

lemma example_unknown: "\<not> knows (example_node True 1) ''eve''"
proof -
  have "\<not> member (example_node True 1) ''eve''" "name_ok ''eve''"
    by (simp_all add: name_ok_def)
  then show ?thesis unfolding member_def by blast
qed

text \<open>
  A write of a user without a folder is acknowledged and then lost.  If no update is pending, a
  \<open>PUTS\<close> for a user who never signed up is answered \<open>FINISHED\<close> and the value is read back; but after
  a checkpoint and a restart of the node the value is gone: the checkpoint ignores that the user's
  chunk could not be opened, and truncates the log.
\<close>

lemma write_without_folder_is_lost:
  assumes nd: "live_node nd" "updates_cache (nd_cache nd) = []" "secondary nd \<noteq> []"
    and u: "data_ok u k v" "\<not> knows nd u" and bound: "max_sequence nd + 1 < 2 ^ 31"
  shows "\<exists>nd1 nd2 sent. run_puts (puts_cmd u k v) nd = (FINISHED, nd1) \<and> nval nd1 u k = v \<and>
    checkpoint e nd1 = Inr (nd2, sent) \<and>
    (\<forall>nd0. crashed nd2 nd0 \<longrightarrow> (\<exists>nd3. recover_node e ret nd0 = Inr (quiet e ret nd3) \<and> nval nd3 u k = []))"
proof -
  let ?p = "nd_prefix nd" and ?c = "nd_cache nd"
  have ok: "node_ok nd" and n: "name_ok u"
    using nd(1) data_okD [OF u(1)] by (simp_all add: live_node_def)
  note N = node_state [OF ok] and D = state_okD [OF node_state(1) [OF ok]]
  obtain fs1 c1 where c1: "committed (LPut u k v) (nd_fs nd) ?c = (fs1, c1)"
    by fastforce
  note F = committed_facts [OF c1 N(2)]
  define nd1 where "nd1 = set_sec (fs1, max_sequence nd + 1, c1) nd"
  have run: "run_puts (puts_cmd u k v) nd = (FINISHED, nd1)"
    using Puts_commits [OF N(2,4)] N(3) c1 by (simp add: run_puts_def Let_def nd1_def)
  have same1: "same_user ?p w (nd_fs nd) fs1" if "name_ok w" for w
    using F(5) log_apart [OF that] D(1) by simp
  have val1: "nval nd1 u k = v"
    using n F(6) [of u k] by (simp add: nval_def cval_def nd1_def)
  have no: "no_user ?p fs1 u"
    using unknown_user(1) [OF ok n u(2)] same1 [OF n] by (simp add: no_user_def same_user_def)
  have uc: "updates_cache c1 = [(u, [(k, v)])]"
    using c1 nd(2) by (auto simp: committed_def put_cached_def touch_def put_key_def user_map_def Let_def)
  obtain ch where "append_kvs [(k, v)] fs1 (blank_chunk ?p u) = Inr (FINISHED, fs1, ch)"
    using append_kvs_no_folder [OF no, of "blank_chunk ?p u" "[(k, v)]"] by (auto simp: blank_chunk_def)
  then have cu: "checkpoint_users ?p (updates_cache c1) fs1 = Inr fs1"
    using no_user_init(1) [OF no n] by (simp add: uc)
  define c2 where "c2 = c1\<lparr>updates_cache := [], read_cache := []\<rparr>"
  define fs2 where "fs2 = snd (write_file (kLogFp c1) [] fs1)"
  define fs3 where "fs3 = snd (append_file (kLogFp c1) (checkpoint_line (sequence_id c1)) fs2)"
  have log: "kLogFp c1 = ?p @ ''logging''" "can_open (kLogFp c1) fs1" "can_open (kLogFp c1) fs2"
    using F(1,2) D(1) N(2) by (simp_all add: can_open_def fs2_def)
  have ck: "Checkpoint ?p fs1 c1 = Inr (FINISHED, fs3, c2)"
    using log(3) Log_ok [of c2 fs2]
    by (simp add: Checkpoint_def cu fs2_def [symmetric] c2_def [symmetric]) (simp add: c2_def fs3_def)
  obtain a where "first_node (secondary nd) = Inr a"
    using nd(3) by (cases "secondary nd") (simp_all add: first_node_def)
  then obtain sent where C: "checkpoint e nd1 = Inr (nd1\<lparr>nd_fs := fs3\<rparr>, sent)"
    using ck by (simp add: checkpoint_def nd1_def)
  define ndr where "ndr = set_sec (fs3, max_sequence nd + 1, c2) nd"
  have same3: "same_user ?p w (nd_fs nd) fs3" if "name_ok w" for w
    using same_user_trans [OF same1 [OF that]] same_user_trans [OF same_user_write same_user_append]
      log_apart [OF that] log(1) unfolding fs2_def fs3_def by metis
  have e2: "updates_cache c2 = []" "read_cache c2 = []" "kLogFp c2 = kLogFp c1" "sequence_id c2 = sequence_id ?c + 1"
    using F(3) by (simp_all add: c2_def)
  have none: "upd c2 w j = None" "rd c2 w j = None" for w j
    by (simp_all add: upd_def rd_def e2)
  have "base_ok ?p fs3"
    using D(4) F(1) by (simp add: base_ok_def fs3_def fs2_def)
  then have st: "state_ok ?p fs3 c2"
    using D same_user_user_ok [OF same3] log(1) e2 none
    by (simp add: state_ok_def coherent_def cache_wf_def)
  then have okr: "node_ok ndr"
    using N(3) e2(4) by (simp add: node_ok_def ndr_def)
  have seq: "int (nat (max_sequence nd + 1)) = max_sequence nd + 1"
    using N(3,4) by simp
  have "read_file (kLogFp c1) fs3 = Some (checkpoint_line (max_sequence nd + 1))"
    using log F(3) N(3) by (simp add: fs3_def fs2_def)
  then have lg: "logged_node ndr (nat (max_sequence nd + 1)) []"
    using seq e2 none N(3) by (simp add: logged_node_def durable_def ndr_def cval_def)
  have gone: "nval ndr u k = []"
    using no_user_init(2) [OF unknown_user(1) [OF ok n u(2)] n] same_user_vals(1) [OF same3 [OF n] n] n none
    by (simp add: nval_def cval_def ndr_def dval_def)
  have "\<exists>nd3. recover_node e ret nd0 = Inr (quiet e ret nd3) \<and> nval nd3 u k = []"
    if c: "crashed (nd1\<lparr>nd_fs := fs3\<rparr>) nd0" for nd0
  proof -
    have "crashed ndr nd0"
      using c e2(3) by (simp add: crashed_def ndr_def nd1_def)
    moreover have "nat (max_sequence nd + 1) + length ([] :: log_op list) < 2 ^ 31"
      using bound N(3,4) by simp
    ultimately show ?thesis
      using recover_primary [OF okr lg, of nd0 e ret] gone by auto
  qed
  then show ?thesis
    using run val1 C by blast
qed

end
