(* ===== verification/Monitor.thy ===== *)
theory Monitor
  imports Address_Parse Hash File_Operation Kv_Interface
begin

text \<open>
  \<open>master/monitor.h\<close>, \<open>master/master.cpp\<close>, \<open>master/load_balance.h\<close> and \<open>common/master_interface.h\<close>:
  the master knows which backend servers are alive, tells the servers of a group who its members
  are, and answers which server is the primary of a user.  The three global lists are fields of
  \<open>master\<close>; the commands that an operation sends to backends are returned in order (an attempt that
  cannot connect is only logged by the code).
\<close>

section \<open>State\<close>

datatype backend_state = ALIVE | DEAD | CRASH

record backend =
  bk_state :: backend_state
  bk_fd :: int
  bk_group :: "32 word"
  bk_addr :: address

definition new_backend :: backend where
  "new_backend = \<lparr>bk_state = CRASH, bk_fd = -1, bk_group = -1, bk_addr = empty_address\<rparr>"

record master =
  frontends :: "(int, address) cmap"
  backends :: "backend list"
  alive_backends :: "backend list"
  dead_backends :: "backend list"
  group_size :: "32 word"

type_synonym sends = "(address \<times> kv_command) list"

section \<open>Groups\<close>

text \<open>Without any group the remainder is undefined.\<close>

definition get_group_id :: "string \<Rightarrow> master \<Rightarrow> (32 word) res" where
  "get_group_id usr m =
     rbind (hashh usr 3) (\<lambda>h. if group_size m = 0 then Inl Undefined else Inr (h mod group_size m))"

fun find_name :: "string \<Rightarrow> backend list \<Rightarrow> backend option" where
  "find_name n [] = None"
| "find_name n (b # bs) = (if ad_name (bk_addr b) = n then Some b else find_name n bs)"

definition get_group_id_addr :: "address \<Rightarrow> master \<Rightarrow> 32 word" where
  "get_group_id_addr addr m =
     (case find_name (ad_name addr) (backends m) of None \<Rightarrow> -1 | Some b \<Rightarrow> bk_group b)"

definition get_cluster :: "address \<Rightarrow> master \<Rightarrow> address list" where
  "get_cluster addr m =
     map bk_addr (filter (\<lambda>b. bk_group b = get_group_id_addr addr m) (alive_backends m))"

definition get_fd :: "address \<Rightarrow> master \<Rightarrow> int" where
  "get_fd addr m = (case find_name (ad_name addr) (backends m) of None \<Rightarrow> -1 | Some b \<Rightarrow> bk_fd b)"

definition broadcast_group_addr :: "address list \<Rightarrow> sends" where
  "broadcast_group_addr vec =
     map (\<lambda>a. (a, empty_command\<lparr>c_com := ''CLUSTER'', c_addrs := map ad_name vec\<rparr>)) vec"

fun first_of_group :: "32 word \<Rightarrow> backend list \<Rightarrow> backend option" where
  "first_of_group g [] = None"
| "first_of_group g (b # bs) = (if bk_group b = g then Some b else first_of_group g bs)"

definition get_primary :: "string \<Rightarrow> master \<Rightarrow> (backend option) res" where
  "get_primary usr m = rbind (get_group_id usr m) (\<lambda>g. Inr (first_of_group g (alive_backends m)))"

section \<open>Changes\<close>

text \<open>The first entry with a property is changed; the first such entry is taken out of a list.\<close>

fun change_first :: "(backend \<Rightarrow> bool) \<Rightarrow> (backend \<Rightarrow> backend) \<Rightarrow> backend list \<Rightarrow> backend list" where
  "change_first P f [] = []"
| "change_first P f (b # bs) = (if P b then f b # bs else b # change_first P f bs)"

fun take_first :: "(backend \<Rightarrow> bool) \<Rightarrow> backend list \<Rightarrow> (backend \<times> backend list) option" where
  "take_first P [] = None"
| "take_first P (b # bs) =
     (if P b then Some (b, bs) else map_option (\<lambda>(x, r). (x, b # r)) (take_first P bs))"

abbreviation named :: "address \<Rightarrow> backend \<Rightarrow> bool" where
  "named addr b \<equiv> ad_name (bk_addr b) = ad_name addr"

definition kill_backend :: "address \<Rightarrow> master \<Rightarrow> bool \<times> master \<times> sends" where
  "kill_backend addr m =
     (let m1 = m\<lparr>backends := change_first (\<lambda>b. named addr b \<and> bk_state b = ALIVE)
                              (\<lambda>b. b\<lparr>bk_state := DEAD\<rparr>) (backends m)\<rparr> in
      case take_first (named addr) (alive_backends m1) of
        None \<Rightarrow> (False, m1, [])
      | Some (b, rest) \<Rightarrow>
          let m2 = m1\<lparr>dead_backends := dead_backends m1 @ [b\<lparr>bk_state := DEAD\<rparr>], alive_backends := rest\<rparr>
          in (True, m2, broadcast_group_addr (get_cluster addr m2) @
                          [(addr, empty_command\<lparr>c_com := ''KILL''\<rparr>)]))"

definition restart_backend :: "address \<Rightarrow> master \<Rightarrow> bool \<times> master \<times> sends" where
  "restart_backend addr m =
     (let m1 = m\<lparr>backends := change_first (\<lambda>b. named addr b \<and> bk_state b = DEAD)
                              (\<lambda>b. b\<lparr>bk_state := ALIVE\<rparr>) (backends m)\<rparr> in
      case take_first (\<lambda>b. named addr b \<and> bk_state b = DEAD) (dead_backends m1) of
        None \<Rightarrow> (False, m1, [])
      | Some (b, rest) \<Rightarrow>
          let m2 = m1\<lparr>alive_backends := alive_backends m1 @ [b\<lparr>bk_state := ALIVE\<rparr>], dead_backends := rest\<rparr>
          in (True, m2, broadcast_group_addr (get_cluster addr m2) @
                          [(addr, empty_command\<lparr>c_com := ''RESTART''\<rparr>)]))"

definition delete_backend_fd :: "int \<Rightarrow> master \<Rightarrow> bool \<times> master \<times> sends" where
  "delete_backend_fd fd m =
     (let lost = (\<lambda>b. b\<lparr>bk_fd := -1, bk_state := CRASH\<rparr>);
          m1 = m\<lparr>backends := change_first (\<lambda>b. bk_fd b = fd) lost (backends m)\<rparr> in
      case take_first (\<lambda>b. bk_fd b = fd) (alive_backends m1) of
        Some (b, rest) \<Rightarrow>
          let m2 = m1\<lparr>dead_backends := dead_backends m1 @ [lost b], alive_backends := rest\<rparr>
          in (True, m2, broadcast_group_addr (get_cluster (bk_addr b) m2))
      | None \<Rightarrow>
          if \<exists>b \<in> set (dead_backends m1). bk_fd b = fd
          then (True, m1\<lparr>dead_backends := change_first (\<lambda>b. bk_fd b = fd) lost (dead_backends m1)\<rparr>, [])
          else (False, m1, []))"

definition set_backend_fd :: "address \<Rightarrow> int \<Rightarrow> master \<Rightarrow> bool \<times> master \<times> sends" where
  "set_backend_fd addr fd m =
     (let up = (\<lambda>b. b\<lparr>bk_fd := fd, bk_state := ALIVE\<rparr>);
          m1 = m\<lparr>backends := change_first (named addr) up (backends m)\<rparr> in
      case take_first (named addr) (dead_backends m1) of
        None \<Rightarrow> (False, m1, [])
      | Some (b, rest) \<Rightarrow>
          let m2 = m1\<lparr>alive_backends := alive_backends m1 @ [up b], dead_backends := rest\<rparr>
          in (True, m2, broadcast_group_addr (get_cluster addr m2)))"

section \<open>Configuration\<close>

text \<open>\<open>std::set<Address>\<close>: ordered by name, bytes compared unsigned, one entry per name.\<close>

fun name_less :: "string \<Rightarrow> string \<Rightarrow> bool" where
  "name_less [] [] = False"
| "name_less [] (d # ds) = True"
| "name_less (c # cs) [] = False"
| "name_less (c # cs) (d # ds) =
     (if c = d then name_less cs ds else (of_char c :: nat) < of_char d)"

fun insert_address :: "address \<Rightarrow> address list \<Rightarrow> address list" where
  "insert_address a [] = [a]"
| "insert_address a (b # bs) =
     (if name_less (ad_name a) (ad_name b) then a # b # bs
      else if ad_name a = ad_name b then b # bs
      else b # insert_address a bs)"

fun read_groups :: "string list \<Rightarrow> (string, address list) cmap \<Rightarrow> ((string, address list) cmap) res" where
  "read_groups [] g = Inr g"
| "read_groups (line # ls) g =
     (case find_char (CHR '','') line of
        None \<Rightarrow> read_groups ls g
      | Some pos \<Rightarrow>
          rbind (address_init (drop (pos + 1) line)) (\<lambda>a.
            let index = take pos line;
                st = (case map_of g index of None \<Rightarrow> [] | Some st \<Rightarrow> st)
            in read_groups ls (AList.update index (insert_address a st) g)))"

text \<open>\<open>iter\<close> is the iteration order of the hash table.\<close>

fun number_groups :: "32 word \<Rightarrow> (string \<times> address list) list \<Rightarrow> backend list \<times> 32 word" where
  "number_groups i [] = ([], i)"
| "number_groups i ((_, st) # gs) =
     (case number_groups (i + 1) gs of (bs, n) \<Rightarrow>
        (map (\<lambda>a. new_backend\<lparr>bk_group := i, bk_addr := a\<rparr>) st @ bs, n))"

definition initialize_backend ::
  "((string, address list) cmap \<Rightarrow> (string \<times> address list) list) \<Rightarrow> string option \<Rightarrow> (master option) res" where
  "initialize_backend iter file =
     (case file of
        None \<Rightarrow> Inr None
      | Some t \<Rightarrow>
          rbind (read_groups (split t (CHR 0x0A)) []) (\<lambda>g.
            case number_groups 0 (iter g) of (bs, n) \<Rightarrow>
              Inr (Some \<lparr>frontends = [], backends = bs, alive_backends = [], dead_backends = bs,
                         group_size = n\<rparr>)))"

section \<open>Requests\<close>

datatype master_req =
    HEARTBEAT string | FRONTEND_INITIAL string | BACKEND_INITIAL string | EMAIL_INITIAL
  | USR_TO_BACKEND string

datatype master_reply = Finished | Backend_addrs "string list"

text \<open>
  \<open>USR_TO_BACKEND\<close> ignores whether a primary was found: without one the name is that of a default
  \<open>Backend\<close>, the empty string.
\<close>

definition master_command :: "master_req \<Rightarrow> int \<Rightarrow> master \<Rightarrow> (master \<times> master_reply option \<times> sends) res" where
  "master_command req fd m =
     (case req of
        FRONTEND_INITIAL a \<Rightarrow>
          rbind (address_init a) (\<lambda>addr. Inr (m\<lparr>frontends := AList.update fd addr (frontends m)\<rparr>, None, []))
      | BACKEND_INITIAL a \<Rightarrow>
          rbind (address_init a) (\<lambda>addr.
            case set_backend_fd addr fd m of (_, m', sent) \<Rightarrow> Inr (m', Some Finished, sent))
      | EMAIL_INITIAL \<Rightarrow> Inr (m, None, [])
      | USR_TO_BACKEND usr \<Rightarrow>
          rbind (get_primary usr m) (\<lambda>p.
            let b = (case p of None \<Rightarrow> new_backend | Some b \<Rightarrow> b)
            in Inr (m, Some (Backend_addrs [ad_name (bk_addr b)]), []))
      | HEARTBEAT _ \<Rightarrow> Inr (m, None, []))"

definition connection_closed :: "int \<Rightarrow> master \<Rightarrow> master \<times> sends" where
  "connection_closed fd m =
     (if map_of (frontends m) fd \<noteq> None then (m\<lparr>frontends := AList.delete fd (frontends m)\<rparr>, [])
      else case delete_backend_fd fd m of (_, m', sent) \<Rightarrow> (m', sent))"

text \<open>The client's side of \<open>USR_TO_BACKEND\<close>: \<open>ask\<close> is the exchange, \<open>None\<close> when it fails.\<close>

definition usr_to_address :: "(string \<Rightarrow> string list option) \<Rightarrow> string \<Rightarrow> string option" where
  "usr_to_address ask usr =
     (case ask usr of Some (b # _) \<Rightarrow> Some b | _ \<Rightarrow> None)"

section \<open>Load balancing\<close>

text \<open>\<open>pick\<close> is the value of \<open>rand()\<close>; \<open>iter\<close> the iteration order of \<open>frontends\<close>.\<close>

definition select_frontend :: "nat \<Rightarrow> (int \<times> address) list \<Rightarrow> address" where
  "select_frontend pick iter = snd (iter ! (pick mod length iter))"

definition balance_reply :: "nat \<Rightarrow> (int \<times> address) list \<Rightarrow> string" where
  "balance_reply pick iter =
     (if length iter < 1 then ''HTTP/1.1 503 Service Unavailable'' @ [CHR 0x0D, CHR 0x0A]
      else ''HTTP/1.1 302 Found'' @ [CHR 0x0D, CHR 0x0A] @ ''Location: http://localhost:'' @
        int_str (ad_port (select_frontend pick iter)) @ ''/login'' @
        [CHR 0x0D, CHR 0x0A, CHR 0x0D, CHR 0x0A])"

end
