(* ===== verification/Login.thy ===== *)
theory Login
  imports Replication Monitor
begin

text \<open>
  \<open>frontend/login.h\<close>: accounts.  The password of a user is the value of the key \<open>pwd\<close> in the
  key-value store; \<open>route\<close> is the way to the user's backend server, \<open>None\<close> when the master does not
  answer or the connection fails.  The laws are proved over the interface \<open>kv_link\<close>
  and then stated for the link to a storage node.
\<close>

section \<open>Definitions\<close>

definition INVALID_NAME_ERR :: int where "INVALID_NAME_ERR = -10"

definition WRONG_PASS_ERR :: int where "WRONG_PASS_ERR = -9"

definition LINK_ERR :: int where "LINK_ERR = -1"

text \<open>A \<open>char\<close> is signed: bytes from 128 on are negative.\<close>

definition valid_userchar :: "char \<Rightarrow> bool" where
  "valid_userchar c =
     (let n :: int = (if (of_char c :: int) < 128 then of_char c else of_char c - 256) in
      \<not> (n \<le> 0x20 \<or> n > 0x7e) \<and> c \<notin> {CHR ''@'', CHR 0x5C, CHR ''/'', CHR ''$'', CHR ''%'', CHR ''&'', CHR ''=''})"

definition valid_username :: "string \<Rightarrow> bool" where
  "valid_username usr = list_all valid_userchar usr"

type_synonym ('m, 's) route = "string \<Rightarrow> ('m, 's) link option"

text \<open>
  Asking the master for the user's backend, parsing its address and connecting to it; \<open>ask\<close> is the exchange
  with the master and \<open>connect\<close> the system call.  \<open>Address::init\<close> raises for no name shorter than
  2^32 bytes (lemma \<open>address_init_total\<close>).
\<close>

definition backend_route :: "(string \<Rightarrow> string list option) \<Rightarrow> (address \<Rightarrow> ('m, 's) link option) \<Rightarrow> ('m, 's) route" where
  "backend_route ask connect usr =
     (case usr_to_address ask usr of
        None \<Rightarrow> None
      | Some b \<Rightarrow> (case address_init b of Inl _ \<Rightarrow> None | Inr dst \<Rightarrow> connect dst))"

lemma address_init_total:
  assumes "length name < 2 ^ 32 - 1"
  shows "\<exists>a. address_init name = Inr a"
proof (cases "find_char (CHR '':'') name")
  case None
  then have "CHR '':'' \<notin> set name" by simp
  then show ?thesis using address_no_colon [of name] assms by auto
next
  case (Some i)
  then have i: "i < length name"
    using find_char_less by blast
  then have "unat (word_of_nat i :: 32 word) = i"
    using assms by (simp add: unat_of_nat)
  moreover have "word_of_nat i + 1 = (word_of_nat (Suc i) :: 32 word)"
    by simp
  then have "unat (word_of_nat i + 1 :: 32 word) = Suc i"
    using assms i by (simp only: unat_of_nat) simp
  ultimately show ?thesis
    using Some i by (simp add: address_init_def find32_def substr_def substr_from_def)
qed

definition change_pwd :: "('m, 's) route \<Rightarrow> string \<Rightarrow> string \<Rightarrow> string \<Rightarrow> 's \<Rightarrow> int \<times> 's" where
  "change_pwd route usr old_pwd new_pwd s =
     (if \<not> valid_username usr then (INVALID_NAME_ERR, s)
      else case route usr of
        None \<Rightarrow> (LINK_ERR, s)
      | Some l \<Rightarrow> kv_cput l usr ''pwd'' old_pwd new_pwd s)"

definition sign_up :: "('m, 's) route \<Rightarrow> string \<Rightarrow> string \<Rightarrow> 's \<Rightarrow> int \<times> 's" where
  "sign_up route usr pwd s = change_pwd route usr [] pwd s"

definition sign_in :: "('m, 's) route \<Rightarrow> string \<Rightarrow> string \<Rightarrow> 's \<Rightarrow> int \<times> 's" where
  "sign_in route usr pwd s =
     (if \<not> valid_username usr then (INVALID_NAME_ERR, s)
      else case route usr of
        None \<Rightarrow> (LINK_ERR, s)
      | Some l \<Rightarrow>
          (case kv_gets l [] usr ''pwd'' s of
             ((ret, password), s') \<Rightarrow>
               (if ret \<ge> 0 then (if password = pwd then 1 else WRONG_PASS_ERR) else ret, s')))"

section \<open>Accounts over the interface of the store\<close>

context kv_link
begin

lemma sign_up_new:
  assumes "route u = Some l" "inv s" "valid_username u" "okd u ''pwd'' p" "val s u ''pwd'' = []"
  shows "\<exists>s'. sign_up route u p s = (0, s') \<and> inv s' \<and> val s' = set_val u ''pwd'' p (val s) \<and> known s' u"
  using cput_law [OF assms(2) _ assms(4), of "[]"] assms(1,3,5) by (auto simp: sign_up_def change_pwd_def)

lemma change_pwd_known:
  assumes "route u = Some l" "inv s" "valid_username u" "okd u ''pwd'' q" "known s u"
  shows "\<exists>s'. change_pwd route u p q s =
      (kv_code (if val s u ''pwd'' = p then FINISHED else VALUE_ERROR), s') \<and> inv s' \<and>
    val s' = (if val s u ''pwd'' = p then set_val u ''pwd'' q (val s) else val s) \<and> known s' u"
  using cput_law [OF assms(2) disjI1 [OF assms(5)] assms(4), of p] assms(1,3,5) by (auto simp: change_pwd_def)

lemma sign_in_account:
  assumes "route u = Some l" "inv s" "valid_username u" "okd u ''pwd'' v" "val s u ''pwd'' \<noteq> []"
  shows "\<exists>s'. sign_in route u q s = (if q = val s u ''pwd'' then 1 else WRONG_PASS_ERR, s') \<and> inv s' \<and>
    val s' = val s \<and> known s' = known s"
  using gets_law [OF assms(2,4), of "[]"] assms(1,3,5) by (auto simp: sign_in_def)

lemma account_session:
  assumes r: "route u = Some l" and s: "inv s" "val s u ''pwd'' = []" and u: "valid_username u"
    and p: "okd u ''pwd'' p" "p \<noteq> []" and q: "okd u ''pwd'' q" "q \<noteq> []" "q \<noteq> p"
  shows "\<exists>s1 s2 s3 s4 s5 s6. sign_up route u p s = (0, s1) \<and>
    sign_up route u q s1 = (kv_code VALUE_ERROR, s2) \<and>
    sign_in route u q s2 = (WRONG_PASS_ERR, s3) \<and>
    sign_in route u p s3 = (1, s4) \<and>
    change_pwd route u p q s4 = (0, s5) \<and>
    sign_in route u q s5 = (1, s6) \<and> inv s6 \<and> val s6 = set_val u ''pwd'' q (val s)"
proof -
  obtain s1 where 1: "sign_up route u p s = (0, s1)" "inv s1" "val s1 = set_val u ''pwd'' p (val s)" "known s1 u"
    using sign_up_new [where route = route, OF r s(1) u p(1) s(2)] by blast
  obtain s2 where 2: "sign_up route u q s1 = (kv_code VALUE_ERROR, s2)" "inv s2" "val s2 = val s1" "known s2 u"
    using change_pwd_known [where route = route, OF r 1(2) u q(1) 1(4), of "[]"] 1(3) p(2) by (auto simp: sign_up_def)
  obtain s3 where 3: "sign_in route u q s2 = (WRONG_PASS_ERR, s3)" "inv s3" "val s3 = val s1" "known s3 u"
    using sign_in_account [where route = route, OF r 2(2) u p(1), of q] 2(3,4) 1(3) p(2) q(3) by auto
  obtain s4 where 4: "sign_in route u p s3 = (1, s4)" "inv s4" "val s4 = val s1" "known s4 u"
    using sign_in_account [where route = route, OF r 3(2) u p(1), of p] 3(3,4) 1(3) p(2) by auto
  obtain s5 where 5: "change_pwd route u p q s4 = (0, s5)" "inv s5" "val s5 = set_val u ''pwd'' q (val s)"
    using change_pwd_known [where route = route, OF r 4(2) u q(1) 4(4), of p] 4(3) 1(3) by auto
  obtain s6 where "sign_in route u q s5 = (1, s6)" "inv s6" "val s6 = val s5"
    using sign_in_account [where route = route, OF r 5(2) u q(1), of q] 5(3) q(2) by auto
  then show ?thesis using 1(1) 2(1) 3(1) 4(1) 5 by auto
qed

end

section \<open>Properties\<close>

text \<open>
  C30. Accounts work from end to end: on a primary storage node, for a user without an account, signing up
  succeeds, signing up again is refused, signing in is possible with the password and with no
  other, and after the password was changed the new one holds; nothing else in the store changes.
  The password passes through the client, the command and the node's caches, log and files.
\<close>

theorem login_session:
  assumes "route u = Some (node_link e)" "serving nd" "nval nd u ''pwd'' = []" "valid_username u"
    "data_ok u ''pwd'' p" "p \<noteq> []" "data_ok u ''pwd'' q" "q \<noteq> []" "q \<noteq> p"
  shows "\<exists>n1 n2 n3 n4 n5 n6. sign_up route u p nd = (0, n1) \<and>
    sign_up route u q n1 = (kv_code VALUE_ERROR, n2) \<and>
    sign_in route u q n2 = (WRONG_PASS_ERR, n3) \<and>
    sign_in route u p n3 = (1, n4) \<and>
    change_pwd route u p q n4 = (0, n5) \<and>
    sign_in route u q n5 = (1, n6) \<and> nval n6 = set_val u ''pwd'' q (nval nd)"
  using kv_node.account_session [where route = route, OF assms] by blast

definition example_route :: "(kv_command + kv_ret, node) route" where
  "example_route = backend_route (\<lambda>_. Some [''127.0.0.1:7000'']) (\<lambda>a. Some (node_link example_env))"

lemma example_route_link [simp]: "example_route u = Some (node_link example_env)"
proof -
  have "address_init ''127.0.0.1:7000'' \<noteq> Inl x" for x
    using address_init_total [of "''127.0.0.1:7000''"] by auto
  then show ?thesis
    by (simp add: example_route_def backend_route_def usr_to_address_def split: sum.split)
qed

lemma example_serving: "serving (example_node True 1)"
  using example_node_ok(1) by (simp add: serving_def live_node_def) (simp add: example_node_def)

lemmas account_defs = valid_username_def valid_userchar_def Let_def data_ok_def token_def log_char_def alpha_def
  is_digit_def

theorem login_session_witness:
  "\<exists>n1 n2 n3. sign_up example_route ''eve'' ''secret'' (example_node True 1) = (0, n1) \<and>
    sign_up example_route ''eve'' ''other'' n1 = (-4, n2) \<and> sign_in example_route ''eve'' ''other'' n2 = (-9, n3)"
proof -
  have "valid_username ''eve''" "data_ok ''eve'' ''pwd'' ''secret''" "data_ok ''eve'' ''pwd'' ''other''"
    by (simp_all add: account_defs)
  then show ?thesis
    using login_session [where route = example_route, OF example_route_link example_serving, of "''eve''" "''secret''" "''other''"]
    by (simp add: WRONG_PASS_ERR_def) blast
qed

text \<open>
  C36. Somebody who never signed up can sign in: on a primary storage node the first attempt to sign in as a
  user without an account is refused, but the second attempt, with the empty password, succeeds,
  because the store then answers \<open>FINISHED\<close> with the empty value.
\<close>

theorem unknown_user_signs_in:
  assumes "route u = Some (node_link e)" "live_node nd" "isPrimary nd" "name_ok u" "valid_username u"
    "\<not> cached (nd_cache nd) u ''pwd''" "disk_view (nd_prefix nd) (nd_fs nd) u ''pwd'' = None"
  shows "\<exists>n1 n2 code. sign_in route u [] nd = (code, n1) \<and> code < 0 \<and> sign_in route u [] n1 = (1, n2)"
proof -
  obtain n1 n2 where G: "run_gets (gets_cmd u ''pwd'') nd =
      Inr (if knows nd u then KEY_ERROR else USER_ERROR, [], n1)"
    "run_gets (gets_cmd u ''pwd'') n1 = Inr (FINISHED, [], n2)"
    using absent_key_read_twice [OF assms(2,4,6,7)] by blast
  have r: "isPrimary n1" "\<not> killed n1" "isPrimary n2"
    using assms(2,3) G by (auto simp: run_gets_def live_node_def rbind_def split: sum.splits)
  show ?thesis
    using G r assms(1-3,5)
    by (simp add: sign_in_def kv_gets_def kv_trans_def node_link_def run_command_def live_node_def)
qed

lemma example_no_password:
  "\<not> cached (nd_cache (example_node True 1)) ''eve'' ''pwd''"
  "disk_view (nd_prefix (example_node True 1)) (nd_fs (example_node True 1)) ''eve'' ''pwd'' = None"
proof -
  show "\<not> cached (nd_cache (example_node True 1)) ''eve'' ''pwd''"
    by (simp add: cached_def rd_def upd_def example_node_def new_cache_def)
  have n: "name_ok ''eve''" and ok: "node_ok (example_node True 1)"
    using example_node_ok(1) by (simp add: name_ok_def, unfold live_node_def, blast)
  show "disk_view (nd_prefix (example_node True 1)) (nd_fs (example_node True 1)) ''eve'' ''pwd'' = None"
    using no_user_init(2) [OF unknown_user(1) [OF ok n example_unknown] n] by simp
qed

theorem unknown_user_signs_in_witness:
  "\<exists>n1 n2 code. sign_in example_route ''eve'' [] (example_node True 1) = (code, n1) \<and> code < 0 \<and>
    sign_in example_route ''eve'' [] n1 = (1, n2)"
proof -
  have "name_ok ''eve''" "valid_username ''eve''" "isPrimary (example_node True 1)"
    by (simp_all add: name_ok_def account_defs) (simp add: example_node_def)
  then show ?thesis
    using unknown_user_signs_in [where route = example_route, OF example_route_link example_node_ok(1)] example_no_password by blast
qed

end
