(* ===== verification/Mbox.thy ===== *)
theory Mbox
  imports Login
begin

text \<open>
  Mails and mailboxes (\<open>frontend/mail/mail.h\<close>, \<open>frontend/mail/mbox.h\<close>; \<open>email/mail.h\<close> and \<open>email/mbox.h\<close>
  hold the same code for the SMTP server, without deletion and with a list of recipients).  The mailbox of a user is one text, the value of
  the key \<open>mbox\<close>, read with \<open>GETS\<close> and replaced with \<open>CPUT\<close>.  The loops that retry a refused
  \<open>CPUT\<close> take the number of retries as fuel; \<open>None\<close>: it was not enough.
\<close>

section \<open>Mails\<close>

text \<open>\<open>m_time\<close> is the result of \<open>ctime\<close>: 24 characters and a line feed.\<close>

record mail =
  m_id :: "64 word"
  m_usr :: string
  m_time :: string
  m_text :: string

text \<open>\<open>Mail(id, usr, text)\<close>; \<open>now\<close> is the current time.\<close>

definition new_mail :: "string \<Rightarrow> 64 word \<Rightarrow> string \<Rightarrow> string \<Rightarrow> mail" where
  "new_mail now i usr text = \<lparr>m_id = i, m_usr = usr, m_time = now, m_text = text\<rparr>"

definition mail_clear :: "'a mail_scheme \<Rightarrow> 'a mail_scheme" where
  "mail_clear m = m\<lparr>m_id := 0, m_usr := [], m_text := []\<rparr>"

definition mail_empty :: "'a mail_scheme \<Rightarrow> bool" where
  "mail_empty m = (m_id m = 0 \<and> m_usr m = [] \<and> m_text m = [])"

definition get_header :: "'a mail_scheme \<Rightarrow> string" where
  "get_header m =
     (let header = map (\<lambda>c. if c = nl then CHR '' '' else c) (take 25 (m_text m)) in
      if length header \<le> 25 then header @ ''...'' else header)"

definition from_line :: "'a mail_scheme \<Rightarrow> string" where
  "from_line m =
     (if CHR ''@'' \<in> set (m_usr m) then ''From <'' @ m_usr m @ ''> ''
      else ''From <'' @ m_usr m @ ''@localhost> '')"

definition to_local_string :: "'a mail_scheme \<Rightarrow> string" where
  "to_local_string m = from_line m @ m_time m @ nat_str (unat (m_id m)) @ [nl] @ m_text m"

definition to_remote_string :: "'a mail_scheme \<Rightarrow> string" where
  "to_remote_string m = from_line m @ m_time m @ m_text m"

section \<open>Mailboxes\<close>

record mbox =
  mb_current :: "64 word"
  mb_usr :: string
  mb_text :: string
  mb_mails :: "mail list"

definition empty_mbox :: mbox where
  "empty_mbox = \<lparr>mb_current = 0, mb_usr = [], mb_text = [], mb_mails = []\<rparr>"

text \<open>The expression for \<open>... ... .. ........ ....\<close>, and the one for a whole header line.\<close>

definition dots :: "nat \<Rightarrow> re" where
  "dots n = seqs (replicate n (Cls re_dot))"

definition date_regex :: re where
  "date_regex = seqs [dots 3, Lit '' '', dots 3, Lit '' '', dots 2, Lit '' '', dots 8, Lit '' '', dots 4]"

definition header_regex :: re where
  "header_regex = seqs [ilit ''FROM <'', Some1 re_dot, Lit ''@'', Some1 re_dot, Lit ''> '', date_regex]"

definition is_header :: "string \<Rightarrow> bool" where
  "is_header line = (regex_match header_regex line \<noteq> None)"

text \<open>
  The loop of \<open>parse_mails\<close>: \<open>mail\<close> is the mail being collected, \<open>mails\<close> and \<open>cur\<close> the fields of the
  mailbox.  The line after a header must be a number: \<open>stoull\<close> raises otherwise, also when the header
  is the last line (\<open>getline\<close> then leaves the header in \<open>line\<close>, or empties it).
\<close>

function parse_loop :: "istream \<Rightarrow> mail \<Rightarrow> mail list \<Rightarrow> 64 word \<Rightarrow> (mail list \<times> 64 word) res" where
  "parse_loop ss mail mails cur =
     (case getline nl ss [] of
        (False, _, _) \<Rightarrow> Inr (if \<not> mail_empty mail then mails @ [mail] else mails, cur)
      | (True, line, ss1) \<Rightarrow>
          if is_header line then
            (let mails1 = (if \<not> mail_empty mail then mails @ [mail] else mails) in
             rbind (substr line 6 (length line - 32)) (\<lambda>u.
             rbind (substr_from line (length line - 24)) (\<lambda>t.
             case getline nl ss1 line of
               (_, line2, ss2) \<Rightarrow>
                 rbind (stoull line2) (\<lambda>i.
                   parse_loop ss2 ((mail_clear mail)\<lparr>m_usr := u, m_time := t @ [nl], m_id := word_of_nat i\<rparr>) mails1
                     (max (word_of_nat i) cur)))))
          else if \<not> mail_empty mail then parse_loop ss1 (mail\<lparr>m_text := m_text mail @ line @ [nl]\<rparr>) mails cur
          else parse_loop ss1 mail mails cur)"
  by pat_completeness auto
termination
proof (relation "measure (\<lambda>(ss, mail, mails, cur). length (is_rest ss))", goal_cases)
  case (2 ss mail mails cur b x line ss1 mails1 u t c y line2 ss2 i)
  then have "length (is_rest ss1) < length (is_rest ss)"
    using getline_dec [of nl ss "[]" line ss1] by simp
  moreover have "length (is_rest ss2) \<le> length (is_rest ss1)"
    using getline_le [of nl ss1 line] 2 by metis
  ultimately show ?case by simp
qed (auto dest: getline_dec [OF sym])

declare parse_loop.simps [simp del]

text \<open>The time of the default mail is never read: the first header overwrites it.\<close>

definition parse_mails :: "mbox \<Rightarrow> mbox res" where
  "parse_mails mb =
     rbind (parse_loop (istream_of (mb_text mb)) (new_mail [] 0 [] []) (mb_mails mb) (mb_current mb))
       (\<lambda>(mails, cur). Inr (mb\<lparr>mb_mails := mails, mb_current := cur\<rparr>))"

definition mbox_init :: "('m, 's) link \<Rightarrow> string \<Rightarrow> mbox \<Rightarrow> 's \<Rightarrow> (bool \<times> mbox) res \<times> 's" where
  "mbox_init l usr mb s =
     (let mb0 = mb\<lparr>mb_current := 0, mb_usr := usr\<rparr> in
      case kv_gets l (mb_text mb0) usr ''mbox'' s of
        ((state, text), s') \<Rightarrow>
          (let mb1 = mb0\<lparr>mb_text := text\<rparr> in
           if state = kv_code KEY_ERROR then
             (rbind (parse_mails (mb1\<lparr>mb_text := []\<rparr>)) (\<lambda>mb2. Inr (True, mb2)), s')
           else if state \<noteq> kv_code FINISHED then (Inr (False, mb1), s')
           else (rbind (parse_mails mb1) (\<lambda>mb2. Inr (True, mb2)), s')))"

text \<open>
  The loops of \<open>write\<close> and \<open>del\<close>: \<open>post\<close> computes the new text from the mailbox, \<open>state\<close> is the status of
  the last \<open>CPUT\<close>.  \<open>init(fd, usr) < 0\<close> is never true, whatever \<open>init\<close> returns.
\<close>

fun retry_loop :: "nat \<Rightarrow> ('m, 's) link \<Rightarrow> (mbox \<Rightarrow> string) \<Rightarrow> int \<Rightarrow> mbox \<Rightarrow> 's \<Rightarrow> ((bool \<times> mbox) res \<times> 's) option" where
  "retry_loop n l post state mb s =
     (if state \<noteq> kv_code FINISHED \<and> state \<noteq> kv_code LINK_ERROR then
        (case n of
           0 \<Rightarrow> None
         | Suc n' \<Rightarrow>
             (case mbox_init l (mb_usr mb) mb s of
                (Inl e, s1) \<Rightarrow> Some (Inl e, s1)
              | (Inr (_, mb1), s1) \<Rightarrow>
                  (case kv_cput l (mb_usr mb1) ''mbox'' (mb_text mb1) (post mb1) s1 of
                     (state', s2) \<Rightarrow> retry_loop n' l post state' mb1 s2)))
      else Some (Inr (state = kv_code FINISHED, mb), s))"

declare retry_loop.simps [simp del]

definition mbox_write :: "nat \<Rightarrow> ('m, 's) link \<Rightarrow> 'a mail_scheme \<Rightarrow> mbox \<Rightarrow> 's \<Rightarrow> ((bool \<times> mbox) res \<times> 's) option" where
  "mbox_write n l mail mb s =
     (let mail1 = mail\<lparr>m_id := mb_current mb + 1\<rparr>;
          mb1 = mb\<lparr>mb_current := mb_current mb + 1\<rparr>;
          post = (\<lambda>mb. mb_text mb @ to_local_string mail1)
      in case kv_cput l (mb_usr mb1) ''mbox'' (mb_text mb1) (post mb1) s of
           (state, s1) \<Rightarrow> retry_loop n l post state mb1 s1)"

definition without :: "64 word \<Rightarrow> mbox \<Rightarrow> string" where
  "without i mb = concat (map to_local_string (filter (\<lambda>m. m_id m \<noteq> i) (mb_mails mb)))"

definition mbox_del :: "nat \<Rightarrow> ('m, 's) link \<Rightarrow> 64 word \<Rightarrow> mbox \<Rightarrow> 's \<Rightarrow> ((bool \<times> mbox) res \<times> 's) option" where
  "mbox_del n l i mb s =
     (case kv_cput l (mb_usr mb) ''mbox'' (mb_text mb) (without i mb) s of
        (state, s1) \<Rightarrow> retry_loop n l (without i) state mb s1)"

section \<open>Header lines\<close>

lemma accepts_seqs [simp]: "accepts (seqs (r # rs)) s t \<longleftrightarrow> (\<exists>u. accepts r s u \<and> accepts (seqs rs) u t)"
  by (cases rs) auto

declare seqs.simps(2,3) [simp del]

lemma accepts_dots: "accepts (dots n) s t \<longleftrightarrow> (\<exists>xs. s = xs @ t \<and> length xs = n \<and> (\<forall>c \<in> set xs. re_dot c))"
proof (induction n arbitrary: s)
  case (Suc n)
  have "accepts (dots (Suc n)) s t \<longleftrightarrow> (\<exists>c u. s = c # u \<and> re_dot c \<and> accepts (dots n) u t)"
    by (auto simp: dots_def)
  also have "\<dots> \<longleftrightarrow> (\<exists>xs. s = xs @ t \<and> length xs = Suc n \<and> (\<forall>c \<in> set xs. re_dot c))"
    unfolding Suc.IH by (fastforce simp: length_Suc_conv)
  finally show ?case .
qed (simp add: dots_def)

definition is_date :: "string \<Rightarrow> bool" where
  "is_date t = (regex_match date_regex t \<noteq> None)"

definition is_sender :: "string \<Rightarrow> bool" where
  "is_sender u = (regex_match (seqs [Some1 re_dot, Lit ''@'', Some1 re_dot]) u \<noteq> None)"

lemma is_accepts:
  "is_date t \<longleftrightarrow> accepts date_regex t []"
  "is_sender t \<longleftrightarrow> accepts (seqs [Some1 re_dot, Lit ''@'', Some1 re_dot]) t []"
  "is_header t \<longleftrightarrow> accepts header_regex t []"
  unfolding is_date_def is_sender_def is_header_def regex_match_accepts by (rule refl)+

lemma is_date_chars:
  assumes "is_date t"
  shows "length t = 24" "\<forall>c \<in> set t. re_dot c"
proof -
  have "\<exists>a b c d e. t = a @ CHR '' '' # b @ CHR '' '' # c @ CHR '' '' # d @ CHR '' '' # e \<and>
      length a = 3 \<and> length b = 3 \<and> length c = 2 \<and> length d = 8 \<and> length e = 4 \<and>
      (\<forall>x \<in> set a \<union> set b \<union> set c \<union> set d \<union> set e. re_dot x)"
    using assms unfolding is_accepts date_regex_def accepts_seqs accepts_simps accepts_dots
    by (elim exE conjE) (simp, metis UnE)
  then show "length t = 24" "\<forall>c \<in> set t. re_dot c"
    by (elim exE conjE; simp add: re_dot_def)+
qed

lemma is_sender_chars:
  assumes "is_sender u"
  shows "\<forall>c \<in> set u. re_dot c"
proof -
  obtain a b where "u = a @ CHR ''@'' # b" "\<forall>c \<in> set a. re_dot c" "\<forall>c \<in> set b. re_dot c"
    using assms unfolding is_accepts by auto
  moreover have "re_dot (CHR ''@'')"
    by (simp add: re_dot_def)
  ultimately show ?thesis by auto
qed

lemma is_header_line:
  assumes "is_sender u" "is_date t"
  shows "is_header (''From <'' @ u @ ''> '' @ t)"
proof -
  have d: "accepts date_regex t []" and u: "accepts (seqs [Some1 re_dot, Lit ''@'', Some1 re_dot]) u []"
    using assms by (simp_all only: is_accepts)
  obtain a b where ab: "u = a @ CHR ''@'' # b" "a \<noteq> []" "b \<noteq> []" "\<forall>c \<in> set a. re_dot c" "\<forall>c \<in> set b. re_dot c"
    using u by auto
  have f: "map to_lower ''From <'' = map to_lower ''FROM <''"
    by code_simp
  have "accepts (ilit ''FROM <'') (''From <'' @ u @ ''> '' @ t) (u @ ''> '' @ t)"
    using f unfolding accepts_ilit by blast
  moreover have "accepts (Some1 re_dot) (u @ ''> '' @ t) (CHR ''@'' # b @ ''> '' @ t)"
    "accepts (Lit ''@'') (CHR ''@'' # b @ ''> '' @ t) (b @ ''> '' @ t)"
    "accepts (Some1 re_dot) (b @ ''> '' @ t) (''> '' @ t)" "accepts (Lit ''> '') (''> '' @ t) t"
    using ab by auto
  moreover have "accepts (seqs [date_regex]) t []"
    using d by (simp add: seqs.simps)
  ultimately have "accepts header_regex (''From <'' @ u @ ''> '' @ t) []"
    unfolding header_regex_def accepts_seqs by blast
  then show ?thesis
    by (simp only: is_accepts)
qed

section \<open>Parsing inverts printing\<close>

text \<open>The sender as the header line names it.\<close>

definition sender :: "'a mail_scheme \<Rightarrow> string" where
  "sender m = (if CHR ''@'' \<in> set (m_usr m) then m_usr m else m_usr m @ ''@localhost'')"

definition named :: "mail \<Rightarrow> mail" where
  "named m = m\<lparr>m_usr := sender m\<rparr>"

text \<open>
  A mail that its own printed form does not confuse: the sender has characters on both sides of an at-sign, the time is
  a date, the text consists of complete lines, and none of them looks like a header.
\<close>

definition mail_ok :: "'a mail_scheme \<Rightarrow> bool" where
  "mail_ok m = (is_sender (sender m) \<and> is_date (butlast (m_time m)) \<and> m_time m = butlast (m_time m) @ [nl] \<and>
     (m_text m = [] \<or> last (m_text m) = nl) \<and> list_all (\<lambda>l. \<not> is_header l) (split (m_text m) nl))"

lemma from_line_sender: "from_line m = ''From <'' @ sender m @ ''> ''"
  by (simp add: from_line_def sender_def)

lemma sender_at [simp]: "CHR ''@'' \<in> set (sender m)" "sender m \<noteq> []"
  by (auto simp: sender_def)

lemma named_print [simp]: "to_local_string (named m) = to_local_string m"
  by (simp add: to_local_string_def from_line_sender named_def) (simp add: sender_def)

lemma named_id [simp]: "m_id (named m) = m_id m"
  by (simp add: named_def)

lemma parse_end [simp]:
  "parse_loop (istream_of []) mail mails cur = Inr (if mail_empty mail then mails else mails @ [mail], cur)"
  by (simp add: parse_loop.simps)

lemma parse_lines:
  assumes "\<forall>l \<in> set ls. nl \<notin> set l \<and> \<not> is_header l" "\<not> mail_empty mail"
  shows "parse_loop (istream_of (unlines nl ls @ r)) mail mails cur =
    parse_loop (istream_of r) (mail\<lparr>m_text := m_text mail @ unlines nl ls\<rparr>) mails cur"
  using assms
proof (induction ls arbitrary: mail)
  case (Cons l ls)
  have "getline nl (istream_of (l @ nl # unlines nl ls @ r)) [] = (True, l, istream_of (unlines nl ls @ r))"
    using Cons.prems(1) by simp
  then have "parse_loop (istream_of (unlines nl (l # ls) @ r)) mail mails cur =
      parse_loop (istream_of (unlines nl ls @ r)) (mail\<lparr>m_text := m_text mail @ l @ [nl]\<rparr>) mails cur"
    using Cons.prems by (subst parse_loop.simps) simp
  then show ?case
    using Cons.IH [of "mail\<lparr>m_text := m_text mail @ l @ [nl]\<rparr>"] Cons.prems by (simp add: mail_empty_def)
qed simp

lemma mail_text_lines:
  assumes "mail_ok m"
  shows "m_text m = unlines nl (split (m_text m) nl)" "\<forall>l \<in> set (split (m_text m) nl). nl \<notin> set l \<and> \<not> is_header l"
  using assms unlines_split [of nl "m_text m"] split_no_delim [of "m_text m" nl]
  by (auto simp: mail_ok_def list_all_iff)

lemma parse_mail:
  assumes "mail_ok m"
  shows "parse_loop (istream_of (to_local_string m @ r)) mail mails cur =
    parse_loop (istream_of r) (named (mail.truncate m)) (if mail_empty mail then mails else mails @ [mail]) (max (m_id m) cur)"
proof -
  obtain t where t: "m_time m = t @ [nl]" "is_date t"
    using assms by (metis mail_ok_def)
  have u: "is_sender (sender m)"
    using assms by (simp add: mail_ok_def)
  define line where "line = ''From <'' @ sender m @ ''> '' @ t"
  define ls where "ls = split (m_text m) nl"
  have len: "length line = length (sender m) + 32"
    using is_date_chars(1) [OF t(2)] by (simp add: line_def)
  have "line = (''From <'' @ sender m @ ''> '') @ t" "length line - 24 = length (''From <'' @ sender m @ ''> '')"
    using len by (simp_all add: line_def)
  then have drop_line: "drop (length line - 24) line = t"
    by (metis append_eq_conv_conj)
  have sub: "substr line 6 (length line - 32) = Inr (sender m)" "substr_from line (length line - 24) = Inr t"
    using len is_date_chars(1) [OF t(2)] drop_line by (simp_all add: substr_def substr_from_def) (simp add: line_def)
  have hd: "is_header line" "nl \<notin> set line"
    using is_header_line [OF u t(2)] is_date_chars(2) [OF t(2)] is_sender_chars [OF u]
    by (auto simp: line_def re_dot_def)
  have printed: "to_local_string m @ r = line @ nl # nat_str (unat (m_id m)) @ nl # unlines nl ls @ r"
    using t(1) mail_text_lines(1) [OF assms]
    by (simp add: to_local_string_def from_line_sender line_def ls_def)
  let ?m = "(mail_clear mail)\<lparr>m_usr := sender m, m_time := t @ [nl], m_id := m_id m\<rparr>"
  have id: "stoull (nat_str (unat (m_id m))) = Inr (unat (m_id m))" "nl \<notin> set (nat_str (unat (m_id m)))"
    using unsigned_less [of "m_id m", where ?'a = nat] by simp_all
  have "parse_loop (istream_of (to_local_string m @ r)) mail mails cur =
      parse_loop (istream_of (unlines nl ls @ r)) ?m (if mail_empty mail then mails else mails @ [mail]) (max (m_id m) cur)"
    unfolding printed using hd sub id by (subst parse_loop.simps) simp
  also have "\<dots> = parse_loop (istream_of r) (?m\<lparr>m_text := m_text ?m @ unlines nl ls\<rparr>)
      (if mail_empty mail then mails else mails @ [mail]) (max (m_id m) cur)"
    using mail_text_lines(2) [OF assms] sender_at [of m] by (intro parse_lines) (auto simp: ls_def mail_empty_def)
  also have "?m\<lparr>m_text := m_text ?m @ unlines nl ls\<rparr> = named (mail.truncate m)"
    using t(1) mail_text_lines(1) [OF assms] by (simp add: named_def mail.truncate_def mail_clear_def ls_def sender_def)
  finally show ?thesis .
qed

definition print_mails :: "mail list \<Rightarrow> string" where
  "print_mails ms = concat (map to_local_string ms)"

definition max_id :: "mail list \<Rightarrow> 64 word \<Rightarrow> 64 word" where
  "max_id ms c = fold (\<lambda>m c. max (m_id m) c) ms c"

lemma named_not_empty [simp]: "\<not> mail_empty (named m)"
  by (simp add: mail_empty_def named_def)

lemma parse_print:
  assumes "\<forall>m \<in> set ms. mail_ok m"
  shows "parse_loop (istream_of (print_mails ms)) mail mails cur =
    Inr ((if mail_empty mail then mails else mails @ [mail]) @ map named ms, max_id ms cur)"
  using assms
proof (induction ms arbitrary: mail mails cur)
  case (Cons m ms)
  have "mail.truncate m = m"
    by (simp add: mail.truncate_def)
  then show ?case
    using parse_mail [of m "print_mails ms" mail mails cur] Cons by (simp add: print_mails_def max_id_def)
qed (simp add: print_mails_def max_id_def)

lemma parse_mails_print:
  assumes "\<forall>m \<in> set ms. mail_ok m" "mb_text mb = print_mails ms"
  shows "parse_mails mb =
    Inr (mb\<lparr>mb_mails := mb_mails mb @ map named ms, mb_current := max_id ms (mb_current mb)\<rparr>)"
  using parse_print [OF assms(1), of "new_mail [] 0 [] []" "mb_mails mb" "mb_current mb"] assms(2)
  by (simp add: parse_mails_def) (simp add: mail_empty_def new_mail_def)

lemma print_named [simp]: "print_mails (map named ms) = print_mails ms"
  by (simp add: print_mails_def comp_def)

lemma print_append [simp]: "print_mails (xs @ ys) = print_mails xs @ print_mails ys"
  by (simp add: print_mails_def)

section \<open>Properties\<close>

text \<open>
  C35. A mailbox is read back exactly.  For every sequence of mails whose senders and times have the form the header
  line needs and whose texts consist of complete lines none of which looks like a header, parsing
  the printed mailbox raises nothing and returns the same mails in the same order, senders without a
  domain completed to \<open>@localhost\<close>, and the largest identifier.  (The next identifier depends on it.)
\<close>

theorem mbox_roundtrip:
  assumes "\<forall>m \<in> set ms. mail_ok m"
  shows "parse_mails (mb\<lparr>mb_text := concat (map to_local_string ms)\<rparr>) =
    Inr (mb\<lparr>mb_text := concat (map to_local_string ms), mb_mails := mb_mails mb @ map named ms,
      mb_current := max_id ms (mb_current mb)\<rparr>)"
  using parse_mails_print [OF assms, of "mb\<lparr>mb_text := concat (map to_local_string ms)\<rparr>"]
  by (simp add: print_mails_def)

definition example_mails :: "mail list" where
  "example_mails = [new_mail (''Thu Jan  1 00:00:00 1970'' @ [nl]) 1 ''amy'' (''hi'' @ [nl])]"

lemma example_mails_ok [simp]: "\<forall>m \<in> set example_mails. mail_ok m"
  by code_simp

theorem mbox_roundtrip_witness:
  "\<exists>mb. parse_mails (empty_mbox\<lparr>mb_text := concat (map to_local_string example_mails)\<rparr>) = Inr mb \<and>
    map m_usr (mb_mails mb) = [''amy@localhost''] \<and> mb_current mb = 1"
  using mbox_roundtrip [OF example_mails_ok, of empty_mbox]
  by (simp add: empty_mbox_def example_mails_def named_def sender_def new_mail_def max_id_def)

end
