(* ===== verification/Webmail.thy ===== *)
theory Webmail
  imports Mbox
begin

text \<open>
  \<open>frontend/email.h\<close> and \<open>frontend/mail/relay.h\<close>: sending, listing and deleting mails.  The state \<open>'s\<close> is
  that of the storage nodes, reached by a \<open>route\<close>; \<open>'r\<close> is the rest of the internet, which the relay talks to.
  As for the mailbox, \<open>n\<close> bounds the retries and \<open>None\<close> means that they were not enough.
\<close>

section \<open>Local mail\<close>

definition send_local_mail ::
    "nat \<Rightarrow> ('m, 's) route \<Rightarrow> string \<Rightarrow> 'a mail_scheme \<Rightarrow> 's \<Rightarrow> (bool res \<times> 's) option" where
  "send_local_mail n route receiver mail s =
     (case route receiver of
        None \<Rightarrow> Some (Inr False, s)
      | Some l \<Rightarrow>
          (case mbox_init l receiver empty_mbox s of
             (Inl e, s1) \<Rightarrow> Some (Inl e, s1)
           | (Inr (ok, mbox), s1) \<Rightarrow>
               if ok then map_option (\<lambda>(r, s2). (rbind r (\<lambda>(ret, _). Inr ret), s2)) (mbox_write n l mail mbox s1)
               else Some (Inr False, s1)))"

definition delete_mail :: "nat \<Rightarrow> ('m, 's) route \<Rightarrow> string \<Rightarrow> 64 word \<Rightarrow> 's \<Rightarrow> (bool res \<times> 's) option" where
  "delete_mail n route usr i s =
     (case route usr of
        None \<Rightarrow> Some (Inr False, s)
      | Some l \<Rightarrow>
          (case mbox_init l usr empty_mbox s of
             (Inl e, s1) \<Rightarrow> Some (Inl e, s1)
           | (Inr (ok, mbox), s1) \<Rightarrow>
               if ok then map_option (\<lambda>(r, s2). (rbind r (\<lambda>(ret, _). Inr ret), s2)) (mbox_del n l i mbox s1)
               else Some (Inr False, s1)))"

text \<open>\<open>old\<close>: the content of the out parameter before the call.\<close>

definition get_mails :: "('m, 's) route \<Rightarrow> mail list \<Rightarrow> string \<Rightarrow> 's \<Rightarrow> (bool \<times> mail list) res \<times> 's" where
  "get_mails route old usr s =
     (case route usr of
        None \<Rightarrow> (Inr (False, old), s)
      | Some l \<Rightarrow>
          (case mbox_init l usr empty_mbox s of
             (Inl e, s1) \<Rightarrow> (Inl e, s1)
           | (Inr (ok, mbox), s1) \<Rightarrow> (Inr (if ok then (True, mb_mails mbox) else (False, old)), s1)))"

section \<open>Mail to other domains\<close>

definition crlf :: string where "crlf = [CHR 0x0D, CHR 0x0A]"

definition DOMAIN :: string where "DOMAIN = ''pku.edu.cn''"

text \<open>
  \<open>dns\<close>, \<open>hosts\<close> and \<open>dial\<close> are the system's resolver and \<open>connect\<close>; \<open>talk msg\<close> writes \<open>msg\<close> and reads once: the bytes that
  \<open>read\<close> delivered, at most 1000, or \<open>None\<close> when the write or the read fails.
\<close>

record 'r net =
  n_dns :: "string \<Rightarrow> string list"
  n_hosts :: "string \<Rightarrow> string list"
  n_dial :: "string \<Rightarrow> 'r \<Rightarrow> bool \<times> 'r"
  n_talk :: "string \<Rightarrow> 'r \<Rightarrow> string option \<times> 'r"

text \<open>The buffer of 1000 zero bytes is used as a C string: a full one has no terminator.\<close>

definition mail_response :: "string \<Rightarrow> string res" where
  "mail_response buf =
     (if length buf \<ge> 1000 \<and> CHR 0x00 \<notin> set buf then Inl Undefined
      else Inr (takeWhile (\<lambda>c. c \<noteq> CHR 0x00) buf))"

text \<open>One command: is the answer there and does it contain the expected code?\<close>

definition exchange :: "'r net \<Rightarrow> string \<Rightarrow> string \<Rightarrow> 'r \<Rightarrow> bool res \<times> 'r" where
  "exchange net command expected r =
     (case n_talk net command r of
        (None, r1) \<Rightarrow> (Inr False, r1)
      | (Some buf, r1) \<Rightarrow> (rbind (mail_response buf) (\<lambda>resp. Inr (find_str expected resp \<noteq> None)), r1))"

fun connect_addrs :: "'r net \<Rightarrow> string list \<Rightarrow> 'r \<Rightarrow> bool res \<times> 'r" where
  "connect_addrs net [] r = (Inr False, r)"
| "connect_addrs net (a # as) r =
     (case n_dial net a r of
        (False, r1) \<Rightarrow> connect_addrs net as r1
      | (True, r1) \<Rightarrow>
          (case exchange net (''HELO '' @ DOMAIN @ crlf) ''250'' r1 of
             (Inl e, r2) \<Rightarrow> (Inl e, r2)
           | (Inr True, r2) \<Rightarrow> (Inr True, r2)
           | (Inr False, r2) \<Rightarrow> connect_addrs net as r2))"

text \<open>A server whose name cannot be resolved has no addresses.\<close>

definition connect_remote :: "'r net \<Rightarrow> string list \<Rightarrow> 'r \<Rightarrow> bool res \<times> 'r" where
  "connect_remote net servers r = connect_addrs net (concat (map (n_hosts net) servers)) r"

definition quit_email :: "'r net \<Rightarrow> 'r \<Rightarrow> bool res \<times> 'r" where
  "quit_email net r = exchange net (''QUIT'' @ crlf) ''221'' r"

fun relay_loop :: "'r net \<Rightarrow> (string \<times> string) list \<Rightarrow> 'r \<Rightarrow> bool res \<times> 'r" where
  "relay_loop net [] r = (case quit_email net r of (q, r1) \<Rightarrow> (rbind q (\<lambda>_. Inr True), r1))"
| "relay_loop net ((command, expected) # cs) r =
     (case exchange net command expected r of
        (Inl e, r1) \<Rightarrow> (Inl e, r1)
      | (Inr True, r1) \<Rightarrow> relay_loop net cs r1
      | (Inr False, r1) \<Rightarrow> (case quit_email net r1 of (q, r2) \<Rightarrow> (rbind q (\<lambda>_. Inr False), r2)))"

definition relay_commands :: "string \<Rightarrow> string \<Rightarrow> 'a mail_scheme \<Rightarrow> (string \<times> string) list" where
  "relay_commands receiver domain mail =
     [(''MAIL FROM:<'' @ m_usr mail @ ''@'' @ DOMAIN @ ''>'' @ crlf, ''250''),
      (''RCPT TO:<'' @ receiver @ ''@'' @ domain @ ''>'' @ crlf, ''250''),
      (''DATA'' @ crlf, ''354''),
      (to_remote_string mail @ crlf @ ''.'' @ crlf, ''250'')]"

definition send_remote_mail :: "'r net \<Rightarrow> string \<Rightarrow> string \<Rightarrow> 'a mail_scheme \<Rightarrow> 'r \<Rightarrow> bool res \<times> 'r" where
  "send_remote_mail net receiver domain mail r =
     (let servers = n_dns net domain in
      if servers = [] then (Inr False, r)
      else case connect_remote net servers r of
          (Inl e, r1) \<Rightarrow> (Inl e, r1)
        | (Inr False, r1) \<Rightarrow> (Inr False, r1)
        | (Inr True, r1) \<Rightarrow> relay_loop net (relay_commands receiver domain mail) r1)"

section \<open>Sending to a list of recipients\<close>

text \<open>
  \<open>recipient.size() - 10\<close> is computed in 64 bits and wraps around for a short recipient.  \<open>now k\<close> is the
  time when \<open>k\<close> recipients are left.
\<close>

definition last_ten :: "string \<Rightarrow> string res" where
  "last_ten recipient = substr_from recipient (unat (word_of_nat (length recipient) - 10 :: 64 word))"

fun send_mails ::
    "nat \<Rightarrow> ('m, 's) route \<Rightarrow> 'r net \<Rightarrow> (nat \<Rightarrow> string) \<Rightarrow> string \<Rightarrow> string list \<Rightarrow> string \<Rightarrow> 's \<times> 'r \<Rightarrow>
      (bool res \<times> 's \<times> 'r) option" where
  "send_mails n route net now usr [] text s = Some (Inr True, s)"
| "send_mails n route net now usr (recipient # rs) text (s, r) =
     (let mail = new_mail (now (length (recipient # rs))) 0 usr text in
      case last_ten recipient of
        Inl e \<Rightarrow> Some (Inl e, s, r)
      | Inr domain10 \<Rightarrow>
          if domain10 = ''@localhost'' then
            (let receiver = take (length recipient - 10) recipient in
             case send_local_mail n route receiver mail s of
               None \<Rightarrow> None
             | Some (Inr True, s1) \<Rightarrow> send_mails n route net now usr rs text (s1, r)
             | Some (res, s1) \<Rightarrow> Some (res, s1, r))
          else
            (case find_char (CHR ''@'') recipient of
               None \<Rightarrow> Some (Inr False, s, r)
             | Some pos \<Rightarrow>
                 (case send_remote_mail net (take pos recipient) (drop (Suc pos) recipient) mail r of
                    (Inr True, r1) \<Rightarrow> send_mails n route net now usr rs text (s, r1)
                  | (res, r1) \<Rightarrow> Some (res, s, r1))))"

end
