(* ===== verification/Webmail_Correct.thy ===== *)
theory Webmail_Correct
  imports Webmail
begin

text \<open>
  Mailboxes over the interface \<open>kv_link\<close> of the store: a mail that is sent arrives, a mail that is deleted is gone, and what happens
  when two writers meet.  The properties state the results for the link to a storage node.
\<close>

section \<open>Mailboxes over the interface of the store\<close>

lemma retry_done [simp]: "retry_loop n l post (kv_code FINISHED) mb s = Some (Inr (True, mb), s)"
  "retry_loop n l post 0 mb s = Some (Inr (True, mb), s)"
  by (simp_all add: retry_loop.simps)

definition sent_as :: "64 word \<Rightarrow> mail \<Rightarrow> mail" where
  "sent_as i m = m\<lparr>m_id := i\<rparr>"

lemma sent_as_sel [simp]: "m_id (sent_as i m) = i" "mail_ok (sent_as i m) = mail_ok m" "sender (sent_as i m) = sender m"
  by (simp_all add: sent_as_def mail_ok_def sender_def)

lemma print_not_Nil [simp]: "to_local_string m \<noteq> []"
  by (simp add: to_local_string_def)

lemma max_id_simps [simp]: "max_id [] c = c" "max_id (m # ms) c = max_id ms (max (m_id m) c)"
  by (simp_all add: max_id_def)

lemma max_id_ge: "c \<le> max_id ms c"
proof (induction ms arbitrary: c)
  case (Cons m ms)
  then show ?case by (metis max.cobounded2 max_id_simps(2) order_trans)
qed simp

lemma max_id_upper: "m \<in> set ms \<Longrightarrow> m_id m \<le> max_id ms c"
proof (induction ms arbitrary: c)
  case (Cons x ms)
  have "m_id x \<le> max_id ms (max (m_id x) c)"
    by (rule order_trans [OF max.cobounded1 max_id_ge])
  then show ?case using Cons by auto
qed simp

text \<open>The next identifier is fresh as long as it does not wrap around.\<close>

lemma fresh_id:
  assumes "max_id ms 0 \<noteq> - 1" "m \<in> set ms"
  shows "m_id m \<noteq> max_id ms 0 + 1"
proof -
  have "max_id ms 0 + 1 \<noteq> 0"
    using assms(1) by (metis add.commute add_eq_0_iff)
  then have "unat (max_id ms 0 + 1) = Suc (unat (max_id ms 0))"
    using unatSuc [of "max_id ms 0"] by (simp add: add.commute)
  then show ?thesis
    using max_id_upper [OF assms(2), of 0] by (auto simp: word_le_nat_alt)
qed

lemma without_mails:
  "without i (mb\<lparr>mb_mails := map named ms\<rparr>) = print_mails (filter (\<lambda>m. m_id m \<noteq> i) ms)"
proof -
  have "filter (\<lambda>m. m_id m \<noteq> i) (map named ms) = map named (filter (\<lambda>m. m_id m \<noteq> i) ms)"
    by (simp add: filter_map comp_def)
  then show ?thesis
    using print_named by (simp add: without_def print_mails_def comp_def)
qed

lemma without_new:
  assumes "max_id ms 0 \<noteq> - 1" "\<forall>m \<in> set new. m_id m = max_id ms 0 + 1"
  shows "without (max_id ms 0 + 1) (mb\<lparr>mb_mails := map named (ms @ new)\<rparr>) = print_mails ms"
proof -
  have "filter (\<lambda>m. m_id m \<noteq> max_id ms 0 + 1) (ms @ new) = ms"
    using fresh_id [OF assms(1)] assms(2) by (simp add: filter_id_conv)
  then show ?thesis
    using without_mails [where i = "max_id ms 0 + 1" and mb = mb and ms = "ms @ new"] by simp
qed

context kv_link
begin

lemma init_box:
  assumes "inv s" "known s u" "okd u ''mbox'' (print_mails ms)" "val s u ''mbox'' = print_mails ms"
    and ms: "\<forall>m \<in> set ms. mail_ok m"
  shows "\<exists>s'. mbox_init l u mb s = (Inr (True, mb\<lparr>mb_current := max_id ms 0, mb_usr := u,
      mb_text := print_mails ms, mb_mails := mb_mails mb @ map named ms\<rparr>), s') \<and>
    inv s' \<and> val s' = val s \<and> known s' = known s"
proof -
  obtain st s' where G: "kv_gets l (mb_text mb) u ''mbox'' s = ((kv_code st, print_mails ms), s')" "inv s'"
    "val s' = val s" "known s' = known s" "print_mails ms \<noteq> [] \<longrightarrow> st = FINISHED" "st = FINISHED \<or> st = KEY_ERROR"
    using gets_law [OF assms(1,3), of "mb_text mb"] assms(2,4) by auto
  have "parse_mails (mb\<lparr>mb_current := 0, mb_usr := u, mb_text := print_mails ms\<rparr>) =
      Inr (mb\<lparr>mb_current := max_id ms 0, mb_usr := u, mb_text := print_mails ms, mb_mails := mb_mails mb @ map named ms\<rparr>)"
    using parse_mails_print [OF ms, of "mb\<lparr>mb_current := 0, mb_usr := u, mb_text := print_mails ms\<rparr>"] by simp
  then show ?thesis
    using G by (auto simp: mbox_init_def Let_def)
qed

lemma replace_box:
  assumes "inv s" "known s u" "okd u ''mbox'' t" "mb_usr mb = u" "mb_text mb = val s u ''mbox''" "post mb = t"
  shows "\<exists>s'. kv_cput l (mb_usr mb) ''mbox'' (mb_text mb) (post mb) s = (0, s') \<and>
    inv s' \<and> val s' = set_val u ''mbox'' t (val s) \<and> known s' = known s"
  using cput_law [OF assms(1) disjI1 [OF assms(2)] assms(3), of "mb_text mb"] assms(2,4-6)
  by (auto simp: fun_eq_iff)

text \<open>A stale mailbox: the \<open>CPUT\<close> is refused, the mailbox is loaded again, and the second \<open>CPUT\<close> succeeds.\<close>

lemma replace_stale_box:
  assumes "inv s" "known s u" "okd u ''mbox'' t0" "okd u ''mbox'' (print_mails ms)" "okd u ''mbox'' t"
    and "mb_usr mb = u" "mb_text mb \<noteq> val s u ''mbox''" "val s u ''mbox'' = print_mails ms" "\<forall>m \<in> set ms. mail_ok m"
    and "post mb = t0" and mb': "mb' = mb\<lparr>mb_current := max_id ms 0, mb_text := print_mails ms, mb_mails := mb_mails mb @ map named ms\<rparr>"
    and "post mb' = t"
  shows "\<exists>s1 s'. kv_cput l (mb_usr mb) ''mbox'' (mb_text mb) (post mb) s = (kv_code VALUE_ERROR, s1) \<and>
    retry_loop (Suc n) l post (kv_code VALUE_ERROR) mb s1 = Some (Inr (True, mb'), s') \<and>
    inv s' \<and> val s' = set_val u ''mbox'' t (val s) \<and> known s' = known s"
proof -
  obtain s1 where C: "kv_cput l (mb_usr mb) ''mbox'' (mb_text mb) (post mb) s = (kv_code VALUE_ERROR, s1)"
    "inv s1" "val s1 = val s" "known s1 = known s"
    using cput_law [OF assms(1) disjI1 [OF assms(2)] assms(3), of "mb_text mb"] assms(6,7,10) by auto
  have h: "known s1 u" "val s1 u ''mbox'' = print_mails ms"
    using C(3,4) assms(2,8) by simp_all
  obtain s2 where I: "mbox_init l u mb s1 = (Inr (True, mb\<lparr>mb_current := max_id ms 0, mb_usr := u,
      mb_text := print_mails ms, mb_mails := mb_mails mb @ map named ms\<rparr>), s2)"
    "inv s2" "val s2 = val s1" "known s2 = known s1"
    using init_box [OF C(2) h(1) assms(4) h(2) assms(9), of mb] by blast
  have eq: "mb\<lparr>mb_current := max_id ms 0, mb_usr := u, mb_text := print_mails ms, mb_mails := mb_mails mb @ map named ms\<rparr> = mb'"
    using mb' assms(6) by simp
  obtain s' where R: "kv_cput l (mb_usr mb') ''mbox'' (mb_text mb') (post mb') s2 = (0, s')"
    "inv s'" "val s' = set_val u ''mbox'' t (val s2)" "known s' = known s2"
    using replace_box [OF I(2) _ assms(5), of mb' post] I(3,4) h mb' assms(6,12) by auto
  have "retry_loop (Suc n) l post (kv_code VALUE_ERROR) mb s1 = Some (Inr (True, mb'), s')"
    using I(1) R(1) assms(6) unfolding eq by (subst retry_loop.simps) simp
  then show ?thesis
    using C R I by auto
qed

lemma write_box:
  assumes "inv s" "known s u" "mb_usr mb = u" "mb_text mb = val s u ''mbox''"
    and "okd u ''mbox'' (mb_text mb @ to_local_string (sent_as (mb_current mb + 1) m))"
  shows "\<exists>s'. mbox_write n l m mb s = Some (Inr (True, mb\<lparr>mb_current := mb_current mb + 1\<rparr>), s') \<and> inv s' \<and>
    val s' = set_val u ''mbox'' (mb_text mb @ to_local_string (sent_as (mb_current mb + 1) m)) (val s) \<and> known s' = known s"
  using replace_box [OF assms(1,2,5), of "mb\<lparr>mb_current := mb_current mb + 1\<rparr>"
      "\<lambda>b. mb_text b @ to_local_string (sent_as (mb_current mb + 1) m)"] assms(3,4)
  by (auto simp: mbox_write_def Let_def sent_as_def)

lemma send_box:
  assumes "route u = Some l" "inv s" "known s u" "val s u ''mbox'' = print_mails ms" "\<forall>m \<in> set ms. mail_ok m"
    and "okd u ''mbox'' (print_mails ms)" "okd u ''mbox'' (print_mails (ms @ [sent_as (max_id ms 0 + 1) m]))"
  shows "\<exists>s'. send_local_mail n route u m s = Some (Inr True, s') \<and> inv s' \<and>
    val s' = set_val u ''mbox'' (print_mails (ms @ [sent_as (max_id ms 0 + 1) m])) (val s) \<and> known s' = known s"
proof -
  let ?mb = "empty_mbox\<lparr>mb_current := max_id ms 0, mb_usr := u, mb_text := print_mails ms, mb_mails := map named ms\<rparr>"
  obtain s1 where I: "mbox_init l u empty_mbox s = (Inr (True, ?mb), s1)" "inv s1" "val s1 = val s" "known s1 = known s"
    using init_box [OF assms(2,3,6,4,5), of empty_mbox] by (auto simp: empty_mbox_def)
  obtain s2 where "mbox_write n l m ?mb s1 = Some (Inr (True, ?mb\<lparr>mb_current := max_id ms 0 + 1\<rparr>), s2)" "inv s2"
    "val s2 = set_val u ''mbox'' (print_mails ms @ to_local_string (sent_as (max_id ms 0 + 1) m)) (val s1)" "known s2 = known s1"
    using write_box [OF I(2), of u ?mb m n] I(3,4) assms(3,4,7) by (auto simp: print_mails_def)
  then show ?thesis
    using I assms(1) by (simp add: send_local_mail_def print_mails_def)
qed

lemma get_box:
  assumes "route u = Some l" "inv s" "known s u" "val s u ''mbox'' = print_mails ms" "\<forall>m \<in> set ms. mail_ok m"
    and "okd u ''mbox'' (print_mails ms)"
  shows "\<exists>s'. get_mails route old u s = (Inr (True, map named ms), s') \<and> inv s' \<and> val s' = val s \<and> known s' = known s"
  using init_box [OF assms(2,3,6,4,5), of empty_mbox] assms(1)
  by (auto simp: get_mails_def empty_mbox_def)

lemma delete_box:
  assumes "route u = Some l" "inv s" "known s u" "val s u ''mbox'' = print_mails (ms @ new)" "\<forall>m \<in> set (ms @ new). mail_ok m"
    and "okd u ''mbox'' (print_mails (ms @ new))" "okd u ''mbox'' (print_mails ms)"
    and "max_id ms 0 \<noteq> - 1" "\<forall>m \<in> set new. m_id m = max_id ms 0 + 1"
  shows "\<exists>s'. delete_mail n route u (max_id ms 0 + 1) s = Some (Inr True, s') \<and> inv s' \<and>
    val s' = set_val u ''mbox'' (print_mails ms) (val s) \<and> known s' = known s"
proof -
  let ?mb = "empty_mbox\<lparr>mb_current := max_id (ms @ new) 0, mb_usr := u, mb_text := print_mails (ms @ new),
    mb_mails := map named (ms @ new)\<rparr>"
  obtain s1 where I: "mbox_init l u empty_mbox s = (Inr (True, ?mb), s1)" "inv s1" "val s1 = val s" "known s1 = known s"
    using init_box [OF assms(2,3,6,4,5), of empty_mbox] by (auto simp: empty_mbox_def)
  have "without (max_id ms 0 + 1) ?mb = print_mails ms"
    using without_new [OF assms(8,9)] by (simp add: without_def)
  then obtain s2 where "kv_cput l u ''mbox'' (mb_text ?mb) (without (max_id ms 0 + 1) ?mb) s1 = (0, s2)" "inv s2"
    "val s2 = set_val u ''mbox'' (print_mails ms) (val s1)" "known s2 = known s1"
    using replace_box [OF I(2) _ assms(7), of ?mb "without (max_id ms 0 + 1)"] I(3,4) assms(3,4) by auto
  then show ?thesis
    using I assms(1) by (simp add: delete_mail_def mbox_del_def)
qed

lemma session_box:
  assumes "route u = Some l" "inv s" "known s u" "val s u ''mbox'' = print_mails ms" "\<forall>m \<in> set ms. mail_ok m"
    and "mail_ok m" "max_id ms 0 \<noteq> - 1" and i: "i = max_id ms 0 + 1"
    and "okd u ''mbox'' (print_mails ms)" "okd u ''mbox'' (print_mails (ms @ [sent_as i m]))"
  shows "\<exists>s1 s2 s3. send_local_mail n route u m s = Some (Inr True, s1) \<and>
    get_mails route old u s1 = (Inr (True, map named (ms @ [sent_as i m])), s2) \<and>
    delete_mail n' route u i s2 = Some (Inr True, s3) \<and> inv s3 \<and> val s3 = val s"
proof -
  let ?ms = "ms @ [sent_as i m]"
  obtain s1 where 1: "send_local_mail n route u m s = Some (Inr True, s1)" "inv s1"
    "val s1 = set_val u ''mbox'' (print_mails ?ms) (val s)" "known s1 = known s"
    using send_box [where route = route, OF assms(1-5,9), of m n] assms(10) i by auto
  have ok: "\<forall>m \<in> set ?ms. mail_ok m"
    using assms(5,6) by simp
  have v1: "known s1 u" "val s1 u ''mbox'' = print_mails ?ms"
    using 1(3,4) assms(3) by simp_all
  obtain s2 where 2: "get_mails route old u s1 = (Inr (True, map named ?ms), s2)" "inv s2" "val s2 = val s1" "known s2 = known s1"
    using get_box [where route = route, OF assms(1) 1(2) v1 ok assms(10), of old] by auto
  have v2: "known s2 u" "val s2 u ''mbox'' = print_mails ?ms"
    using 2(3,4) v1 by simp_all
  have new: "\<forall>x \<in> set [sent_as i m]. m_id x = max_id ms 0 + 1"
    using i by simp
  obtain s3 where "delete_mail n' route u i s2 = Some (Inr True, s3)" "inv s3"
    "val s3 = set_val u ''mbox'' (print_mails ms) (val s2)"
    using delete_box [where route = route, OF assms(1) 2(2) v2 ok assms(10,9,7) new, of n'] i by blast
  moreover have "set_val u ''mbox'' (print_mails ms) (val s) = val s"
    using assms(4) by (auto simp: set_val_def fun_eq_iff)
  ultimately show ?thesis
    using 1 2 by auto
qed

lemma writers_meet:
  assumes "route u = Some l" "inv s" "known s u" "val s u ''mbox'' = print_mails ms" "\<forall>m \<in> set ms. mail_ok m"
    and "mail_ok a" "mail_ok b" "max_id ms 0 \<noteq> - 1" and i: "i = max_id ms 0 + 1"
    and ok: "okd u ''mbox'' (print_mails ms)" "okd u ''mbox'' (print_mails (ms @ [sent_as i a]))"
    "okd u ''mbox'' (print_mails (ms @ [sent_as i b]))" "okd u ''mbox'' (print_mails (ms @ [sent_as i a, sent_as i b]))"
  shows "\<exists>mba s1 mbb s2 mba' s3 mbb' s4 s5. mbox_init l u empty_mbox s = (Inr (True, mba), s1) \<and>
    mbox_init l u empty_mbox s1 = (Inr (True, mbb), s2) \<and>
    mbox_write n l a mba s2 = Some (Inr (True, mba'), s3) \<and>
    mbox_write (Suc n') l b mbb s3 = Some (Inr (True, mbb'), s4) \<and>
    val s4 u ''mbox'' = print_mails (ms @ [sent_as i a, sent_as i b]) \<and>
    delete_mail n' route u i s4 = Some (Inr True, s5) \<and> inv s5 \<and> val s5 = val s"
proof -
  let ?mb = "empty_mbox\<lparr>mb_current := max_id ms 0, mb_usr := u, mb_text := print_mails ms, mb_mails := map named ms\<rparr>"
  obtain s1 where 1: "mbox_init l u empty_mbox s = (Inr (True, ?mb), s1)" "inv s1" "val s1 = val s" "known s1 = known s"
    using init_box [OF assms(2,3) ok(1) assms(4,5), of empty_mbox] by (auto simp: empty_mbox_def)
  obtain s2 where 2: "mbox_init l u empty_mbox s1 = (Inr (True, ?mb), s2)" "inv s2" "val s2 = val s1" "known s2 = known s1"
    using init_box [OF 1(2) _ ok(1) _ assms(5), of empty_mbox] 1(3,4) assms(3,4) by (auto simp: empty_mbox_def)
  obtain s3 where 3: "mbox_write n l a ?mb s2 = Some (Inr (True, ?mb\<lparr>mb_current := i\<rparr>), s3)" "inv s3"
    "val s3 = set_val u ''mbox'' (print_mails (ms @ [sent_as i a])) (val s)" "known s3 = known s"
    using write_box [OF 2(2), of u ?mb a n] 1(3,4) 2(3,4) assms(3,4) ok(2) i by (auto simp: print_mails_def)
  let ?post = "\<lambda>mb. mb_text mb @ to_local_string (sent_as i b)"
  let ?mb1 = "?mb\<lparr>mb_current := i\<rparr>"
  have h: "known s3 u" "val s3 u ''mbox'' = print_mails (ms @ [sent_as i a])" "mb_usr ?mb1 = u"
    "\<forall>m \<in> set (ms @ [sent_as i a]). mail_ok m" "mb_text ?mb1 \<noteq> val s3 u ''mbox''"
    using 3(3,4) assms(3,5,6) by (simp_all add: print_mails_def)
  have okb: "okd u ''mbox'' (?post ?mb1)" "okd u ''mbox'' (print_mails (ms @ [sent_as i a]) @ to_local_string (sent_as i b))"
    using ok(3,4) by (simp_all add: print_mails_def)
  obtain s3' mb' s4 where 4: "kv_cput l (mb_usr ?mb1) ''mbox'' (mb_text ?mb1) (?post ?mb1) s3 = (kv_code VALUE_ERROR, s3')"
    "retry_loop (Suc n') l ?post (kv_code VALUE_ERROR) ?mb1 s3' = Some (Inr (True, mb'), s4)" "inv s4"
    "val s4 = set_val u ''mbox'' (print_mails (ms @ [sent_as i a]) @ to_local_string (sent_as i b)) (val s3)" "known s4 = known s3"
    using replace_stale_box [OF 3(2) h(1) okb(1) ok(2) okb(2) h(3,5,2,4), of ?post _ n'] by auto
  have w: "mbox_write (Suc n') l b ?mb s3 = Some (Inr (True, mb'), s4)"
    using 4(1,2) i by (simp add: mbox_write_def sent_as_def)
  have v4: "known s4 u" "val s4 u ''mbox'' = print_mails (ms @ [sent_as i a, sent_as i b])"
    using 4(4,5) h(1) by (simp_all add: print_mails_def)
  have new: "\<forall>x \<in> set [sent_as i a, sent_as i b]. m_id x = max_id ms 0 + 1"
    "\<forall>m \<in> set (ms @ [sent_as i a, sent_as i b]). mail_ok m"
    using i assms(5-7) by auto
  obtain s5 where 5: "delete_mail n' route u i s4 = Some (Inr True, s5)" "inv s5"
    "val s5 = set_val u ''mbox'' (print_mails ms) (val s4)"
    using delete_box [where route = route, OF assms(1) 4(3) v4 new(2) ok(4,1) assms(8) new(1), of n'] i by blast
  have "val s5 = val s"
    using 3(3) 4(4) 5(3) assms(4) by (auto simp: set_val_def fun_eq_iff)
  then show ?thesis
    using 1(1) 2(1) 3(1) w v4(2) 5(1,2) by blast
qed

lemma delete_races:
  fixes i :: "64 word"
  defines "kept xs \<equiv> filter (\<lambda>m. m_id m \<noteq> i) xs"
  assumes "inv s" "known s u" "val s u ''mbox'' = print_mails ms" "\<forall>m \<in> set ms. mail_ok m" "mail_ok b"
    and ok: "okd u ''mbox'' (print_mails ms)" "okd u ''mbox'' (print_mails (ms @ [sent_as (max_id ms 0 + 1) b]))"
    "okd u ''mbox'' (print_mails (kept ms))"
    "okd u ''mbox'' (print_mails (kept ms @ kept (ms @ [sent_as (max_id ms 0 + 1) b])))"
  shows "\<exists>mba s1 mbb s2 mbb' s3 mba' s4. mbox_init l u empty_mbox s = (Inr (True, mba), s1) \<and>
    mbox_init l u empty_mbox s1 = (Inr (True, mbb), s2) \<and>
    mbox_write n l b mbb s2 = Some (Inr (True, mbb'), s3) \<and>
    mbox_del (Suc n') l i mba s3 = Some (Inr (True, mba'), s4) \<and> inv s4 \<and>
    val s4 = set_val u ''mbox'' (print_mails (kept ms @ kept (ms @ [sent_as (max_id ms 0 + 1) b]))) (val s)"
proof -
  let ?mb = "empty_mbox\<lparr>mb_current := max_id ms 0, mb_usr := u, mb_text := print_mails ms, mb_mails := map named ms\<rparr>"
  let ?ms = "ms @ [sent_as (max_id ms 0 + 1) b]"
  obtain s1 where 1: "mbox_init l u empty_mbox s = (Inr (True, ?mb), s1)" "inv s1" "val s1 = val s" "known s1 = known s"
    using init_box [OF assms(2,3) ok(1) assms(4,5), of empty_mbox] by (auto simp: empty_mbox_def)
  obtain s2 where 2: "mbox_init l u empty_mbox s1 = (Inr (True, ?mb), s2)" "inv s2" "val s2 = val s1" "known s2 = known s1"
    using init_box [OF 1(2) _ ok(1) _ assms(5), of empty_mbox] 1(3,4) assms(3,4) by (auto simp: empty_mbox_def)
  obtain s3 where 3: "mbox_write n l b ?mb s2 = Some (Inr (True, ?mb\<lparr>mb_current := max_id ms 0 + 1\<rparr>), s3)" "inv s3"
    "val s3 = set_val u ''mbox'' (print_mails ?ms) (val s)" "known s3 = known s"
    using write_box [OF 2(2), of u ?mb b n] 1(3,4) 2(3,4) assms(3,4) ok(2) by (auto simp: print_mails_def)
  have h: "known s3 u" "val s3 u ''mbox'' = print_mails ?ms" "\<forall>m \<in> set ?ms. mail_ok m"
    "mb_text ?mb \<noteq> val s3 u ''mbox''" "mb_usr ?mb = u"
    using 3(3,4) assms(3,5,6) by (simp_all add: print_mails_def)
  have w: "without i ?mb = print_mails (kept ms)"
    "without i (?mb\<lparr>mb_current := max_id ?ms 0, mb_text := print_mails ?ms, mb_mails := mb_mails ?mb @ map named ?ms\<rparr>) =
      print_mails (kept ms @ kept ?ms)"
    using without_mails [where i = i and ms = ms] without_mails [where i = i and ms = "ms @ ?ms"] by (simp_all add: kept_def)
  obtain s3' mb' s4 where "kv_cput l (mb_usr ?mb) ''mbox'' (mb_text ?mb) (without i ?mb) s3 = (kv_code VALUE_ERROR, s3')"
    "retry_loop (Suc n') l (without i) (kv_code VALUE_ERROR) ?mb s3' = Some (Inr (True, mb'), s4)" "inv s4"
    "val s4 = set_val u ''mbox'' (print_mails (kept ms @ kept ?ms)) (val s3)"
    using replace_stale_box [OF 3(2) h(1) ok(3,2,4) h(5,4,2,3) w(1) refl w(2), of n'] by blast
  moreover have "val s4 = set_val u ''mbox'' (print_mails (kept ms @ kept ?ms)) (val s)"
    using calculation(4) 3(3) by simp
  ultimately show ?thesis
    using 1(1) 2(1) 3(1) unfolding mbox_del_def by fastforce
qed

end

section \<open>Properties\<close>

text \<open>
  C31. Mail works from end to end.  On a primary storage node, for a user whose mailbox holds any well-formed
  mails: a mail that is sent is accepted at the first attempt, whatever the bound on retries; listing
  the mailbox returns the old mails and then the new one, with a fresh identifier; and deleting that
  identifier leaves every value of the store as it was.  Everything passes through the printed
  mailbox, the client calls and the caches and the log of the node.
\<close>

theorem mail_session:
  assumes "route u = Some (node_link e)" "serving nd" "member nd u" "token u" "u \<noteq> ''logging''"
    and "nval nd u ''mbox'' = print_mails ms" "\<forall>m \<in> set ms. mail_ok m" "mail_ok m" "max_id ms 0 \<noteq> - 1"
    and "i = max_id ms 0 + 1" "length (print_mails (ms @ [sent_as i m])) < 2 ^ 31"
  shows "(\<forall>x \<in> set ms. m_id x \<noteq> i) \<and> (\<exists>n1 n2 n3. send_local_mail n route u m nd = Some (Inr True, n1) \<and>
    get_mails route old u n1 = (Inr (True, map named (ms @ [sent_as i m])), n2) \<and>
    delete_mail n' route u i n2 = Some (Inr True, n3) \<and> serving n3 \<and> nval n3 = nval nd)"
proof
  show "\<forall>x \<in> set ms. m_id x \<noteq> i"
    using fresh_id [OF assms(9)] assms(10) by blast
  have "data_ok u ''mbox'' (print_mails ms)" "data_ok u ''mbox'' (print_mails (ms @ [sent_as i m]))"
    using assms(4,5,11) by (simp_all add: data_ok_def token_def log_char_def alpha_def)
  then show "\<exists>n1 n2 n3. send_local_mail n route u m nd = Some (Inr True, n1) \<and>
    get_mails route old u n1 = (Inr (True, map named (ms @ [sent_as i m])), n2) \<and>
    delete_mail n' route u i n2 = Some (Inr True, n3) \<and> serving n3 \<and> nval n3 = nval nd"
    using kv_node.session_box [where route = route, OF assms(1-3,6-10)] by blast
qed

definition example_mail :: mail where
  "example_mail = new_mail (''Thu Jan  1 00:00:00 1970'' @ [nl]) 0 ''amy'' (''hi'' @ [nl])"

lemma example_mail_ok [simp]: "mail_ok example_mail"
  by code_simp

lemma example_mail_length: "length (to_local_string (sent_as 1 example_mail)) = 51"
  by code_simp

theorem mail_session_witness:
  "\<exists>n1 n2 n3. send_local_mail 0 example_route ''amy'' example_mail (example_node True 1) = Some (Inr True, n1) \<and>
    get_mails example_route [] ''amy'' n1 = (Inr (True, [named (sent_as 1 example_mail)]), n2) \<and>
    delete_mail 0 example_route ''amy'' 1 n2 = Some (Inr True, n3) \<and> serving n3 \<and> nval n3 = (\<lambda>_ _. [])"
proof -
  have h: "member (example_node True 1) ''amy''" "token ''amy''" "''amy'' \<noteq> ''logging''"
    "nval (example_node True 1) ''amy'' ''mbox'' = print_mails []" "\<forall>m \<in> set []. mail_ok m"
    "max_id [] 0 \<noteq> - 1" "1 = max_id [] 0 + 1"
    by (simp_all add: token_def log_char_def alpha_def print_mails_def)
  have "length (print_mails ([] @ [sent_as 1 example_mail])) < 2 ^ 31"
    by (simp add: print_mails_def example_mail_length)
  then show ?thesis
    using mail_session [where route = example_route, OF example_route_link example_serving h(1-5) example_mail_ok h(6,7), of 0 "[]" 0]
    by (simp add: print_mails_def)
qed

text \<open>
  C39. Two mails that arrive at the same time get the same identifier.  When two senders have both loaded the
  mailbox before either writes, the first \<open>CPUT\<close> succeeds, the second is refused and retried: both
  senders are told that their mail was delivered and both mails are in the mailbox, but the retry keeps the
  identifier that was chosen before, so deleting one of them deletes both.
\<close>

theorem concurrent_mails_share_id:
  assumes "route u = Some l" "l = node_link e" "serving nd" "member nd u" "token u" "u \<noteq> ''logging''"
    and "nval nd u ''mbox'' = print_mails ms" "\<forall>m \<in> set ms. mail_ok m" "mail_ok a" "mail_ok b" "max_id ms 0 \<noteq> - 1"
    and "i = max_id ms 0 + 1" "length (print_mails (ms @ [sent_as i a, sent_as i b])) < 2 ^ 31"
  shows "\<exists>mba n1 mbb n2 mba' n3 mbb' n4 n5. mbox_init l u empty_mbox nd = (Inr (True, mba), n1) \<and>
    mbox_init l u empty_mbox n1 = (Inr (True, mbb), n2) \<and>
    mbox_write n l a mba n2 = Some (Inr (True, mba'), n3) \<and>
    mbox_write (Suc n') l b mbb n3 = Some (Inr (True, mbb'), n4) \<and>
    nval n4 u ''mbox'' = print_mails (ms @ [sent_as i a, sent_as i b]) \<and>
    delete_mail n' route u i n4 = Some (Inr True, n5) \<and> nval n5 = nval nd"
proof -
  have "data_ok u ''mbox'' (print_mails ms)" "data_ok u ''mbox'' (print_mails (ms @ [sent_as i a]))"
    "data_ok u ''mbox'' (print_mails (ms @ [sent_as i b]))"
    "data_ok u ''mbox'' (print_mails (ms @ [sent_as i a, sent_as i b]))"
    using assms(5,6,13) by (simp_all add: data_ok_def token_def log_char_def alpha_def print_mails_def)
  then show ?thesis
    using kv_node.writers_meet [where route = route, OF assms(1) [unfolded assms(2)] assms(3,4,7-12)]
    unfolding assms(2) by blast
qed

theorem concurrent_mails_share_id_witness:
  "\<exists>mba n1 mbb n2 mba' n3 mbb' n4 n5. mbox_init (node_link example_env) ''amy'' empty_mbox (example_node True 1) = (Inr (True, mba), n1) \<and>
    mbox_init (node_link example_env) ''amy'' empty_mbox n1 = (Inr (True, mbb), n2) \<and>
    mbox_write 0 (node_link example_env) example_mail mba n2 = Some (Inr (True, mba'), n3) \<and>
    mbox_write 1 (node_link example_env) example_mail mbb n3 = Some (Inr (True, mbb'), n4) \<and>
    nval n4 ''amy'' ''mbox'' = print_mails [sent_as 1 example_mail, sent_as 1 example_mail] \<and>
    delete_mail 0 example_route ''amy'' 1 n4 = Some (Inr True, n5) \<and> nval n5 = (\<lambda>_ _. [])"
proof -
  have h: "member (example_node True 1) ''amy''" "token ''amy''" "''amy'' \<noteq> ''logging''"
    "nval (example_node True 1) ''amy'' ''mbox'' = print_mails []" "\<forall>m \<in> set []. mail_ok m"
    "max_id [] 0 \<noteq> - 1" "1 = max_id [] 0 + 1"
    by (simp_all add: token_def log_char_def alpha_def print_mails_def)
  have "length (print_mails ([] @ [sent_as 1 example_mail, sent_as 1 example_mail])) < 2 ^ 31"
    by (simp add: print_mails_def example_mail_length)
  then show ?thesis
    using concurrent_mails_share_id [where route = example_route, OF example_route_link refl example_serving h(1-5)
        example_mail_ok example_mail_ok h(6,7), of 0 0]
    by (simp add: print_mails_def)
qed

text \<open>
  A deletion that meets a new mail duplicates the mailbox.  If a mail arrives between the moment when a deletion
  has loaded the mailbox and the moment when it writes it, the deletion loads the mailbox again without
  forgetting the mails it already had: it reports success, and every mail that was there before and is kept
  is in the mailbox twice.
\<close>

lemma racing_delete_duplicates:
  assumes "serving nd" "member nd u" "token u" "u \<noteq> ''logging''"
    and "nval nd u ''mbox'' = print_mails ms" "\<forall>m \<in> set ms. mail_ok m" "mail_ok b"
    and "b' = sent_as (max_id ms 0 + 1) b" "kept = filter (\<lambda>m. m_id m \<noteq> i)"
    and "length (print_mails (ms @ ms @ [b'])) < 2 ^ 31"
  shows "\<exists>mba n1 mbb n2 mbb' n3 mba' n4. mbox_init (node_link e) u empty_mbox nd = (Inr (True, mba), n1) \<and>
    mbox_init (node_link e) u empty_mbox n1 = (Inr (True, mbb), n2) \<and>
    mbox_write n (node_link e) b mbb n2 = Some (Inr (True, mbb'), n3) \<and>
    mbox_del (Suc n') (node_link e) i mba n3 = Some (Inr (True, mba'), n4) \<and>
    nval n4 u ''mbox'' = print_mails (kept ms @ kept ms @ kept [b'])"
proof -
  have f: "length (print_mails (filter P xs)) \<le> length (print_mails xs)" for P xs
    by (induction xs) (simp_all add: print_mails_def)
  have "data_ok u ''mbox'' (print_mails ms)" "data_ok u ''mbox'' (print_mails (ms @ [b']))"
    "data_ok u ''mbox'' (print_mails (kept ms))" "data_ok u ''mbox'' (print_mails (kept ms @ kept (ms @ [b'])))"
    using assms(3,4,10) f [of "\<lambda>m. m_id m \<noteq> i" ms] f [of "\<lambda>m. m_id m \<noteq> i" "[b']"]
    by (simp_all add: data_ok_def token_def log_char_def alpha_def assms(9))
  from kv_node.delete_races [OF assms(1,2,5-7) this [unfolded assms(8,9)], where n = n and n' = n' and e = e] show ?thesis
    unfolding assms(8,9) filter_append by (elim exE conjE) (intro exI conjI, assumption+, simp)
qed

end
