(* ===== verification/Smtp.thy ===== *)
theory Smtp
  imports Webmail_Correct
begin

text \<open>
  The SMTP server (\<open>email/smtp.cpp\<close>, with \<open>do_read\<close> and \<open>do_write\<close> of \<open>email/server.h\<close>): lines, the states of a
  session, its commands and the delivery of an accepted mail.  The mails of \<open>email/mail.h\<close> are those of the web mail with a
  list of recipients; its mailboxes (\<open>email/mbox.h\<close>) are the same.
\<close>

section \<open>Lines\<close>

text \<open>
  \<open>do_read\<close> on the bytes that arrive: \<open>gr\<close> is set after a carriage return.  \<open>None\<close>: they end before
  the line does.  A failing \<open>read\<close> then ends the thread, but at an orderly end of file \<open>read\<close> returns 0 and the inner loop runs for ever.
\<close>

fun read_loop :: "bool \<Rightarrow> string \<Rightarrow> string \<Rightarrow> (string \<times> string) option" where
  "read_loop gr message [] = None"
| "read_loop gr message (c # cs) =
     (if \<not> gr then (if c = CHR 0x0D then read_loop True message cs else read_loop False (message @ [c]) cs)
      else if c = CHR 0x0A then Some (message, cs)
      else read_loop False (message @ [CHR 0x0D, c]) cs)"

definition do_read :: "string \<Rightarrow> (string \<times> string) option" where
  "do_read input = read_loop False [] input"

lemma read_loop_less: "read_loop gr message cs = Some (line, rest) \<Longrightarrow> length rest < length cs"
  by (induction gr message cs rule: read_loop.induct) (fastforce split: if_splits)+

lemma read_loop_line: "CHR 0x0D \<notin> set line \<Longrightarrow> read_loop False m (line @ crlf @ rest) = Some (m @ line, rest)"
  by (induction line arbitrary: m) (auto simp: crlf_def)

lemma do_read_line: "CHR 0x0D \<notin> set line \<Longrightarrow> do_read (line @ crlf @ rest) = Some (line, rest)"
  by (simp add: do_read_def read_loop_line)

section \<open>Sessions\<close>

datatype state = Init | From | To | Data

record smtp_mail = mail +
  recipients :: "string list"

record smtp =
  sm_mail :: smtp_mail
  sm_state :: state

definition new_session :: "string \<Rightarrow> smtp" where
  "new_session now = \<lparr>sm_mail = \<lparr>m_id = 0, m_usr = [], m_time = now, m_text = [], recipients = []\<rparr>, sm_state = Init\<rparr>"

definition from_regex :: re where
  "from_regex = seqs [ilit ''MAIL FROM:<'', Some1 re_dot, Lit ''@'', Some1 re_dot, Lit ''>'']"

definition to_regex :: re where
  "to_regex = seqs [ilit ''RCPT TO:<'', Some1 re_dot, Lit ''@'', Some1 re_dot, Lit ''>'']"

definition local_regex :: re where
  "local_regex = seqs [ilit ''RCPT TO:<'', Some1 re_dot, ilit ''@localhost>'']"

fun msg_map :: "nat \<Rightarrow> string option" where
  "msg_map c =
     (if c = 220 then Some ''220 localhost service ready''
      else if c = 221 then Some ''221 localhost Service closing transmission channel''
      else if c = 250 then Some ''250 OK''
      else if c = 354 then Some ''354 Start mail input''
      else if c = 500 then Some ''500 Syntax error, command unrecognized''
      else if c = 501 then Some ''501 Syntax error in parameters or arguments''
      else if c = 503 then Some ''503 Bad sequence of commands''
      else if c = 550 then Some ''550 No such user here''
      else None)"

text \<open>What a command sends: nothing, a numbered message, or the answer to \<open>HELO\<close>.\<close>

datatype answer = Silent | Code nat | Greeting

definition sent :: "answer \<Rightarrow> string list" where
  "sent r = (case r of
      Silent \<Rightarrow> []
    | Code c \<Rightarrow> (case msg_map c of None \<Rightarrow> [] | Some m \<Rightarrow> [m @ crlf])
    | Greeting \<Rightarrow> [''250 localhost'' @ crlf])"

text \<open>
  The delivery at the end of \<open>DATA\<close>: recipients without a backend or a mailbox are skipped, and the result of
  \<open>write\<close> is ignored.  \<open>write\<close> sets the identifier of the mail, which is passed by reference.
\<close>

fun deliver :: "nat \<Rightarrow> ('m, 's) route \<Rightarrow> string list \<Rightarrow> smtp_mail \<Rightarrow> 's \<Rightarrow> (smtp_mail res \<times> 's) option" where
  "deliver n route [] mail s = Some (Inr mail, s)"
| "deliver n route (recipient # rs) mail s =
     (case route recipient of
        None \<Rightarrow> deliver n route rs mail s
      | Some l \<Rightarrow>
          (case mbox_init l recipient empty_mbox s of
             (Inl e, s1) \<Rightarrow> Some (Inl e, s1)
           | (Inr (False, _), s1) \<Rightarrow> deliver n route rs mail s1
           | (Inr (True, mbox), s1) \<Rightarrow>
               (case mbox_write n l mail mbox s1 of
                  None \<Rightarrow> None
                | Some (Inl e, s2) \<Rightarrow> Some (Inl e, s2)
                | Some (Inr _, s2) \<Rightarrow> deliver n route rs (mail\<lparr>m_id := mb_current mbox + 1\<rparr>) s2)))"

definition matches_re :: "re \<Rightarrow> string \<Rightarrow> bool" where
  "matches_re r s = (regex_match r s \<noteq> None)"

text \<open>One line in the state \<open>Data\<close>.\<close>

definition data_line ::
    "nat \<Rightarrow> ('m, 's) route \<Rightarrow> string \<Rightarrow> string \<Rightarrow> smtp \<Rightarrow> 's \<Rightarrow> ((answer \<times> smtp) res \<times> 's) option" where
  "data_line n route now rev_msg st s =
     (if rev_msg = ''.'' then
        (let mail = (sm_mail st)\<lparr>m_time := now\<rparr> in
         map_option (\<lambda>(r, s1). (rbind r (\<lambda>mail1. Inr (Code 250, \<lparr>sm_mail = mail_clear mail1, sm_state = Init\<rparr>)), s1))
           (deliver n route (recipients mail) mail s))
      else Some (Inr (Silent, st\<lparr>sm_mail := (sm_mail st)\<lparr>m_text := m_text (sm_mail st) @ rev_msg @ [nl]\<rparr>\<rparr>), s))"

text \<open>One command in the other states; \<open>QUIT\<close> is left to the loop.\<close>

definition command :: "string \<Rightarrow> smtp \<Rightarrow> (answer \<times> smtp) res" where
  "command rev_msg st =
     (let com = take 4 rev_msg in
      if com = ''HELO'' then rbind (substr_from rev_msg 5) (\<lambda>domain. Inr (Greeting, st))
      else if com = ''MAIL'' then
        (if sm_state st \<noteq> Init then Inr (Code 503, st)
         else if matches_re from_regex rev_msg then
           rbind (substr rev_msg 11 (length rev_msg - 12)) (\<lambda>u.
             Inr (Code 250, st\<lparr>sm_mail := (sm_mail st)\<lparr>m_usr := u\<rparr>, sm_state := From\<rparr>))
         else Inr (Code 501, st))
      else if com = ''RCPT'' then
        (if sm_state st \<noteq> From \<and> sm_state st \<noteq> To then Inr (Code 503, st)
         else if matches_re to_regex rev_msg then
           (if matches_re local_regex rev_msg then
              rbind (substr rev_msg 9 (length rev_msg - 20)) (\<lambda>recipient.
                Inr (Code 250, st\<lparr>sm_mail := (sm_mail st)\<lparr>recipients := recipients (sm_mail st) @ [recipient]\<rparr>, sm_state := To\<rparr>))
            else Inr (Code 550, st))
         else Inr (Code 501, st))
      else if com = ''DATA'' then
        (if sm_state st \<noteq> To then Inr (Code 503, st) else Inr (Code 354, st\<lparr>sm_state := Data\<rparr>))
      else if com = ''RSET'' then Inr (Code 250, \<lparr>sm_mail = mail_clear (sm_mail st), sm_state = Init\<rparr>)
      else if com = ''NOOP'' then Inr (Code 250, st)
      else Inr (Code 500, st))"

text \<open>
  The loop of a thread on the bytes of its connection: \<open>out\<close> is what it has written, assuming that no write fails
  (a failing write ends the thread), \<open>now k\<close> the time when \<open>k\<close> bytes are left to read.  An
  exception in a thread ends the process.
\<close>

datatype fate = Waiting | Closed | Crashed exn

function smtp_loop ::
    "nat \<Rightarrow> ('m, 's) route \<Rightarrow> (nat \<Rightarrow> string) \<Rightarrow> smtp \<Rightarrow> string list \<Rightarrow> string \<Rightarrow> 's \<Rightarrow> (fate \<times> smtp \<times> string list \<times> 's) option" where
  "smtp_loop n route now st out input s =
     (case do_read input of
        None \<Rightarrow> Some (Waiting, st, out, s)
      | Some (rev_msg, rest) \<Rightarrow>
          if sm_state st = Data then
            (case data_line n route (now (length rest)) rev_msg st s of
               None \<Rightarrow> None
             | Some (Inl e, s1) \<Rightarrow> Some (Crashed e, st, out, s1)
             | Some (Inr (r, st1), s1) \<Rightarrow> smtp_loop n route now st1 (out @ sent r) rest s1)
          else if take 4 rev_msg = ''QUIT'' then Some (Closed, st, out @ sent (Code 221), s)
          else
            (case command rev_msg st of
               Inl e \<Rightarrow> Some (Crashed e, st, out, s)
             | Inr (r, st1) \<Rightarrow> smtp_loop n route now st1 (out @ sent r) rest s))"
  by pat_completeness auto
termination
  by (relation "measure (\<lambda>(n, route, now, st, out, input, s). length input)")
    (auto simp: do_read_def dest: read_loop_less)

declare smtp_loop.simps [simp del]

definition smtp_worker :: "nat \<Rightarrow> ('m, 's) route \<Rightarrow> (nat \<Rightarrow> string) \<Rightarrow> string \<Rightarrow> 's \<Rightarrow> (fate \<times> smtp \<times> string list \<times> 's) option" where
  "smtp_worker n route now input s =
     smtp_loop n route now (new_session (now (length input))) (sent (Code 220)) input s"

end
