(* ===== verification/Smtp_Correct.thy ===== *)
theory Smtp_Correct
  imports Smtp
begin

text \<open>
  What an SMTP transaction does to the mailboxes: the delivery over the interface of the store, for values
  bounded in size, the commands of a transaction, and the recipients that survive it.
\<close>

section \<open>Delivery over the interface of the store\<close>

text \<open>The mailboxes after a mail went to a list of recipients, one of whom may be named twice.\<close>

fun boxes_after :: "mail \<Rightarrow> string list \<Rightarrow> (string \<Rightarrow> mail list) \<Rightarrow> string \<Rightarrow> mail list" where
  "boxes_after m [] b = b"
| "boxes_after m (u # us) b = boxes_after m us (b(u := b u @ [sent_as (max_id (b u) 0 + 1) m]))"

lemma boxes_grow: "length (print_mails (b u)) \<le> length (print_mails (boxes_after m us b u))"
proof (induction us arbitrary: b)
  case (Cons w us)
  show ?case
    by (rule order_trans [OF _ Cons [of "b(w := b w @ [sent_as (max_id (b w) 0 + 1) m])", unfolded boxes_after.simps [symmetric]]])
      simp
qed simp

lemma boxes_ok: "mail_ok m \<Longrightarrow> list_all mail_ok (b u) \<Longrightarrow> list_all mail_ok (boxes_after m us b u)"
proof (induction us arbitrary: b)
  case (Cons w us)
  have "list_all mail_ok ((b(w := b w @ [sent_as (max_id (b w) 0 + 1) m])) u)"
    using Cons.prems by auto
  then show ?case
    unfolding boxes_after.simps by (rule Cons.IH [OF Cons.prems(1)])
qed simp

lemma mail_ok_id [simp]: "mail_ok (m\<lparr>m_id := i\<rparr>) = mail_ok m"
  by (simp add: mail_ok_def sender_def)

lemma truncate_sel [simp]: "mail_ok (mail.truncate m) = mail_ok m"
  "m_id (mail.truncate m) = m_id m" "m_usr (mail.truncate m) = m_usr m" "m_time (mail.truncate m) = m_time m"
  "m_text (mail.truncate m) = m_text m"
  by (simp_all add: mail_ok_def sender_def mail.truncate_def)

lemma print_truncate: "to_local_string (m\<lparr>m_id := i\<rparr>) = to_local_string (sent_as i (mail.truncate m))"
  by (simp add: to_local_string_def from_line_def sent_as_def)

lemma sent_truncate [simp]: "sent_as i (mail.truncate (m\<lparr>m_id := j\<rparr>)) = sent_as i (mail.truncate m)"
  by (simp add: sent_as_def mail.truncate_def)

lemma boxes_id [simp]: "boxes_after (mail.truncate (m\<lparr>m_id := j\<rparr>)) us b = boxes_after (mail.truncate m) us b"
  by (induction us arbitrary: b) simp_all

lemma write_extended:
  "mbox_write n l m mb s = mbox_write n l (mail.truncate m) mb s"
  using print_truncate [where m = m and i = "mb_current mb + 1"] print_truncate [where m = "mail.truncate m" and i = "mb_current mb + 1"]
  by (simp add: mbox_write_def Let_def mail.truncate_def)

context sized_kv_link
begin

lemma deliver_all:
  assumes "inv s" "mail_ok m" "set rs \<subseteq> U"
    and U: "\<And>u. u \<in> U \<Longrightarrow> route u = Some l" "\<And>u. u \<in> U \<Longrightarrow> known s u"
    and b: "\<And>u. u \<in> U \<Longrightarrow> val s u ''mbox'' = print_mails (b u)" "\<And>u. u \<in> U \<Longrightarrow> \<forall>x \<in> set (b u). mail_ok x"
    and ok: "\<And>u. u \<in> U \<Longrightarrow> okd u ''mbox'' (print_mails (boxes_after (mail.truncate m) rs b u))"
  shows "\<exists>i s'. deliver n route rs m s = Some (Inr (m\<lparr>m_id := i\<rparr>), s') \<and> inv s' \<and> known s' = known s \<and>
    (\<forall>u \<in> U. val s' u ''mbox'' = print_mails (boxes_after (mail.truncate m) rs b u)) \<and>
    (\<forall>u k. u \<notin> set rs \<or> k \<noteq> ''mbox'' \<longrightarrow> val s' u k = val s u k)"
  using assms
proof (induction rs arbitrary: m s b)
  case Nil
  then show ?case
    by (intro exI [of _ "m_id m"] exI [of _ s]) (auto simp: print_mails_def)
next
  case (Cons u rs)
  let ?m = "mail.truncate m" and ?i = "max_id (b u) 0 + 1"
  let ?b = "b(u := b u @ [sent_as ?i ?m])"
  have u: "u \<in> U" "route u = Some l" "known s u"
    using Cons.prems(3-5) by auto
  have ok1: "okd u ''mbox'' (print_mails (?b u))"
    using okd_shorter [OF Cons.prems(8) [OF u(1)]] boxes_grow [of ?b u ?m rs] by simp
  have ok0: "okd u ''mbox'' (print_mails (b u))"
    using okd_shorter [OF ok1] by simp
  let ?mb = "empty_mbox\<lparr>mb_current := max_id (b u) 0, mb_usr := u, mb_text := print_mails (b u), mb_mails := map named (b u)\<rparr>"
  obtain s1 where I: "mbox_init l u empty_mbox s = (Inr (True, ?mb), s1)" "inv s1" "val s1 = val s" "known s1 = known s"
    using init_box [OF Cons.prems(1) u(3) ok0 Cons.prems(6,7) [OF u(1)], of empty_mbox] by (auto simp: empty_mbox_def)
  obtain s2 where W: "mbox_write n l m ?mb s1 = Some (Inr (True, ?mb\<lparr>mb_current := ?i\<rparr>), s2)" "inv s2"
    "val s2 = set_val u ''mbox'' (print_mails (?b u)) (val s)" "known s2 = known s"
    using write_box [OF I(2), of u ?mb ?m n] I(3,4) u(3) ok1 Cons.prems(6) [OF u(1)] write_extended [of n l m ?mb s1]
    by (auto simp: print_mails_def)
  have "\<exists>i s'. deliver n route rs (m\<lparr>m_id := ?i\<rparr>) s2 = Some (Inr (m\<lparr>m_id := ?i, m_id := i\<rparr>), s') \<and> inv s' \<and> known s' = known s2 \<and>
    (\<forall>w \<in> U. val s' w ''mbox'' = print_mails (boxes_after (mail.truncate (m\<lparr>m_id := ?i\<rparr>)) rs ?b w)) \<and>
    (\<forall>w k. w \<notin> set rs \<or> k \<noteq> ''mbox'' \<longrightarrow> val s' w k = val s2 w k)"
  proof (rule Cons.IH [OF W(2)])
    show "mail_ok (m\<lparr>m_id := ?i\<rparr>)"
      using Cons.prems(2) by simp
    show "\<And>w. w \<in> U \<Longrightarrow> val s2 w ''mbox'' = print_mails (?b w)"
      using Cons.prems(6) W(3) by simp
    show "\<And>w. w \<in> U \<Longrightarrow> \<forall>x \<in> set (?b w). mail_ok x"
      using Cons.prems(2,7) u(1) by auto
    show "\<And>w. w \<in> U \<Longrightarrow> okd w ''mbox'' (print_mails (boxes_after (mail.truncate (m\<lparr>m_id := ?i\<rparr>)) rs ?b w))"
      using Cons.prems(8) by simp
  qed (use Cons.prems(3-5) W(4) in auto)
  then show ?case
    using I(1) W(1,3,4) u(2) by auto
qed

end

section \<open>The commands of a transaction\<close>

lemma accepts_ilit_self: "accepts (ilit p) (p @ t) t"
  unfolding accepts_ilit by blast

lemma command_mail:
  assumes "is_sender f" "sm_state st = Init"
  shows "command (''MAIL FROM:<'' @ f @ ''>'') st =
    Inr (Code 250, st\<lparr>sm_mail := (sm_mail st)\<lparr>m_usr := f\<rparr>, sm_state := From\<rparr>)"
proof -
  have "accepts (seqs [Some1 re_dot, Lit ''@'', Some1 re_dot]) f []"
    using assms(1) by (simp only: is_accepts)
  then obtain a b where f: "f = a @ CHR ''@'' # b" "a \<noteq> []" "b \<noteq> []" "\<forall>c \<in> set a. re_dot c" "\<forall>c \<in> set b. re_dot c"
    by auto
  have "accepts (Some1 re_dot) (f @ ''>'') (CHR ''@'' # b @ ''>'')" "accepts (Lit ''@'') (CHR ''@'' # b @ ''>'') (b @ ''>'')"
    "accepts (Some1 re_dot) (b @ ''>'') ''>''" "accepts (seqs [Lit ''>'']) ''>'' []"
    using f by (auto simp: seqs.simps)
  then have "accepts from_regex (''MAIL FROM:<'' @ f @ ''>'') []"
    using accepts_ilit_self [of "''MAIL FROM:<''" "f @ ''>''"] unfolding from_regex_def accepts_seqs by blast
  then have "matches_re from_regex (''MAIL FROM:<'' @ f @ ''>'')"
    by (simp only: matches_re_def regex_match_accepts)
  then show ?thesis
    using assms(2) by (simp add: command_def substr_def)
qed

lemma command_rcpt:
  assumes "u \<noteq> []" "\<forall>c \<in> set u. re_dot c" "sm_state st \<in> {From, To}"
  shows "command (''RCPT TO:<'' @ u @ ''@localhost>'') st =
    Inr (Code 250, st\<lparr>sm_mail := (sm_mail st)\<lparr>recipients := recipients (sm_mail st) @ [u]\<rparr>, sm_state := To\<rparr>)"
proof -
  have dots: "\<forall>c \<in> set ''localhost''. re_dot c"
    by (simp add: re_dot_def)
  have "accepts (Some1 re_dot) (u @ ''@localhost>'') ''@localhost>''" "accepts (Lit ''@'') ''@localhost>'' (''localhost'' @ ''>'')"
    "accepts (seqs [Lit ''>'']) ''>'' []"
    using assms(1,2) by (auto simp: seqs.simps)
  moreover have "accepts (Some1 re_dot) (''localhost'' @ ''>'') ''>''"
    unfolding accepts_Some1 using dots by blast
  moreover have "accepts (seqs [ilit ''@localhost>'']) ''@localhost>'' []"
    using accepts_ilit_self [of "''@localhost>''" "[]"] by (simp add: seqs.simps)
  ultimately have "accepts to_regex (''RCPT TO:<'' @ u @ ''@localhost>'') []" "accepts local_regex (''RCPT TO:<'' @ u @ ''@localhost>'') []"
    using accepts_ilit_self [of "''RCPT TO:<''" "u @ ''@localhost>''"]
    unfolding to_regex_def local_regex_def accepts_seqs by blast+
  then have "matches_re to_regex (''RCPT TO:<'' @ u @ ''@localhost>'')" "matches_re local_regex (''RCPT TO:<'' @ u @ ''@localhost>'')"
    by (simp_all only: matches_re_def regex_match_accepts)
  then show ?thesis
    using assms(3) by (auto simp: command_def substr_def)
qed

definition text_line :: "string \<Rightarrow> bool" where
  "text_line l = (CHR 0x0D \<notin> set l \<and> nl \<notin> set l \<and> l \<noteq> ''.'' \<and> \<not> is_header l)"

definition smtp_lines :: "string list \<Rightarrow> string" where
  "smtp_lines ls = concat (map (\<lambda>l. l @ crlf) ls)"

lemma smtp_lines_simps [simp]: "smtp_lines [] = []" "smtp_lines (l # ls) = l @ crlf @ smtp_lines ls"
  "smtp_lines (ls @ ks) = smtp_lines ls @ smtp_lines ks"
  by (simp_all add: smtp_lines_def)

lemma loop_command:
  assumes "CHR 0x0D \<notin> set l" "sm_state st \<noteq> Data" "take 4 l \<noteq> ''QUIT''" "command l st = Inr (r, st')"
  shows "smtp_loop n route now st out (l @ crlf @ input) s = smtp_loop n route now st' (out @ sent r) input s"
  using assms do_read_line [OF assms(1), of input] by (subst smtp_loop.simps) simp

lemma loop_text:
  assumes "\<forall>l \<in> set ls. text_line l" "sm_state st = Data"
  shows "smtp_loop n route now st out (smtp_lines ls @ input) s =
    smtp_loop n route now (st\<lparr>sm_mail := (sm_mail st)\<lparr>m_text := m_text (sm_mail st) @ unlines nl ls\<rparr>\<rparr>) out input s"
  using assms
proof (induction ls arbitrary: st)
  case (Cons l ls)
  have l: "CHR 0x0D \<notin> set l" "l \<noteq> ''.''"
    using Cons.prems(1) by (auto simp: text_line_def)
  let ?st = "st\<lparr>sm_mail := (sm_mail st)\<lparr>m_text := m_text (sm_mail st) @ l @ [nl]\<rparr>\<rparr>"
  have "smtp_loop n route now st out (smtp_lines (l # ls) @ input) s =
      smtp_loop n route now ?st out (smtp_lines ls @ input) s"
    using do_read_line [OF l(1), of "smtp_lines ls @ input"] l(2) Cons.prems(2)
    by (subst smtp_loop.simps) (simp add: data_line_def sent_def)
  then show ?case
    using Cons.IH [of ?st] Cons.prems by simp
qed simp

section \<open>A whole transaction\<close>

text \<open>What the client of a transaction sends.\<close>

definition transaction :: "string \<Rightarrow> string \<Rightarrow> string list \<Rightarrow> string" where
  "transaction f u ls = smtp_lines ([''MAIL FROM:<'' @ f @ ''>'', ''RCPT TO:<'' @ u @ ''@localhost>'', ''DATA''] @ ls @ [''.''])"

definition written :: "string list \<Rightarrow> string \<Rightarrow> string \<Rightarrow> mail" where
  "written ls f t = \<lparr>m_id = 0, m_usr = f, m_time = t @ [nl], m_text = unlines nl ls\<rparr>"

definition replies :: "nat list \<Rightarrow> string list" where
  "replies cs = concat (map (\<lambda>c. sent (Code c)) cs)"

lemma written_ok:
  assumes "is_sender f" "is_date t" "\<forall>l \<in> set ls. text_line l"
  shows "mail_ok (written ls f t)"
proof -
  have "CHR ''@'' \<in> set f"
    using assms(1) by (auto simp: is_accepts)
  moreover have "unlines nl ls \<noteq> [] \<longrightarrow> last (unlines nl ls) = nl"
    by (cases ls rule: rev_cases) (simp_all add: unlines_def)
  moreover have "split (unlines nl ls) nl = ls"
    using assms(3) by (intro split_unlines) (auto simp: text_line_def)
  ultimately show ?thesis
    using assms by (auto simp: mail_ok_def written_def sender_def text_line_def list_all_iff)
qed

lemma mail_ok_fields:
  "m_usr m = m_usr m' \<Longrightarrow> m_time m = m_time m' \<Longrightarrow> m_text m = m_text m' \<Longrightarrow> mail_ok m = mail_ok m'"
  by (simp add: mail_ok_def sender_def)

lemma boxes_fields:
  "m_usr m = m_usr m' \<Longrightarrow> m_time m = m_time m' \<Longrightarrow> m_text m = m_text m' \<Longrightarrow>
   boxes_after m us b = boxes_after m' us b"
proof (induction us arbitrary: b)
  case (Cons u us)
  then have "sent_as i m = sent_as i m'" for i
    by (simp add: sent_as_def)
  then show ?case using Cons by simp
qed simp

text \<open>The mailboxes of the users \<open>U\<close>, all of whom are served by one node.\<close>

definition boxes_of :: "string set \<Rightarrow> node \<Rightarrow> (string \<Rightarrow> mail list) \<Rightarrow> bool" where
  "boxes_of U nd b \<longleftrightarrow> serving nd \<and> (\<forall>u \<in> U. member nd u \<and> token u \<and> u \<noteq> ''logging'' \<and>
     nval nd u ''mbox'' = print_mails (b u) \<and> (\<forall>x \<in> set (b u). mail_ok x))"

lemma boxes_deliver:
  assumes "boxes_of U nd b" "mail_ok m" "set rs \<subseteq> U" "\<forall>u \<in> U. route u = Some (node_link e)"
    and "\<forall>u \<in> U. length (print_mails (boxes_after m0 rs b u)) < 2 ^ 31"
    and "m_usr m0 = m_usr m" "m_time m0 = m_time m" "m_text m0 = m_text m"
  shows "\<exists>i nd'. deliver n route rs m nd = Some (Inr (m\<lparr>m_id := i\<rparr>), nd') \<and> boxes_of U nd' (boxes_after m0 rs b)"
proof -
  have eq: "boxes_after (mail.truncate m) rs b = boxes_after m0 rs b"
    using assms(6-8) by (intro boxes_fields) simp_all
  have ok: "data_ok u ''mbox'' (print_mails (boxes_after (mail.truncate m) rs b u))" if "u \<in> U" for u
    using assms(1,5) that unfolding eq by (auto simp: boxes_of_def data_ok_def token_def log_char_def alpha_def)
  have m0: "mail_ok m0"
    using mail_ok_fields [OF assms(6-8)] assms(2) by simp
  have "\<forall>x \<in> set (boxes_after m0 rs b u). mail_ok x" if "u \<in> U" for u
  proof -
    have "list_all mail_ok (b u)"
      using assms(1) that by (simp add: boxes_of_def list_all_iff)
    from boxes_ok [where b = b and u = u, OF m0 this] show ?thesis by (simp add: list_all_iff)
  qed
  moreover have "\<exists>i nd'. deliver n route rs m nd = Some (Inr (m\<lparr>m_id := i\<rparr>), nd') \<and> serving nd' \<and> member nd' = member nd \<and>
    (\<forall>u \<in> U. nval nd' u ''mbox'' = print_mails (boxes_after (mail.truncate m) rs b u)) \<and>
    (\<forall>u k. u \<notin> set rs \<or> k \<noteq> ''mbox'' \<longrightarrow> nval nd' u k = nval nd u k)"
    by (rule sized_node.deliver_all [OF _ assms(2,3)]) (use assms(1,4) ok in \<open>simp_all add: boxes_of_def\<close>)
  ultimately show ?thesis
    using assms(1) unfolding boxes_of_def eq by (elim exE conjE) (intro exI conjI, assumption+, simp_all)
qed

lemma run_transaction:
  assumes "boxes_of U nd b" "\<forall>u \<in> U. route u = Some (node_link e)"
    and st: "sm_state st = Init" "m_text (sm_mail st) = []"
    and f: "is_sender f" and u: "u \<noteq> []" "\<forall>c \<in> set u. re_dot c" and ls: "\<forall>l \<in> set ls. text_line l"
    and t: "now (length input) = t @ [nl]" "is_date t"
    and rs: "rs = recipients (sm_mail st) @ [u]" "set rs \<subseteq> U"
    and bound: "\<forall>w \<in> U. length (print_mails (boxes_after (written ls f t) rs b w)) < 2 ^ 31"
  shows "\<exists>nd' st'. smtp_loop n route now st out (transaction f u ls @ input) nd =
      smtp_loop n route now st' (out @ replies [250, 250, 354, 250]) input nd' \<and>
    sm_state st' = Init \<and> m_text (sm_mail st') = [] \<and> recipients (sm_mail st') = rs \<and>
    boxes_of U nd' (boxes_after (written ls f t) rs b)"
proof -
  let ?m1 = "(sm_mail st)\<lparr>m_usr := f\<rparr>" let ?m2 = "?m1\<lparr>recipients := rs\<rparr>"
  let ?m3 = "?m2\<lparr>m_text := unlines nl ls\<rparr>" let ?m4 = "?m3\<lparr>m_time := t @ [nl]\<rparr>"
  let ?st1 = "st\<lparr>sm_mail := ?m1, sm_state := From\<rparr>" let ?st2 = "st\<lparr>sm_mail := ?m2, sm_state := To\<rparr>"
  let ?in = "smtp_lines (ls @ [''.'']) @ input"
  have cr: "CHR 0x0D \<notin> set (''MAIL FROM:<'' @ f @ ''>'')" "CHR 0x0D \<notin> set (''RCPT TO:<'' @ u @ ''@localhost>'')"
    using is_sender_chars [OF f] u(2) by (auto simp: re_dot_def)
  have c: "command (''MAIL FROM:<'' @ f @ ''>'') st = Inr (Code 250, ?st1)"
    "command (''RCPT TO:<'' @ u @ ''@localhost>'') ?st1 = Inr (Code 250, ?st2)"
    "command ''DATA'' ?st2 = Inr (Code 354, ?st2\<lparr>sm_state := Data\<rparr>)"
    using command_mail [OF f st(1)] command_rcpt [OF u, of ?st1] rs(1) by (simp_all add: command_def)
  have "smtp_loop n route now st out (transaction f u ls @ input) nd =
      smtp_loop n route now ?st1 (out @ sent (Code 250)) ((''RCPT TO:<'' @ u @ ''@localhost>'') @ crlf @ ''DATA'' @ crlf @ ?in) nd"
    unfolding transaction_def smtp_lines_simps append_assoc append_Cons append_Nil
    by (rule loop_command [OF cr(1) _ _ c(1), unfolded append_assoc append_Cons append_Nil]) (simp_all add: st(1))
  also have "\<dots> = smtp_loop n route now ?st2 ((out @ sent (Code 250)) @ sent (Code 250)) (''DATA'' @ crlf @ ?in) nd"
    by (rule loop_command [OF cr(2) _ _ c(2)]) simp_all
  also have "\<dots> = smtp_loop n route now (?st2\<lparr>sm_state := Data\<rparr>) (((out @ sent (Code 250)) @ sent (Code 250)) @ sent (Code 354)) ?in nd"
    by (rule loop_command [OF _ _ _ c(3)]) simp_all
  also have "\<dots> = smtp_loop n route now (?st2\<lparr>sm_state := Data\<rparr>) (out @ replies [250, 250, 354]) ?in nd"
    by (simp add: replies_def)
  also have "\<dots> = smtp_loop n route now (st\<lparr>sm_mail := ?m3, sm_state := Data\<rparr>) (out @ replies [250, 250, 354])
      (''.'' @ crlf @ input) nd"
    using loop_text [OF ls, of "?st2\<lparr>sm_state := Data\<rparr>", where input = "smtp_lines [''.''] @ input"] st(2)
    by (simp only: smtp_lines_simps append_assoc append_Nil2) (cases st, simp)
  finally have 1: "smtp_loop n route now st out (transaction f u ls @ input) nd =
    smtp_loop n route now (st\<lparr>sm_mail := ?m3, sm_state := Data\<rparr>) (out @ replies [250, 250, 354]) (''.'' @ crlf @ input) nd" .
  have ok: "mail_ok ?m4"
    using written_ok [OF f t(2) ls] mail_ok_fields [of ?m4 "written ls f t"] by (simp add: written_def)
  obtain i nd' where D: "deliver n route rs ?m4 nd = Some (Inr (?m4\<lparr>m_id := i\<rparr>), nd')"
    "boxes_of U nd' (boxes_after (written ls f t) rs b)"
    using boxes_deliver [OF assms(1) ok rs(2) assms(2) bound, of n] by (auto simp: written_def)
  let ?st' = "\<lparr>sm_mail = mail_clear (?m4\<lparr>m_id := i\<rparr>), sm_state = Init\<rparr>"
  have "smtp_loop n route now (st\<lparr>sm_mail := ?m3, sm_state := Data\<rparr>) (out @ replies [250, 250, 354]) (''.'' @ crlf @ input) nd =
      smtp_loop n route now ?st' (out @ replies [250, 250, 354, 250]) input nd'"
    using do_read_line [of "''.''" input] D(1) t(1) by (subst smtp_loop.simps) (simp add: data_line_def replies_def)
  then show ?thesis
    using 1 D(2) by (intro exI [of _ nd'] exI [of _ ?st']) (simp add: mail_clear_def)
qed

section \<open>Properties\<close>

text \<open>
  C32. A mail that the SMTP server accepts is delivered.  In a session that is between two mails, on a
  primary storage node with well-formed mailboxes, a transaction (sender, local recipient, text) is answered
  250, 250, 354, 250; the session is between two mails again; and exactly one mail with the sender, the time and the
  text of the transaction and a fresh identifier was appended to the mailbox of the recipient, and of every recipient of
  earlier transactions, who are still on the list.  All bytes pass through the line reader, the
  patterns of the commands, the printed mailboxes and the storage node.
\<close>

theorem smtp_transaction:
  assumes "boxes_of U nd b" "\<forall>u \<in> U. route u = Some (node_link e)"
    and "sm_state st = Init" "m_text (sm_mail st) = []"
    and "is_sender f" "u \<noteq> []" "\<forall>c \<in> set u. re_dot c" "\<forall>l \<in> set ls. text_line l"
    and "now (length input) = t @ [nl]" "is_date t"
    and "rs = recipients (sm_mail st) @ [u]" "set rs \<subseteq> U"
    and "\<forall>w \<in> U. length (print_mails (boxes_after (written ls f t) rs b w)) < 2 ^ 31"
  shows "\<exists>nd' st'. smtp_loop n route now st out (transaction f u ls @ input) nd =
      smtp_loop n route now st' (out @ replies [250, 250, 354, 250]) input nd' \<and>
    sm_state st' = Init \<and> m_text (sm_mail st') = [] \<and> recipients (sm_mail st') = rs \<and>
    boxes_of U nd' (boxes_after (written ls f t) rs b)"
  using assms by (rule run_transaction)

lemma example_date: "is_date ''Thu Jan  1 00:00:00 1970''"
  by code_simp

lemma example_boxes: "boxes_of {''amy''} (example_node True 1) (\<lambda>_. [])"
  using example_serving by (simp add: boxes_of_def print_mails_def token_def log_char_def alpha_def)

lemma example_text: "text_line ''hi''" "is_sender ''eve@x''" "re_dot (CHR ''a'')" "re_dot (CHR ''m'')" "re_dot (CHR ''y'')"
  by code_simp+

lemma example_written: "length (to_local_string (sent_as 1 (written [''hi''] ''eve@x'' ''Thu Jan  1 00:00:00 1970''))) = 43"
  by code_simp

theorem smtp_transaction_witness:
  "\<exists>nd' st'. smtp_loop 0 example_route (\<lambda>_. ''Thu Jan  1 00:00:00 1970'' @ [nl]) (new_session []) []
      (transaction ''eve@x'' ''amy'' [''hi''] @ []) (example_node True 1) =
      smtp_loop 0 example_route (\<lambda>_. ''Thu Jan  1 00:00:00 1970'' @ [nl]) st' (replies [250, 250, 354, 250]) [] nd' \<and>
    recipients (sm_mail st') = [''amy''] \<and>
    nval nd' ''amy'' ''mbox'' = print_mails [sent_as 1 (written [''hi''] ''eve@x'' ''Thu Jan  1 00:00:00 1970'')]"
proof -
  let ?m = "written [''hi''] ''eve@x'' ''Thu Jan  1 00:00:00 1970''"
  have h: "\<forall>u \<in> {''amy''}. example_route u = Some (node_link example_env)" "sm_state (new_session []) = Init"
    "m_text (sm_mail (new_session [])) = []" "''amy'' \<noteq> []" "\<forall>c \<in> set ''amy''. re_dot c" "\<forall>l \<in> set [''hi'']. text_line l"
    "[''amy''] = recipients (sm_mail (new_session [])) @ [''amy'']" "set [''amy''] \<subseteq> {''amy''}"
    "\<forall>w \<in> {''amy''}. length (print_mails (boxes_after ?m [''amy''] (\<lambda>_. []) w)) < 2 ^ 31"
    using example_text example_written by (simp_all add: new_session_def print_mails_def)
  show ?thesis
    using smtp_transaction [where route = example_route and now = "\<lambda>_. ''Thu Jan  1 00:00:00 1970'' @ [nl]" and input = "[]" and out = "[]" and n = 0,
        OF example_boxes h(1-3) example_text(2) h(4-6) refl example_date h(7-9)]
    by (auto simp: boxes_of_def)
qed

text \<open>
  C38. Mail leaks to earlier recipients.  Neither the end of a mail nor \<open>RSET\<close> empties the list of recipients, so
  when one client sends first a mail to one user and then, over the same connection, a mail to another
  user only, the server answers as if all were well, and both mails are in the mailbox of the first user.
\<close>

theorem smtp_mail_leaks:
  assumes "boxes_of U nd b" "\<forall>u \<in> U. route u = Some (node_link e)"
    and "is_sender f1" "is_sender f2" "\<forall>c \<in> set (u @ w). re_dot c" "u \<noteq> []" "w \<noteq> []" "u \<noteq> w" "{u, w} \<subseteq> U"
    and "\<forall>l \<in> set (ls1 @ ls2). text_line l" "\<forall>k. now k = t k @ [nl] \<and> is_date (t k)"
    and "m1 = written ls1 f1 (t (length (transaction f2 w ls2)))" "m2 = written ls2 f2 (t 0)"
    and "\<forall>x \<in> U. length (print_mails (boxes_after m2 [u, w] (boxes_after m1 [u] b) x)) < 2 ^ 31"
  shows "\<exists>st' nd'. smtp_worker n route now (transaction f1 u ls1 @ transaction f2 w ls2) nd =
      Some (Waiting, st', replies [220, 250, 250, 354, 250, 250, 250, 354, 250], nd') \<and>
    (\<exists>i j. nval nd' u ''mbox'' = print_mails (b u @ [sent_as i m1, sent_as j m2])) \<and>
    (\<exists>i. nval nd' w ''mbox'' = print_mails (b w @ [sent_as i m2]))"
proof -
  let ?in = "transaction f2 w ls2" and ?st = "new_session (now (length (transaction f1 u ls1 @ transaction f2 w ls2)))"
  have st: "sm_state ?st = Init" "m_text (sm_mail ?st) = []" "recipients (sm_mail ?st) = []"
    by (simp_all add: new_session_def)
  have n: "now (length ?in) = t (length ?in) @ [nl]" "is_date (t (length ?in))" "now (length []) = t 0 @ [nl]" "is_date (t 0)"
    using assms(11) by simp_all
  have p: "\<forall>c \<in> set u. re_dot c" "\<forall>c \<in> set w. re_dot c" "\<forall>l \<in> set ls1. text_line l" "\<forall>l \<in> set ls2. text_line l"
    "[u] = recipients (sm_mail ?st) @ [u]" "set [u] \<subseteq> U" "set [u, w] \<subseteq> U"
    using assms(5,9,10) st(3) by simp_all
  have "\<forall>x \<in> U. length (print_mails (boxes_after m1 [u] b x)) < 2 ^ 31"
  proof
    fix x assume "x \<in> U"
    then show "length (print_mails (boxes_after m1 [u] b x)) < 2 ^ 31"
      using assms(14) boxes_grow [of "boxes_after m1 [u] b" x m2 "[u, w]"] by force
  qed
  then obtain nd1 st1 where 1: "smtp_loop n route now ?st (sent (Code 220)) (transaction f1 u ls1 @ ?in) nd =
      smtp_loop n route now st1 (sent (Code 220) @ replies [250, 250, 354, 250]) ?in nd1"
    "sm_state st1 = Init" "m_text (sm_mail st1) = []" "recipients (sm_mail st1) = [u]" "boxes_of U nd1 (boxes_after m1 [u] b)"
    using run_transaction [where route = route and now = now, OF assms(1,2) st(1,2) assms(3,6) p(1,3) n(1,2) p(5,6),
        where out = "sent (Code 220)" and n = n] assms(12) by blast
  have r: "[u, w] = recipients (sm_mail st1) @ [w]"
    using 1(4) by simp
  obtain nd2 st2 where 2: "smtp_loop n route now st1 (sent (Code 220) @ replies [250, 250, 354, 250]) (?in @ []) nd1 =
      smtp_loop n route now st2 ((sent (Code 220) @ replies [250, 250, 354, 250]) @ replies [250, 250, 354, 250]) [] nd2"
    "boxes_of U nd2 (boxes_after m2 [u, w] (boxes_after m1 [u] b))"
    using run_transaction [where route = route and now = now, OF 1(5) assms(2) 1(2,3) assms(4,7) p(2,4) n(3,4) r p(7),
        where out = "sent (Code 220) @ replies [250, 250, 354, 250]" and n = n] assms(13,14) by blast
  have "smtp_loop n route now st2 out [] nd2 = Some (Waiting, st2, out, nd2)" for out
    by (subst smtp_loop.simps) (simp add: do_read_def)
  then have "smtp_worker n route now (transaction f1 u ls1 @ ?in) nd =
      Some (Waiting, st2, replies [220, 250, 250, 354, 250, 250, 250, 354, 250], nd2)"
    using 1(1) 2(1) unfolding smtp_worker_def by (simp add: replies_def)
  moreover have "nval nd2 u ''mbox'' = print_mails (boxes_after m2 [u, w] (boxes_after m1 [u] b) u)"
    "nval nd2 w ''mbox'' = print_mails (boxes_after m2 [u, w] (boxes_after m1 [u] b) w)"
    using 2(2) assms(9) by (simp_all add: boxes_of_def)
  ultimately show ?thesis
    using assms(8) by auto
qed

lemma two_users: "\<exists>nd. boxes_of {''amy'', ''bob''} nd (\<lambda>_. [])"
proof -
  have "data_ok ''bob'' ''pwd'' ''x''"
    by (simp add: data_ok_def token_def log_char_def alpha_def)
  then obtain nd where "serving nd" "nval nd = set_val ''bob'' ''pwd'' ''x'' (\<lambda>_ _. [])"
    "member nd = (\<lambda>w. w = ''bob'' \<or> w = ''amy'')"
    using kv_node.cput_law [OF example_serving, of "''bob''" "''pwd''" "[]" "''x''"] by auto
  then show ?thesis
    by (intro exI [of _ nd]) (simp add: boxes_of_def print_mails_def token_def log_char_def alpha_def)
qed

theorem smtp_mail_leaks_witness:
  "\<exists>nd st' nd'. smtp_worker 0 example_route (\<lambda>_. ''Thu Jan  1 00:00:00 1970'' @ [nl])
      (transaction ''eve@x'' ''amy'' [''hi''] @ transaction ''eve@x'' ''bob'' [''hi'']) nd =
      Some (Waiting, st', replies [220, 250, 250, 354, 250, 250, 250, 354, 250], nd') \<and>
    nval nd ''amy'' ''mbox'' = [] \<and>
    (\<exists>i j. nval nd' ''amy'' ''mbox'' = print_mails
      [sent_as i (written [''hi''] ''eve@x'' ''Thu Jan  1 00:00:00 1970''), sent_as j (written [''hi''] ''eve@x'' ''Thu Jan  1 00:00:00 1970'')])"
proof -
  let ?m = "written [''hi''] ''eve@x'' ''Thu Jan  1 00:00:00 1970''" and ?U = "{''amy'', ''bob''}"
  let ?now = "\<lambda>_ :: nat. ''Thu Jan  1 00:00:00 1970'' @ [nl]" and ?t = "\<lambda>_ :: nat. ''Thu Jan  1 00:00:00 1970''"
  obtain nd where nd: "boxes_of ?U nd (\<lambda>_. [])"
    using two_users by blast
  have two: "length (to_local_string (sent_as 2 ?m)) = 43"
    by code_simp
  have h: "\<forall>u \<in> ?U. example_route u = Some (node_link example_env)" "\<forall>c \<in> set (''amy'' @ ''bob''). re_dot c"
    "''amy'' \<noteq> []" "''bob'' \<noteq> []" "''amy'' \<noteq> ''bob''" "{''amy'', ''bob''} \<subseteq> ?U" "\<forall>l \<in> set ([''hi''] @ [''hi'']). text_line l"
    "\<forall>k. ?now k = ?t k @ [nl] \<and> is_date (?t k)"
    "\<forall>x \<in> ?U. length (print_mails (boxes_after ?m [''amy'', ''bob''] (boxes_after ?m [''amy''] (\<lambda>_. [])) x)) < 2 ^ 31"
    using example_text example_written two example_date by (simp_all add: print_mails_def re_dot_def)
  have empty: "nval nd ''amy'' ''mbox'' = []"
    using nd by (simp add: boxes_of_def print_mails_def)
  show ?thesis
    using smtp_mail_leaks [where route = example_route and now = ?now and t = ?t and n = 0, OF nd h(1) example_text(2,2) h(2-8) refl refl h(9)] empty
    unfolding append_Nil by blast
qed

end
