(* ===== verification/Storage.thy ===== *)
theory Storage
  imports Kv_Client Cpp_Regex
begin

text \<open>
  \<open>frontend/storage.h\<close> and \<open>frontend/storage_interface.h\<close>: the file storage service of a user.  Files and folders have
  numeric identifiers; the contents of a file is the value of its identifier in the key-value store, and
  the tree of folders is the text stored under \<open>storage_metadata\<close>, which a handler parses into objects
  (\<open>Dirent\<close>), changes, prints and writes back with a compare-and-swap.  The debugging output is left out.
\<close>

section \<open>Programs over the store\<close>

text \<open>
  A call may change the state \<open>'s\<close> behind the link, raise an exception, or never return (\<open>None\<close>).
\<close>

type_synonym ('a, 's) prog = "'s \<Rightarrow> ('a res \<times> 's) option"

definition sret :: "'a \<Rightarrow> ('a, 's) prog" where
  "sret x s = Some (Inr x, s)"

definition sbind :: "('a, 's) prog \<Rightarrow> ('a \<Rightarrow> ('b, 's) prog) \<Rightarrow> ('b, 's) prog" where
  "sbind m f s =
     (case m s of
        None \<Rightarrow> None
      | Some (Inl e, s') \<Rightarrow> Some (Inl e, s')
      | Some (Inr x, s') \<Rightarrow> f x s')"

text \<open>A computation that does not use the store, one that may not end, and a call of the client interface.\<close>

definition pure :: "'a res \<Rightarrow> ('a, 's) prog" where
  "pure r s = Some (r, s)"

definition pure_loop :: "'a res option \<Rightarrow> ('a, 's) prog" where
  "pure_loop r s = map_option (\<lambda>x. (x, s)) r"

definition call :: "('s \<Rightarrow> 'a \<times> 's) \<Rightarrow> ('a, 's) prog" where
  "call f s = (case f s of (x, s') \<Rightarrow> Some (Inr x, s'))"

lemma sbind_return [simp]: "sbind (sret x) f = f x" "sbind (pure (Inr x)) f = f x"
  "sbind (pure (Inl e)) f = pure (Inl e)" "sbind (pure_loop (Some (Inr x))) f = f x"
  by (auto simp: sbind_def sret_def pure_def pure_loop_def)

lemma sbind_call: "f s = (x, s') \<Longrightarrow> sbind (call f) g s = g x s'"
  by (simp add: sbind_def call_def)

lemma sbind_Some: "m s = Some (Inr x, s') \<Longrightarrow> sbind m g s = g x s'"
  by (simp add: sbind_def)

section \<open>Requests and answers\<close>

text \<open>The messages of \<open>proto.proto\<close>; a \<open>oneof\<close> is a datatype, and the default of an unset status is its first value.\<close>

datatype storage_type =
    FILE_UPLOAD | FILE_DOWNLOAD | FILE_RENAME | FILE_MOVE | FILE_DELE | DIR_CREATE | DIR_RENAME | DIR_MOVE
  | DIR_DELE | DIR_QUERY | QUERY_ALL_DIR

datatype storage_request =
    File_upload_req string string
  | File_download_req string
  | Dir_create_or_query_req string
  | Delete_req string
  | Rename_req string string
  | Move_req string string
  | Query_all_file_to_move string

datatype storage_status = SUCCESS | FAIL

datatype storage_body =
    No_body
  | File_download string
  | Dir_info string "(string \<times> bool) list"
  | Movable_dirs "(string \<times> bool) list"

record storage_resp =
  sv_username :: "string option"
  sv_status :: "storage_status option"
  sv_error :: string
  sv_body :: storage_body

definition cleared :: storage_resp where
  "cleared = \<lparr>sv_username = None, sv_status = None, sv_error = [], sv_body = No_body\<rparr>"

definition resp_status :: "storage_resp \<Rightarrow> storage_status" where
  "resp_status r = (case sv_status r of None \<Rightarrow> SUCCESS | Some x \<Rightarrow> x)"

definition failed :: "string \<Rightarrow> storage_resp \<Rightarrow> storage_resp" where
  "failed msg r = r\<lparr>sv_status := Some FAIL, sv_error := msg\<rparr>"

definition PopulateSuccessResp :: "string \<Rightarrow> storage_resp \<Rightarrow> storage_resp" where
  "PopulateSuccessResp usr r = r\<lparr>sv_username := Some usr, sv_status := Some SUCCESS, sv_error := []\<rparr>"

definition upload_path :: "storage_request \<Rightarrow> string" where
  "upload_path q = (case q of File_upload_req p _ \<Rightarrow> p | _ \<Rightarrow> [])"

definition upload_content :: "storage_request \<Rightarrow> string" where
  "upload_content q = (case q of File_upload_req _ c \<Rightarrow> c | _ \<Rightarrow> [])"

definition create_path :: "storage_request \<Rightarrow> string" where
  "create_path q = (case q of Dir_create_or_query_req p \<Rightarrow> p | _ \<Rightarrow> [])"

section \<open>Objects\<close>

text \<open>
  The objects are owned by \<open>directories_\<close>, which maps identifiers to them, and an object keeps its
  identifier: a pointer is modelled as the identifier of the object that it points to (\<open>None\<close>: the null pointer), and a
  pointer to an object that is gone does not find it.  \<open>d_parent\<close> is \<open>None\<close> until \<open>UpdateParent\<close> sets it; reading it
  before that, or the uninitialised \<open>root_\<close>, is undefined.
\<close>

record dirent =
  d_path :: string
  d_file :: bool
  d_parent :: "int option"
  d_root :: bool
  d_entries :: "(string, int option) cmap"

type_synonym heap = "(int, dirent) cmap"

record storage =
  s_heap :: heap
  s_root :: "int option"
  s_latest :: int
  s_meta :: string

definition new_storage :: storage where
  "new_storage = \<lparr>s_heap = [], s_root = None, s_latest = -1, s_meta = []\<rparr>"

definition new_dirent :: "string \<Rightarrow> bool \<Rightarrow> dirent" where
  "new_dirent name is_file = \<lparr>d_path = name, d_file = is_file, d_parent = None, d_root = False, d_entries = []\<rparr>"

definition deref :: "heap \<Rightarrow> int option \<Rightarrow> (int \<times> dirent) res" where
  "deref h p =
     (case p of
        None \<Rightarrow> Inl Undefined
      | Some i \<Rightarrow> (case map_of h i of None \<Rightarrow> Inl Undefined | Some d \<Rightarrow> Inr (i, d)))"

definition modify :: "int option \<Rightarrow> (dirent \<Rightarrow> dirent) \<Rightarrow> heap \<Rightarrow> heap res" where
  "modify p f h = rbind (deref h p) (\<lambda>(i, d). Inr (AList.update i (f d) h))"

definition root_ptr :: "storage \<Rightarrow> int res" where
  "root_ptr st = (case s_root st of None \<Rightarrow> Inl Undefined | Some r \<Rightarrow> Inr r)"

definition AddEntry :: "string \<Rightarrow> int option \<Rightarrow> dirent \<Rightarrow> dirent" where
  "AddEntry name q d = d\<lparr>d_entries := AList.update name q (d_entries d)\<rparr>"

definition DeleteEntry :: "string \<Rightarrow> dirent \<Rightarrow> dirent" where
  "DeleteEntry name d = d\<lparr>d_entries := AList.delete name (d_entries d)\<rparr>"

definition HasEntry :: "string \<Rightarrow> dirent \<Rightarrow> bool" where
  "HasEntry name d = (map_of (d_entries d) name \<noteq> None)"

text \<open>\<open>entries_[name]\<close> inserts a null pointer for a name that is not there.\<close>

definition GetEntry :: "string \<Rightarrow> int option \<Rightarrow> heap \<Rightarrow> (int option \<times> heap) res" where
  "GetEntry name p h =
     rbind (deref h p) (\<lambda>(i, d).
       case map_of (d_entries d) name of
         Some q \<Rightarrow> Inr (q, h)
       | None \<Rightarrow> Inr (None, AList.update i (AddEntry name None d) h))"

definition Type_name :: "dirent \<Rightarrow> string" where
  "Type_name d = (if d_file d then ''F'' else ''D'')"

text \<open>
  \<open>Path\<close> follows the parents.  More steps than there are objects means that they form a circle: the recursion
  then never ends and overflows the stack.
\<close>

fun path_up :: "nat \<Rightarrow> heap \<Rightarrow> int \<Rightarrow> string res" where
  "path_up 0 h i = Inl Undefined"
| "path_up (Suc n) h i =
     rbind (deref h (Some i)) (\<lambda>(_, d).
       if d_root d then Inr (''/'' @ d_path d)
       else case d_parent d of
           None \<Rightarrow> Inl Undefined
         | Some p \<Rightarrow> rbind (path_up n h p) (\<lambda>s. Inr (s @ ''/'' @ d_path d)))"

definition Path :: "heap \<Rightarrow> int \<Rightarrow> string res" where
  "Path h i = path_up (length h) h i"

section \<open>Printing the metadata\<close>

text \<open>\<open>iter\<close> is the order in which an unordered map of entries is visited.\<close>

type_synonym iter = "(string, int option) cmap \<Rightarrow> (string, int option) cmap"

text \<open>The lines of the entries and the folders among them.\<close>

fun entry_lines :: "heap \<Rightarrow> (string \<times> int option) list \<Rightarrow> (string \<times> int list) res" where
  "entry_lines h [] = Inr ([], [])"
| "entry_lines h ((name, p) # es) =
     rbind (deref h p) (\<lambda>(i, d).
     rbind (entry_lines h es) (\<lambda>(t, dirs).
       Inr (name @ '' ID '' @ int_str i @ '' '' @ Type_name d @ [nl] @ t, (if d_file d then dirs else i # dirs))))"

definition dir_lines :: "iter \<Rightarrow> heap \<Rightarrow> string \<Rightarrow> int \<Rightarrow> (string \<times> int list) res" where
  "dir_lines iter h title i =
     rbind (deref h (Some i)) (\<lambda>(_, d).
     rbind (Path h i) (\<lambda>p.
     rbind (entry_lines h (iter (d_entries d))) (\<lambda>(t, dirs).
       Inr (title @ p @ '' ID '' @ int_str i @ '' Items '' @ nat_str (length (d_entries d)) @ [nl] @ t, dirs))))"

partial_function (option) folders_loop :: "iter \<Rightarrow> heap \<Rightarrow> int list \<Rightarrow> string \<Rightarrow> string res option" where
  "folders_loop iter h queue ss =
     (case queue of
        [] \<Rightarrow> Some (Inr ss)
      | i # queue' \<Rightarrow>
          (case dir_lines iter h ''Folder: '' i of
             Inl e \<Rightarrow> Some (Inl e)
           | Inr (t, dirs) \<Rightarrow> folders_loop iter h (queue' @ dirs) (ss @ t)))"

declare folders_loop.simps [code]

definition GetMetadataStr :: "iter \<Rightarrow> storage \<Rightarrow> string res option" where
  "GetMetadataStr iter st =
     (case rbind (root_ptr st) (dir_lines iter (s_heap st) ''Root folder: '') of
        Inl e \<Rightarrow> Some (Inl e)
      | Inr (t, dirs) \<Rightarrow> folders_loop iter (s_heap st) dirs (''Latest ID: '' @ int_str (s_latest st) @ [nl] @ t))"

section \<open>Parsing the metadata\<close>

definition name_char :: "char \<Rightarrow> bool" where
  "name_char c = (alpha c \<or> is_digit c \<or> c \<in> set ''_./-+='')"

definition kLatestIdRegex :: re where
  "kLatestIdRegex = seqs [Lit ''Latest'', Cls is_space, Lit ''ID:'', Cls is_space, Grp (Some1 is_digit)]"

definition folder_regex :: "string \<Rightarrow> re" where
  "folder_regex title = seqs [Lit title, Cls is_space, Grp (Seq (Lit ''/'') (Many name_char)), Cls is_space, Lit ''ID'',
     Cls is_space, Grp (Some1 is_digit), Cls is_space, Lit ''Items'', Cls is_space, Grp (Some1 is_digit)]"

definition kRootFolderEntryRegex :: re where
  "kRootFolderEntryRegex = folder_regex ''Root folder:''"

definition kFolderEntryRegex :: re where
  "kFolderEntryRegex = folder_regex ''Folder:''"

definition kFolderContentRegex :: re where
  "kFolderContentRegex = seqs [Grp (Many name_char), Cls is_space, Lit ''ID'', Cls is_space, Grp (Some1 is_digit),
     Cls is_space, Grp (Cls (\<lambda>c. c \<in> set ''F|D''))]"

definition FindOrCreateDirMapping :: "int \<Rightarrow> string \<Rightarrow> bool \<Rightarrow> heap \<Rightarrow> heap" where
  "FindOrCreateDirMapping i name is_file h =
     (if map_of h i = None then AList.update i (new_dirent name is_file) h else h)"

definition ParseDirEntry :: "int \<Rightarrow> string \<Rightarrow> heap \<Rightarrow> (bool \<times> heap) res" where
  "ParseDirEntry parent entry_str h =
     (case regex_match kFolderContentRegex entry_str of
        Some [name, num, type] \<Rightarrow>
          rbind (stoi num) (\<lambda>i.
          rbind (Path h parent) (\<lambda>_.
          rbind (modify (Some parent) (AddEntry name (Some i)) (FindOrCreateDirMapping i name (type = ''F'') h)) (\<lambda>h1.
          rbind (modify (Some i) (\<lambda>d. d\<lparr>d_parent := Some parent\<rparr>) h1) (\<lambda>h2. Inr (True, h2)))))
      | _ \<Rightarrow> Inr (False, h))"

fun parse_items :: "nat \<Rightarrow> int \<Rightarrow> istream \<Rightarrow> heap \<Rightarrow> (istream \<times> heap) res" where
  "parse_items 0 dir ss h = Inr (ss, h)"
| "parse_items (Suc n) dir ss h =
     (case getline nl ss [] of
        (False, _, ss1) \<Rightarrow> Inr (ss1, h)
      | (True, line, ss1) \<Rightarrow> rbind (ParseDirEntry dir line h) (\<lambda>(_, h1). parse_items n dir ss1 h1))"

definition base_name :: "string \<Rightarrow> string" where
  "base_name fp = (case find_last_char (CHR ''/'') fp of None \<Rightarrow> [] | Some pos \<Rightarrow> drop (pos + 1) fp)"

definition set_root :: "dirent \<Rightarrow> dirent" where
  "set_root d = d\<lparr>d_root := True\<rparr>"

definition ParseDirectory :: "istream \<Rightarrow> string list \<Rightarrow> bool \<Rightarrow> heap \<Rightarrow> (int \<times> istream \<times> heap) res" where
  "ParseDirectory ss m is_root h =
     rbind (stoi (m ! 1)) (\<lambda>dir.
     rbind (stoi (m ! 2)) (\<lambda>num_items.
     rbind (modify (Some dir) (if is_root then set_root else id)
              (FindOrCreateDirMapping dir (base_name (m ! 0)) False h)) (\<lambda>h1.
     rbind (parse_items (nat num_items) dir ss h1) (\<lambda>(ss1, h2). Inr (dir, ss1, h2)))))"

text \<open>What the loop of \<open>ParseMetadataFile\<close> does with a line: three expressions are tried one after the other.\<close>

definition latest_line :: "string \<Rightarrow> storage \<Rightarrow> storage res" where
  "latest_line line st =
     (case regex_match kLatestIdRegex line of
        Some m \<Rightarrow> rbind (stoi (m ! 0)) (\<lambda>i. Inr (st\<lparr>s_latest := i\<rparr>))
      | None \<Rightarrow> Inr st)"

definition root_line :: "string \<Rightarrow> istream \<Rightarrow> storage \<Rightarrow> (istream \<times> storage) res" where
  "root_line line ss st =
     (case regex_match kRootFolderEntryRegex line of
        Some m \<Rightarrow>
          rbind (ParseDirectory ss m True (s_heap st)) (\<lambda>(r, ss1, h).
          rbind (modify (Some r) set_root h) (\<lambda>h1. Inr (ss1, st\<lparr>s_heap := h1, s_root := Some r\<rparr>)))
      | None \<Rightarrow> Inr (ss, st))"

definition folder_line :: "string \<Rightarrow> istream \<Rightarrow> storage \<Rightarrow> (istream \<times> storage) res" where
  "folder_line line ss st =
     (case regex_match kFolderEntryRegex line of
        Some m \<Rightarrow> rbind (ParseDirectory ss m False (s_heap st)) (\<lambda>(_, ss1, h). Inr (ss1, st\<lparr>s_heap := h\<rparr>))
      | None \<Rightarrow> Inr (ss, st))"

definition parse_line :: "string \<Rightarrow> istream \<Rightarrow> storage \<Rightarrow> (istream \<times> storage) res" where
  "parse_line line ss st =
     rbind (latest_line line st) (\<lambda>st1. rbind (root_line line ss st1) (\<lambda>(ss1, st2). folder_line line ss1 st2))"

lemma parse_items_le: "parse_items n dir ss h = Inr (ss', h') \<Longrightarrow> length (is_rest ss') \<le> length (is_rest ss)"
proof (induction n arbitrary: ss h)
  case (Suc n)
  obtain ok line ss1 where g: "getline nl ss [] = (ok, line, ss1)"
    by (cases "getline nl ss []")
  show ?case
  proof (cases ok)
    case True
    then obtain b h1 where "parse_items n dir ss1 h1 = Inr (ss', h')"
      using Suc.prems g by (auto simp: rbind_eq_Inr)
    from Suc.IH [OF this] show ?thesis
      using getline_le [OF g] by simp
  next
    case False
    then show ?thesis using Suc.prems getline_le [OF g] g by simp
  qed
qed simp

lemma ParseDirectory_le:
  "ParseDirectory ss m is_root h = Inr (dir, ss', h') \<Longrightarrow> length (is_rest ss') \<le> length (is_rest ss)"
  by (auto simp: ParseDirectory_def rbind_eq_Inr dest: parse_items_le)

lemma parse_line_le:
  assumes "parse_line line ss st = Inr (ss', st')"
  shows "length (is_rest ss') \<le> length (is_rest ss)"
proof -
  have root: "length (is_rest b) \<le> length (is_rest a)" if "root_line line a x = Inr (b, y)" for a b x y
    using that by (auto simp: root_line_def rbind_eq_Inr split: option.splits dest: ParseDirectory_le)
  have folder: "length (is_rest b) \<le> length (is_rest a)" if "folder_line line a x = Inr (b, y)" for a b x y
    using that by (auto simp: folder_line_def rbind_eq_Inr split: option.splits dest: ParseDirectory_le)
  obtain st1 ss1 st2 where "root_line line ss st1 = Inr (ss1, st2)" "folder_line line ss1 st2 = Inr (ss', st')"
    using assms by (auto simp: parse_line_def rbind_eq_Inr)
  then show ?thesis
    using root folder order_trans by blast
qed

function parse_lines :: "istream \<Rightarrow> storage \<Rightarrow> storage res" where
  "parse_lines ss st =
     (case getline nl ss [] of
        (False, _, _) \<Rightarrow> Inr st
      | (True, line, ss1) \<Rightarrow> rbind (parse_line line ss1 st) (\<lambda>(ss2, st'). parse_lines ss2 st'))"
  by pat_completeness auto
termination
  by (relation "measure (\<lambda>(ss, st). length (is_rest ss))")
    (auto dest!: getline_dec [OF sym] parse_line_le simp del: split_paired_Ex)

declare parse_lines.simps [simp del]

definition ParseMetadataFile :: "storage \<Rightarrow> (bool \<times> storage) res" where
  "ParseMetadataFile st =
     (if s_meta st = [] then Inr (False, st)
      else rbind (parse_lines (istream_of (s_meta st)) st) (\<lambda>st'. Inr (True, st')))"

section \<open>Paths\<close>

text \<open>
  The out parameters of \<open>ValidatePathAndGetDir\<close>: whether it succeeds, the parent folder, the object and the last name of the path.
\<close>

record located =
  lo_ok :: bool
  lo_parent :: "int option"
  lo_dir :: "int option"
  lo_name :: string

text \<open>
  The loop over the path.  A path that ends with a slash has an empty rest, and the last name is then looked up in the
  folder of this name itself, where \<open>GetEntry\<close> leaves a null pointer.
\<close>

function resolve :: "heap \<Rightarrow> int option \<Rightarrow> string \<Rightarrow> string \<Rightarrow> (located \<times> heap) res" where
  "resolve h parent rel path =
     (case find_char (CHR ''/'') path of
        Some pos \<Rightarrow>
          (let token = take pos path in
           if token = [] then resolve h parent rel (drop (pos + 1) path)
           else rbind (deref h parent) (\<lambda>(_, d).
             if \<not> HasEntry token d then Inr (\<lparr>lo_ok = False, lo_parent = None, lo_dir = None, lo_name = token\<rparr>, h)
             else rbind (GetEntry token parent h) (\<lambda>(q, h1). resolve h1 q token (drop (pos + 1) path))))
      | None \<Rightarrow>
          if path \<noteq> [] then
            rbind (deref h parent) (\<lambda>(_, d).
              if \<not> HasEntry path d then Inr (\<lparr>lo_ok = False, lo_parent = parent, lo_dir = None, lo_name = path\<rparr>, h)
              else rbind (GetEntry path parent h) (\<lambda>(q, h1).
                Inr (\<lparr>lo_ok = True, lo_parent = parent, lo_dir = q, lo_name = path\<rparr>, h1)))
          else rbind (GetEntry rel parent h) (\<lambda>(q, h1).
                 Inr (\<lparr>lo_ok = True, lo_parent = parent, lo_dir = q, lo_name = rel\<rparr>, h1)))"
  by pat_completeness auto
termination
  by (relation "measure (\<lambda>(h, parent, rel, path). length path)") (auto dest!: find_char_less)

declare resolve.simps [simp del]

definition ValidatePathAndGetDir :: "string \<Rightarrow> storage \<Rightarrow> (located \<times> storage) res" where
  "ValidatePathAndGetDir path st =
     rbind (root_ptr st) (\<lambda>r.
       if path = ''/'' then Inr (\<lparr>lo_ok = True, lo_parent = Some r, lo_dir = Some r, lo_name = []\<rparr>, st)
       else rbind (resolve (s_heap st) (Some r) [] path) (\<lambda>(lo, h). Inr (lo, st\<lparr>s_heap := h\<rparr>)))"

section \<open>The handler\<close>

text \<open>
  A handler knows its user and its connection; \<open>hd_iter\<close> is the order of unordered maps, and \<open>hd_fuel\<close> bounds the nested
  calls of a deletion.  The argument \<open>n\<close> of a handler function is \<open>max_attempt + 1\<close>.
\<close>

record ('m, 's) handler =
  hd_iter :: iter
  hd_link :: "('m, 's) link"
  hd_usr :: string
  hd_fd :: int
  hd_fuel :: nat

definition kMetadataFp :: string where "kMetadataFp = ''storage_metadata''"

definition kMaxAttempt :: nat where "kMaxAttempt = 20"

definition too_many :: "storage_resp \<Rightarrow> storage_resp" where
  "too_many = failed ''Creation failed after max attempt due to CPUT failures.''"

definition ReadMetadata :: "('m, 's) handler \<Rightarrow> storage \<Rightarrow> (bool \<times> storage, 's) prog" where
  "ReadMetadata hn st =
     sbind (call (kv_gets (hd_link hn) (s_meta st) (hd_usr hn) kMetadataFp)) (\<lambda>(ret, m).
       if ret \<noteq> 0 then sret (False, st\<lparr>s_meta := m\<rparr>) else pure (ParseMetadataFile (st\<lparr>s_meta := m\<rparr>)))"

definition metadata_text :: "('m, 's) handler \<Rightarrow> storage \<Rightarrow> (string, 's) prog" where
  "metadata_text hn st = pure_loop (GetMetadataStr (hd_iter hn) st)"

definition WriteMetadataToKv :: "('m, 's) handler \<Rightarrow> storage \<Rightarrow> (bool, 's) prog" where
  "WriteMetadataToKv hn st =
     sbind (metadata_text hn st) (\<lambda>new_metadata.
     sbind (call (kv_cput (hd_link hn) (hd_usr hn) kMetadataFp (s_meta st) new_metadata)) (\<lambda>ret. sret (ret = 0)))"

text \<open>After a refused write: the answer is cleared, the metadata is read again, and the request is tried once more.\<close>

definition reload :: "('m, 's) handler \<Rightarrow> (storage_resp \<Rightarrow> storage \<Rightarrow> (storage_resp \<times> storage, 's) prog) \<Rightarrow>
    storage \<Rightarrow> (storage_resp \<times> storage, 's) prog" where
  "reload hn again st =
     sbind (ReadMetadata hn st) (\<lambda>(ok, st1). if ok then again cleared st1 else sret (cleared, st1))"

definition with_heap :: "storage \<Rightarrow> heap res \<Rightarrow> storage res" where
  "with_heap st r = rbind r (\<lambda>h. Inr (st\<lparr>s_heap := h\<rparr>))"

subsection \<open>Moving and renaming\<close>

definition move_entry :: "located \<Rightarrow> int option \<Rightarrow> heap \<Rightarrow> heap res" where
  "move_entry lo new_dir h =
     rbind (deref h new_dir) (\<lambda>(i, _).
     rbind (Path h i) (\<lambda>_.
     rbind (modify (lo_dir lo) (\<lambda>d. d\<lparr>d_parent := new_dir\<rparr>) h) (\<lambda>h1.
     rbind (modify (lo_parent lo) (DeleteEntry (lo_name lo)) h1) (\<lambda>h2.
       modify new_dir (AddEntry (lo_name lo) (lo_dir lo)) h2))))"

definition unmove_entry :: "located \<Rightarrow> int option \<Rightarrow> heap \<Rightarrow> heap res" where
  "unmove_entry lo new_dir h =
     rbind (modify (lo_dir lo) (\<lambda>d. d\<lparr>d_parent := lo_parent lo\<rparr>) h) (\<lambda>h1.
     rbind (modify (lo_parent lo) (AddEntry (lo_name lo) (lo_dir lo)) h1) (\<lambda>h2.
       modify new_dir (DeleteEntry (lo_name lo)) h2))"

fun HandleMove :: "('m, 's) handler \<Rightarrow> nat \<Rightarrow> string \<Rightarrow> string \<Rightarrow> storage_resp \<Rightarrow> storage \<Rightarrow> (storage_resp \<times> storage, 's) prog" where
  "HandleMove hn 0 old_path new_dir_path resp st = sret (too_many resp, st)"
| "HandleMove hn (Suc n) old_path new_dir_path resp st =
     sbind (pure (ValidatePathAndGetDir old_path st)) (\<lambda>(lo, st1).
       if \<not> lo_ok lo then sret (failed (''Failed to find file: '' @ old_path) resp, st1)
       else
     sbind (pure (ValidatePathAndGetDir new_dir_path st1)) (\<lambda>(nd, st2).
       if \<not> lo_ok nd then sret (failed (''Failed to locate new directory: '' @ new_dir_path) resp, st2)
       else
     sbind (pure (with_heap st2 (move_entry lo (lo_dir nd) (s_heap st2)))) (\<lambda>st3.
     sbind (WriteMetadataToKv hn st3) (\<lambda>ok.
       if ok then
         sbind (metadata_text hn st3) (\<lambda>m. sret (PopulateSuccessResp (hd_usr hn) resp, st3\<lparr>s_meta := m\<rparr>))
       else
         sbind (pure (with_heap st3 (unmove_entry lo (lo_dir nd) (s_heap st3))))
           (reload hn (HandleMove hn n old_path new_dir_path))))))"

definition rename_entry :: "located \<Rightarrow> string \<Rightarrow> heap \<Rightarrow> heap res" where
  "rename_entry lo new_name h =
     rbind (deref h (lo_parent lo)) (\<lambda>(i, _).
     rbind (Path h i) (\<lambda>_.
     rbind (modify (lo_dir lo) (\<lambda>d. d\<lparr>d_path := new_name\<rparr>) h) (\<lambda>h1.
     rbind (modify (lo_parent lo) (DeleteEntry (lo_name lo)) h1) (\<lambda>h2.
       modify (lo_parent lo) (AddEntry new_name (lo_dir lo)) h2))))"

definition unrename_entry :: "located \<Rightarrow> string \<Rightarrow> heap \<Rightarrow> heap res" where
  "unrename_entry lo new_name h =
     rbind (modify (lo_dir lo) (\<lambda>d. d\<lparr>d_path := lo_name lo\<rparr>) h) (\<lambda>h1.
     rbind (modify (lo_parent lo) (DeleteEntry new_name) h1) (\<lambda>h2.
       modify (lo_parent lo) (AddEntry (lo_name lo) (lo_dir lo)) h2))"

fun HandleRename :: "('m, 's) handler \<Rightarrow> nat \<Rightarrow> string \<Rightarrow> string \<Rightarrow> storage_resp \<Rightarrow> storage \<Rightarrow> (storage_resp \<times> storage, 's) prog" where
  "HandleRename hn 0 old_path new_name resp st = sret (too_many resp, st)"
| "HandleRename hn (Suc n) old_path new_name resp st =
     sbind (pure (ValidatePathAndGetDir old_path st)) (\<lambda>(lo, st1).
       if \<not> lo_ok lo then sret (failed (''Failed to find file: '' @ old_path) resp, st1)
       else
     sbind (pure (with_heap st1 (rename_entry lo new_name (s_heap st1)))) (\<lambda>st2.
     sbind (WriteMetadataToKv hn st2) (\<lambda>ok.
       if ok then
         sbind (metadata_text hn st2) (\<lambda>m. sret (PopulateSuccessResp (hd_usr hn) resp, st2\<lparr>s_meta := m\<rparr>))
       else
         sbind (pure (with_heap st2 (unrename_entry lo new_name (s_heap st2))))
           (reload hn (HandleRename hn n old_path new_name)))))"

subsection \<open>Deleting\<close>

text \<open>The path of an entry without the name of the root folder.\<close>

definition strip_user :: "string \<Rightarrow> string res" where
  "strip_user fp =
     rbind (substr_from fp 1) (\<lambda>t. substr_from fp (case find_char (CHR ''/'') t of None \<Rightarrow> 0 | Some pos \<Rightarrow> pos + 1))"

fun child_paths :: "heap \<Rightarrow> (string \<times> int option) list \<Rightarrow> string list res" where
  "child_paths h [] = Inr []"
| "child_paths h ((name, p) # es) =
     rbind (deref h p) (\<lambda>(i, _). rbind (Path h i) (\<lambda>fp. rbind (strip_user fp) (\<lambda>q.
     rbind (child_paths h es) (\<lambda>ps. Inr (q # ps)))))"

fun delete_children :: "(string \<Rightarrow> storage_resp \<Rightarrow> storage \<Rightarrow> (storage_resp \<times> storage, 's) prog) \<Rightarrow> string list \<Rightarrow>
    storage_resp \<Rightarrow> storage \<Rightarrow> (bool \<times> storage_resp \<times> storage, 's) prog" where
  "delete_children del [] resp st = sret (True, resp, st)"
| "delete_children del (p # ps) resp st =
     sbind (del p resp st) (\<lambda>(resp1, st1).
       if resp_status resp1 = FAIL then sret (False, resp1, st1) else delete_children del ps resp1 st1)"

text \<open>
  What \<open>HandleDelete\<close> does when the entries of the object are gone; \<open>again\<close> is the next attempt after a refused write.
  The removed object lives on in a local variable until the call returns.
\<close>

definition delete_self :: "('m, 's) handler \<Rightarrow> (storage_resp \<Rightarrow> storage \<Rightarrow> (storage_resp \<times> storage, 's) prog) \<Rightarrow> located \<Rightarrow> int \<Rightarrow>
    bool \<Rightarrow> string \<Rightarrow> storage_resp \<Rightarrow> storage \<Rightarrow> (storage_resp \<times> storage, 's) prog" where
  "delete_self hn again lo i expect_kv_failure fp resp st =
     sbind (pure (deref (s_heap st) (Some i))) (\<lambda>(_, d).
     sbind (if d_file d then call (kv_dele (hd_link hn) (hd_usr hn) (int_str i)) else sret 0) (\<lambda>ret.
       if ret \<noteq> 0 \<and> \<not> expect_kv_failure then
         sret (failed (''Failed to delete file '' @ fp @ '' to KV with fd '' @ int_str (hd_fd hn)) resp, st)
       else
     sbind (pure (with_heap st (modify (lo_parent lo) (DeleteEntry (lo_name lo)) (s_heap st)))) (\<lambda>st1.
     sbind (metadata_text hn st1) (\<lambda>new_metadata.
     sbind (WriteMetadataToKv hn st1) (\<lambda>ok.
       if ok then
         sret (PopulateSuccessResp (hd_usr hn) resp, st1\<lparr>s_meta := new_metadata, s_heap := AList.delete i (s_heap st1)\<rparr>)
       else
     sbind (pure (with_heap st1 (modify (lo_parent lo) (AddEntry (lo_name lo) (Some i)) (s_heap st1)))) (\<lambda>st2.
     sbind (ReadMetadata hn st2) (\<lambda>(ok, st3).
       if \<not> ok then
         sret (failed (''Failed to read in updated metadata when reverting changes for file delete failures, '' @
           ''resulting in inconsistent state in metadata and KV store for file '' @ fp) cleared, st3)
       else again cleared st3)))))))"

fun HandleDelete :: "('m, 's) handler \<Rightarrow> nat \<Rightarrow> int \<Rightarrow> bool \<Rightarrow> string \<Rightarrow> storage_resp \<Rightarrow> storage \<Rightarrow>
    (storage_resp \<times> storage, 's) prog" where
  "HandleDelete hn 0 max_attempt expect_kv_failure fp resp st = pure_loop None"
| "HandleDelete hn (Suc f) max_attempt expect_kv_failure fp resp st =
     (if max_attempt < 0 then sret (too_many resp, st)
      else
     sbind (pure (ValidatePathAndGetDir fp st)) (\<lambda>(lo, st1).
       if \<not> lo_ok lo then sret (failed (''Failed to find file '' @ fp) resp, st1)
       else
     sbind (pure (deref (s_heap st1) (lo_dir lo))) (\<lambda>(i, d).
     sbind (if \<not> d_file d \<and> d_entries d \<noteq> [] then
              sbind (pure (child_paths (s_heap st1) (hd_iter hn (d_entries d)))) (\<lambda>ps.
                delete_children (HandleDelete hn f 0 expect_kv_failure) ps resp st1)
            else sret (True, resp, st1)) (\<lambda>(ok, resp1, st2).
       if \<not> ok then sret (resp1, st2)
       else
         delete_self hn (HandleDelete hn f (max_attempt - 1) True fp) lo i expect_kv_failure fp resp1 st2))))"

subsection \<open>Creating and querying\<close>

text \<open>
  A new object under a new identifier.  Should the identifier be in use (a \<open>Latest ID\<close> that is too small), the old
  object is destroyed and the pointers to it dangle.
\<close>

definition create_entry :: "located \<Rightarrow> int \<Rightarrow> bool \<Rightarrow> heap \<Rightarrow> heap res" where
  "create_entry lo i is_file h =
     (if map_of h i \<noteq> None then Inl Undefined
      else rbind (modify (lo_parent lo) (AddEntry (lo_name lo) (Some i))
               (AList.update i (new_dirent (lo_name lo) is_file) h)) (\<lambda>h1.
             modify (Some i) (\<lambda>d. d\<lparr>d_parent := lo_parent lo\<rparr>) h1))"

definition uncreate_entry :: "located \<Rightarrow> int \<Rightarrow> heap \<Rightarrow> heap res" where
  "uncreate_entry lo i h = rbind (modify (lo_parent lo) (DeleteEntry (lo_name lo)) h) (\<lambda>h1. Inr (AList.delete i h1))"

text \<open>The entries of a folder with their paths.\<close>

fun dir_listing :: "heap \<Rightarrow> (string \<times> int option) list \<Rightarrow> (string \<times> bool) list res" where
  "dir_listing h [] = Inr []"
| "dir_listing h ((name, p) # es) =
     rbind (deref h p) (\<lambda>(i, d). rbind (Path h i) (\<lambda>fp.
     rbind (dir_listing h es) (\<lambda>xs. Inr ((fp, \<not> d_file d) # xs))))"

definition query_dir_info :: "iter \<Rightarrow> heap \<Rightarrow> int option \<Rightarrow> storage_body res" where
  "query_dir_info iter h p =
     rbind (deref h p) (\<lambda>(i, d). rbind (Path h i) (\<lambda>fp.
     rbind (dir_listing h (iter (d_entries d))) (\<lambda>xs. Inr (Dir_info fp xs))))"

text \<open>What happens after the contents of a new file could not be stored.\<close>

definition upload_failed :: "('m, 's) handler \<Rightarrow> string \<Rightarrow> storage_resp \<Rightarrow> storage \<Rightarrow> (storage_resp \<times> storage, 's) prog" where
  "upload_failed hn path resp st =
     sbind (ReadMetadata hn st) (\<lambda>(ok, st1).
       if \<not> ok then
         sret (failed (''Failed to read in updated metadata when reverting changes for file upload failures, '' @
           ''resulting in inconsistent state in metadata and KV store regarding file '' @ path) resp, st1)
       else sbind (HandleDelete hn (hd_fuel hn) 1 True path resp st1) (\<lambda>(resp1, st2).
         sret (failed (''Failed to upload file '' @ path @ '' to KV with fd '' @ int_str (hd_fd hn)) resp1, st2)))"

fun HandleCreationAndQuery :: "('m, 's) handler \<Rightarrow> nat \<Rightarrow> storage_type \<Rightarrow> storage_request \<Rightarrow> storage_resp \<Rightarrow> storage \<Rightarrow>
    (storage_resp \<times> storage, 's) prog" where
  "HandleCreationAndQuery hn 0 type req resp st = sret (too_many resp, st)"
| "HandleCreationAndQuery hn (Suc n) type req resp st =
     (let is_file = (type = FILE_UPLOAD); is_query = (type = DIR_QUERY);
          path = (if is_file then upload_path req else create_path req) in
     sbind (pure (ValidatePathAndGetDir path st)) (\<lambda>(lo, st1).
       if is_query \<and> (\<not> lo_ok lo \<or> lo_parent lo = None \<or> lo_dir lo = None) then
         sret (failed (''Failed to find file: '' @ path) resp, st1)
       else if \<not> is_query \<and> lo_ok lo then
         sret (failed (''File or folder already exists: '' @ path) resp, st1)
       else if \<not> is_query \<and> \<not> lo_ok lo \<and> lo_parent lo = None then
         sret (failed (''Failed to upload file due to non-existent parent folder(s): '' @ upload_path req) resp, st1)
       else if \<not> is_query then
         if s_latest st1 = -1 then
           sret (failed (''Failed to upload file due to uninitialized ID: '' @ upload_path req) resp, st1)
         else if s_latest st1 = 2 ^ 31 - 1 then pure (Inl Undefined)
         else
           (let i = s_latest st1 + 1 in
     sbind (pure (with_heap (st1\<lparr>s_latest := i\<rparr>) (create_entry lo i is_file (s_heap st1)))) (\<lambda>st2.
     sbind (metadata_text hn st2) (\<lambda>new_metadata.
     sbind (WriteMetadataToKv hn st2) (\<lambda>ok.
       if \<not> ok then
         sbind (pure (with_heap (st2\<lparr>s_latest := i - 1\<rparr>) (uncreate_entry lo i (s_heap st2))))
           (reload hn (HandleCreationAndQuery hn n type req))
       else
     sbind (if is_file then call (kv_puts (hd_link hn) (hd_usr hn) (int_str i) (upload_content req)) else sret 0) (\<lambda>ret.
       if ret \<noteq> 0 then upload_failed hn path resp (st2\<lparr>s_meta := new_metadata\<rparr>)
       else sret (PopulateSuccessResp (hd_usr hn) resp, st2\<lparr>s_meta := new_metadata\<rparr>))))))
       else
     sbind (pure (query_dir_info (hd_iter hn) (s_heap st1) (lo_dir lo))) (\<lambda>info.
       sret (PopulateSuccessResp (hd_usr hn) (resp\<lparr>sv_body := info\<rparr>), st1))))"

subsection \<open>Downloading, and the folders a file can be moved to\<close>

definition HandleFileDownload :: "('m, 's) handler \<Rightarrow> string \<Rightarrow> storage_resp \<Rightarrow> storage \<Rightarrow> (storage_resp \<times> storage, 's) prog" where
  "HandleFileDownload hn fp resp st =
     sbind (pure (ValidatePathAndGetDir fp st)) (\<lambda>(lo, st1).
       if \<not> lo_ok lo then sret (failed (''Failed to find file '' @ fp) resp, st1)
       else
     sbind (pure (deref (s_heap st1) (lo_dir lo))) (\<lambda>(i, _).
     sbind (call (kv_gets (hd_link hn) [] (hd_usr hn) (int_str i))) (\<lambda>(ret, content).
       if ret \<noteq> 0 then sret (failed (''Failed to retrieve content for file '' @ fp) resp, st1)
       else sret ((PopulateSuccessResp (hd_usr hn) resp)\<lparr>sv_body := File_download content\<rparr>, st1))))"

fun subfolders :: "heap \<Rightarrow> (string \<times> int option) list \<Rightarrow> int list res" where
  "subfolders h [] = Inr []"
| "subfolders h ((name, p) # es) =
     rbind (deref h p) (\<lambda>(i, d). rbind (subfolders h es) (\<lambda>is. Inr (if d_file d then is else i # is)))"

text \<open>One folder of the queue: what it adds to the answer and to the queue.\<close>

definition movable_step :: "iter \<Rightarrow> heap \<Rightarrow> located \<Rightarrow> int \<Rightarrow> ((string \<times> bool) list \<times> int list) res" where
  "movable_step iter h lo cur =
     rbind (deref h (lo_dir lo)) (\<lambda>(i, d).
       if \<not> d_file d \<and> i = cur then Inr ([], [])
       else rbind (deref h (Some cur)) (\<lambda>(_, c).
         rbind (if lo_parent lo = Some cur then Inr [] else rbind (Path h cur) (\<lambda>fp. Inr [(fp, True)])) (\<lambda>xs.
         rbind (subfolders h (iter (d_entries c))) (\<lambda>is. Inr (xs, is)))))"

partial_function (option) movable_loop :: "iter \<Rightarrow> heap \<Rightarrow> located \<Rightarrow> int list \<Rightarrow> (string \<times> bool) list \<Rightarrow>
    (string \<times> bool) list res option" where
  "movable_loop iter h lo queue acc =
     (case queue of
        [] \<Rightarrow> Some (Inr acc)
      | cur # queue' \<Rightarrow>
          (case movable_step iter h lo cur of
             Inl e \<Rightarrow> Some (Inl e)
           | Inr (xs, is) \<Rightarrow> movable_loop iter h lo (queue' @ is) (acc @ xs)))"

declare movable_loop.simps [code]

definition HandleQueryAllMovableDir :: "('m, 's) handler \<Rightarrow> string \<Rightarrow> storage_resp \<Rightarrow> storage \<Rightarrow>
    (storage_resp \<times> storage, 's) prog" where
  "HandleQueryAllMovableDir hn path resp st =
     sbind (pure (root_ptr st)) (\<lambda>r.
     sbind (pure (ValidatePathAndGetDir path st)) (\<lambda>(lo, st1).
       if \<not> lo_ok lo then sret (failed (''Failed to find file '' @ path) (resp\<lparr>sv_username := Some (hd_usr hn)\<rparr>), st1)
       else
     sbind (pure_loop (movable_loop (hd_iter hn) (s_heap st1) lo [r] [])) (\<lambda>dirs.
       sret (resp\<lparr>sv_username := Some (hd_usr hn), sv_status := Some SUCCESS, sv_body := Movable_dirs dirs\<rparr>, st1))))"

section \<open>Requests\<close>

definition invalid_request :: storage_resp where
  "invalid_request = failed ''Invalid request.'' cleared"

definition HandleRequest :: "('m, 's) handler \<Rightarrow> storage_type \<Rightarrow> storage_request \<Rightarrow> storage \<Rightarrow> (storage_resp \<times> storage, 's) prog" where
  "HandleRequest hn type req st =
     (let n = Suc kMaxAttempt; resp = invalid_request in
      case (type, req) of
        (FILE_UPLOAD, File_upload_req _ _) \<Rightarrow> HandleCreationAndQuery hn n type req resp st
      | (FILE_DOWNLOAD, File_download_req fp) \<Rightarrow> HandleFileDownload hn fp resp st
      | (FILE_RENAME, Rename_req p m) \<Rightarrow> HandleRename hn n p m resp st
      | (DIR_RENAME, Rename_req p m) \<Rightarrow> HandleRename hn n p m resp st
      | (FILE_DELE, Delete_req p) \<Rightarrow> HandleDelete hn (hd_fuel hn) (int kMaxAttempt) False p resp st
      | (DIR_DELE, Delete_req p) \<Rightarrow> HandleDelete hn (hd_fuel hn) (int kMaxAttempt) False p resp st
      | (DIR_QUERY, Dir_create_or_query_req _) \<Rightarrow> HandleCreationAndQuery hn n type req resp st
      | (DIR_CREATE, Dir_create_or_query_req _) \<Rightarrow> HandleCreationAndQuery hn n type req resp st
      | (FILE_MOVE, Move_req p d) \<Rightarrow> HandleMove hn n p d resp st
      | (DIR_MOVE, Move_req p d) \<Rightarrow> HandleMove hn n p d resp st
      | (QUERY_ALL_DIR, Query_all_file_to_move p) \<Rightarrow> HandleQueryAllMovableDir hn p resp st
      | _ \<Rightarrow> sret (resp, st))"

definition InitializeHandler :: "('m, 's) handler \<Rightarrow> storage_resp \<Rightarrow> (bool \<times> storage_resp \<times> storage, 's) prog" where
  "InitializeHandler hn resp =
     sbind (ReadMetadata hn new_storage) (\<lambda>(ok, st).
       sret (ok, if ok then resp else failed (''Failed to initialize storage service for user '' @ hd_usr hn) resp, st))"

text \<open>A request with a handler of its own.\<close>

definition with_handler :: "('m, 's) handler \<Rightarrow> storage_type \<Rightarrow> storage_request \<Rightarrow> (storage_resp, 's) prog" where
  "with_handler hn type req =
     sbind (InitializeHandler hn cleared) (\<lambda>(ok, resp, st).
       if \<not> ok then sret resp else sbind (HandleRequest hn type req st) (\<lambda>(resp1, _). sret resp1))"

definition create_or_query_dir :: "('m, 's) handler \<Rightarrow> storage_type \<Rightarrow> string \<Rightarrow> (storage_resp, 's) prog" where
  "create_or_query_dir hn type fp = with_handler hn type (Dir_create_or_query_req fp)"

definition rename_file_or_dir :: "('m, 's) handler \<Rightarrow> storage_type \<Rightarrow> string \<Rightarrow> string \<Rightarrow> (storage_resp, 's) prog" where
  "rename_file_or_dir hn type old_fp new_name = with_handler hn type (Rename_req old_fp new_name)"

definition move_file_or_dir :: "('m, 's) handler \<Rightarrow> storage_type \<Rightarrow> string \<Rightarrow> string \<Rightarrow> (storage_resp, 's) prog" where
  "move_file_or_dir hn type old_fp new_dir = with_handler hn type (Move_req old_fp new_dir)"

definition delete_file_or_dir :: "('m, 's) handler \<Rightarrow> storage_type \<Rightarrow> string \<Rightarrow> (storage_resp, 's) prog" where
  "delete_file_or_dir hn type fp = with_handler hn type (Delete_req fp)"

definition upload_file :: "('m, 's) handler \<Rightarrow> string \<Rightarrow> string \<Rightarrow> (storage_resp, 's) prog" where
  "upload_file hn fp content = with_handler hn FILE_UPLOAD (File_upload_req fp content)"

definition download_file :: "('m, 's) handler \<Rightarrow> string \<Rightarrow> (storage_resp, 's) prog" where
  "download_file hn fp = with_handler hn FILE_DOWNLOAD (File_download_req fp)"

definition query_movable_dir :: "('m, 's) handler \<Rightarrow> string \<Rightarrow> (storage_resp, 's) prog" where
  "query_movable_dir hn fp = with_handler hn QUERY_ALL_DIR (Query_all_file_to_move fp)"

text \<open>\<open>storage_interface.h\<close>.\<close>

definition create_dir_at :: "('m, 's) handler \<Rightarrow> string \<Rightarrow> (storage_resp, 's) prog" where
  "create_dir_at hn fp = create_or_query_dir hn DIR_CREATE fp"

definition query_dir :: "('m, 's) handler \<Rightarrow> string \<Rightarrow> (storage_resp, 's) prog" where
  "query_dir hn fp = create_or_query_dir hn DIR_QUERY fp"

definition query_rootdir :: "('m, 's) handler \<Rightarrow> (storage_resp, 's) prog" where
  "query_rootdir hn = create_or_query_dir hn DIR_QUERY ''/''"

definition rename_file :: "('m, 's) handler \<Rightarrow> string \<Rightarrow> string \<Rightarrow> (storage_resp, 's) prog" where
  "rename_file hn fp new_name = rename_file_or_dir hn FILE_RENAME fp new_name"

definition rename_dir :: "('m, 's) handler \<Rightarrow> string \<Rightarrow> string \<Rightarrow> (storage_resp, 's) prog" where
  "rename_dir hn fp new_name = rename_file_or_dir hn DIR_RENAME fp new_name"

definition move_file :: "('m, 's) handler \<Rightarrow> string \<Rightarrow> string \<Rightarrow> (storage_resp, 's) prog" where
  "move_file hn fp new_dir = move_file_or_dir hn FILE_MOVE fp new_dir"

definition move_dir :: "('m, 's) handler \<Rightarrow> string \<Rightarrow> string \<Rightarrow> (storage_resp, 's) prog" where
  "move_dir hn fp new_dir = move_file_or_dir hn DIR_MOVE fp new_dir"

definition delete_file :: "('m, 's) handler \<Rightarrow> string \<Rightarrow> (storage_resp, 's) prog" where
  "delete_file hn fp = delete_file_or_dir hn FILE_DELE fp"

definition delete_dir :: "('m, 's) handler \<Rightarrow> string \<Rightarrow> (storage_resp, 's) prog" where
  "delete_dir hn fp = delete_file_or_dir hn DIR_DELE fp"

end
