(* ===== verification/Web_Request.thy ===== *)
theory Web_Request
  imports Webmail Http_Operation
begin

text \<open>
  What the handlers of the web server share: responses and the files of the server, requests as they are read from a connection
  (\<open>frontend/request.h\<close>), and the metadata of a new user (\<open>initialize_usr\<close> of \<open>frontend/reply.h\<close>).
\<close>

section \<open>Responses\<close>

text \<open>\<open>std::map\<close>: pairs in the order of the keys, compared as bytes.\<close>

fun str_less :: "string \<Rightarrow> string \<Rightarrow> bool" where
  "str_less s [] = False"
| "str_less [] (d # ds) = True"
| "str_less (c # cs) (d # ds) =
     (if (of_char c :: nat) < of_char d then True else if c = d then str_less cs ds else False)"

fun put_header :: "string \<Rightarrow> string \<Rightarrow> (string \<times> string) list \<Rightarrow> (string \<times> string) list" where
  "put_header k v [] = [(k, v)]"
| "put_header k v ((k', v') # hs) =
     (if k = k' then (k, v) # hs else if str_less k k' then (k, v) # (k', v') # hs
      else (k', v') # put_header k v hs)"

record response =
  rs_status :: string
  rs_headers :: "(string \<times> string) list"
  rs_body :: string

definition empty_response :: response where
  "empty_response = \<lparr>rs_status = [], rs_headers = [], rs_body = []\<rparr>"

definition response_string :: "response \<Rightarrow> string" where
  "response_string r =
     '' '' @ rs_status r @ crlf @
     concat (map (\<lambda>(k, v). k @ v @ crlf) (put_header ''Connection: '' ''close'' (rs_headers r))) @ crlf @ rs_body r"

definition CONTENT_TYPE :: string where "CONTENT_TYPE = ''Content-Type: ''"
definition CONTENT_LEN :: string where "CONTENT_LEN = ''Content-Length: ''"
definition SET_COOKIE :: string where "SET_COOKIE = ''Set-Cookie: ''"
definition OK :: string where "OK = ''200 OK''"
definition REDIRECT :: string where "REDIRECT = ''302 Found''"
definition ABSOLUTE_DIR :: string where "ABSOLUTE_DIR = ''/home/cis5050/git/T01/frontend''"

text \<open>\<open>pages\<close> are the files of the web server; a file that is not there reads as the empty text.\<close>

type_synonym pages = "string \<Rightarrow> string option"

definition page_text :: "pages \<Rightarrow> string \<Rightarrow> string" where
  "page_text pages path = (case pages path of None \<Rightarrow> [] | Some t \<Rightarrow> t)"

definition load_content :: "pages \<Rightarrow> string \<Rightarrow> string \<Rightarrow> string \<Rightarrow> response \<Rightarrow> response" where
  "load_content pages status type path r =
     (let body = page_text pages path in
      r\<lparr>rs_status := status, rs_body := body,
        rs_headers := put_header CONTENT_LEN (nat_str (length body)) (put_header CONTENT_TYPE type (rs_headers r))\<rparr>)"

definition set_body :: "string \<Rightarrow> response \<Rightarrow> response" where
  "set_body body r =
     r\<lparr>rs_body := body, rs_headers := put_header CONTENT_LEN (nat_str (length body)) (rs_headers r)\<rparr>"

definition redirect_to :: "int \<Rightarrow> string \<Rightarrow> response \<Rightarrow> response" where
  "redirect_to port path r =
     r\<lparr>rs_status := REDIRECT,
       rs_body := ''HTTP/1.1 302 Found'' @ crlf @ ''Location: http://localhost:'' @ int_str port @ path @ crlf @ crlf\<rparr>"

section \<open>Requests\<close>

text \<open>\<open>content_length_\<close> has no initial value: \<open>None\<close> until a header sets it.\<close>

record request =
  rq_username :: string
  rq_method :: string
  rq_path :: string
  rq_version :: string
  rq_cookies :: "(string, string) cmap"
  rq_length :: "64 word option"
  rq_body :: string

definition empty_request :: request where
  "empty_request = \<lparr>rq_username = [], rq_method = [], rq_path = [], rq_version = [], rq_cookies = [],
     rq_length = None, rq_body = []\<rparr>"

definition add_cookie :: "string \<Rightarrow> (string, string) cmap \<Rightarrow> (string, string) cmap" where
  "add_cookie pair m = (case split pair (CHR ''='') of [k, v] \<Rightarrow> AList.update k v m | _ \<Rightarrow> m)"

definition header_line :: "string \<Rightarrow> request \<Rightarrow> request" where
  "header_line line rq =
     (if take 8 line = ''Cookie: '' then
        rq\<lparr>rq_cookies := fold add_cookie (split (drop 8 line) (CHR '';'')) (rq_cookies rq)\<rparr>
      else if take 16 line = ''Content-Length: '' then
        rq\<lparr>rq_length := Some (word_of_int (atoi (drop 16 line)))\<rparr>
      else rq)"

lemma http_loop_less:
  "http_read_line_loop st line sock = (ok, l, sock') \<Longrightarrow> length (concat sock') \<le> length (concat sock)"
proof (induction st line sock arbitrary: ok l sock' rule: http_read_line_loop.induct)
  case (1 st line sock)
  show ?case
  proof (cases "st = 2 \<or> read_char sock = None")
    case True
    then show ?thesis
      using "1.prems" by (subst (asm) http_read_line_loop.simps) (auto split: if_splits)
  next
    case False
    then obtain c s where c: "read_char sock = Some (c, s)" "st \<noteq> 2"
      by auto
    let ?st = "if st = 0 then if c = CHR 0x0D then 1 else 0 else if c = CHR 0x0A then 2 else 0"
    have "http_read_line_loop st line sock = http_read_line_loop ?st (line @ [c]) s"
      using c by (subst http_read_line_loop.simps) simp
    then have "length (concat sock') \<le> length (concat s)"
      using "1.prems" "1.IH" [OF c(2,1) refl refl, of ok l sock'] by simp
    then show ?thesis
      using read_char_Some [OF c(1)] by simp
  qed
qed

lemma http_read_line_less:
  assumes "http_read_line sock = (True, line, sock')"
  shows "length (concat sock') < length (concat sock)"
proof (cases "read_char sock")
  case None
  then show ?thesis
    using assms by (simp add: http_read_line_def http_read_line_loop.simps)
next
  case (Some p)
  obtain c s where p: "p = (c, s)" by (cases p)
  have "length (concat sock') \<le> length (concat s)"
    using assms Some p http_loop_less unfolding http_read_line_def
    by (subst (asm) http_read_line_loop.simps) (auto split: if_splits)
  then show ?thesis
    using read_char_Some [OF Some [unfolded p]] by simp
qed

text \<open>The loop over the lines; it looks at the request line, too.\<close>

function headers_loop :: "string \<Rightarrow> request \<Rightarrow> string list \<Rightarrow> bool \<times> request \<times> string list" where
  "headers_loop line rq sock =
     (if line \<noteq> [] then
        (let rq1 = header_line line rq in
         case http_read_line sock of
           (True, line1, sock1) \<Rightarrow> headers_loop line1 rq1 sock1
         | (False, _, sock1) \<Rightarrow> (False, rq1, sock1))
      else (True, rq, sock))"
  by pat_completeness auto
termination
  by (relation "measure (\<lambda>(line, rq, sock). length (concat sock))") (auto dest: http_read_line_less [OF sym])

declare headers_loop.simps [simp del]

type_synonym sessions = "(64 word, string) cmap"

text \<open>
  The body.  \<open>new char [content_length_ + 1]\<close> raises for the numbers a negative length is converted to, except for
  2^64 - 1: the buffer then has no bytes, and whatever arrives is written past it.
\<close>

definition read_body :: "request \<Rightarrow> string list \<Rightarrow> (bool \<times> request) res \<times> string list" where
  "read_body rq sock =
     (if rq_method rq \<noteq> ''POST'' then (Inr (True, rq), sock)
      else case rq_length rq of
          None \<Rightarrow> (Inl Undefined, sock)
        | Some n \<Rightarrow>
            if n = 0 then (Inr (True, rq), sock)
            else if n = - 1 then (if concat sock = [] then Inr (False, rq) else Inl Undefined, sock)
            else if 2 ^ 63 \<le> n + 1 then (Inl Length_error, sock)
            else (case tcp_read (unat n) sock of
                (True, body, sock1) \<Rightarrow> (Inr (True, rq\<lparr>rq_body := body\<rparr>), sock1)
              | (False, _, sock1) \<Rightarrow> (Inr (False, rq), sock1)))"

definition find_session :: "sessions \<Rightarrow> request \<Rightarrow> request res" where
  "find_session ss rq =
     (case map_of (rq_cookies rq) ''sessionid'' of
        None \<Rightarrow> Inr rq
      | Some v \<Rightarrow> rbind (stoull v) (\<lambda>n.
          Inr (rq\<lparr>rq_username := (case map_of ss (word_of_nat n) of None \<Rightarrow> [] | Some u \<Rightarrow> u)\<rparr>)))"

definition http_read :: "sessions \<Rightarrow> string list \<Rightarrow> (bool \<times> request) res \<times> string list" where
  "http_read ss sock =
     (case http_read_line sock of
        (False, _, sock1) \<Rightarrow> (Inr (False, empty_request), sock1)
      | (True, line, sock1) \<Rightarrow>
          (case split line (CHR '' '') of
             [m, p, v] \<Rightarrow>
               (case headers_loop line (empty_request\<lparr>rq_method := m, rq_path := p, rq_version := v\<rparr>) sock1 of
                  (False, rq, sock2) \<Rightarrow> (Inr (False, rq), sock2)
                | (True, rq, sock2) \<Rightarrow>
                    (case find_session ss rq of
                       Inl e \<Rightarrow> (Inl e, sock2)
                     | Inr rq1 \<Rightarrow> read_body rq1 sock2))
           | _ \<Rightarrow> (Inr (False, empty_request), sock1)))"

section \<open>Texts and forms\<close>

definition vec_at :: "'a list \<Rightarrow> nat \<Rightarrow> 'a res" where
  "vec_at xs i = (if i < length xs then Inr (xs ! i) else Inl Out_of_range)"

definition vec_get :: "'a list \<Rightarrow> nat \<Rightarrow> 'a res" where
  "vec_get xs i = (if i < length xs then Inr (xs ! i) else Inl Undefined)"

definition cstr :: "string \<Rightarrow> string" where
  "cstr s = takeWhile (\<lambda>c. c \<noteq> CHR 0x00) s"

definition html :: "string \<Rightarrow> string" where
  "html p = ABSOLUTE_DIR @ ''/html'' @ p"

definition contains :: "string \<Rightarrow> string \<Rightarrow> bool" where
  "contains s p = (find_str p s \<noteq> None)"

section \<open>New users\<close>

definition initialize_usr :: "('m, 's) route \<Rightarrow> string \<Rightarrow> 's \<Rightarrow> bool \<times> 's" where
  "initialize_usr route usr s =
     (case route usr of
        None \<Rightarrow> (False, s)
      | Some l \<Rightarrow>
          (case kv_puts l usr ''storage_metadata''
                  (''Latest ID: 1'' @ [nl] @ ''Root folder: /'' @ usr @ '' ID 1 Items 0'' @ [nl]) s of
             (ret, s1) \<Rightarrow> (ret \<ge> 0, s1)))"

end
