(* ===== verification/Storage_Pages.thy ===== *)
theory Storage_Pages
  imports Storage Web_Request
begin

text \<open>
  \<open>frontend/storage_reply.h\<close>: the pages of the file storage service.  A form is read from the text of its request with regular
  expressions; the answer to a change is the list of the files in the folder of the request.
\<close>

section \<open>The connection to the user's backend\<close>

text \<open>
  What the storage pages use of the site: the way to the backend of a user, the files of the server, the order of unordered maps, the
  number of a new descriptor, and the bound for nested deletions.
\<close>

record ('m, 's) store_site =
  st_route :: "('m, 's) route"
  st_pages :: pages
  st_iter :: iter
  st_fd :: int
  st_fuel :: nat

text \<open>Without a backend the descriptor is -1, and whatever is written to it fails.\<close>

definition closed_link :: "('m, 's) link" where
  "closed_link = \<lparr>l_ser = (\<lambda>_. None), l_xchg = (\<lambda>_ s. (None, s)), l_parse = (\<lambda>_. None)\<rparr>"

definition connect_drive :: "('m, 's, 'x) store_site_scheme \<Rightarrow> string \<Rightarrow> ('m, 's) handler" where
  "connect_drive st usr =
     (case st_route st usr of
        None \<Rightarrow> \<lparr>hd_iter = st_iter st, hd_link = closed_link, hd_usr = usr, hd_fd = -1, hd_fuel = st_fuel st\<rparr>
      | Some l \<Rightarrow> \<lparr>hd_iter = st_iter st, hd_link = l, hd_usr = usr, hd_fd = st_fd st, hd_fuel = st_fuel st\<rparr>)"

section \<open>Names and uploaded files\<close>

definition valid_char :: "char \<Rightarrow> bool" where
  "valid_char c =
     (let n = (of_char c :: nat) in
      if n \<le> 0x20 \<or> 0x7E < n then False else alpha c \<or> is_digit c \<or> c \<in> set ''.-_'')"

definition valid_filename :: "string \<Rightarrow> bool" where
  "valid_filename name = list_all valid_char name"

text \<open>
  The file is what stands between the first empty line and the last carriage return that leaves six bytes for the end of
  the closing boundary.  \<open>npos + 4\<close> is 3, and the size minus 6 is stored in an \<open>int\<close>.
\<close>

definition get_file_content :: "string \<Rightarrow> string res" where
  "get_file_content body =
     rbind (substr_from body (case find_str (crlf @ crlf) body of None \<Rightarrow> 3 | Some i \<Rightarrow> i + 4)) (\<lambda>t.
       let i = sint (word_of_int (int (length t) - 6) :: 32 word) in
       Inr (case find_last_char (CHR 0x0D) (take (nat (i + 1)) t) of None \<Rightarrow> t | Some j \<Rightarrow> take j t))"

text \<open>What stands between the first and the last quote of a text.\<close>

definition inside_quotes :: "string \<Rightarrow> string res" where
  "inside_quotes s =
     (case (find_char (CHR 0x22) s, find_last_char (CHR 0x22) s) of
        (Some i, Some j) \<Rightarrow> if i < j then substr s (i + 1) (j - i - 1) else substr_from s (i + 1)
      | _ \<Rightarrow> Inr s)"

definition get_file_name :: "string \<Rightarrow> string res" where
  "get_file_name body =
     rbind (vec_at (split body (CHR 0x0D)) 1) (\<lambda>line.
     rbind (vec_at (split line (CHR '';'')) 2) inside_quotes)"

section \<open>The list of a folder\<close>

text \<open>
  What follows the name of the user in a path.  \<open>npos\<close> plus the length of the name wraps around.
\<close>

definition after_user :: "string \<Rightarrow> string \<Rightarrow> string res" where
  "after_user usr name =
     substr_from name (case find_str usr name of None \<Rightarrow> (2 ^ 64 - 1 + length usr) mod 2 ^ 64 | Some i \<Rightarrow> i + length usr)"

definition last_part :: "string \<Rightarrow> string" where
  "last_part name = (case find_last_char (CHR ''/'') name of None \<Rightarrow> name | Some i \<Rightarrow> drop (i + 1) name)"

definition dir_entries :: "storage_resp \<Rightarrow> (string \<times> bool) list" where
  "dir_entries resp = (case sv_body resp of Dir_info _ es \<Rightarrow> es | _ \<Rightarrow> [])"

definition movable_entries :: "storage_resp \<Rightarrow> (string \<times> bool) list" where
  "movable_entries resp = (case sv_body resp of Movable_dirs es \<Rightarrow> es | _ \<Rightarrow> [])"

fun move_options :: "string \<Rightarrow> (string \<times> bool) list \<Rightarrow> string res" where
  "move_options usr [] = Inr []"
| "move_options usr ((name, _) # es) =
     rbind (after_user usr name) (\<lambda>p.
     rbind (move_options usr es) (\<lambda>t.
       Inr ((if p = [] then [] else ''<option value=\"'' @ p @ ''\">'' @ p @ ''</option>'') @ t)))"

definition DOWNLOADBUTTON :: string where
  "DOWNLOADBUTTON = ''<button type=\"submit\" class=\"dropdown-item\" value=\"$foldername\" name=\"download\" href = \"/file$current_folder\">Download</button>''"

text \<open>One entry: its path below the root, its full path and kind.\<close>

definition file_item :: "pages \<Rightarrow> string \<Rightarrow> nat \<Rightarrow> string \<Rightarrow> string \<times> bool \<Rightarrow> string" where
  "file_item pages current_dir idx folder_path e =
     (let s = replace (page_text pages (html ''/one_file.html'')) ''$foldername'' folder_path;
          s = replace s ''$index'' (nat_str idx);
          s = replace s ''$filename'' (last_part (fst e));
          s = replace s ''$current_folder'' current_dir;
          button = replace (replace DOWNLOADBUTTON ''$foldername'' folder_path) ''$current_folder'' current_dir
      in if snd e then replace (replace s ''$filetype'' ''folder'') button []
         else replace s ''$filetype'' ''file'')"

fun file_items :: "pages \<Rightarrow> ('m, 's) handler \<Rightarrow> string \<Rightarrow> nat \<Rightarrow> (string \<times> bool) list \<Rightarrow> (string, 's) prog" where
  "file_items pages hn current_dir idx [] = sret []"
| "file_items pages hn current_dir idx (e # es) =
     sbind (pure (after_user (hd_usr hn) (fst e))) (\<lambda>folder_path.
     sbind (query_movable_dir hn folder_path) (\<lambda>movable_resp.
     sbind (pure (move_options (hd_usr hn) (movable_entries movable_resp))) (\<lambda>options.
     sbind (file_items pages hn current_dir (idx + 1) es) (\<lambda>rest.
       sret (replace (file_item pages current_dir idx folder_path e) ''$optionholder'' options @ rest)))))"

definition folder_page :: "pages \<Rightarrow> string \<Rightarrow> string \<Rightarrow> string" where
  "folder_page pages req_path current_dir =
     (let upper_dir = (case find_last_char (CHR ''/'') req_path of None \<Rightarrow> req_path | Some i \<Rightarrow> take i req_path) in
      replace (replace (page_text pages (html ''/file.html'')) ''$upperdir'' upper_dir) ''$current_folder'' current_dir)"

definition display_files :: "pages \<Rightarrow> ('m, 's) handler \<Rightarrow> string \<Rightarrow> response \<Rightarrow> (response, 's) prog" where
  "display_files pages hn req_path r =
     (let current_dir = (if 5 < length req_path then drop 5 req_path else ''/'') in
     sbind (query_dir hn current_dir) (\<lambda>resp.
     sbind (if resp_status resp = SUCCESS then file_items pages hn current_dir 1 (dir_entries resp) else sret []) (\<lambda>items.
       sret (set_body (replace (folder_page pages req_path current_dir) ''$one_file_class'' items) r))))"

section \<open>Forms\<close>

definition type_regex :: "string \<Rightarrow> re" where
  "type_regex action = Seq (Lit action) (Grp (Alt (Lit ''file'') (Lit ''folder'')))"

definition kRenameRegex :: re where
  "kRenameRegex = seqs [type_regex ''rename'', Grp (Seq (Opt (Lit ''/'')) (Many name_char)), Lit ''='', Grp (Many name_char)]"

definition kNewfolderRegex :: re where
  "kNewfolderRegex = seqs [Lit ''newfolder='', Grp (Many name_char)]"

definition kMoveRegex :: re where
  "kMoveRegex = seqs [type_regex ''move'', Grp (Seq (Opt (Lit ''/'')) (Many name_char)), Lit ''='', Grp (Many name_char)]"

definition kDeleteRegex :: re where
  "kDeleteRegex = seqs [type_regex ''delete'', Lit ''='', Grp (Many name_char)]"

definition kDownloadRegex :: re where
  "kDownloadRegex = seqs [Lit ''download='', Grp (Many name_char)]"

definition CONTENT_DISPOSITION :: string where "CONTENT_DISPOSITION = ''Content-Disposition: ''"

definition file_error :: "pages \<Rightarrow> string \<Rightarrow> response \<Rightarrow> response" where
  "file_error pages err r =
     (let r1 = load_content pages OK ''text/html'' (html ''/file_err.html'') r in
      r1\<lparr>rs_body := replace (rs_body r1) ''$error'' err\<rparr>)"

text \<open>The answer to a change.\<close>

definition show_changed :: "pages \<Rightarrow> ('m, 's) handler \<Rightarrow> string \<Rightarrow> string \<Rightarrow> response \<Rightarrow> storage_resp \<Rightarrow> (response, 's) prog" where
  "show_changed pages hn req_path err r resp =
     (if resp_status resp = SUCCESS then display_files pages hn req_path r else sret (file_error pages err r))"

definition new_path :: "string \<Rightarrow> string \<Rightarrow> string res" where
  "new_path req_path name =
     (if req_path = [] then Inl Out_of_range
      else rbind (substr_from req_path 5) (\<lambda>p. Inr (if last req_path = CHR ''/'' then p @ name else p @ ''/'' @ name)))"

definition new_folder :: "pages \<Rightarrow> ('m, 's) handler \<Rightarrow> string \<Rightarrow> string \<Rightarrow> response \<Rightarrow> (response, 's) prog" where
  "new_folder pages hn req_path name r =
     sbind (pure (new_path req_path name)) (\<lambda>foldername.
       if valid_filename name then
         sbind (create_dir_at hn foldername) (show_changed pages hn req_path ''CANNOT CREATE FOLDER'' r)
       else sret (file_error pages ''INVALID NAME'' r))"

definition new_file :: "pages \<Rightarrow> ('m, 's) handler \<Rightarrow> string \<Rightarrow> string \<Rightarrow> string \<Rightarrow> response \<Rightarrow> (response, 's) prog" where
  "new_file pages hn req_path body raw r =
     (let prefix = (if 6 < length req_path then ''/'' @ drop 6 req_path @ ''/'' else []) in
     sbind (pure (get_file_name body)) (\<lambda>filename.
     sbind (pure (get_file_content raw)) (\<lambda>content.
       if valid_filename filename then
         sbind (upload_file hn (prefix @ filename) content) (show_changed pages hn req_path ''CANNOT UPLOAD FILE'' r)
       else sret (file_error pages ''FILE NAME INVALID'' r))))"

definition download_type :: "string \<Rightarrow> string" where
  "download_type name =
     (if contains name ''jpeg'' \<or> contains name ''jpg'' then ''image/jpeg''
      else if contains name ''png'' then ''image/png''
      else if contains name ''pdf'' then ''application/pdf''
      else ''text/plain'')"

definition file_download :: "storage_resp \<Rightarrow> string" where
  "file_download resp = (case sv_body resp of File_download c \<Rightarrow> c | _ \<Rightarrow> [])"

definition send_file :: "pages \<Rightarrow> ('m, 's) handler \<Rightarrow> string \<Rightarrow> string \<Rightarrow> response \<Rightarrow> (response, 's) prog" where
  "send_file pages hn body path r =
     (let name = last_part body;
          r1 = r\<lparr>rs_headers := put_header CONTENT_DISPOSITION (''attachment; filename='' @ name @ '';'')
                 (put_header CONTENT_TYPE (download_type name) (rs_headers r))\<rparr> in
      sbind (download_file hn path) (\<lambda>resp.
        sret (if resp_status resp = SUCCESS then set_body (file_download resp) r1 else file_error pages ''DOWNLOAD FAILED'' r1)))"

text \<open>The kind of a form is that of the first expression that is found in its text; \<open>raw\<close> is the text before it is decoded.\<close>

definition storage_post :: "pages \<Rightarrow> ('m, 's) handler \<Rightarrow> string \<Rightarrow> string \<Rightarrow> response \<Rightarrow> (response, 's) prog" where
  "storage_post pages hn req_path raw r =
     (let body = http_parse raw in
      case regex_search kNewfolderRegex body of
        Some (m, _) \<Rightarrow> new_folder pages hn req_path (m ! 0) r
      | None \<Rightarrow>
      if contains body ''name=\"uploadfile\"'' then new_file pages hn req_path body raw r
      else case regex_search kRenameRegex body of
        Some (m, _) \<Rightarrow>
          sbind (if m ! 0 = ''folder'' then rename_dir hn (m ! 1) (m ! 2) else rename_file hn (m ! 1) (m ! 2))
            (show_changed pages hn req_path ''RENAME FAILED'' r)
      | None \<Rightarrow>
      case regex_search kMoveRegex body of
        Some (m, _) \<Rightarrow>
          sbind (if m ! 0 = ''file'' then move_file hn (m ! 1) (m ! 2) else move_dir hn (m ! 1) (m ! 2))
            (show_changed pages hn req_path ''MOVE FAILED'' r)
      | None \<Rightarrow>
      case regex_search kDeleteRegex body of
        Some (m, _) \<Rightarrow>
          sbind (if m ! 0 = ''folder'' then delete_dir hn (m ! 1) else delete_file hn (m ! 1))
            (show_changed pages hn req_path ''DELETE FAILED'' r)
      | None \<Rightarrow>
      case regex_search kDownloadRegex body of
        Some (m, _) \<Rightarrow> send_file pages hn body (m ! 0) r
      | None \<Rightarrow> sret r)"

definition storage_handler :: "('m, 's, 'x) store_site_scheme \<Rightarrow> request \<Rightarrow> (response, 's) prog" where
  "storage_handler st rq =
     (let hn = connect_drive st (rq_username rq);
          r = empty_response\<lparr>rs_status := OK, rs_headers := [(CONTENT_TYPE, ''text/html'')]\<rparr> in
      if rq_method rq = ''GET'' then display_files (st_pages st) hn (rq_path rq) r
      else if rq_method rq = ''POST'' then storage_post (st_pages st) hn (rq_path rq) (rq_body rq) r
      else sret r)"

end
