(* ===== verification/Web.thy ===== *)
theory Web
  imports Storage_Pages
begin

text \<open>
  The web server (\<open>frontend/reply.h\<close>, \<open>frontend/email_reply.h\<close>): sessions, the pages for accounts and mail, and the choice of the
  handler.
\<close>

section \<open>The state of the server and its surroundings\<close>

text \<open>
  \<open>w_random\<close>: the numbers that the generator will return; \<open>w_deleted\<close>: the static variable \<open>to_be_deleted\<close>, which
  all sessions share; \<open>w_store\<close> and \<open>w_net\<close>: the storage nodes and the internet.
\<close>

record ('s, 'r) world =
  w_sessions :: sessions
  w_random :: "64 word list"
  w_deleted :: int
  w_store :: 's
  w_net :: 'r

record ('m, 's, 'r) site = "('m, 's) store_site" +
  st_net :: "'r net"
  st_port :: int
  st_now :: "nat \<Rightarrow> string"
  st_retries :: nat

text \<open>
  A handler; \<open>None\<close>: the retries of a mailbox, the nested deletions or the random numbers were not enough, or a loop of the storage
  service does not end.
\<close>

type_synonym ('s, 'r) outcome = "(response res \<times> ('s, 'r) world) option"

definition form_field :: "string \<Rightarrow> nat \<Rightarrow> string res" where
  "form_field body i = rbind (vec_at (split (cstr body) (CHR ''&'')) i) (\<lambda>p. vec_at (split p (CHR ''='')) 1)"

fun draw :: "64 word list \<Rightarrow> sessions \<Rightarrow> (64 word \<times> 64 word list) option" where
  "draw [] ss = None"
| "draw (n # ns) ss = (if map_of ss n = None then Some (n, ns) else draw ns ss)"

definition create_cookie :: "string \<Rightarrow> ('s, 'r) world \<Rightarrow> (64 word \<times> ('s, 'r) world) option" where
  "create_cookie username w =
     (let ss = (if length (w_sessions w) > 1000 then [] else w_sessions w) in
      case draw (w_random w) ss of
        None \<Rightarrow> None
      | Some (n, ns) \<Rightarrow> Some (n, w\<lparr>w_sessions := AList.update n username ss, w_random := ns\<rparr>))"

definition err_mp :: "int \<Rightarrow> string" where
  "err_mp e =
     (if e = LINK_ERR then ''CONNECTION ERROR'' else if e = kv_code USER_ERROR then ''USER DOES NOT EXIST''
      else if e = kv_code KEY_ERROR then ''ITEM DOES NOT EXIST'' else if e = kv_code VALUE_ERROR then ''VALUE EXISTED''
      else if e = WRONG_PASS_ERR then ''WRONG PASSWORD'' else if e = INVALID_NAME_ERR then ''INVALID USERNAME''
      else if e = kv_code SEQ_ERROR then ''TRANSACTION FAILED'' else [])"

definition error_page :: "pages \<Rightarrow> string \<Rightarrow> string \<Rightarrow> response \<Rightarrow> response" where
  "error_page pages err back r =
     (let r1 = load_content pages OK ''text/html'' (html ''/error_msg.html'') r in
      r1\<lparr>rs_body := replace (replace (rs_body r1) ''$error'' err) ''$redirect_path'' back\<rparr>)"

section \<open>Accounts\<close>

definition login_handler :: "('m, 's, 'r) site \<Rightarrow> request \<Rightarrow> ('s, 'r) world \<Rightarrow> ('s, 'r) outcome" where
  "login_handler st rq w =
     (if rq_method rq = ''GET'' then
        Some (Inr (load_content (st_pages st) OK ''text/html'' (html ''/login.html'') empty_response), w)
      else if rq_method rq = ''POST'' then
        (case rbind (form_field (rq_body rq) 0) (\<lambda>u. rbind (form_field (rq_body rq) 1) (\<lambda>p. Inr (u, p))) of
           Inl e \<Rightarrow> Some (Inl e, w)
         | Inr (username, password) \<Rightarrow>
             (case sign_in (st_route st) username password (w_store w) of
                (ret, s1) \<Rightarrow>
                  (let w1 = w\<lparr>w_store := s1\<rparr> in
                   if ret \<ge> 0 then
                     (let r = load_content (st_pages st) OK ''text/html'' (html ''/home.html'') empty_response in
                      case create_cookie username w1 of
                        None \<Rightarrow> None
                      | Some (number, w2) \<Rightarrow>
                          Some (Inr (r\<lparr>rs_headers := put_header SET_COOKIE (''sessionid='' @ nat_str (unat number)) (rs_headers r)\<rparr>), w2))
                   else Some (Inr (error_page (st_pages st) (err_mp ret) ''login'' empty_response), w1))))
      else Some (Inr empty_response, w))"

definition signup_handler :: "('m, 's, 'r) site \<Rightarrow> request \<Rightarrow> ('s, 'r) world \<Rightarrow> ('s, 'r) outcome" where
  "signup_handler st rq w =
     (if rq_method rq = ''GET'' then
        Some (Inr (load_content (st_pages st) OK ''text/html'' (html ''/signup.html'') empty_response), w)
      else if rq_method rq = ''POST'' then
        (case rbind (form_field (rq_body rq) 0) (\<lambda>u. rbind (form_field (rq_body rq) 1) (\<lambda>p. Inr (u, p))) of
           Inl e \<Rightarrow> Some (Inl e, w)
         | Inr (username, password) \<Rightarrow>
             (case sign_up (st_route st) username password (w_store w) of
                (ret, s1) \<Rightarrow>
                  (case (if ret \<ge> 0 then initialize_usr (st_route st) username s1 else (False, s1)) of
                     (ok, s2) \<Rightarrow>
                       (let w1 = w\<lparr>w_store := s2\<rparr> in
                        if ok then Some (Inr (redirect_to (st_port st) ''/login'' empty_response), w1)
                        else Some (Inr (error_page (st_pages st) (err_mp ret) ''signup'' empty_response), w1)))))
      else Some (Inr empty_response, w))"

definition user_handler :: "('m, 's, 'r) site \<Rightarrow> request \<Rightarrow> ('s, 'r) world \<Rightarrow> ('s, 'r) outcome" where
  "user_handler st rq w =
     (if rq_username rq = [] then Some (Inr (redirect_to (st_port st) ''/login'' empty_response), w)
      else if rq_method rq = ''POST'' then
        (case rbind (form_field (rq_body rq) 0) (\<lambda>u. rbind (form_field (rq_body rq) 1) (\<lambda>p. Inr (u, p))) of
           Inl e \<Rightarrow> Some (Inl e, w)
         | Inr (old_pwd, new_pwd) \<Rightarrow>
             (case change_pwd (st_route st) (rq_username rq) old_pwd new_pwd (w_store w) of
                (ret, s1) \<Rightarrow>
                  (let w1 = w\<lparr>w_store := s1\<rparr> in
                   if ret \<ge> 0 then Some (Inr (redirect_to (st_port st) ''/login'' empty_response), w1)
                   else Some (Inr (error_page (st_pages st) ''FAILED TO CHANGE PASSWORD'' [] empty_response), w1))))
      else
        (let r = load_content (st_pages st) OK ''text/html'' (html (rq_path rq @ ''.html'')) empty_response in
         Some (Inr (set_body (replace (rs_body r) ''$username'' (rq_username rq)) r), w)))"

definition home_handler :: "('m, 's, 'r) site \<Rightarrow> request \<Rightarrow> ('s, 'r) world \<Rightarrow> ('s, 'r) outcome" where
  "home_handler st rq w =
     (if rq_username rq = [] then Some (Inr (redirect_to (st_port st) ''/login'' empty_response), w)
      else Some (Inr (load_content (st_pages st) OK ''text/html'' (html (rq_path rq @ ''.html'')) empty_response), w))"

definition about_handler :: "('m, 's, 'r) site \<Rightarrow> request \<Rightarrow> ('s, 'r) world \<Rightarrow> ('s, 'r) outcome" where
  "about_handler st rq w =
     (let r = load_content (st_pages st) OK ''text/html'' (html (rq_path rq @ ''.html'')) empty_response in
      Some (Inr (set_body (replace (rs_body r) ''$username'' (rq_username rq)) r), w))"

section \<open>Mail\<close>

text \<open>
  \<open>sprintf\<close> into a buffer of 1000 bytes: a text of 1000 bytes or more is written past its end.  The
  conversion \<open>%d\<close> takes the lower 32 bits of the identifier.
\<close>

definition into_buffer :: "string \<Rightarrow> string res" where
  "into_buffer t = (if length t < 1000 then Inr t else Inl Undefined)"

definition table_row :: "mail \<Rightarrow> string" where
  "table_row m = ''<tr><td class=\"name\">'' @ cstr (m_usr m) @ ''</a></td><td class=\"subjet\"><a href=\"email_display?index='' @
     int_str (sint (ucast (m_id m) :: 32 word)) @ ''\">'' @ cstr (get_header m) @ ''</a></td><td class=\"time\">'' @
     cstr (m_time m) @ ''</td></tr>''"

fun email_list_construct :: "mail list \<Rightarrow> string res" where
  "email_list_construct [] = Inr []"
| "email_list_construct (m # ms) =
     rbind (into_buffer (table_row m)) (\<lambda>s. rbind (email_list_construct ms) (\<lambda>t. Inr (s @ t)))"

definition content_row :: "string \<Rightarrow> string" where
  "content_row t = ''<p><span class=\"u-text-body-color\">'' @ cstr t @ ''</span></p>''"

fun content_rows :: "string list \<Rightarrow> string res" where
  "content_rows [] = Inr []"
| "content_rows (t # ts) =
     rbind (into_buffer (content_row t)) (\<lambda>s. rbind (content_rows ts) (\<lambda>u. Inr (s @ u)))"

definition email_content_construct :: "string \<Rightarrow> string res" where
  "email_content_construct t = content_rows (split t nl)"

definition inbox_response :: response where
  "inbox_response = empty_response\<lparr>rs_status := OK, rs_headers := [(CONTENT_TYPE, ''text/html'')]\<rparr>"

definition display_email_list :: "('m, 's, 'r) site \<Rightarrow> string \<Rightarrow> response \<Rightarrow> ('s, 'r) world \<Rightarrow> response res \<times> ('s, 'r) world" where
  "display_email_list st usr r w =
     (case get_mails (st_route st) [] usr (w_store w) of
        (Inl e, s1) \<Rightarrow> (Inl e, w\<lparr>w_store := s1\<rparr>)
      | (Inr (_, mails), s1) \<Rightarrow>
          (rbind (email_list_construct mails) (\<lambda>table.
             Inr (set_body (replace (page_text (st_pages st) (html ''/email_inbox.html'')) ''$table'' table) r)), w\<lparr>w_store := s1\<rparr>))"

definition display_email_detail :: "pages \<Rightarrow> mail \<Rightarrow> response \<Rightarrow> response res" where
  "display_email_detail pages m r =
     (let h = replace (replace (page_text pages (html ''/email_display.html'')) ''$sender'' (m_usr m)) ''$time'' (m_time m) in
      rbind (email_content_construct (m_text m)) (\<lambda>c. Inr (set_body (replace h ''$content'' c) r)))"

text \<open>
  The fields of a form that is sent as \<open>multipart/form-data\<close>: the body is cut at carriage returns.  \<open>message\<close> joins the pieces from
  number \<open>i\<close> to the last but two; \<open>recipients_of\<close> drops the first character of piece 7.
\<close>

definition message :: "string list \<Rightarrow> nat \<Rightarrow> string" where
  "message vec i = concat (drop i (take (length vec - 2) vec))"

definition recipients_of :: "string list \<Rightarrow> string res" where
  "recipients_of vec = rbind (vec_get vec 7) (\<lambda>v. substr_from v 1)"

definition recipient_list :: "string \<Rightarrow> string list" where
  "recipient_list s = map remove_leading_space (split s (CHR '',''))"

definition send_from :: "('m, 's, 'r) site \<Rightarrow> string \<Rightarrow> string list \<Rightarrow> string \<Rightarrow> ('s, 'r) world \<Rightarrow> (bool res \<times> ('s, 'r) world) option" where
  "send_from st usr rs text w =
     (case send_mails (st_retries st) (st_route st) (st_net st) (st_now st) usr rs text (w_store w, w_net w) of
        None \<Rightarrow> None
      | Some (res, s1, r1) \<Rightarrow> Some (res, w\<lparr>w_store := s1, w_net := r1\<rparr>))"

definition to_inbox :: "int \<Rightarrow> bool \<Rightarrow> response" where
  "to_inbox port ok = (if ok then redirect_to port ''/email_inbox'' inbox_response else inbox_response)"

definition email_inbox_handler :: "('m, 's, 'r) site \<Rightarrow> request \<Rightarrow> ('s, 'r) world \<Rightarrow> ('s, 'r) outcome" where
  "email_inbox_handler st rq w =
     (if rq_username rq = [] then Some (Inr (redirect_to (st_port st) ''/login'' empty_response), w)
      else if rq_method rq = ''GET'' then Some (display_email_list st (rq_username rq) inbox_response w)
      else
        (let vec = split (rq_body rq) (CHR 0x0D) in
         case vec_get vec 1 of
           Inl e \<Rightarrow> Some (Inl e, w)
         | Inr part \<Rightarrow>
             if contains part (''name='' @ [CHR 0x22] @ ''WRIT'' @ [CHR 0x22]) then
               (case recipients_of vec of
                  Inl e \<Rightarrow> Some (Inl e, w)
                | Inr rcpts \<Rightarrow>
                    (case send_from st (rq_username rq) (recipient_list rcpts) (message vec 11 @ crlf) w of
                       None \<Rightarrow> None
                     | Some (res, w1) \<Rightarrow> Some (rbind res (\<lambda>ok. Inr (to_inbox (st_port st) ok)), w1)))
             else if contains part (''name='' @ [CHR 0x22] @ ''DELE'' @ [CHR 0x22]) then
               (case delete_mail (st_retries st) (st_route st) (rq_username rq) (word_of_int (w_deleted w)) (w_store w) of
                  None \<Rightarrow> None
                | Some (res, s1) \<Rightarrow> Some (rbind res (\<lambda>ok. Inr (to_inbox (st_port st) ok)), w\<lparr>w_store := s1\<rparr>))
             else Some (Inr inbox_response, w)))"

text \<open>\<open>path.find("=")\<close> is stored in an \<open>int\<close>, so \<open>npos\<close> becomes -1 and the whole path is read as a number.\<close>

definition email_index :: "string \<Rightarrow> int res" where
  "email_index path = stoi (case find_char (CHR ''='') path of None \<Rightarrow> path | Some i \<Rightarrow> drop (Suc i) path)"

definition quoted :: "mail \<Rightarrow> string" where
  "quoted m = ''From: '' @ m_usr m @ [nl] @ '' Date: '' @ m_time m @ [nl] @ '' '' @ m_text m"

definition SEPERATOR :: "string \<Rightarrow> string" where
  "SEPERATOR kind = [nl] @ '' --------- '' @ kind @ '' MESSAGE --------- '' @ [nl]"

text \<open>Recipients and text of a new mail, a forwarded mail or an answer.\<close>

definition compose :: "string list \<Rightarrow> mail \<Rightarrow> (string \<times> string) res" where
  "compose vec m =
     rbind (vec_get vec 1) (\<lambda>part.
       if contains part (''name='' @ [CHR 0x22] @ ''WRIT'' @ [CHR 0x22]) then
         rbind (recipients_of vec) (\<lambda>rs. Inr (rs, message vec 11))
       else if contains part (''name='' @ [CHR 0x22] @ ''FORW'' @ [CHR 0x22]) then
         rbind (recipients_of vec) (\<lambda>rs. Inr (rs, message vec 11 @ SEPERATOR ''FORWARD'' @ quoted m))
       else if contains part (''name='' @ [CHR 0x22] @ ''REPL'' @ [CHR 0x22]) then
         Inr (if CHR ''@'' \<in> set (m_usr m) then m_usr m else m_usr m @ ''@localhost'',
           message vec 7 @ SEPERATOR ''REPLY'' @ quoted m)
       else Inr ([], []))"

definition email_display_handler :: "('m, 's, 'r) site \<Rightarrow> request \<Rightarrow> ('s, 'r) world \<Rightarrow> ('s, 'r) outcome" where
  "email_display_handler st rq w =
     (case email_index (rq_path rq) of
        Inl e \<Rightarrow> Some (Inl e, w)
      | Inr i \<Rightarrow>
          (case get_mails (st_route st) [] (rq_username rq) (w_store w) of
             (Inl e, s1) \<Rightarrow> Some (Inl e, w\<lparr>w_deleted := i, w_store := s1\<rparr>)
           | (Inr (_, mails), s1) \<Rightarrow>
               (let w1 = w\<lparr>w_deleted := i, w_store := s1\<rparr>;
                    m = fold (\<lambda>obj m. if m_id obj = word_of_int i then obj else m) mails (new_mail (st_now st 0) 0 [] [])
                in if rq_method rq = ''GET'' then Some (display_email_detail (st_pages st) m inbox_response, w1)
                   else case compose (split (rq_body rq) (CHR 0x0D)) m of
                       Inl e \<Rightarrow> Some (Inl e, w1)
                     | Inr (rcpts, text) \<Rightarrow>
                         (case send_from st (rq_username rq) (recipient_list rcpts) (text @ crlf) w1 of
                            None \<Rightarrow> None
                          | Some (res, w2) \<Rightarrow> Some (rbind res (\<lambda>_. Inr inbox_response), w2)))))"

section \<open>The choice of the handler\<close>

definition func_mp :: "('m, 's, 'r) site \<Rightarrow> string \<Rightarrow> (request \<Rightarrow> ('s, 'r) world \<Rightarrow> ('s, 'r) outcome) option" where
  "func_mp st path =
     (if path \<in> {''/'', ''/login''} then Some (login_handler st)
      else if path = ''/signup'' then Some (signup_handler st)
      else if path = ''/home'' then Some (home_handler st)
      else if path = ''/user'' then Some (user_handler st)
      else if path = ''/email_inbox'' then Some (email_inbox_handler st)
      else if path = ''/about'' then Some (about_handler st)
      else None)"

definition respond :: "('m, 's, 'r) site \<Rightarrow> request \<Rightarrow> ('s, 'r) world \<Rightarrow> ('s, 'r) outcome" where
  "respond st rq w =
     (case func_mp st (rq_path rq) of
        Some f \<Rightarrow> f rq w
      | None \<Rightarrow>
          if take 5 (rq_path rq) = ''/file'' then
            (if rq_username rq = [] then Some (Inr (redirect_to (st_port st) ''/login'' empty_response), w)
             else map_option (\<lambda>(res, s1). (res, w\<lparr>w_store := s1\<rparr>)) (storage_handler st rq (w_store w)))
          else if take 14 (rq_path rq) = ''/email_display'' then
            (if rq_username rq = [] then Some (Inr (redirect_to (st_port st) ''/login'' empty_response), w)
             else email_display_handler st rq w)
          else Some (Inr
            (if contains (rq_path rq) ''.js'' then load_content (st_pages st) OK ''text/javascript'' (html (rq_path rq)) empty_response
             else if contains (rq_path rq) ''.css'' then load_content (st_pages st) OK ''text/css'' (html (rq_path rq)) empty_response
             else if contains (rq_path rq) ''.png'' then load_content (st_pages st) OK ''image/png'' (ABSOLUTE_DIR @ rq_path rq) empty_response
             else load_content (st_pages st) OK ''text/html'' (html ''/error_page.html'') empty_response), w))"

text \<open>What \<open>reply\<close> writes: the version of the request is put in front twice.\<close>

definition reply_bytes :: "request \<Rightarrow> response \<Rightarrow> string" where
  "reply_bytes rq r =
     (if rs_status r = REDIRECT then rs_body r
      else let body = rq_version rq @ response_string r in rq_version rq @ body)"

definition reply :: "('m, 's, 'r) site \<Rightarrow> request \<Rightarrow> ('s, 'r) world \<Rightarrow> (string res \<times> ('s, 'r) world) option" where
  "reply st rq w =
     map_option (\<lambda>(res, w1). (rbind res (\<lambda>r. Inr (reply_bytes rq r)), w1)) (respond st rq w)"

text \<open>One connection in \<open>handle_connect\<close>: \<open>[]\<close> when the request is not understood.\<close>

definition serve_connection :: "('m, 's, 'r) site \<Rightarrow> string list \<Rightarrow> ('s, 'r) world \<Rightarrow> (string res \<times> ('s, 'r) world) option" where
  "serve_connection st sock w =
     (case fst (http_read (w_sessions w) sock) of
        Inl e \<Rightarrow> Some (Inl e, w)
      | Inr (False, _) \<Rightarrow> Some (Inr [], w)
      | Inr (True, rq) \<Rightarrow> reply st rq w)"

end
