(* ===== verification/Web_Correct.thy ===== *)
theory Web_Correct
  imports Web Webmail_Correct
begin

text \<open>
  Requests read from any segmentation of their bytes, sessions from the login to the next request, and the two
  ways in which a request or a mail brings the server down.
\<close>

section \<open>Reading a request\<close>

lemma read_line:
  assumes "live sock" "concat sock = line @ crlf @ rest" "CHR 0x0D \<notin> set line"
  obtains sock' where "http_read_line sock = (True, line, sock')" "concat sock' = rest" "live sock'"
  using http_loop_line [OF assms(1) _ assms(3), of rest "[]"] assms(2) by (auto simp: http_read_line_def crlf_def)

definition lines_text :: "string list \<Rightarrow> string" where
  "lines_text ls = concat (map (\<lambda>l. l @ crlf) ls)"

definition header_text :: "string \<Rightarrow> bool" where
  "header_text l = (l \<noteq> [] \<and> CHR 0x0D \<notin> set l)"

lemma read_headers:
  assumes "live sock" "concat sock = lines_text hs @ crlf @ body" "\<forall>h \<in> set hs. header_text h" "line \<noteq> []"
  shows "\<exists>sock'. headers_loop line rq sock = (True, fold header_line (line # hs) rq, sock') \<and> concat sock' = body \<and> live sock'"
  using assms
proof (induction hs arbitrary: line rq sock)
  case Nil
  then obtain sock' where "http_read_line sock = (True, [], sock')" "concat sock' = body" "live sock'"
    using read_line [of sock "[]" body] by (auto simp: lines_text_def)
  then show ?case
    using Nil.prems(4) by (simp add: headers_loop.simps [of line] headers_loop.simps [of "[]"])
next
  case (Cons h hs)
  have h: "h \<noteq> []" "CHR 0x0D \<notin> set h" "concat sock = h @ crlf @ lines_text hs @ crlf @ body"
    using Cons.prems(2,3) by (simp_all add: header_text_def lines_text_def)
  obtain s where s: "http_read_line sock = (True, h, s)" "concat s = lines_text hs @ crlf @ body" "live s"
    using read_line [OF Cons.prems(1) h(3,2)] .
  obtain sock' where "headers_loop h (header_line line rq) s = (True, fold header_line (h # hs) (header_line line rq), sock')"
    "concat sock' = body" "live sock'"
    using Cons.IH [OF s(3,2) _ h(1), of "header_line line rq"] Cons.prems(3) by auto
  then show ?case
    using s(1) Cons.prems(4) by (simp add: headers_loop.simps [of line])
qed

text \<open>The bytes of a request.\<close>

definition request_text :: "string \<Rightarrow> string \<Rightarrow> string \<Rightarrow> string list \<Rightarrow> string \<Rightarrow> string" where
  "request_text m p v hs body = (m @ '' '' @ p @ '' '' @ v) @ crlf @ lines_text hs @ crlf @ body"

definition plain_words :: "string list \<Rightarrow> bool" where
  "plain_words ws = list_all (\<lambda>w. w \<noteq> [] \<and> CHR '' '' \<notin> set w \<and> CHR 0x0D \<notin> set w) ws"

definition parsed :: "string \<Rightarrow> string \<Rightarrow> string \<Rightarrow> string list \<Rightarrow> request" where
  "parsed m p v hs = fold header_line hs (empty_request\<lparr>rq_method := m, rq_path := p, rq_version := v\<rparr>)"

lemma request_line_no_header:
  assumes "m = ''GET'' \<or> m = ''POST''"
  shows "header_line (m @ r) rq = rq"
  using assms by (auto simp: header_line_def)

lemma http_read_request:
  assumes "live sock" "concat sock = request_text m p v hs body" "m = ''GET'' \<or> m = ''POST''"
    "plain_words [p, v]" "\<forall>h \<in> set hs. header_text h"
  shows "\<exists>sock'. http_read ss sock = (case find_session ss (parsed m p v hs) of
      Inl e \<Rightarrow> (Inl e, sock') | Inr rq \<Rightarrow> read_body rq sock') \<and> concat sock' = body \<and> live sock'"
proof -
  let ?line = "m @ '' '' @ p @ '' '' @ v"
  have m: "CHR '' '' \<notin> set m" "CHR 0x0D \<notin> set m" "m \<noteq> []"
    using assms(3) by auto
  have line: "CHR 0x0D \<notin> set ?line" "split ?line (CHR '' '') = [m, p, v]" "?line \<noteq> []"
    using m assms(4) by (auto simp: plain_words_def)
  obtain s1 where s1: "http_read_line sock = (True, ?line, s1)" "concat s1 = lines_text hs @ crlf @ body" "live s1"
    using read_line [OF assms(1) _ line(1)] assms(2) unfolding request_text_def by blast
  obtain s2 where s2: "headers_loop ?line (empty_request\<lparr>rq_method := m, rq_path := p, rq_version := v\<rparr>) s1 =
      (True, fold header_line (?line # hs) (empty_request\<lparr>rq_method := m, rq_path := p, rq_version := v\<rparr>), s2)"
    "concat s2 = body" "live s2"
    using read_headers [OF s1(3,2) assms(5) line(3)] by blast
  have "fold header_line (?line # hs) (empty_request\<lparr>rq_method := m, rq_path := p, rq_version := v\<rparr>) = parsed m p v hs"
    using request_line_no_header [OF assms(3)] by (simp add: parsed_def)
  then show ?thesis
    using s1(1) s2 line(2) by (auto simp: http_read_def)
qed

lemma header_line_keeps [simp]: "rq_method (header_line h rq) = rq_method rq" "rq_path (header_line h rq) = rq_path rq"
  "rq_version (header_line h rq) = rq_version rq" "rq_username (header_line h rq) = rq_username rq"
  by (simp_all add: header_line_def)

lemma fold_header_keeps [simp]: "rq_method (fold header_line hs rq) = rq_method rq"
  "rq_path (fold header_line hs rq) = rq_path rq" "rq_version (fold header_line hs rq) = rq_version rq"
  "rq_username (fold header_line hs rq) = rq_username rq"
  by (induction hs arbitrary: rq) simp_all

lemma parsed_sel [simp]: "rq_method (parsed m p v hs) = m" "rq_path (parsed m p v hs) = p"
  "rq_version (parsed m p v hs) = v" "rq_username (parsed m p v hs) = []"
  by (simp_all add: parsed_def empty_request_def)

lemma read_sized_body:
  assumes "live sock" "concat sock = body" "rq_method rq = ''POST''" "rq_length rq = Some (word_of_nat (length body))"
    "body \<noteq> []" "length body < 2 ^ 31"
  shows "fst (read_body rq sock) = Inr (True, rq\<lparr>rq_body := body\<rparr>)"
proof -
  let ?n = "word_of_nat (length body) :: 64 word"
  have "?n + 1 = word_of_nat (Suc (length body))"
    by simp
  then have n: "unat ?n = length body" "unat (?n + 1) = Suc (length body)"
    using assms(6) by (simp_all only: unat_of_nat) simp_all
  have "?n \<noteq> 0" "?n \<noteq> - 1" "\<not> 2 ^ 63 \<le> ?n + 1"
  proof -
    show "?n \<noteq> 0" using n(1) assms(5) by (metis length_0_conv unat_0)
    show "?n \<noteq> - 1" using n(2) by auto
    show "\<not> 2 ^ 63 \<le> ?n + 1" using n(2) assms(6) by (simp add: word_le_nat_alt)
  qed
  moreover obtain s where "tcp_read (length body) sock = (True, body, s)"
    using tcp_read_ok [OF assms(1), of body "[]"] assms(2) by auto
  ultimately show ?thesis
    using assms(3,4) n(1) by (simp add: read_body_def)
qed

section \<open>Sessions\<close>

lemma split_pair:
  assumes "d \<notin> set k" "d \<notin> set v" "v \<noteq> []"
  shows "split (k @ d # v) d = [k, v]"
  using assms by simp

definition session_header :: "string \<Rightarrow> string" where
  "session_header v = ''Cookie: '' @ ''sessionid='' @ v"

lemma session_header_line:
  assumes "v \<noteq> []" "CHR '';'' \<notin> set v" "CHR ''='' \<notin> set v"
  shows "rq_cookies (header_line (session_header v) rq) = AList.update ''sessionid'' v (rq_cookies rq)"
proof -
  have "split (''sessionid='' @ v) (CHR '';'') = [''sessionid='' @ v]"
    using assms by (intro split_last) auto
  moreover have "split (''sessionid'' @ CHR ''='' # v) (CHR ''='') = [''sessionid'', v]"
    using assms by (intro split_pair) auto
  ultimately show ?thesis
    by (simp add: header_line_def session_header_def add_cookie_def)
qed

lemma session_request:
  assumes "v \<noteq> []" "CHR '';'' \<notin> set v" "CHR ''='' \<notin> set v"
  shows "find_session ss (parsed m p ver [session_header v]) = rbind (stoull v) (\<lambda>n.
    Inr ((parsed m p ver [session_header v])\<lparr>rq_username := (case map_of ss (word_of_nat n) of None \<Rightarrow> [] | Some u \<Rightarrow> u)\<rparr>))"
  using session_header_line [OF assms, of "empty_request\<lparr>rq_method := m, rq_path := p, rq_version := ver\<rparr>"]
  by (simp add: find_session_def parsed_def empty_request_def)

lemma digits_no_mark: "CHR '';'' \<notin> set (nat_str n)" "CHR ''='' \<notin> set (nat_str n)" "CHR 0x0D \<notin> set (nat_str n)"
  using nat_str_digits [of n] by (auto simp: is_digit_def)

lemma header_session [simp]: "CHR 0x0D \<notin> set v \<Longrightarrow> header_text (session_header v)"
  by (simp add: header_text_def session_header_def)

text \<open>The name of the user of a request comes from the table of sessions.\<close>

lemma headers_loop_keeps: "headers_loop line rq sock = (ok, rq', sock') \<Longrightarrow> rq_username rq' = rq_username rq"
proof (induction line rq sock arbitrary: ok rq' sock' rule: headers_loop.induct)
  case (1 line rq sock)
  obtain ok1 line1 sock1 where h: "http_read_line sock = (ok1, line1, sock1)"
    by (cases "http_read_line sock") auto
  show ?case
  proof (cases "line \<noteq> [] \<and> ok1")
    case True
    then show ?thesis
      using "1.prems" "1.IH" [of "header_line line rq" ok1 "(line1, sock1)" line1 sock1] h
      by (simp add: headers_loop.simps [of line])
  next
    case False
    then have "(ok, rq', sock') = (if line \<noteq> [] then (False, header_line line rq, sock1) else (True, rq, sock))"
      using "1.prems" h by (simp add: headers_loop.simps [of line] split: if_splits)
    then show ?thesis by (simp split: if_splits)
  qed
qed

definition names_session :: "sessions \<Rightarrow> request \<Rightarrow> bool" where
  "names_session ss rq \<longleftrightarrow> (\<exists>v n. map_of (rq_cookies rq) ''sessionid'' = Some v \<and> stoull v = Inr n \<and>
     map_of ss (word_of_nat n) = Some (rq_username rq))"

lemma read_body_keeps:
  assumes "fst (read_body rq sock) = Inr (ok, rq')"
  shows "rq_username rq' = rq_username rq" "rq_cookies rq' = rq_cookies rq"
  using assms by (auto simp: read_body_def split: if_splits option.splits prod.splits bool.splits)

lemma find_session_user:
  assumes "find_session ss rq = Inr rq'" "rq_username rq = []" "rq_username rq' \<noteq> []"
  shows "names_session ss rq'"
  using assms by (auto simp: find_session_def names_session_def rbind_eq_Inr split: option.splits)

lemma http_read_user:
  assumes "fst (http_read ss sock) = Inr (True, rq)" "rq_username rq \<noteq> []"
  shows "names_session ss rq"
proof -
  obtain m p v line s1 rq1 s2 rq2 where h: "http_read_line sock = (True, line, s1)"
    "headers_loop line (empty_request\<lparr>rq_method := m, rq_path := p, rq_version := v\<rparr>) s1 = (True, rq1, s2)"
    "find_session ss rq1 = Inr rq2" "fst (read_body rq2 s2) = Inr (True, rq)"
    using assms(1) unfolding http_read_def
    by (auto split: prod.splits bool.splits list.splits sum.splits)
  have "rq_username rq1 = []"
    using headers_loop_keeps [OF h(2)] by (simp add: empty_request_def)
  then have "names_session ss rq2"
    using find_session_user [OF h(3)] read_body_keeps(1) [OF h(4)] assms(2) by simp
  then show ?thesis
    using read_body_keeps [OF h(4)] by (simp add: names_session_def)
qed

definition private_path :: "string \<Rightarrow> bool" where
  "private_path p = (p \<in> {''/home'', ''/user'', ''/email_inbox''} \<or> take 5 p = ''/file'' \<or> take 14 p = ''/email_display'')"

lemma private_redirects:
  assumes "private_path (rq_path rq)" "rq_username rq = []"
  shows "respond st rq w = Some (Inr (redirect_to (st_port st) ''/login'' empty_response), w)"
proof -
  have none: "func_mp st (rq_path rq) = None" if "take 5 (rq_path rq) = ''/file'' \<or> take 14 (rq_path rq) = ''/email_display''"
    using that by (elim disjE) (fastforce simp: func_mp_def)+
  consider "rq_path rq \<in> {''/home'', ''/user'', ''/email_inbox''}"
    | "take 5 (rq_path rq) = ''/file'' \<or> take 14 (rq_path rq) = ''/email_display''"
    using assms(1) by (auto simp: private_path_def)
  then show ?thesis
  proof cases
    case 1
    then show ?thesis
      using assms(2) by (elim insertE) (simp_all add: respond_def func_mp_def home_handler_def user_handler_def email_inbox_handler_def)
  next
    case 2
    then show ?thesis
      using 2 none [OF 2] assms(2) by (elim disjE) (simp_all add: respond_def)
  qed
qed

lemma put_header_mem [simp]: "(k, v) \<in> set (put_header k v hs)"
  by (induction hs) auto

definition login_body :: "string \<Rightarrow> string \<Rightarrow> string" where
  "login_body u p = (''username'' @ CHR ''='' # u) @ CHR ''&'' # ''password'' @ CHR ''='' # p"

definition form_text :: "string \<Rightarrow> bool" where
  "form_text s = (s \<noteq> [] \<and> list_all (\<lambda>c. c \<notin> {CHR ''&'', CHR ''='', CHR 0x00}) s)"

lemma form_fields:
  assumes "form_text u" "form_text p"
  shows "form_field (login_body u p) 0 = Inr u" "form_field (login_body u p) 1 = Inr p"
proof -
  have f: "CHR 0x00 \<notin> set u" "CHR 0x00 \<notin> set p" "CHR ''&'' \<notin> set u" "CHR ''='' \<notin> set u" "CHR ''='' \<notin> set p" "u \<noteq> []" "p \<noteq> []"
    "CHR ''&'' \<notin> set p"
    using assms unfolding form_text_def list_all_iff by blast+
  then have "CHR 0x00 \<notin> set (login_body u p)"
    by (simp add: login_body_def)
  then have c: "cstr (login_body u p) = login_body u p"
    by (simp add: cstr_def)
  have s: "split (login_body u p) (CHR ''&'') = [''username'' @ CHR ''='' # u, ''password'' @ CHR ''='' # p]"
    unfolding login_body_def by (intro split_pair) (simp_all add: f)
  have "split (''username'' @ CHR ''='' # u) (CHR ''='') = [''username'', u]"
    by (intro split_pair) (simp_all add: f)
  moreover have "split (''password'' @ CHR ''='' # p) (CHR ''='') = [''password'', p]"
    by (intro split_pair) (simp_all add: f)
  ultimately show "form_field (login_body u p) 0 = Inr u" "form_field (login_body u p) 1 = Inr p"
    by (simp_all add: form_field_def c s vec_at_def)
qed

definition length_header :: "nat \<Rightarrow> string" where
  "length_header n = ''Content-Length: '' @ nat_str n"

lemma length_header_line:
  assumes "n < 2 ^ 31"
  shows "header_line (length_header n) rq = rq\<lparr>rq_length := Some (word_of_nat n)\<rparr>"
  using atoi_nat_str [OF assms] by (simp add: header_line_def length_header_def)

lemma header_length [simp]: "header_text (length_header n)"
  using digits_no_mark [of n] by (simp add: header_text_def length_header_def)

lemma read_post:
  assumes "live sock" "concat sock = request_text ''POST'' p v [length_header (length body)] body" "plain_words [p, v]"
    and "body \<noteq> []" "length body < 2 ^ 31"
  shows "\<exists>rq. fst (http_read ss sock) = Inr (True, rq) \<and> rq_method rq = ''POST'' \<and> rq_path rq = p \<and> rq_version rq = v \<and>
    rq_body rq = body \<and> rq_username rq = []"
proof -
  let ?rq = "parsed ''POST'' p v [length_header (length body)]"
  have len: "rq_length ?rq = Some (word_of_nat (length body))" "rq_cookies ?rq = []"
    using length_header_line [OF assms(5)] by (simp_all add: parsed_def empty_request_def)
  have "\<forall>h \<in> set [length_header (length body)]. header_text h"
    by simp
  from http_read_request [OF assms(1,2) _ assms(3) this, of ss] obtain s where
    "http_read ss sock = read_body ?rq s" "concat s = body" "live s"
    using len(2) by (auto simp: find_session_def)
  then show ?thesis
    using read_sized_body [of s body ?rq] len(1) assms(4,5) by auto
qed

lemma read_get:
  assumes "live sock" "concat sock = request_text ''GET'' p v [session_header (nat_str (unat n))] []" "plain_words [p, v]"
    and "map_of ss n = Some u"
  shows "\<exists>rq. fst (http_read ss sock) = Inr (True, rq) \<and> rq_method rq = ''GET'' \<and> rq_path rq = p \<and> rq_username rq = u"
proof -
  have h: "\<forall>h \<in> set [session_header (nat_str (unat n))]. header_text h"
    using digits_no_mark [of "unat n"] by simp
  have "stoull (nat_str (unat n)) = Inr (unat n)"
    using unsigned_less [of n, where ?'a = nat] by simp
  then show ?thesis
    using http_read_request [OF assms(1,2) _ assms(3) h, of ss] assms(4)
      session_request [of "nat_str (unat n)" ss "''GET''" p v] digits_no_mark [of "unat n"]
    by (auto simp: read_body_def)
qed

lemma draw_free: "draw ns ss = Some (n, ns') \<Longrightarrow> map_of ss n = None"
  by (induction ns) (auto split: if_splits)

lemma content_rows_overflow: "t \<in> set ts \<Longrightarrow> 1000 \<le> length (content_row t) \<Longrightarrow> content_rows ts = Inl Undefined"
proof (induction ts)
  case (Cons x ts)
  show ?case
  proof (cases "length (content_row x) < 1000")
    case True
    then have "content_rows ts = Inl Undefined"
      using Cons by auto
    then show ?thesis
      using True by (simp add: into_buffer_def)
  qed (simp add: into_buffer_def)
qed simp

lemma fold_pick:
  assumes "\<forall>y \<in> set ys. m_id y \<noteq> i" "m_id x = i"
  shows "fold (\<lambda>obj m. if m_id obj = i then obj else m) (map named (xs @ x # ys)) d = named x"
proof -
  have "fold (\<lambda>obj m. if m_id obj = i then obj else m) (map named ys) d = d" for d
    using assms(1) by (induction ys) auto
  then show ?thesis
    using assms(2) by simp
qed

lemma email_index_path: "i < 2 ^ 31 \<Longrightarrow> email_index (''/email_display?index='' @ nat_str i) = Inr (int i)"
  using find_char_append [of "CHR ''=''" "''/email_display?index''" "nat_str i"] by (simp add: email_index_def)

section \<open>Properties\<close>

text \<open>
  C33. Private pages need a session.  Whatever bytes arrive on a connection, a request for the home page, the password page, the
  inbox, a mail or the files either carries the number of an open session, and is then handled for the user
  of that session, or is answered with the redirection to the login page, and changes nothing: not
  the sessions, not the store, and nothing is sent to other servers.
\<close>

theorem pages_need_session:
  assumes "fst (http_read (w_sessions w) sock) = Inr (True, rq)" "private_path (rq_path rq)"
  shows "names_session (w_sessions w) rq \<or>
    serve_connection st sock w = Some (Inr (rs_body (redirect_to (st_port st) ''/login'' empty_response)), w)"
proof (cases "rq_username rq = []")
  case True
  then show ?thesis
    using assms(1) private_redirects [OF assms(2) True, of st w]
    by (simp add: serve_connection_def reply_def reply_bytes_def) (simp add: redirect_to_def)
next
  case False
  then show ?thesis
    using http_read_user [OF assms(1)] by simp
qed

definition example_site :: "(kv_command + kv_ret, node, unit) site" where
  "example_site = \<lparr>st_route = example_route, st_pages = (\<lambda>_. None), st_iter = id, st_fd = 5, st_fuel = 100,
     st_net = \<lparr>n_dns = (\<lambda>_. []), n_hosts = (\<lambda>_. []), n_dial = (\<lambda>_ r. (False, r)), n_talk = (\<lambda>_ r. (None, r))\<rparr>,
     st_port = 8000, st_now = (\<lambda>_. ''Thu Jan  1 00:00:00 1970'' @ [nl]), st_retries = 0\<rparr>"

definition example_world :: "node \<Rightarrow> (node, unit) world" where
  "example_world nd = \<lparr>w_sessions = [], w_random = [7], w_deleted = 0, w_store = nd, w_net = ()\<rparr>"

definition example_segments :: "string \<Rightarrow> string list" where
  "example_segments t = [take 7 t, drop 7 t]"

lemma example_segments_ok: "7 < length t \<Longrightarrow> live (example_segments t)" "concat (example_segments t) = t"
  by (auto simp: example_segments_def live_def)

theorem pages_need_session_witness:
  "serve_connection example_site (example_segments (request_text ''GET'' ''/home'' ''HTTP/1.1'' [] [])) (example_world (example_node True 1)) =
    Some (Inr (''HTTP/1.1 302 Found'' @ crlf @ ''Location: http://localhost:'' @ int_str 8000 @ ''/login'' @ crlf @ crlf),
      example_world (example_node True 1))"
proof -
  let ?t = "request_text ''GET'' ''/home'' ''HTTP/1.1'' [] []" and ?w = "example_world (example_node True 1)"
  have l: "live (example_segments ?t)"
    by (rule example_segments_ok) (simp add: request_text_def)
  have p: "plain_words [''/home'', ''HTTP/1.1'']" "\<forall>h \<in> set []. header_text h"
    by (simp_all add: plain_words_def)
  obtain sock where "http_read (w_sessions ?w) (example_segments ?t) = read_body (parsed ''GET'' ''/home'' ''HTTP/1.1'' []) sock"
    using http_read_request [OF l example_segments_ok(2) disjI1 [OF refl] p, of "w_sessions ?w"]
    by (auto simp: find_session_def parsed_def empty_request_def)
  then have r: "fst (http_read (w_sessions ?w) (example_segments ?t)) = Inr (True, parsed ''GET'' ''/home'' ''HTTP/1.1'' [])"
    by (simp add: read_body_def)
  have n: "\<not> names_session (w_sessions ?w) (parsed ''GET'' ''/home'' ''HTTP/1.1'' [])"
    by (simp add: names_session_def example_world_def)
  have "private_path (rq_path (parsed ''GET'' ''/home'' ''HTTP/1.1'' []))"
    by (simp add: private_path_def)
  from pages_need_session [OF r this, of example_site] n show ?thesis
    by (simp add: redirect_to_def example_site_def)
qed

text \<open>
  A cookie that is no number ends the web server.  A request for any page with the session cookie
  \<open>v\<close>, where \<open>v\<close> does not start with a number, in any segmentation, raises \<open>invalid_argument\<close> while it is read; nothing catches it.
\<close>

lemma bad_cookie_ends_server:
  assumes "live sock" "concat sock = request_text ''GET'' p ver [session_header v] []" "plain_words [p, ver]"
    and "v \<noteq> []" "CHR '';'' \<notin> set v" "CHR ''='' \<notin> set v" "CHR 0x0D \<notin> set v" "scan_num v = None"
  shows "serve_connection st sock w = Some (Inl Invalid_argument, w)"
proof -
  have h: "\<forall>h \<in> set [session_header v]. header_text h"
    using assms(7) by simp
  have "find_session (w_sessions w) (parsed ''GET'' p ver [session_header v]) = Inl Invalid_argument"
    using session_request [OF assms(4-6), of "w_sessions w" "''GET''" p ver] assms(8) by (simp add: stoull_def)
  then show ?thesis
    using http_read_request [OF assms(1,2) _ assms(3) h, of "w_sessions w"] by (auto simp: serve_connection_def)
qed

text \<open>
  C34. A login opens a session.  On a primary storage node, when the login form arrives with the name and the password of an
  account, in any segmentation, the answer sets the session cookie to a number that no open session
  has, no value of the store changes, and every later request that carries this cookie, whatever page it asks for,
  is read as a request of that user.
\<close>

theorem login_opens_session:
  assumes "st_route st u = Some (node_link e)" "serving (w_store w)" "nval (w_store w) u ''pwd'' = p"
    and "valid_username u" "token u" "u \<noteq> ''logging''" "form_text u" "form_text p"
    and "live sock" "concat sock = request_text ''POST'' ''/login'' v [length_header (length (login_body u p))] (login_body u p)"
    and "plain_words [v]" "length (login_body u p) < 2 ^ 31"
    and "draw (w_random w) (w_sessions w) = Some (n, ns)" "length (w_sessions w) \<le> 1000"
    and "live sock'" "concat sock' = request_text ''GET'' path v' [session_header (nat_str (unat n))] []" "plain_words [path, v']"
  shows "map_of (w_sessions w) n = None \<and> (\<exists>rq r w1. serve_connection st sock w = Some (Inr (reply_bytes rq r), w1) \<and>
    (SET_COOKIE, ''sessionid='' @ nat_str (unat n)) \<in> set (rs_headers r) \<and> rs_status r = OK \<and>
    nval (w_store w1) = nval (w_store w) \<and>
    (\<exists>rq'. fst (http_read (w_sessions w1) sock') = Inr (True, rq') \<and> rq_path rq' = path \<and> rq_username rq' = u))"
proof
  show "map_of (w_sessions w) n = None"
    by (rule draw_free [OF assms(13)])
  have pv: "plain_words [''/login'', v]" and body: "login_body u p \<noteq> []" and pne: "nval (w_store w) u ''pwd'' \<noteq> []"
    using assms(3,8,11) by (simp_all add: plain_words_def login_body_def form_text_def)
  obtain rq where rq: "fst (http_read (w_sessions w) sock) = Inr (True, rq)" "rq_method rq = ''POST''" "rq_path rq = ''/login''"
    "rq_body rq = login_body u p"
    using read_post [OF assms(9,10) pv body assms(12)] by blast
  have "data_ok u ''pwd'' []"
    using assms(5,6) by (simp add: data_ok_def token_def log_char_def alpha_def)
  then obtain nd where nd: "sign_in (st_route st) u p (w_store w) = (1, nd)" "serving nd" "nval nd = nval (w_store w)"
    using kv_node.sign_in_account [where route = "st_route st", OF assms(1,2,4) _ pne, of "[]" p] assms(3) by auto
  let ?w1 = "w\<lparr>w_store := nd, w_sessions := AList.update n u (w_sessions w), w_random := ns\<rparr>"
  let ?r = "load_content (st_pages st) OK ''text/html'' (html ''/home.html'') empty_response"
  let ?r1 = "?r\<lparr>rs_headers := put_header SET_COOKIE (''sessionid='' @ nat_str (unat n)) (rs_headers ?r)\<rparr>"
  have "respond st rq w = Some (Inr ?r1, ?w1)"
    using rq(2-4) nd(1) form_fields [OF assms(7,8)] assms(13,14)
    by (simp add: respond_def func_mp_def login_handler_def create_cookie_def Let_def)
  then have "serve_connection st sock w = Some (Inr (reply_bytes rq ?r1), ?w1)"
    using rq(1) by (simp add: serve_connection_def reply_def)
  moreover have "map_of (w_sessions ?w1) n = Some u"
    by simp
  from read_get [OF assms(15-17) this] have "\<exists>rq'. fst (http_read (w_sessions ?w1) sock') = Inr (True, rq') \<and> rq_path rq' = path \<and> rq_username rq' = u"
    by blast
  moreover have "rs_status ?r1 = OK"
    by (simp add: load_content_def Let_def)
  ultimately show "\<exists>rq r w1. serve_connection st sock w = Some (Inr (reply_bytes rq r), w1) \<and>
    (SET_COOKIE, ''sessionid='' @ nat_str (unat n)) \<in> set (rs_headers r) \<and> rs_status r = OK \<and>
    nval (w_store w1) = nval (w_store w) \<and>
    (\<exists>rq'. fst (http_read (w_sessions w1) sock') = Inr (True, rq') \<and> rq_path rq' = path \<and> rq_username rq' = u)"
    using nd(3) by (intro exI [of _ rq] exI [of _ ?r1] exI [of _ ?w1]) simp
qed

lemma amy_account: "\<exists>nd. serving nd \<and> nval nd = set_val ''amy'' ''pwd'' ''x'' (\<lambda>_ _. [])"
proof -
  have "valid_username ''amy''" "data_ok ''amy'' ''pwd'' ''x''"
    by (simp_all add: account_defs)
  then show ?thesis
    using kv_node.sign_up_new [where route = example_route, OF example_route_link example_serving, of "''amy''" "''x''"] by auto
qed

theorem login_opens_session_witness:
  "\<exists>nd rq r w1. serve_connection example_site
      (example_segments (request_text ''POST'' ''/login'' ''HTTP/1.1'' [length_header (length (login_body ''amy'' ''x''))] (login_body ''amy'' ''x'')))
      (example_world nd) = Some (Inr (reply_bytes rq r), w1) \<and>
    (\<exists>rq'. fst (http_read (w_sessions w1)
        (example_segments (request_text ''GET'' ''/user'' ''HTTP/1.1'' [session_header (nat_str (unat (7 :: 64 word)))] []))) = Inr (True, rq') \<and>
      rq_path rq' = ''/user'' \<and> rq_username rq' = ''amy'')"
proof -
  obtain nd where nd: "serving nd" "nval nd = set_val ''amy'' ''pwd'' ''x'' (\<lambda>_ _. [])"
    using amy_account by blast
  let ?w = "example_world nd"
  let ?t1 = "request_text ''POST'' ''/login'' ''HTTP/1.1'' [length_header (length (login_body ''amy'' ''x''))] (login_body ''amy'' ''x'')"
  let ?t2 = "request_text ''GET'' ''/user'' ''HTTP/1.1'' [session_header (nat_str (unat (7 :: 64 word)))] []"
  have h: "st_route example_site ''amy'' = Some (node_link example_env)" "serving (w_store ?w)" "nval (w_store ?w) ''amy'' ''pwd'' = ''x''"
    "draw (w_random ?w) (w_sessions ?w) = Some (7, [])" "length (w_sessions ?w) \<le> 1000"
    using nd by (simp_all add: example_site_def example_world_def)
  have u: "valid_username ''amy''" "token ''amy''" "''amy'' \<noteq> ''logging''" "form_text ''amy''" "form_text ''x''"
    "plain_words [''HTTP/1.1'']" "plain_words [''/user'', ''HTTP/1.1'']" "length (login_body ''amy'' ''x'') < 2 ^ 31"
    by (simp_all add: account_defs form_text_def plain_words_def login_body_def)
  have l: "live (example_segments ?t1)" "live (example_segments ?t2)"
    by (rule example_segments_ok, simp add: request_text_def)+
  show ?thesis
    using login_opens_session [OF h(1-3) u(1-5) l(1) example_segments_ok(2) u(6,8) h(4,5) l(2) example_segments_ok(2) u(7)] by blast
qed

text \<open>
  A mail with a long line brings the web server down.  If the mailbox of a user holds a mail with a line of 954 bytes or
  more, as anybody may send, then showing that mail writes past the end of a buffer of 1000 bytes: undefined behaviour in the one process
  that serves all users.
\<close>

lemma long_line_overflows:
  assumes "st_route st u = Some (node_link e)" "serving (w_store w)" "member (w_store w) u" "token u" "u \<noteq> ''logging''"
    and "nval (w_store w) u ''mbox'' = print_mails (ms @ m # ms')" "\<forall>x \<in> set (ms @ m # ms'). mail_ok x"
    and "\<forall>x \<in> set ms'. m_id x \<noteq> m_id m" "m_id m = word_of_nat i" "i < 2 ^ 31"
    and "length (print_mails (ms @ m # ms')) < 2 ^ 31"
    and "l \<in> set (split (m_text m) nl)" "CHR 0x00 \<notin> set l" "954 \<le> length l"
    and "rq_method rq = ''GET''" "rq_path rq = ''/email_display?index='' @ nat_str i" "rq_username rq = u" "u \<noteq> []"
  shows "\<exists>w1. respond st rq w = Some (Inl Undefined, w1) \<and> nval (w_store w1) = nval (w_store w)"
proof -
  have "data_ok u ''mbox'' (print_mails (ms @ m # ms'))"
    using assms(4,5,11) by (simp add: data_ok_def token_def log_char_def alpha_def)
  then obtain nd where nd: "get_mails (st_route st) [] u (w_store w) = (Inr (True, map named (ms @ m # ms')), nd)"
    "nval nd = nval (w_store w)"
    using kv_node.get_box [where route = "st_route st", OF assms(1-3,6,7), of "[]"] by blast
  have none: "func_mp st (rq_path rq) = None" "take 5 (rq_path rq) \<noteq> ''/file''" "take 14 (rq_path rq) = ''/email_display''"
    using assms(16) by (simp_all add: func_mp_def)
  have "length (content_row l) = 46 + length l"
    using assms(13) by (simp add: content_row_def cstr_def)
  then have "email_content_construct (m_text m) = Inl Undefined"
    using content_rows_overflow [OF assms(12)] assms(14) by (simp add: email_content_construct_def)
  then have shown: "display_email_detail pages (named m) inbox_response = Inl Undefined" for pages
    by (simp add: display_email_detail_def named_def)
  have pick: "fold (\<lambda>obj m. if m_id obj = word_of_int (int i) then obj else m) (map named (ms @ m # ms')) d = named m" for d
    using fold_pick [of ms' "word_of_int (int i)" m ms d] assms(8,9) by simp
  let ?w1 = "w\<lparr>w_deleted := int i, w_store := nd\<rparr>"
  have "email_display_handler st rq w = Some (Inl Undefined, ?w1)"
    unfolding email_display_handler_def assms(15-17) email_index_path [OF assms(10)] using nd(1) pick shown by (simp only: sum.case prod.case Let_def) simp
  then show ?thesis
    using none assms(17,18) nd(2) by (intro exI [of _ ?w1]) (simp add: respond_def)
qed

definition long_mail :: mail where
  "long_mail = new_mail (''Thu Jan  1 00:00:00 1970'' @ [nl]) 0 ''amy'' (replicate 954 (CHR ''a'') @ nl # [])"

lemma not_header: "is_header (CHR ''a'' # t) \<Longrightarrow> False"
proof -
  assume "is_header (CHR ''a'' # t)"
  then have "accepts header_regex (CHR ''a'' # t) []"
    by (simp only: is_accepts)
  then obtain q r where "CHR ''a'' # t = q @ r" "map to_lower q = map to_lower ''FROM <''"
    unfolding header_regex_def accepts_seqs accepts_ilit by blast
  then have "to_lower (CHR ''a'') = to_lower (CHR ''F'')"
    by (cases q) simp_all
  moreover have "to_lower (CHR ''a'') \<noteq> to_lower (CHR ''F'')"
    by code_simp
  ultimately show False by simp
qed

lemma long_mail_lines: "split (m_text long_mail) nl = [replicate 954 (CHR ''a'')]"
  unfolding long_mail_def new_mail_def mail.simps by (subst split_step) simp_all

lemma long_mail_ok: "mail_ok long_mail"
proof -
  have "\<not> is_header (replicate 954 (CHR ''a''))"
    using not_header [of "replicate 953 (CHR ''a'')"] by (auto simp flip: replicate_Suc)
  moreover have "is_sender ''amy@localhost''" "is_date ''Thu Jan  1 00:00:00 1970''"
    by code_simp+
  moreover have "sender long_mail = ''amy@localhost''" "m_time long_mail = ''Thu Jan  1 00:00:00 1970'' @ [nl]"
    "last (m_text long_mail) = nl"
    by (simp_all add: long_mail_def new_mail_def sender_def)
  ultimately show ?thesis
    using long_mail_lines by (simp add: mail_ok_def)
qed

lemma long_mail_length: "length (to_local_string (sent_as 1 long_mail)) < 2 ^ 31"
  by (simp add: to_local_string_def from_line_def sent_as_def long_mail_def new_mail_def nat_str.simps)

end
