(* ===== verification/Storage_Tree.thy ===== *)
theory Storage_Tree
  imports Storage "HOL-Library.Multiset"
begin

text \<open>
  The folders of a user as a tree, and what it means that the objects of a handler represent a tree: names, kinds, parents and
  entries agree, in any order of the entries.  Paths, lookups and the frame rules for changes of single objects.
\<close>

section \<open>Trees\<close>

datatype ftree = FFile int | FDir int "(string \<times> ftree) list"

lemma tree_induct [case_names FFile FDir]:
  assumes "\<And>i. P (FFile i)" "\<And>i es. (\<And>k t. (k, t) \<in> set es \<Longrightarrow> P t) \<Longrightarrow> P (FDir i es)"
  shows "P t"
proof (induction t)
  case (FDir i es)
  then show ?case by (intro assms(2)) (auto intro: FDir)
qed (rule assms)

fun tid :: "ftree \<Rightarrow> int" where
  "tid (FFile i) = i"
| "tid (FDir i es) = i"

fun leaf :: "ftree \<Rightarrow> bool" where
  "leaf (FFile i) = True"
| "leaf (FDir i es) = False"

fun subs :: "ftree \<Rightarrow> (string \<times> ftree) list" where
  "subs (FFile i) = []"
| "subs (FDir i es) = es"

fun ids :: "ftree \<Rightarrow> int list" where
  "ids (FFile i) = [i]"
| "ids (FDir i es) = i # concat (map (\<lambda>(k, t). ids t) es)"

fun look :: "ftree \<Rightarrow> string list \<Rightarrow> ftree option" where
  "look t [] = Some t"
| "look t (n # ns) = (case map_of (subs t) n of None \<Rightarrow> None | Some u \<Rightarrow> look u ns)"

definition entry_name :: "string \<Rightarrow> bool" where
  "entry_name n \<longleftrightarrow> n \<noteq> [] \<and> (\<forall>c \<in> set n. name_char c \<and> c \<noteq> CHR ''/'')"

fun good :: "ftree \<Rightarrow> bool" where
  "good (FFile i) = (0 \<le> i \<and> i < 2 ^ 31)"
| "good (FDir i es) =
     (0 \<le> i \<and> i < 2 ^ 31 \<and> length es < 2 ^ 31 \<and> distinct (map fst es) \<and> (\<forall>(k, t) \<in> set es. entry_name k \<and> good t))"

definition wf_tree :: "ftree \<Rightarrow> bool" where
  "wf_tree t \<longleftrightarrow> \<not> leaf t \<and> good t \<and> distinct (ids t)"

lemma tid_in_ids [simp]: "tid t \<in> set (ids t)"
  by (cases t) auto

lemma ids_sub: "(k, u) \<in> set (subs t) \<Longrightarrow> set (ids u) \<subseteq> set (ids t)"
  by (cases t) auto

lemma good_sub: "good t \<Longrightarrow> (k, u) \<in> set (subs t) \<Longrightarrow> good u \<and> entry_name k"
  by (cases t) auto

lemma good_names: "good t \<Longrightarrow> distinct (map fst (subs t))"
  by (cases t) auto

lemma good_tid: "good t \<Longrightarrow> 0 \<le> tid t \<and> tid t < 2 ^ 31"
  by (cases t) auto

lemma look_append: "look t (ns @ ms) = (case look t ns of None \<Rightarrow> None | Some u \<Rightarrow> look u ms)"
  by (induction t ns rule: look.induct) (auto split: option.splits)

lemma look_ids: "look t ns = Some u \<Longrightarrow> set (ids u) \<subseteq> set (ids t)"
  by (induction t ns rule: look.induct) (auto split: option.splits dest!: map_of_SomeD dest: ids_sub)

lemma look_good: "good t \<Longrightarrow> look t ns = Some u \<Longrightarrow> good u"
  by (induction t ns rule: look.induct) (auto split: option.splits dest!: map_of_SomeD dest: good_sub)

lemma concat_split: "(k, u) \<in> set es \<Longrightarrow>
    \<exists>xs ys. concat (map (\<lambda>(k, t). ids t) es) = xs @ ids u @ ys"
  by (drule split_list) fastforce

lemma ids_list: "(k, u) \<in> set es \<Longrightarrow> set (ids u) \<subseteq> set (concat (map (\<lambda>(k, t). ids t) es))"
  by auto

lemma look_distinct: "distinct (ids t) \<Longrightarrow> look t ns = Some u \<Longrightarrow> distinct (ids u)"
proof (induction t ns rule: look.induct)
  case (2 t n ns)
  then obtain v where v: "map_of (subs t) n = Some v" "look v ns = Some u"
    by (auto split: option.splits)
  then have "(n, v) \<in> set (subs t)"
    by (rule_tac map_of_SomeD)
  then have "distinct (ids v)"
    using "2.prems"(1) concat_split [of n v "subs t"] by (cases t) auto
  then show ?case using "2.IH" v by simp
qed simp

lemma look_depth: "look t ns = Some u \<Longrightarrow> length ns + length (ids u) \<le> length (ids t)"
proof (induction t ns rule: look.induct)
  case (2 t n ns)
  then obtain v where v: "map_of (subs t) n = Some v" "look v ns = Some u"
    by (auto split: option.splits)
  then have "(n, v) \<in> set (subs t)"
    by (rule_tac map_of_SomeD)
  then have "Suc (length (ids v)) \<le> length (ids t)"
    using concat_split [of n v "subs t"] by (cases t) auto
  then show ?case using "2.IH" v by fastforce
qed simp

text \<open>Nodes at different paths have different identifiers.\<close>

lemma ids_apart:
  assumes "distinct (ids t)" "(k, u) \<in> set (subs t)" "(k', u') \<in> set (subs t)" "(k, u) \<noteq> (k', u')"
  shows "set (ids u) \<inter> set (ids u') = {}"
proof -
  obtain i es where t: "t = FDir i es" using assms(2) by (cases t) auto
  have d: "distinct (concat (map (\<lambda>(k, t). ids t) es))"
    using assms(1) t by simp
  have "(k, u) \<in> set es" "(k', u') \<in> set es"
    using assms t by auto
  then show ?thesis
    using d assms(4)
  proof (induction es)
    case (Cons e es)
    note ids_list [of _ _ es]
    moreover have "set (ids (snd e)) \<inter> set (concat (map (\<lambda>(k, t). ids t) es)) = {}"
      using Cons.prems(3) by (cases e) (simp only: list.map concat.simps distinct_append prod.case snd_conv)
    ultimately have disj: "set (ids (snd e)) \<inter> set (ids w) = {}" if "(l, w) \<in> set es" for l w
      using that by blast
    have d: "distinct (concat (map (\<lambda>(k, t). ids t) es))"
      using Cons.prems(3) by simp
    have apart: False if "j \<in> set (ids (snd e))" "(l, w) \<in> set es" "j \<in> set (ids w)" for j l w
      using disj [OF that(2)] that by blast
    have "False" if j: "j \<in> set (ids u)" "j \<in> set (ids u')" for j
    proof -
      consider "(k, u) \<in> set es \<and> (k', u') \<in> set es" | "e = (k, u)" "(k', u') \<in> set es" | "e = (k', u')" "(k, u) \<in> set es"
        using Cons.prems(1,2,4) by auto
      then show ?thesis
        using Cons.IH [OF _ _ d Cons.prems(4)] apart [of j k' u'] apart [of j k u] j by cases auto
    qed
    then show ?case by blast
  qed simp
qed

lemma tid_fresh:
  assumes "distinct (ids t)" "(k, u) \<in> set (subs t)"
  shows "tid t \<notin> set (ids u)"
  using assms concat_split [of k u "subs t"] by (cases t) auto

lemma look_same_tid:
  assumes "distinct (ids t)" "look t ns = Some u" "look t ms = Some v" "tid u \<in> set (ids v)"
  shows "\<exists>ls. ns = ms @ ls"
  using assms
proof (induction ms arbitrary: t ns)
  case (Cons m ms)
  then obtain w where w: "map_of (subs t) m = Some w" "look w ms = Some v"
    by (auto split: option.splits)
  then have mw: "(m, w) \<in> set (subs t)"
    by (rule_tac map_of_SomeD)
  show ?case
  proof (cases ns)
    case Nil
    then show ?thesis
      using Cons.prems tid_fresh [OF Cons.prems(1) mw] look_ids [OF w(2)] by auto
  next
    case (Cons n ns')
    then obtain x where x: "map_of (subs t) n = Some x" "look x ns' = Some u"
      using Cons.prems by (auto split: option.splits)
    then have nx: "(n, x) \<in> set (subs t)"
      by (rule_tac map_of_SomeD)
    have "tid u \<in> set (ids x)" "tid u \<in> set (ids w)"
      using look_ids [OF x(2)] look_ids [OF w(2)] Cons.prems(4) by auto
    then have "n = m \<and> x = w"
      using ids_apart [OF Cons.prems(1) mw nx] by blast
    then show ?thesis
      using Cons.IH [OF look_distinct [OF Cons.prems(1), of "[m]" w] _ w(2) Cons.prems(4), of ns'] x w Cons
      by simp
  qed
qed simp

section \<open>Representation in the objects of a handler\<close>

definition entries_of :: "(string \<times> ftree) list \<Rightarrow> (string \<times> int option) list" where
  "entries_of es = map (\<lambda>(k, t). (k, Some (tid t))) es"

text \<open>
  \<open>rep R h p n t\<close>: the objects of \<open>h\<close> represent \<open>t\<close> as the entry \<open>n\<close> of the folder \<open>p\<close>.  \<open>R\<close> says how the
  entries of an object are related to those of the tree: \<open>shuffled\<close> in any order, or in the order of a visit.
\<close>

fun rep :: "((string, int option) cmap \<Rightarrow> (string, int option) cmap \<Rightarrow> bool) \<Rightarrow> heap \<Rightarrow> int \<Rightarrow> string \<Rightarrow> ftree \<Rightarrow> bool" where
  "rep R h p n (FFile i) =
     (map_of h i = Some \<lparr>d_path = n, d_file = True, d_parent = Some p, d_root = False, d_entries = []\<rparr>)"
| "rep R h p n (FDir i es) =
     ((\<exists>m. map_of h i = Some \<lparr>d_path = n, d_file = False, d_parent = Some p, d_root = False, d_entries = m\<rparr> \<and>
        R m (entries_of es)) \<and>
      (\<forall>(k, t) \<in> set es. rep R h i k t))"

definition rep_root :: "((string, int option) cmap \<Rightarrow> (string, int option) cmap \<Rightarrow> bool) \<Rightarrow> heap \<Rightarrow> string \<Rightarrow> ftree \<Rightarrow> bool" where
  "rep_root R h usr t \<longleftrightarrow> \<not> leaf t \<and>
     (\<exists>m q. map_of h (tid t) = Some \<lparr>d_path = usr, d_file = False, d_parent = q, d_root = True, d_entries = m\<rparr> \<and>
        R m (entries_of (subs t))) \<and>
     (\<forall>(k, u) \<in> set (subs t). rep R h (tid t) k u)"

definition shuffled :: "(string, int option) cmap \<Rightarrow> (string, int option) cmap \<Rightarrow> bool" where
  "shuffled m m' \<longleftrightarrow> mset m = mset m'"

definition visited :: "iter \<Rightarrow> (string, int option) cmap \<Rightarrow> (string, int option) cmap \<Rightarrow> bool" where
  "visited iter m m' \<longleftrightarrow> iter m = m' \<and> mset m = mset m'"

definition iter_ok :: "iter \<Rightarrow> bool" where
  "iter_ok iter \<longleftrightarrow> (\<forall>m. mset (iter m) = mset m)"

lemma visited_shuffled [simp]: "visited iter m m' \<Longrightarrow> shuffled m m'"
  by (simp add: visited_def shuffled_def)

lemma rep_mono: "rep R h p n t \<Longrightarrow> (\<And>m m'. R m m' \<Longrightarrow> R' m m') \<Longrightarrow> rep R' h p n t"
proof (induction t arbitrary: p n rule: tree_induct)
  case (FDir i es)
  have "rep R' h i k t" if "(k, t) \<in> set es" for k t
    using FDir.IH [OF that _ FDir.prems(2)] FDir.prems(1) that by auto
  then show ?case
    using FDir.prems by auto
qed simp

lemma rep_root_mono: "rep_root R h usr t \<Longrightarrow> (\<And>m m'. R m m' \<Longrightarrow> R' m m') \<Longrightarrow> rep_root R' h usr t"
  unfolding rep_root_def using rep_mono [where R = R and R' = R'] by fast

lemma rep_frame:
  "rep R h p n t \<Longrightarrow> (\<And>j. j \<in> set (ids t) \<Longrightarrow> map_of h' j = map_of h j) \<Longrightarrow> rep R h' p n t"
proof (induction t arbitrary: p n rule: tree_induct)
  case (FDir i es)
  have "rep R h' i k t" if kt: "(k, t) \<in> set es" for k t
  proof (rule FDir.IH [OF kt])
    show "rep R h i k t" using FDir.prems(1) kt by auto
    show "map_of h' j = map_of h j" if "j \<in> set (ids t)" for j
      by (rule FDir.prems(2)) (use that kt in auto)
  qed
  moreover have "map_of h' i = map_of h i"
    by (rule FDir.prems(2)) simp
  ultimately show ?case using FDir.prems(1) unfolding rep.simps by simp blast
qed simp

lemma rep_dom: "rep R h p n t \<Longrightarrow> j \<in> set (ids t) \<Longrightarrow> map_of h j \<noteq> None"
proof (induction t arbitrary: p n rule: tree_induct)
  case (FDir i es)
  show ?case
  proof (cases "j = i")
    case False
    then obtain k t where kt: "(k, t) \<in> set es" "j \<in> set (ids t)"
      using FDir.prems(2) by auto
    then have "rep R h i k t" using FDir.prems(1) by auto
    then show ?thesis
      using FDir.IH [OF kt(1) _ kt(2)] by blast
  next
    case True
    then show ?thesis using FDir.prems(1) unfolding rep.simps by fastforce
  qed
qed simp

lemma rep_root_dom: "rep_root R h usr t \<Longrightarrow> j \<in> set (ids t) \<Longrightarrow> map_of h j \<noteq> None"
proof -
  assume a: "rep_root R h usr t" "j \<in> set (ids t)"
  then obtain i es where t: "t = FDir i es" by (cases t) (auto simp: rep_root_def)
  then consider "j = i" | k u where "(k, u) \<in> set es" "j \<in> set (ids u)"
    using a(2) by auto
  then show ?thesis
  proof cases
    case 1
    then show ?thesis using a(1) t by (auto simp: rep_root_def)
  next
    case 2
    then have "rep R h i k u" using a(1) t by (auto simp: rep_root_def)
    then show ?thesis using rep_dom 2(2) by blast
  qed
qed

text \<open>The object of a node below the root.\<close>

lemma rep_node: "rep R h p n t \<Longrightarrow> \<exists>m. map_of h (tid t) =
    Some \<lparr>d_path = n, d_file = leaf t, d_parent = Some p, d_root = False, d_entries = m\<rparr> \<and>
    (if leaf t then m = [] else R m (entries_of (subs t)))"
  by (cases t) auto

lemma rep_sub: "rep R h p n t \<Longrightarrow> (k, u) \<in> set (subs t) \<Longrightarrow> rep R h (tid t) k u"
  by (cases t) auto

lemma rep_look:
  assumes "rep_root R h usr t" "look t (ns @ [n]) = Some u"
  shows "\<exists>v. look t ns = Some v \<and> (n, u) \<in> set (subs v) \<and> rep R h (tid v) n u"
  using assms(2)
proof (induction ns arbitrary: n u rule: rev_induct)
  case Nil
  then have "(n, u) \<in> set (subs t)"
    by (auto split: option.splits dest: map_of_SomeD)
  then show ?case
    using assms(1) by (auto simp: rep_root_def)
next
  case (snoc m ns)
  obtain v where v: "look t (ns @ [m]) = Some v" "map_of (subs v) n = Some u"
    using snoc.prems by (auto simp: look_append split: option.splits)
  then have "(n, u) \<in> set (subs v)"
    by (rule_tac map_of_SomeD)
  then show ?case
    using snoc.IH [OF v(1)] v(1) rep_sub by blast
qed

text \<open>The entries of a folder as a map.\<close>

lemma map_of_entries: "map_of (entries_of es) k = map_option (\<lambda>t. Some (tid t)) (map_of es k)"
  unfolding entries_of_def by (induction es) auto

lemma mset_map_of:
  assumes "mset m = mset m'" "distinct (map fst m')"
  shows "map_of m = map_of m'"
proof -
  have "mset (map fst m) = mset (map fst m')" "set m = set m'"
    using assms(1) by (simp only: mset_map) (metis assms(1) set_mset_mset)
  then show ?thesis
    using assms(2) by (metis map_of_inject_set mset_eq_imp_distinct_iff)
qed

lemma fst_entries [simp]: "map fst (entries_of es) = map fst es"
  by (simp add: entries_of_def split_beta)

lemma shuffled_map_of: "shuffled m (entries_of es) \<Longrightarrow> distinct (map fst es) \<Longrightarrow> map_of m = map_of (entries_of es)"
  unfolding shuffled_def by (rule mset_map_of) simp_all

lemma rep_object:
  assumes "rep_root R h usr t" "look t ns = Some u"
  shows "\<exists>d. map_of h (tid u) = Some d \<and> d_file d = leaf u \<and> (if leaf u then d_entries d = [] else R (d_entries d) (entries_of (subs u)))"
proof (cases ns rule: rev_cases)
  case Nil
  then show ?thesis
    using assms by (auto simp: rep_root_def)
next
  case (snoc ms n)
  then obtain v where "rep R h (tid v) n u"
    using rep_look assms by blast
  then show ?thesis
    using rep_node [of R h "tid v" n u] by fastforce
qed

section \<open>Paths\<close>

definition path_text :: "string \<Rightarrow> string list \<Rightarrow> string" where
  "path_text usr ns = ''/'' @ usr @ concat (map (\<lambda>n. ''/'' @ n) ns)"

lemma path_text_snoc: "path_text usr (ns @ [n]) = path_text usr ns @ ''/'' @ n"
  by (simp add: path_text_def)

lemma path_up_look:
  assumes "rep_root R h usr t" "look t ns = Some u" "length ns < k"
  shows "path_up k h (tid u) = Inr (path_text usr ns)"
  using assms(2,3)
proof (induction ns arbitrary: u k rule: rev_induct)
  case Nil
  then obtain k' where "k = Suc k'"
    by (cases k) auto
  then show ?case
    using assms(1) Nil by (auto simp: rep_root_def deref_def path_text_def)
next
  case (snoc n ns)
  obtain v where v: "look t ns = Some v" "rep R h (tid v) n u"
    using rep_look [OF assms(1) snoc.prems(1)] by blast
  obtain k' where k: "k = Suc k'" "length ns < k'"
    using snoc.prems(2) by (cases k) auto
  show ?case
    using rep_node [OF v(2)] snoc.IH [OF v(1) k(2)] k by (auto simp: deref_def path_text_snoc)
qed

lemma ids_bound:
  assumes "rep_root R h usr t" "distinct (ids t)"
  shows "length (ids t) \<le> length h"
proof -
  have "set (ids t) \<subseteq> set (map fst h)"
    using rep_root_dom [OF assms(1)] by (fastforce simp: map_of_eq_None_iff)
  then have "card (set (ids t)) \<le> card (set (map fst h))"
    by (intro card_mono) auto
  also have "\<dots> \<le> length h"
    by (metis card_length length_map)
  finally show ?thesis
    using assms(2) by (simp add: distinct_card)
qed

lemma Path_look:
  assumes "rep_root R h usr t" "distinct (ids t)" "look t ns = Some u"
  shows "Path h (tid u) = Inr (path_text usr ns)"
proof -
  have "0 < length (ids u)"
    by (cases u) auto
  then have "length ns < length h"
    using look_depth [OF assms(3)] ids_bound [OF assms(1,2)] by linarith
  then show ?thesis
    unfolding Path_def using path_up_look [OF assms(1,3)] by blast
qed

section \<open>Finding a path\<close>

definition fp_of :: "string list \<Rightarrow> string" where
  "fp_of ns = concat (map (\<lambda>n. ''/'' @ n) ns)"

lemma slash_name [simp]: "entry_name n \<Longrightarrow> CHR ''/'' \<notin> set n" "entry_name n \<Longrightarrow> n \<noteq> []"
  by (auto simp: entry_name_def)

lemma resolve_slash: "resolve h p rel (CHR ''/'' # path) = resolve h p rel path"
  by (subst resolve.simps) simp

text \<open>One name of a path that goes on.\<close>

lemma resolve_step:
  assumes "entry_name n" "deref h p = Inr (i, d)"
  shows "resolve h p rel (n @ CHR ''/'' # path) =
    (case map_of (d_entries d) n of
       None \<Rightarrow> Inr (\<lparr>lo_ok = False, lo_parent = None, lo_dir = None, lo_name = n\<rparr>, h)
     | Some q \<Rightarrow> resolve h q n path)"
  using assms by (subst resolve.simps) (auto simp: GetEntry_def HasEntry_def split: option.splits)

lemma resolve_last:
  assumes "entry_name n" "deref h p = Inr (i, d)"
  shows "resolve h p rel n =
    (case map_of (d_entries d) n of
       None \<Rightarrow> Inr (\<lparr>lo_ok = False, lo_parent = p, lo_dir = None, lo_name = n\<rparr>, h)
     | Some q \<Rightarrow> Inr (\<lparr>lo_ok = True, lo_parent = p, lo_dir = q, lo_name = n\<rparr>, h))"
proof -
  have n: "find_char (CHR ''/'') n = None" "n \<noteq> []"
    using assms by simp_all
  show ?thesis
    unfolding resolve.simps [of h p rel n] n(1) option.case
    using assms(2) n(2) by (auto simp: GetEntry_def HasEntry_def split: option.splits)
qed

text \<open>What \<open>ValidatePathAndGetDir\<close> finds for a path, in terms of the tree.\<close>

definition located_at :: "ftree \<Rightarrow> string list \<Rightarrow> string \<Rightarrow> string \<Rightarrow> located" where
  "located_at t ns n miss =
     (case look t ns of
        None \<Rightarrow> \<lparr>lo_ok = False, lo_parent = None, lo_dir = None, lo_name = miss\<rparr>
      | Some v \<Rightarrow>
          (case map_of (subs v) n of
             None \<Rightarrow> \<lparr>lo_ok = False, lo_parent = Some (tid v), lo_dir = None, lo_name = n\<rparr>
           | Some u \<Rightarrow> \<lparr>lo_ok = True, lo_parent = Some (tid v), lo_dir = Some (tid u), lo_name = n\<rparr>))"

lemma entries_look:
  assumes "rep_root shuffled h usr t" "good t" "look t ns = Some u"
  shows "\<exists>d. deref h (Some (tid u)) = Inr (tid u, d) \<and> d_file d = leaf u \<and> wf_map (d_entries d) \<and>
    shuffled (d_entries d) (entries_of (subs u)) \<and> map_of (d_entries d) = map_of (entries_of (subs u))"
proof -
  obtain d where d: "map_of h (tid u) = Some d" "d_file d = leaf u"
    "if leaf u then d_entries d = [] else shuffled (d_entries d) (entries_of (subs u))"
    using rep_object [OF assms(1,3)] by blast
  have names: "distinct (map fst (subs u))"
    using good_names [OF look_good [OF assms(2,3)]] .
  have s: "shuffled (d_entries d) (entries_of (subs u))"
    using d(3) by (cases u) (auto simp: shuffled_def entries_of_def)
  have "wf_map (d_entries d)"
    using names s by (metis fst_entries mset_eq_imp_distinct_iff mset_map shuffled_def wf_map_def)
  then show ?thesis
    using d s shuffled_map_of [OF s names] by (auto simp: deref_def)
qed

lemma resolve_look:
  assumes R: "rep_root shuffled h usr t" "good t"
  shows "look t ms = Some w \<Longrightarrow> list_all entry_name (ns @ [n]) \<Longrightarrow>
    \<exists>miss. resolve h (Some (tid w)) rel (fp_of (ns @ [n])) = Inr (located_at w ns n miss, h)"
proof (induction ns arbitrary: ms w rel)
  case Nil
  obtain d where d: "deref h (Some (tid w)) = Inr (tid w, d)" "map_of (d_entries d) = map_of (entries_of (subs w))"
    using entries_look [OF R Nil.prems(1)] by blast
  show ?case
    using resolve_last [OF _ d(1), of n rel] Nil.prems(2) d(2)
    by (auto simp: fp_of_def resolve_slash located_at_def map_of_entries split: option.splits)
next
  case (Cons m ns)
  obtain d where d: "deref h (Some (tid w)) = Inr (tid w, d)" "map_of (d_entries d) = map_of (entries_of (subs w))"
    using entries_look [OF R Cons.prems(1)] by blast
  obtain path where path: "fp_of (ns @ [n]) = CHR ''/'' # path" 
    by (cases ns) (auto simp: fp_of_def)
  have step: "resolve h (Some (tid w)) rel (fp_of ((m # ns) @ [n])) =
    (case map_of (subs w) m of
       None \<Rightarrow> Inr (\<lparr>lo_ok = False, lo_parent = None, lo_dir = None, lo_name = m\<rparr>, h)
     | Some q \<Rightarrow> resolve h (Some (tid q)) m (fp_of (ns @ [n])))"
    using resolve_step [OF _ d(1), of m rel path] Cons.prems(2) d(2) path
    by (auto simp: fp_of_def resolve_slash map_of_entries split: option.splits)
  show ?case
  proof (cases "map_of (subs w) m")
    case None
    then show ?thesis using step by (auto simp: located_at_def)
  next
    case (Some q)
    have "look t (ms @ [m]) = Some q"
      using Cons.prems(1) Some by (simp add: look_append)
    from Cons.IH [OF this, of m] Cons.prems(2) show ?thesis
      using step Some by (auto simp: located_at_def)
  qed
qed

lemma fp_of_not_root: "list_all entry_name (ns @ [n]) \<Longrightarrow> fp_of (ns @ [n]) \<noteq> ''/''"
  by (cases ns; cases n) (auto simp: fp_of_def entry_name_def)

lemma validate_look:
  assumes "rep_root shuffled (s_heap st) usr t" "good t" "s_root st = Some (tid t)" "list_all entry_name (ns @ [n])"
  shows "\<exists>miss. ValidatePathAndGetDir (fp_of (ns @ [n])) st = Inr (located_at t ns n miss, st)"
  using resolve_look [OF assms(1,2), of "[]" t ns n "[]"] assms(3,4) fp_of_not_root [OF assms(4)]
  by (auto simp: ValidatePathAndGetDir_def root_ptr_def)

end
