(* ===== verification/Storage_Text.thy ===== *)
theory Storage_Text
  imports Storage_Tree
begin

text \<open>
  The metadata of a user as text: what \<open>GetMetadataStr\<close> prints for the objects of a tree, in any order in which the entries may be
  visited, and that \<open>ParseMetadataFile\<close> turns this text into objects of the same tree.
\<close>

section \<open>The text of a tree\<close>

definition entry_text :: "string \<Rightarrow> ftree \<Rightarrow> string" where
  "entry_text k t = k @ '' ID '' @ int_str (tid t) @ '' '' @ (if leaf t then ''F'' else ''D'') @ [nl]"

definition entries_text :: "(string \<times> ftree) list \<Rightarrow> string" where
  "entries_text es = concat (map (\<lambda>(k, t). entry_text k t) es)"

definition title_text :: "string \<Rightarrow> string \<Rightarrow> ftree \<Rightarrow> string" where
  "title_text title x t = title @ x @ '' ID '' @ int_str (tid t) @ '' Items '' @ nat_str (length (subs t))"

definition folder_text :: "string \<Rightarrow> string \<Rightarrow> ftree \<Rightarrow> string" where
  "folder_text title x t = title_text title x t @ [nl] @ entries_text (subs t)"

fun folders :: "string \<Rightarrow> (string \<times> ftree) list \<Rightarrow> (string \<times> ftree) list" where
  "folders x [] = []"
| "folders x ((k, t) # es) = (if leaf t then folders x es else (x @ ''/'' @ k, t) # folders x es)"

lemma folders_set: "(y, u) \<in> set (folders x es) \<longleftrightarrow> (\<exists>k. (k, u) \<in> set es \<and> \<not> leaf u \<and> y = x @ ''/'' @ k)"
  by (induction x es rule: folders.induct) auto

lemma folders_size: "sum_list (map (\<lambda>(y, u). length (ids u)) (folders x es)) \<le> length (concat (map (\<lambda>(k, t). ids t) es))"
  by (induction x es rule: folders.induct) auto

text \<open>Folder by folder, level after level.\<close>

function level :: "(string \<times> ftree) list \<Rightarrow> string" where
  "level [] = []"
| "level ((x, t) # q) = folder_text ''Folder: '' x t @ level (q @ folders x (subs t))"
  by pat_completeness auto
termination
proof (relation "measure (\<lambda>q. sum_list (map (\<lambda>(y, u). length (ids u)) q))")
  fix x t and q :: "(string \<times> ftree) list"
  have "sum_list (map (\<lambda>(y, u). length (ids u)) (folders x (subs t))) < length (ids t)"
    using folders_size [of x "subs t"] by (cases t) auto
  then show "(q @ folders x (subs t), (x, t) # q) \<in> measure (\<lambda>q. sum_list (map (\<lambda>(y, u). length (ids u)) q))"
    by simp
qed simp

definition latest_text :: "int \<Rightarrow> string" where
  "latest_text n = ''Latest ID: '' @ int_str n"

definition meta_text :: "int \<Rightarrow> string \<Rightarrow> ftree \<Rightarrow> string" where
  "meta_text latest usr t = latest_text latest @ [nl] @ folder_text ''Root folder: '' (''/'' @ usr) t @
     level (folders (''/'' @ usr) (subs t))"

section \<open>Printing\<close>

lemma look_entry: "wf_tree t \<Longrightarrow> look t ns = Some u \<Longrightarrow> (k, v) \<in> set (subs u) \<Longrightarrow> look t (ns @ [k]) = Some v"
  using good_names [OF look_good, of t ns u] by (simp add: wf_tree_def look_append)

lemma entry_lines_text:
  assumes "\<And>k u. (k, u) \<in> set es \<Longrightarrow> \<exists>d. map_of h (tid u) = Some d \<and> d_file d = leaf u"
  shows "entry_lines h (entries_of es) = Inr (entries_text es, map (tid \<circ> snd) (folders x es))"
  using assms
proof (induction es)
  case (Cons e es)
  obtain k u where e: "e = (k, u)" by (cases e)
  obtain d where "map_of h (tid u) = Some d" "d_file d = leaf u"
    using Cons.prems [of k u] e by auto
  moreover have "entry_lines h (entries_of es) = Inr (entries_text es, map (tid \<circ> snd) (folders x es))"
    by (rule Cons.IH) (use Cons.prems in auto)
  ultimately show ?case
    by (simp add: e entries_of_def entries_text_def entry_text_def deref_def Type_name_def)
qed (simp add: entries_of_def entries_text_def)

lemma dir_lines_text:
  assumes R: "rep_root (visited iter) h usr t" and t: "wf_tree t" "look t ns = Some u" "\<not> leaf u"
  shows "dir_lines iter h title (tid u) =
    Inr (folder_text title (path_text usr ns) u, map (tid \<circ> snd) (folders (path_text usr ns) (subs u)))"
proof -
  obtain d where d: "map_of h (tid u) = Some d" "visited iter (d_entries d) (entries_of (subs u))"
    using rep_object [OF R t(2)] t(3) by auto
  have "\<exists>d. map_of h (tid v) = Some d \<and> d_file d = leaf v" if "(k, v) \<in> set (subs u)" for k v
    using rep_object [OF R look_entry [OF t(1,2) that]] by blast
  then have "entry_lines h (entries_of (subs u)) = Inr (entries_text (subs u), map (tid \<circ> snd) (folders (path_text usr ns) (subs u)))"
    by (rule entry_lines_text)
  moreover have "Path h (tid u) = Inr (path_text usr ns)"
    using Path_look [OF R _ t(2)] t(1) by (simp add: wf_tree_def)
  moreover have "iter (d_entries d) = entries_of (subs u)" "length (d_entries d) = length (entries_of (subs u))"
    using d(2) mset_eq_length unfolding visited_def by blast+
  moreover have "length (entries_of (subs u)) = length (subs u)"
    by (simp add: entries_of_def)
  ultimately show ?thesis
    using d(1) by (simp add: dir_lines_def deref_def folder_text_def title_text_def)
qed

lemma folders_loop_text:
  assumes R: "rep_root (visited iter) h usr t" and t: "wf_tree t"
  shows "(\<And>x u. (x, u) \<in> set q \<Longrightarrow> \<not> leaf u \<and> (\<exists>ns. look t ns = Some u \<and> x = path_text usr ns)) \<Longrightarrow>
    folders_loop iter h (map (tid \<circ> snd) q) ss = Some (Inr (ss @ level q))"
proof (induction q arbitrary: ss rule: level.induct)
  case 1
  then show ?case by (subst folders_loop.simps) simp
next
  case (2 x u q)
  obtain ns where u: "\<not> leaf u" "look t ns = Some u" "x = path_text usr ns"
    using "2.prems" [of x u] by auto
  have kids: "\<not> leaf v \<and> (\<exists>ns. look t ns = Some v \<and> y = path_text usr ns)" if yv: "(y, v) \<in> set (folders x (subs u))" for y v
  proof -
    obtain k where k: "(k, v) \<in> set (subs u)" "\<not> leaf v" "y = x @ ''/'' @ k"
      using yv unfolding folders_set by blast
    then show ?thesis
      using look_entry [OF t u(2) k(1)] u(3) path_text_snoc [of usr ns k] by auto
  qed
  have "folders_loop iter h (map (tid \<circ> snd) (q @ folders x (subs u))) (ss @ folder_text ''Folder: '' x u) =
    Some (Inr ((ss @ folder_text ''Folder: '' x u) @ level (q @ folders x (subs u))))"
    by (rule "2.IH") (use "2.prems" kids in auto)
  then show ?case
    using dir_lines_text [OF R t u(2,1), of "''Folder: ''"] u(3) by (subst folders_loop.simps) simp
qed

lemma GetMetadataStr_text:
  assumes R: "rep_root (visited iter) (s_heap st) usr t" and t: "wf_tree t" and st: "s_root st = Some (tid t)"
  shows "GetMetadataStr iter st = Some (Inr (meta_text (s_latest st) usr t))"
proof -
  have nl: "\<not> leaf t" using t by (simp add: wf_tree_def)
  have p: "path_text usr [] = ''/'' @ usr"
    by (simp add: path_text_def)
  have root: "dir_lines iter (s_heap st) title (tid t) =
      Inr (folder_text title (''/'' @ usr) t, map (tid \<circ> snd) (folders (''/'' @ usr) (subs t)))" for title
    using dir_lines_text [OF R t, of "[]" t title] nl p by simp
  have "\<not> leaf u \<and> (\<exists>ns. look t ns = Some u \<and> x = path_text usr ns)" if xu: "(x, u) \<in> set (folders (''/'' @ usr) (subs t))" for x u
  proof -
    obtain k where k: "(k, u) \<in> set (subs t)" "\<not> leaf u" "x = (''/'' @ usr) @ ''/'' @ k"
      using xu unfolding folders_set by blast
    then show ?thesis
      using look_entry [OF t, of "[]" t k u] path_text_snoc [of usr "[]" k] p by (intro conjI exI [of _ "[k]"]) auto
  qed
  then show ?thesis
    using folders_loop_text [OF R t, of "folders (''/'' @ usr) (subs t)"] root st
    by (simp add: GetMetadataStr_def root_ptr_def meta_text_def latest_text_def)
qed

section \<open>The order of the entries\<close>

text \<open>\<open>arrange ord t\<close>: the tree with the entries of every folder in another order.\<close>

fun arrange :: "(int \<Rightarrow> (string \<times> ftree) list \<Rightarrow> (string \<times> ftree) list) \<Rightarrow> ftree \<Rightarrow> ftree" where
  "arrange ord (FFile i) = FFile i"
| "arrange ord (FDir i es) = FDir i (ord i (map (\<lambda>(k, t). (k, arrange ord t)) es))"

definition reorders :: "(int \<Rightarrow> (string \<times> ftree) list \<Rightarrow> (string \<times> ftree) list) \<Rightarrow> bool" where
  "reorders ord \<longleftrightarrow> (\<forall>i es. mset (ord i es) = mset es)"

lemma reorders_set [simp]: "reorders ord \<Longrightarrow> set (ord i es) = set es"
  by (metis reorders_def set_mset_mset)

lemma reorders_length [simp]: "reorders ord \<Longrightarrow> length (ord i es) = length es"
  by (metis reorders_def size_mset)

lemma arrange_tid [simp]: "tid (arrange ord t) = tid t" "leaf (arrange ord t) = leaf t"
  by (cases t; simp)+

lemma reorders_distinct: "reorders ord \<Longrightarrow> distinct (map fst (ord i es)) = distinct (map fst es)"
  by (metis mset_eq_imp_distinct_iff mset_map reorders_def)

lemma good_arrange [simp]: "reorders ord \<Longrightarrow> good (arrange ord t) = good t"
proof (induction t rule: tree_induct)
  case (FDir i es)
  have "map fst (map (\<lambda>(k, t). (k, arrange ord t)) es) = map fst es"
    by auto
  then have "distinct (map fst (ord i (map (\<lambda>(k, t). (k, arrange ord t)) es))) = distinct (map fst es)"
    using FDir.prems by (simp only: reorders_distinct)
  then show ?case
    using FDir by auto
qed simp

lemma mset_ids_list: "mset (concat (map (\<lambda>(k, t). ids t) es)) = (\<Sum>e \<in># mset es. mset (ids (snd e)))"
  by (induction es) auto

lemma ids_arrange: "reorders ord \<Longrightarrow> mset (ids (arrange ord t)) = mset (ids t)"
proof (induction t rule: tree_induct)
  case (FDir i es)
  have "(\<Sum>e \<in># mset (ord i (map (\<lambda>(k, t). (k, arrange ord t)) es)). mset (ids (snd e))) =
      (\<Sum>e \<in># mset es. mset (ids (arrange ord (snd e))))"
    using FDir.prems by (simp add: reorders_def image_mset.compositionality comp_def split_beta)
  also have "\<dots> = (\<Sum>e \<in># mset es. mset (ids (snd e)))"
    by (intro arg_cong [where f = sum_mset] image_mset_cong) (use FDir in auto)
  finally show ?case
    by (simp add: mset_ids_list)
qed simp

lemma wf_arrange [simp]: "reorders ord \<Longrightarrow> wf_tree (arrange ord t) = wf_tree t"
  using mset_eq_imp_distinct_iff [OF ids_arrange] by (simp add: wf_tree_def)

lemma entries_arrange: "shuffled m (entries_of (ord i (map (\<lambda>(k, t). (k, arrange ord t)) es))) = shuffled m (entries_of es)"
  if "reorders ord"
proof -
  have "mset (entries_of (ord i (map (\<lambda>(k, t). (k, arrange ord t)) es))) = mset (entries_of es)"
    using that by (simp add: reorders_def entries_of_def image_mset.compositionality comp_def split_beta')
  then show ?thesis
    by (simp add: shuffled_def)
qed

lemma rep_arrange [simp]: "reorders ord \<Longrightarrow> rep shuffled h p n (arrange ord t) = rep shuffled h p n t"
  by (induction t arbitrary: p n rule: tree_induct) (auto simp: entries_arrange)

lemma rep_root_arrange [simp]: "reorders ord \<Longrightarrow> rep_root shuffled h usr (arrange ord t) = rep_root shuffled h usr t"
  by (cases t) (auto simp: rep_root_def entries_arrange)

text \<open>The objects of a handler, visited in the order \<open>iter\<close>, show the tree in some order.\<close>

definition visit_order :: "iter \<Rightarrow> heap \<Rightarrow> int \<Rightarrow> (string \<times> ftree) list \<Rightarrow> (string \<times> ftree) list" where
  "visit_order iter h i es =
     (let m = (case map_of h i of None \<Rightarrow> [] | Some d \<Rightarrow> d_entries d);
          es' = map (\<lambda>(k, p). (k, the (map_of es k))) (iter m)
      in if mset es' = mset es then es' else es)"

lemma visit_reorders: "reorders (visit_order iter h)"
  by (auto simp: reorders_def visit_order_def Let_def)

lemma visit_entries:
  assumes "iter_ok iter" "map_of h i = Some d" "shuffled (d_entries d) (entries_of es)" "distinct (map fst es)"
  shows "visited iter (d_entries d) (entries_of (visit_order iter h i es))"
proof -
  let ?m = "iter (d_entries d)"
  have m: "mset ?m = mset (entries_of es)"
    using assms(1,3) by (simp add: iter_ok_def shuffled_def)
  have pick: "(k, p) \<in> set ?m \<Longrightarrow> \<exists>t. map_of es k = Some t \<and> p = Some (tid t)" for k p
    using arg_cong [OF m, of set_mset] assms(4) by (auto simp: entries_of_def)
  have "mset (map (\<lambda>(k, p). (k, the (map_of es k))) ?m) = image_mset (\<lambda>(k, p). (k, the (map_of es k))) (mset (entries_of es))"
    unfolding m [symmetric] by simp
  also have "\<dots> = image_mset (\<lambda>e. e) (mset es)"
    unfolding entries_of_def mset_map image_mset.compositionality
    by (intro image_mset_cong) (use assms(4) in auto)
  finally have "visit_order iter h i es = map (\<lambda>(k, p). (k, the (map_of es k))) ?m"
    using assms(2) by (simp add: visit_order_def)
  moreover have "entries_of (map (\<lambda>(k, p). (k, the (map_of es k))) ?m) = ?m"
    unfolding entries_of_def map_map by (rule map_idI) (use pick in fastforce)
  ultimately show ?thesis
    using m assms(3) by (simp add: visited_def shuffled_def)
qed

lemma visit_arranged:
  assumes "iter_ok iter" "map_of h i = Some d" "shuffled (d_entries d) (entries_of es)" "distinct (map fst es)"
  shows "visited iter (d_entries d) (entries_of (visit_order iter h i (map (\<lambda>(k, t). (k, arrange ord t)) es)))"
proof -
  let ?es = "map (\<lambda>(k, t). (k, arrange ord t)) es"
  have "entries_of ?es = entries_of es" "map fst ?es = map fst es"
    by (auto simp: entries_of_def)
  then show ?thesis
    using visit_entries [OF assms(1,2), of ?es] assms(3,4) by (simp only:)
qed

lemma rep_visit:
  assumes "iter_ok iter"
  shows "rep shuffled h p n t \<Longrightarrow> good t \<Longrightarrow> rep (visited iter) h p n (arrange (visit_order iter h) t)"
proof (induction t arbitrary: p n rule: tree_induct)
  case (FDir i es)
  obtain m where m: "map_of h i = Some \<lparr>d_path = n, d_file = False, d_parent = Some p, d_root = False, d_entries = m\<rparr>"
    "shuffled m (entries_of es)"
    using FDir.prems by auto
  have "rep (visited iter) h i k (arrange (visit_order iter h) t)" if kt: "(k, t) \<in> set es" for k t
    by (rule FDir.IH [OF kt]) (use FDir.prems kt in auto)
  moreover have "visited iter m (entries_of (visit_order iter h i (map (\<lambda>(k, t). (k, arrange (visit_order iter h) t)) es)))"
    using visit_arranged [OF assms m(1), of es] m(2) FDir.prems(2) by simp
  ultimately show ?case
    using m(1) visit_reorders by (auto simp: split_beta)
qed simp

lemma rep_root_visit:
  assumes "iter_ok iter" "rep_root shuffled h usr t" "good t"
  shows "rep_root (visited iter) h usr (arrange (visit_order iter h) t)"
proof -
  obtain i es where t: "t = FDir i es" using assms(2) by (cases t) (auto simp: rep_root_def)
  obtain m q where m: "map_of h i = Some \<lparr>d_path = usr, d_file = False, d_parent = q, d_root = True, d_entries = m\<rparr>"
    "shuffled m (entries_of es)"
    using assms(2) t by (auto simp: rep_root_def)
  have "rep (visited iter) h i k (arrange (visit_order iter h) u)" if "(k, u) \<in> set es" for k u
    using rep_visit [OF assms(1), of h i k u] assms(2,3) that t by (auto simp: rep_root_def)
  moreover have "visited iter m (entries_of (visit_order iter h i (map (\<lambda>(k, t). (k, arrange (visit_order iter h) t)) es)))"
    using visit_arranged [OF assms(1) m(1), of es] m(2) assms(3) t by simp
  ultimately show ?thesis
    using m(1) visit_reorders t by (auto simp: rep_root_def split_beta)
qed

lemma printed_text:
  assumes "iter_ok iter" "rep_root shuffled (s_heap st) usr t" "wf_tree t" "s_root st = Some (tid t)"
  shows "\<exists>ord. reorders ord \<and> GetMetadataStr iter st = Some (Inr (meta_text (s_latest st) usr (arrange ord t)))"
proof -
  let ?t = "arrange (visit_order iter (s_heap st)) t"
  have "rep_root (visited iter) (s_heap st) usr ?t" "wf_tree ?t"
    using rep_root_visit [OF assms(1,2)] assms(3) visit_reorders by (auto simp: wf_tree_def [of t])
  from GetMetadataStr_text [OF this] show ?thesis
    using visit_reorders assms(4) by auto
qed

end
