(* ===== verification/Storage_Parse.thy ===== *)
theory Storage_Parse
  imports Storage_Text
begin

text \<open>
  The parser of the metadata on the text of a tree: each line is recognised with its fields, each entry
  becomes an object, and the folders of the queue are filled one after the other.
\<close>

section \<open>Lines\<close>

lemma blank_space [simp]: "is_space (CHR '' '')" "\<not> is_digit (CHR '' '')" "\<not> name_char (CHR '' '')" "name_char (CHR ''/'')"
  by (simp_all add: is_space_def is_digit_def name_char_def alpha_def)

lemma int_str_nat: "0 \<le> i \<Longrightarrow> int_str i = nat_str (nat i)"
  by (simp add: int_str_def)

lemma stoi_int_str [simp]: "0 \<le> i \<Longrightarrow> i < 2 ^ 31 \<Longrightarrow> stoi (int_str i) = Inr i"
  by (simp add: int_str_nat)

lemma int_str_digits: "0 \<le> i \<Longrightarrow> int_str i \<noteq> [] \<and> (\<forall>c \<in> set (int_str i). is_digit c)"
  by (simp add: int_str_nat nat_str_digits)

lemma int_str_nl [simp]: "0 \<le> i \<Longrightarrow> nl \<notin> set (int_str i)"
  by (simp add: int_str_nat)

definition folder_path :: "string \<Rightarrow> bool" where
  "folder_path x \<longleftrightarrow> (\<exists>y. x = CHR ''/'' # y \<and> (\<forall>c \<in> set y. name_char c))"

lemma folder_path_sub: "folder_path x \<Longrightarrow> entry_name k \<Longrightarrow> folder_path (x @ ''/'' @ k)"
proof -
  assume "folder_path x" "entry_name k"
  then obtain y where y: "x = CHR ''/'' # y" "\<forall>c \<in> set y. name_char c"
    unfolding folder_path_def by blast
  have "\<forall>c \<in> set (y @ ''/'' @ k). name_char c"
    using y(2) \<open>entry_name k\<close> by (simp add: entry_name_def ball_Un)
  then show ?thesis
    using y(1) unfolding folder_path_def by (intro exI [of _ "y @ ''/'' @ k"]) simp
qed

lemma name_char_nl [simp]: "\<not> name_char nl"
  by (simp add: name_char_def alpha_def is_digit_def)

lemma no_nl: "folder_path x \<Longrightarrow> nl \<notin> set x" "entry_name k \<Longrightarrow> nl \<notin> set k"
proof -
  show "nl \<notin> set k" if "entry_name k"
    using that name_char_nl unfolding entry_name_def by blast
  show "nl \<notin> set x" if fp: "folder_path x"
  proof -
    obtain y where "x = CHR ''/'' # y" "\<forall>c \<in> set y. name_char c"
      using fp unfolding folder_path_def by blast
    then show ?thesis
      using name_char_nl by (simp, blast)
  qed
qed

lemma latest_match: "0 \<le> n \<Longrightarrow> regex_match kLatestIdRegex (latest_text n) = Some [int_str n]"
proof (rule regex_match_first)
  assume n: "0 \<le> n"
  have eq: "latest_text n = ''Latest'' @ CHR '' '' # ''ID:'' @ CHR '' '' # int_str n"
    by (simp add: latest_text_def)
  show "first_match kLatestIdRegex (latest_text n) [int_str n] []"
    unfolding eq kLatestIdRegex_def seqs.simps
    by (intro first_Lit_Seq first_Cls_Seq first_Grp_end) (use int_str_digits [OF n] in simp_all)
qed

lemma title_match:
  assumes x: "folder_path x" and t: "0 \<le> tid t" and title: "title = title1 @ '' ''"
  shows "regex_match (folder_regex title1) (title_text title x t) = Some [x, int_str (tid t), nat_str (length (subs t))]"
proof (rule regex_match_first)
  obtain y where y: "x = ''/'' @ y" "\<forall>c \<in> set y. name_char c"
    using x by (auto simp: folder_path_def)
  have eq: "title_text title x t = title1 @ CHR '' '' # x @ CHR '' '' # ''ID'' @ CHR '' '' # int_str (tid t) @ CHR '' '' #
      ''Items'' @ CHR '' '' # nat_str (length (subs t))"
    by (simp add: title_text_def title)
  have path: "first_match (Grp (Seq (Lit ''/'') (Many name_char))) (x @ CHR '' '' # r) [x] (CHR '' '' # r)" for r
  proof -
    have "first_match (Seq (Lit ''/'') (Many name_char)) (x @ CHR '' '' # r) [] (CHR '' '' # r)"
      using first_Lit_Seq [OF first_Many [of y name_char "CHR '' '' # r"], of "''/''"] y by simp
    then show ?thesis by (rule first_Grp)
  qed
  have step: "first_match b (CHR '' '' # r) h s \<Longrightarrow>
      first_match (Seq (Grp (Seq (Lit ''/'') (Many name_char))) b) (x @ CHR '' '' # r) (x # h) s" for b r h s
    using first_Seq [OF path] by fastforce
  show "first_match (folder_regex title1) (title_text title x t) [x, int_str (tid t), nat_str (length (subs t))] []"
    unfolding eq folder_regex_def seqs.simps
    by (intro first_Lit_Seq first_Cls_Seq step first_Grp_Seq first_Grp_end) (use int_str_digits [OF t] nat_str_digits in simp_all)
qed

lemma entry_match:
  assumes "entry_name k" "0 \<le> i"
  shows "regex_match kFolderContentRegex (k @ '' ID '' @ int_str i @ '' '' @ (if l then ''F'' else ''D'')) =
    Some [k, int_str i, if l then ''F'' else ''D'']"
proof (rule regex_match_first)
  have eq: "k @ '' ID '' @ int_str i @ '' '' @ (if l then ''F'' else ''D'') =
      k @ CHR '' '' # ''ID'' @ CHR '' '' # int_str i @ CHR '' '' # [if l then CHR ''F'' else CHR ''D'']"
    by simp
  have step: "first_match b (CHR '' '' # r) h s \<Longrightarrow> first_match (Seq (Grp (Many name_char)) b) (k @ CHR '' '' # r) (k # h) s" for b r h s
    using first_Seq [OF first_Grp [OF first_Many [of k name_char "CHR '' '' # r"]], of b h s] assms(1) by (simp add: entry_name_def)
  have type: "first_match (Grp (Cls (\<lambda>c. c \<in> set ''F|D''))) [if l then CHR ''F'' else CHR ''D''] [if l then ''F'' else ''D''] []"
    by (simp add: first_match_def)
  show "first_match kFolderContentRegex (k @ '' ID '' @ int_str i @ '' '' @ (if l then ''F'' else ''D''))
      [k, int_str i, if l then ''F'' else ''D''] []"
    unfolding eq kFolderContentRegex_def seqs.simps
    by (intro step first_Lit_Seq first_Cls_Seq first_Grp_Seq type) (use int_str_digits [OF assms(2)] in simp_all)
qed

text \<open>Each kind of line is recognised by one expression only.\<close>

lemma other_lines [simp]:
  "regex_match kLatestIdRegex (title_text ''Root folder: '' x t) = None"
  "regex_match kLatestIdRegex (title_text ''Folder: '' x t) = None"
  "regex_match kRootFolderEntryRegex (latest_text n) = None"
  "regex_match kRootFolderEntryRegex (title_text ''Folder: '' x t) = None"
  "regex_match kFolderEntryRegex (latest_text n) = None"
  "regex_match kFolderEntryRegex (title_text ''Root folder: '' x t) = None"
  by (simp_all add: regex_match_def kLatestIdRegex_def kRootFolderEntryRegex_def kFolderEntryRegex_def folder_regex_def title_text_def latest_text_def)

section \<open>Objects that grow\<close>

text \<open>New objects and new entries leave the paths of the old objects alone.\<close>

definition grows :: "heap \<Rightarrow> heap \<Rightarrow> bool" where
  "grows h h' \<longleftrightarrow> length h \<le> length h' \<and>
     (\<forall>j d. map_of h j = Some d \<longrightarrow>
       (\<exists>d'. map_of h' j = Some d' \<and> d_path d' = d_path d \<and> d_parent d' = d_parent d \<and> d_root d' = d_root d))"

lemma grows_refl [simp]: "grows h h"
  by (simp add: grows_def)

lemma grows_trans [trans]: "grows h h1 \<Longrightarrow> grows h1 h2 \<Longrightarrow> grows h h2"
proof -
  assume a: "grows h h1" "grows h1 h2"
  show ?thesis
    unfolding grows_def
  proof (intro conjI allI impI)
    show "length h \<le> length h2"
      using a by (simp add: grows_def)
    fix j d assume "map_of h j = Some d"
    then obtain d1 where d1: "map_of h1 j = Some d1" "d_path d1 = d_path d" "d_parent d1 = d_parent d" "d_root d1 = d_root d"
      using a(1) unfolding grows_def by blast
    then obtain d2 where "map_of h2 j = Some d2" "d_path d2 = d_path d1" "d_parent d2 = d_parent d1" "d_root d2 = d_root d1"
      using a(2) unfolding grows_def by blast
    then show "\<exists>d'. map_of h2 j = Some d' \<and> d_path d' = d_path d \<and> d_parent d' = d_parent d \<and> d_root d' = d_root d"
      using d1 by auto
  qed
qed

lemma length_update: "length m \<le> length (AList.update k v m)"
  by (induction m) auto

lemma grows_update:
  assumes "map_of h j = None \<or> (\<exists>d. map_of h j = Some d \<and> d_path d' = d_path d \<and> d_parent d' = d_parent d \<and> d_root d' = d_root d)"
  shows "grows h (AList.update j d' h)"
  using assms length_update [of h j d'] by (auto simp: grows_def)

lemma grows_path_up:
  assumes "\<And>j d. map_of h j = Some d \<Longrightarrow>
       \<exists>d'. map_of h' j = Some d' \<and> d_path d' = d_path d \<and> d_parent d' = d_parent d \<and> d_root d' = d_root d" "n \<le> n'"
  shows "path_up n h i = Inr x \<Longrightarrow> path_up n' h' i = Inr x"
  using assms(2)
proof (induction n arbitrary: n' i x)
  case (Suc n)
  obtain m where m: "n' = Suc m" "n \<le> m"
    using Suc.prems(2) by (cases n') auto
  obtain d where d: "map_of h i = Some d"
    using Suc.prems(1) by (auto simp: deref_def rbind_eq_Inr split: option.splits)
  then obtain d' where "map_of h' i = Some d'" "d_path d' = d_path d" "d_parent d' = d_parent d" "d_root d' = d_root d"
    using assms(1) by blast
  then show ?case
    using Suc.prems(1) d m Suc.IH [OF _ m(2)] by (auto simp: deref_def rbind_eq_Inr split: if_splits option.splits)
qed simp

lemma grows_Path: "grows h h' \<Longrightarrow> Path h i = Inr x \<Longrightarrow> Path h' i = Inr x"
  unfolding Path_def grows_def using grows_path_up [of h h' "length h" "length h'" i x] by blast

section \<open>Entries\<close>

text \<open>The object of an entry that has just been read.\<close>

definition stub :: "string \<Rightarrow> int \<Rightarrow> ftree \<Rightarrow> dirent" where
  "stub k p t = \<lparr>d_path = k, d_file = leaf t, d_parent = Some p, d_root = False, d_entries = []\<rparr>"

lemma stub_rep: "leaf t \<Longrightarrow> rep R h p k t = (map_of h (tid t) = Some (stub k p t))"
  by (cases t) (auto simp: stub_def)

lemma ParseDirEntry_text:
  assumes k: "entry_name k" and t: "0 \<le> tid t" "tid t < 2 ^ 31" "map_of h (tid t) = None"
    and i: "map_of h i = Some d" "Path h i = Inr x"
  shows "\<exists>h'. ParseDirEntry i (k @ '' ID '' @ int_str (tid t) @ '' '' @ (if leaf t then ''F'' else ''D'')) h = Inr (True, h') \<and>
    map_of h' = (map_of h)(i \<mapsto> AddEntry k (Some (tid t)) d, tid t \<mapsto> stub k i t) \<and> grows h h' \<and> length h < length h'"
proof -
  let ?n = "new_dirent k (leaf t)"
  have ne: "tid t \<noteq> i"
    using i(1) t(3) by auto
  define h1 where "h1 = AList.update (tid t) ?n h"
  define h2 where "h2 = AList.update i (AddEntry k (Some (tid t)) d) h1"
  define h3 where "h3 = AList.update (tid t) (?n\<lparr>d_parent := Some i\<rparr>) h2"
  have find: "FindOrCreateDirMapping (tid t) k (leaf t) h = h1"
    using t(3) by (simp add: FindOrCreateDirMapping_def h1_def)
  have m1: "modify (Some i) (AddEntry k (Some (tid t))) h1 = Inr h2"
    using i(1) ne by (simp add: modify_def deref_def h1_def h2_def)
  have m2: "modify (Some (tid t)) (\<lambda>d. d\<lparr>d_parent := Some i\<rparr>) h2 = Inr h3"
    using ne by (simp add: modify_def deref_def h1_def h2_def h3_def)
  have F: "((if leaf t then ''F'' else ''D'') = ''F'') = leaf t"
    by simp
  have "ParseDirEntry i (k @ '' ID '' @ int_str (tid t) @ '' '' @ (if leaf t then ''F'' else ''D'')) h = Inr (True, h3)"
    unfolding ParseDirEntry_def entry_match [OF k t(1)]
    using t(1,2) i(2) m2 by (simp only: option.case list.case stoi_int_str rbind_simps find m1 F)
  moreover have "map_of h3 = (map_of h)(i \<mapsto> AddEntry k (Some (tid t)) d, tid t \<mapsto> stub k i t)"
    using ne by (auto simp: h3_def h2_def h1_def new_dirent_def stub_def fun_eq_iff)
  moreover have "length h < length h3"
  proof -
    have "length h1 = Suc (length h)"
      using t(3) by (simp add: h1_def update_fresh map_of_eq_None_iff)
    moreover have "length h1 \<le> length h3"
      unfolding h3_def h2_def by (meson length_update order_trans)
    ultimately show ?thesis by simp
  qed
  moreover have "grows h h3"
    using calculation(2,3) i(1) t(3) by (auto simp: grows_def AddEntry_def)
  ultimately show ?thesis by blast
qed

lemma entry_text_line: "entry_text k t @ r = (k @ '' ID '' @ int_str (tid t) @ '' '' @ (if leaf t then ''F'' else ''D'')) @ nl # r"
  by (simp add: entry_text_def)

lemma parse_items_text:
  assumes "map_of h i = Some d" "Path h i = Inr x"
    and "\<And>k t. (k, t) \<in> set es \<Longrightarrow> entry_name k \<and> 0 \<le> tid t \<and> tid t < 2 ^ 31 \<and> map_of h (tid t) = None"
    and "distinct (map fst es)" "distinct (map (tid \<circ> snd) es)" "fst ` set (d_entries d) \<inter> fst ` set es = {}"
  shows "\<exists>h'. parse_items (length es) i (istream_of (entries_text es @ r)) h = Inr (istream_of r, h') \<and>
    grows h h' \<and> length h + length es \<le> length h' \<and>
    map_of h' i = Some (d\<lparr>d_entries := d_entries d @ entries_of es\<rparr>) \<and>
    (\<forall>(k, t) \<in> set es. map_of h' (tid t) = Some (stub k i t)) \<and>
    (\<forall>j. j \<noteq> i \<and> j \<notin> (tid \<circ> snd) ` set es \<longrightarrow> map_of h' j = map_of h j)"
  using assms
proof (induction es arbitrary: h d)
  case Nil
  then show ?case by (simp add: entries_text_def entries_of_def)
next
  case (Cons e es)
  obtain k t where e: "e = (k, t)" by (cases e)
  have kt: "entry_name k" "0 \<le> tid t" "tid t < 2 ^ 31" "map_of h (tid t) = None"
    using Cons.prems(3) [of k t] e by auto
  let ?line = "k @ '' ID '' @ int_str (tid t) @ '' '' @ (if leaf t then ''F'' else ''D'')"
  let ?d = "AddEntry k (Some (tid t)) d"
  obtain h1 where h1: "ParseDirEntry i ?line h = Inr (True, h1)"
    "map_of h1 = (map_of h)(i \<mapsto> ?d, tid t \<mapsto> stub k i t)" "grows h h1" "length h < length h1"
    using ParseDirEntry_text [OF kt Cons.prems(1,2)] by blast
  have ne: "tid t \<noteq> i"
    using kt(4) Cons.prems(1) by auto
  have i: "map_of h1 i = Some ?d" "Path h1 i = Inr x"
    using h1(2) ne grows_Path [OF h1(3) Cons.prems(2)] by auto
  have d: "d_entries ?d = d_entries d @ [(k, Some (tid t))]"
    using Cons.prems(6) e by (simp add: AddEntry_def update_fresh map_of_eq_None_iff)
  have fresh: "entry_name l \<and> 0 \<le> tid u \<and> tid u < 2 ^ 31 \<and> map_of h1 (tid u) = None" if lu: "(l, u) \<in> set es" for l u
  proof -
    have "entry_name l \<and> 0 \<le> tid u \<and> tid u < 2 ^ 31 \<and> map_of h (tid u) = None"
      using Cons.prems(3) [of l u] lu by simp
    moreover have "tid u \<noteq> tid t"
      using Cons.prems(5) e lu by force
    ultimately show ?thesis
      using h1(2) Cons.prems(1) by auto
  qed
  have apart: "fst ` set (d_entries ?d) \<inter> fst ` set es = {}"
    using d Cons.prems(4,6) e by auto
  have "distinct (map fst es)" "distinct (map (tid \<circ> snd) es)"
    using Cons.prems(4,5) by (simp_all add: comp_def)
  from Cons.IH [OF i fresh this apart] obtain h' where h': "parse_items (length es) i (istream_of (entries_text es @ r)) h1 = Inr (istream_of r, h')" "grows h1 h'"
    "length h1 + length es \<le> length h'" "map_of h' i = Some (?d\<lparr>d_entries := d_entries ?d @ entries_of es\<rparr>)"
    "\<forall>(l, u) \<in> set es. map_of h' (tid u) = Some (stub l i u)"
    "\<forall>j. j \<noteq> i \<and> j \<notin> (tid \<circ> snd) ` set es \<longrightarrow> map_of h' j = map_of h1 j"
    by blast
  have "nl \<notin> set ?line"
    using no_nl(2) [OF kt(1)] kt(2) by (auto split: if_splits)
  then have "getline nl (istream_of (entries_text (e # es) @ r)) [] = (True, ?line, istream_of (entries_text es @ r))"
    using getline_line [of nl ?line "entries_text es @ r" "[]"] by (simp add: e entries_text_def entry_text_def)
  then have "parse_items (length (e # es)) i (istream_of (entries_text (e # es) @ r)) h = Inr (istream_of r, h')"
    using h1(1) h'(1) by simp
  moreover have "tid t \<notin> (tid \<circ> snd) ` set es"
    using Cons.prems(5) e by simp
  then have "map_of h' (tid t) = Some (stub k i t)"
    using h'(6) ne h1(2) by simp
  moreover have "map_of h' i = Some (d\<lparr>d_entries := d_entries d @ entries_of (e # es)\<rparr>)"
    using h'(4) d by (simp add: AddEntry_def e entries_of_def)
  moreover have "map_of h' j = map_of h j" if "j \<noteq> i" "j \<notin> (tid \<circ> snd) ` set (e # es)" for j
    using h'(6) h1(2) that e by auto
  ultimately show ?case
    using grows_trans [OF h1(3) h'(2)] h'(3,5) h1(4) e by (intro exI [of _ h']) auto
qed

lemma tids_distinct:
  assumes "distinct (ids t)"
  shows "distinct (map (tid \<circ> snd) (subs t))"
proof -
  have "distinct (concat (map (\<lambda>(k, t). ids t) (subs t)))"
    using assms by (cases t) auto
  then show ?thesis
  proof (induction "subs t" arbitrary: t)
    case (Cons e es)
    then obtain i where t: "t = FDir i (e # es)" by (cases t) auto
    have "tid (snd e) \<noteq> tid (snd e')" if e': "e' \<in> set es" for e'
    proof -
      have "set (ids (snd e')) \<subseteq> set (concat (map (\<lambda>(k, t). ids t) es))"
        using ids_list [of "fst e'" "snd e'" es] e' by simp
      moreover have "set (ids (snd e)) \<inter> set (concat (map (\<lambda>(k, t). ids t) es)) = {}"
        using Cons.prems t by (cases e) (simp only: subs.simps list.map concat.simps distinct_append prod.case snd_conv)
      ultimately show ?thesis
        using tid_in_ids [of "snd e"] tid_in_ids [of "snd e'"] by (metis disjoint_iff subsetD)
    qed
    moreover have "distinct (map (tid \<circ> snd) es)"
      using Cons.hyps(1) [of "FDir i es"] Cons.prems t by simp
    ultimately show ?case
      unfolding t subs.simps by force
  qed simp
qed

text \<open>The facts about the entries of a tree that the parser needs.\<close>

lemma kid_facts:
  assumes t: "good t" "distinct (ids t)" and k: "(k, u) \<in> set (subs t)"
    and fresh: "\<And>j. j \<in> set (ids t) \<Longrightarrow> j \<noteq> tid t \<Longrightarrow> map_of h j = None"
  shows "entry_name k \<and> 0 \<le> tid u \<and> tid u < 2 ^ 31 \<and> map_of h (tid u) = None"
proof -
  have "tid u \<in> set (ids t)" "tid u \<noteq> tid t"
    using ids_sub [OF k] tid_fresh [OF t(2) k] tid_in_ids [of u] by (blast, metis)
  then show ?thesis
    using good_sub [OF t(1) k] fresh good_tid [of u] by simp
qed

section \<open>Folders\<close>

lemma ParseDirectory_text:
  assumes t: "good t" "distinct (ids t)" "\<not> leaf t"
    and d: "map_of h (tid t) = Some d" "d_entries d = []" "Path h (tid t) = Inr x"
    and fresh: "\<And>j. j \<in> set (ids t) \<Longrightarrow> j \<noteq> tid t \<Longrightarrow> map_of h j = None"
  shows "\<exists>h'. ParseDirectory (istream_of (entries_text (subs t) @ r)) [x', int_str (tid t), nat_str (length (subs t))] False h =
      Inr (tid t, istream_of r, h') \<and> grows h h' \<and> length h + length (subs t) \<le> length h' \<and>
    map_of h' (tid t) = Some (d\<lparr>d_entries := entries_of (subs t)\<rparr>) \<and>
    (\<forall>(k, u) \<in> set (subs t). map_of h' (tid u) = Some (stub k (tid t) u)) \<and>
    (\<forall>j. j \<noteq> tid t \<and> j \<notin> (tid \<circ> snd) ` set (subs t) \<longrightarrow> map_of h' j = map_of h j)"
proof -
  obtain i es where i: "t = FDir i es" using t(3) by (cases t) auto
  define h1 where "h1 = AList.update i d h"
  have h1: "map_of h1 = map_of h" "grows h h1"
    using d(1) i by (auto simp: h1_def intro: grows_update)
  have tids: "distinct (map (tid \<circ> snd) es)"
    using tids_distinct [OF t(2)] i by simp
  have es: "entry_name k \<and> 0 \<le> tid u \<and> tid u < 2 ^ 31 \<and> map_of h1 (tid u) = None" if ku: "(k, u) \<in> set es" for k u
    using kid_facts [OF t(1,2) _ fresh] ku h1(1) i by simp
  have pre: "map_of h1 i = Some d" "Path h1 i = Inr x" "distinct (map fst es)" "fst ` set (d_entries d) \<inter> fst ` set es = {}"
    using d h1 i t(1) grows_Path [OF h1(2)] by auto
  obtain h' where h': "parse_items (length es) i (istream_of (entries_text es @ r)) h1 = Inr (istream_of r, h')" "grows h1 h'"
    "length h1 + length es \<le> length h'" "map_of h' i = Some (d\<lparr>d_entries := d_entries d @ entries_of es\<rparr>)"
    "\<forall>(k, t) \<in> set es. map_of h' (tid t) = Some (stub k i t)"
    "\<forall>j. j \<noteq> i \<and> j \<notin> (tid \<circ> snd) ` set es \<longrightarrow> map_of h' j = map_of h1 j"
    using parse_items_text [OF pre(1,2) es pre(3) tids pre(4), of r] by blast
  have "FindOrCreateDirMapping i (base_name x') False h = h" "modify (Some i) id h = Inr h1"
    using d(1) i by (simp_all add: FindOrCreateDirMapping_def modify_def deref_def h1_def)
  then have "ParseDirectory (istream_of (entries_text es @ r)) [x', int_str i, nat_str (length es)] False h = Inr (i, istream_of r, h')"
    using t(1) i h'(1) by (simp add: ParseDirectory_def)
  moreover have "length h \<le> length h1"
    by (simp add: h1_def length_update)
  ultimately show ?thesis
    using h' h1 d(2) i grows_trans [OF h1(2) h'(2)] by (intro exI [of _ h']) simp
qed

section \<open>The whole text\<close>

lemma no_nl_title: "folder_path x \<Longrightarrow> good t \<Longrightarrow> nl \<notin> set (title_text ''Folder: '' x t)"
  "folder_path x \<Longrightarrow> good t \<Longrightarrow> nl \<notin> set (title_text ''Root folder: '' x t)"
  using no_nl(1) [of x] good_tid [of t] by (auto simp: title_text_def)

lemma parse_lines_step:
  "nl \<notin> set line \<Longrightarrow> parse_line line (istream_of r) st = Inr (ss, st') \<Longrightarrow>
    parse_lines (istream_of (line @ nl # r)) st = parse_lines ss st'"
  by (subst parse_lines.simps) simp

lemma folder_line_text:
  assumes "folder_path x" "good t"
    "ParseDirectory (istream_of r) [x, int_str (tid t), nat_str (length (subs t))] False (s_heap st) = Inr (i, ss, h')"
  shows "parse_line (title_text ''Folder: '' x t) (istream_of r) st = Inr (ss, st\<lparr>s_heap := h'\<rparr>)"
proof -
  have "regex_match kFolderEntryRegex (title_text ''Folder: '' x t) = Some [x, int_str (tid t), nat_str (length (subs t))]"
    unfolding kFolderEntryRegex_def by (rule title_match) (use assms good_tid in auto)
  then show ?thesis
    using assms(3) by (simp add: parse_line_def latest_line_def root_line_def folder_line_def)
qed

text \<open>A queue of folders whose objects are there, without entries.\<close>

definition waiting :: "heap \<Rightarrow> (string \<times> ftree) list \<Rightarrow> bool" where
  "waiting h q \<longleftrightarrow>
     (\<forall>(x, t) \<in> set q. folder_path x \<and> good t \<and> \<not> leaf t \<and> (\<exists>k p. map_of h (tid t) = Some (stub k p t)) \<and>
        (\<exists>y. Path h (tid t) = Inr y) \<and> (\<forall>j \<in> set (ids t). j \<noteq> tid t \<longrightarrow> map_of h j = None)) \<and>
     distinct (concat (map (\<lambda>(x, t). ids t) q))"

lemma folders_ids: "distinct (concat (map (\<lambda>(k, t). ids t) es)) \<Longrightarrow> distinct (concat (map (\<lambda>(y, u). ids u) (folders x es)))"
  "set (concat (map (\<lambda>(y, u). ids u) (folders x es))) \<subseteq> set (concat (map (\<lambda>(k, t). ids t) es))"
proof -
  show sub: "set (concat (map (\<lambda>(y, u). ids u) (folders x es))) \<subseteq> set (concat (map (\<lambda>(k, t). ids t) es))" for x es
    by (induction x es rule: folders.induct) auto
  show "distinct (concat (map (\<lambda>(k, t). ids t) es)) \<Longrightarrow> distinct (concat (map (\<lambda>(y, u). ids u) (folders x es)))"
  proof (induction x es rule: folders.induct)
    case (2 x k t es)
    then show ?case
      using sub [of x es] by (auto simp del: set_concat)
  qed simp
qed

lemma queue_ids: "set (ids u) \<subseteq> set (concat (map (\<lambda>(x, t). ids t) q))" if "(y, u) \<in> set q"
  using that by auto

text \<open>Filling the first folder of the queue lets its subfolders wait at the end.\<close>

lemma waiting_step:
  assumes w: "waiting h q" and t: "folder_path x" "good t" "\<not> leaf t" "distinct (ids t)"
    and fresh: "\<And>j. j \<in> set (ids t) \<Longrightarrow> j \<noteq> tid t \<Longrightarrow> map_of h j = None"
    and apart: "set (ids t) \<inter> set (concat (map (\<lambda>(x, t). ids t) q)) = {}"
    and g: "grows h h'" "length h + length (subs t) \<le> length h'" and x: "Path h (tid t) = Inr y"
    and kids: "\<forall>(k, u) \<in> set (subs t). map_of h' (tid u) = Some (stub k (tid t) u)"
    and rest: "\<forall>j. j \<noteq> tid t \<and> j \<notin> (tid \<circ> snd) ` set (subs t) \<longrightarrow> map_of h' j = map_of h j"
  shows "waiting h' (q @ folders x (subs t))"
proof -
  have dq: "distinct (concat (map (\<lambda>(x, t). ids t) q))" "set (ids t) \<inter> set (concat (map (\<lambda>(x, t). ids t) q)) = {}"
    using w apart unfolding waiting_def by (simp_all del: set_concat)
  obtain i es where i: "t = FDir i es" using t(3) by (cases t) auto
  have de: "distinct (concat (map (\<lambda>(k, t). ids t) es))" and des: "set (concat (map (\<lambda>(k, t). ids t) es)) \<subseteq> set (ids t)"
    using t(4) i by auto
  have old: "map_of h' j = map_of h j" if j: "j \<in> set (concat (map (\<lambda>(x, t). ids t) q))" for j
  proof -
    have "(tid \<circ> snd) ` set (subs t) \<subseteq> set (ids t)"
      using ids_sub [of _ _ t] tid_in_ids by fastforce
    then have "j \<noteq> tid t" "j \<notin> (tid \<circ> snd) ` set (subs t)"
      using dq(2) j tid_in_ids [of t] by (blast, blast)
    then show ?thesis using rest by blast
  qed
  have Q: "folder_path z \<and> good u \<and> \<not> leaf u \<and> (\<exists>k p. map_of h' (tid u) = Some (stub k p u)) \<and>
      (\<exists>y. Path h' (tid u) = Inr y) \<and> (\<forall>j \<in> set (ids u). j \<noteq> tid u \<longrightarrow> map_of h' j = None)" if zu: "(z, u) \<in> set q" for z u
  proof -
    have u: "folder_path z" "good u" "\<not> leaf u" "\<exists>k p. map_of h (tid u) = Some (stub k p u)"
      "\<exists>y. Path h (tid u) = Inr y" "\<forall>j \<in> set (ids u). j \<noteq> tid u \<longrightarrow> map_of h j = None"
      using w zu unfolding waiting_def by fastforce+
    have "map_of h' j = map_of h j" if "j \<in> set (ids u)" for j
      using old queue_ids [OF zu] that by blast
    then show ?thesis
      using u grows_Path [OF g(1)] tid_in_ids [of u] by metis
  qed
  have K: "folder_path z \<and> good u \<and> \<not> leaf u \<and> (\<exists>k p. map_of h' (tid u) = Some (stub k p u)) \<and>
      (\<exists>y. Path h' (tid u) = Inr y) \<and> (\<forall>j \<in> set (ids u). j \<noteq> tid u \<longrightarrow> map_of h' j = None)"
    if zu: "(z, u) \<in> set (folders x (subs t))" for z u
  proof -
    obtain k where k: "(k, u) \<in> set (subs t)" "\<not> leaf u" "z = x @ ''/'' @ k"
      using zu unfolding folders_set by blast
    have stub: "map_of h' (tid u) = Some (stub k (tid t) u)"
      using kids k(1) by auto
    have len: "Suc (length h) \<le> length h'"
      using k(1) g(2) by (cases "subs t") auto
    have "path_up (length h) h' (tid t) = Inr y"
      using x grows_path_up [of h h' "length h" "length h"] g(1) unfolding Path_def grows_def by blast
    then have "path_up (Suc (length h)) h' (tid u) = Inr (y @ ''/'' @ k)"
      using stub by (simp add: deref_def stub_def)
    then have "Path h' (tid u) = Inr (y @ ''/'' @ k)"
      unfolding Path_def using grows_path_up [of h' h' "Suc (length h)" "length h'"] len by blast
    moreover have "map_of h' j = None" if j: "j \<in> set (ids u)" "j \<noteq> tid u" for j
    proof -
      have jt: "j \<in> set (ids t)" "j \<noteq> tid t"
        using ids_sub [OF k(1)] tid_fresh [OF t(4) k(1)] j by (blast, metis)
      have "j \<notin> (tid \<circ> snd) ` set (subs t)"
      proof
        assume "j \<in> (tid \<circ> snd) ` set (subs t)"
        then obtain l v where lv: "(l, v) \<in> set (subs t)" "j = tid v" by auto
        then have "(l, v) = (k, u)"
          using ids_apart [OF t(4) lv(1) k(1)] j(1) tid_in_ids [of v] by blast
        then show False using lv(2) j(2) by simp
      qed
      then show ?thesis
        using rest fresh jt by simp
    qed
    ultimately show ?thesis
      using stub k(2,3) folder_path_sub [OF t(1)] good_sub [OF t(2) k(1)] by blast
  qed
  have "set (concat (map (\<lambda>(y, u). ids u) (folders x (subs t)))) \<subseteq> set (ids t)"
    using folders_ids(2) [of x "subs t"] des i by auto
  then have "distinct (concat (map (\<lambda>(x, t). ids t) (q @ folders x (subs t))))"
    using dq folders_ids(1) [of "subs t" x] de i by (simp del: set_concat) blast
  then show ?thesis
    using Q K unfolding waiting_def by auto
qed

lemma waiting_first:
  assumes "waiting h ((x, t) # q)"
  shows "folder_path x" "good t" "\<not> leaf t" "distinct (ids t)" "\<exists>k p. map_of h (tid t) = Some (stub k p t)"
    "\<exists>y. Path h (tid t) = Inr y" "\<And>j. j \<in> set (ids t) \<Longrightarrow> j \<noteq> tid t \<Longrightarrow> map_of h j = None"
    "set (ids t) \<inter> set (concat (map (\<lambda>(x, t). ids t) q)) = {}" "waiting h q"
  using assms unfolding waiting_def by (simp_all del: set_concat)

text \<open>The queue of the step holds no identifier of the folder that was filled, nor of a file in it.\<close>

lemma not_waiting:
  assumes d: "distinct (ids t)" "set (ids t) \<inter> set (concat (map (\<lambda>(x, t). ids t) q)) = {}"
    and j: "j = tid t \<or> (\<exists>k u. (k, u) \<in> set (subs t) \<and> leaf u \<and> j = tid u)"
  shows "j \<notin> set (concat (map (\<lambda>(x, t). ids t) (q @ folders x (subs t))))"
proof -
  have jt: "j \<in> set (ids t)"
    using j ids_sub [of _ _ t] tid_in_ids by blast
  have "j \<notin> set (ids u)" if yu: "(y, u) \<in> set (folders x (subs t))" for y u
  proof -
    obtain k where k: "(k, u) \<in> set (subs t)" "\<not> leaf u"
      using yu unfolding folders_set by blast
    from j show ?thesis
    proof (elim disjE exE conjE)
      assume "j = tid t"
      then show ?thesis using tid_fresh [OF d(1) k(1)] by simp
    next
      fix l v assume v: "(l, v) \<in> set (subs t)" "leaf v" "j = tid v"
      then have "(l, v) \<noteq> (k, u)" using k(2) by auto
      then show ?thesis
        using ids_apart [OF d(1) v(1) k(1)] v(3) tid_in_ids [of v] by blast
    qed
  qed
  then have "j \<notin> set (concat (map (\<lambda>(y, u). ids u) (folders x (subs t))))"
    by auto
  moreover have "j \<notin> set (concat (map (\<lambda>(x, t). ids t) q))"
    using d(2) jt by blast
  ultimately show ?thesis
    by (simp only: map_append concat_append set_append Un_iff) simp
qed

lemma parse_level:
  "waiting (s_heap st) q \<Longrightarrow> \<exists>h'. parse_lines (istream_of (level q)) st = Inr (st\<lparr>s_heap := h'\<rparr>) \<and>
    (\<forall>(x, t) \<in> set q. \<forall>k p. map_of (s_heap st) (tid t) = Some (stub k p t) \<longrightarrow> rep shuffled h' p k t) \<and>
    (\<forall>j. j \<notin> set (concat (map (\<lambda>(x, t). ids t) q)) \<longrightarrow> map_of h' j = map_of (s_heap st) j)"
proof (induction q arbitrary: st rule: level.induct)
  case 1
  show ?case
    by (intro exI [of _ "s_heap st"]) (simp add: parse_lines.simps)
next
  case (2 x t q)
  note W = waiting_first [OF "2.prems"]
  obtain k p y where s: "map_of (s_heap st) (tid t) = Some (stub k p t)" and y: "Path (s_heap st) (tid t) = Inr y"
    using W(5,6) by blast
  let ?r = "level (q @ folders x (subs t))"
  obtain h1 where h1: "ParseDirectory (istream_of (entries_text (subs t) @ ?r)) [x, int_str (tid t), nat_str (length (subs t))] False (s_heap st) =
      Inr (tid t, istream_of ?r, h1)" "grows (s_heap st) h1" "length (s_heap st) + length (subs t) \<le> length h1"
    "map_of h1 (tid t) = Some ((stub k p t)\<lparr>d_entries := entries_of (subs t)\<rparr>)"
    "\<forall>(k, u) \<in> set (subs t). map_of h1 (tid u) = Some (stub k (tid t) u)"
    "\<forall>j. j \<noteq> tid t \<and> j \<notin> (tid \<circ> snd) ` set (subs t) \<longrightarrow> map_of h1 j = map_of (s_heap st) j"
    using ParseDirectory_text [OF W(2,4,3) s _ y W(7), of ?r x] by (auto simp: stub_def [of k p t])
  have w1: "waiting (s_heap (st\<lparr>s_heap := h1\<rparr>)) (q @ folders x (subs t))"
    using waiting_step [OF W(9,1-4,7,8) h1(2,3) y h1(5,6)] by simp
  from "2.IH" [OF this] obtain h' where h': "parse_lines (istream_of ?r) (st\<lparr>s_heap := h1\<rparr>) = Inr (st\<lparr>s_heap := h'\<rparr>)"
    "\<forall>(x, t) \<in> set (q @ folders x (subs t)). \<forall>k p. map_of h1 (tid t) = Some (stub k p t) \<longrightarrow> rep shuffled h' p k t"
    "\<forall>j. j \<notin> set (concat (map (\<lambda>(x, t). ids t) (q @ folders x (subs t)))) \<longrightarrow> map_of h' j = map_of h1 j"
    by auto
  have "parse_line (title_text ''Folder: '' x t) (istream_of (entries_text (subs t) @ ?r)) st = Inr (istream_of ?r, st\<lparr>s_heap := h1\<rparr>)"
    by (rule folder_line_text [OF W(1,2) h1(1)])
  then have run: "parse_lines (istream_of (level ((x, t) # q))) st = Inr (st\<lparr>s_heap := h'\<rparr>)"
    using parse_lines_step [OF no_nl_title(1) [OF W(1,2)], of "entries_text (subs t) @ ?r" st] h'(1)
    by (simp add: folder_text_def)
  have kid: "rep shuffled h' (tid t) l u" if lu: "(l, u) \<in> set (subs t)" for l u
  proof (cases "leaf u")
    case True
    then have "tid u \<notin> set (concat (map (\<lambda>(x, t). ids t) (q @ folders x (subs t))))"
      using not_waiting [OF W(4,8), of "tid u" x] lu by blast
    then have "map_of h' (tid u) = map_of h1 (tid u)"
      using h'(3) by blast
    then show ?thesis using True stub_rep [of u shuffled h' "tid t" l] h1(5) lu by auto
  next
    case False
    then have "(x @ ''/'' @ l, u) \<in> set (folders x (subs t))"
      using lu unfolding folders_set by blast
    then show ?thesis
      using h'(2) h1(5) lu by fastforce
  qed
  have "rep shuffled h' p k t"
  proof -
    obtain i es where i: "t = FDir i es" using W(3) by (cases t) auto
    have "map_of h' i = map_of h1 i"
      using h'(3) not_waiting [OF W(4,8), of i x] i by simp
    then show ?thesis
      using h1(4) kid i by (auto simp: stub_def shuffled_def)
  qed
  moreover have "rep shuffled h' p' k' u" if zu: "(z, u) \<in> set q" and su: "map_of (s_heap st) (tid u) = Some (stub k' p' u)" for z u k' p'
  proof -
    have "tid u \<notin> set (ids t)"
      using W(8) queue_ids [OF zu] tid_in_ids [of u] by blast
    then have "tid u \<noteq> tid t" "tid u \<notin> (tid \<circ> snd) ` set (subs t)"
      using ids_sub [of _ _ t] tid_in_ids by (metis, fastforce)
    then have "map_of h1 (tid u) = Some (stub k' p' u)"
      using h1(6) su by simp
    then show ?thesis
      using h'(2) zu by fastforce
  qed
  moreover have "map_of h' j = map_of (s_heap st) j" if j: "j \<notin> set (concat (map (\<lambda>(x, t). ids t) ((x, t) # q)))" for j
  proof -
    have jt: "j \<notin> set (ids t)" and jq: "j \<notin> set (concat (map (\<lambda>(x, t). ids t) q))"
      using j by auto
    have "j \<noteq> tid t" "j \<notin> (tid \<circ> snd) ` set (subs t)"
      using jt ids_sub [of _ _ t] tid_in_ids by (metis, fastforce)
    moreover have "j \<notin> set (concat (map (\<lambda>(y, u). ids u) (folders x (subs t))))"
      using jt ids_sub [of _ _ t] by (auto simp: folders_set) blast
    ultimately show ?thesis
      using h'(3) h1(6) jq by auto
  qed
  ultimately show ?case
    using run s by (intro exI [of _ h']) (auto simp: stub_def)
qed

lemma find_last_char_root [simp]: "CHR ''/'' \<notin> set usr \<Longrightarrow> base_name (CHR ''/'' # usr) = usr"
proof -
  assume u: "CHR ''/'' \<notin> set usr"
  have "find_char (CHR ''/'') (rev (CHR ''/'' # usr)) = Some (length usr)"
    using find_char_append [of "CHR ''/''" "rev usr" "[]"] u by simp
  then show ?thesis
    by (simp add: base_name_def find_last_char_def)
qed

lemma root_line_text:
  assumes t: "wf_tree t" and usr: "entry_name usr" and st: "s_heap st = []"
  shows "\<exists>h. parse_line (title_text ''Root folder: '' (''/'' @ usr) t) (istream_of (entries_text (subs t) @ r)) st =
      Inr (istream_of r, st\<lparr>s_heap := h, s_root := Some (tid t)\<rparr>) \<and>
    map_of h (tid t) = Some \<lparr>d_path = usr, d_file = False, d_parent = None, d_root = True, d_entries = entries_of (subs t)\<rparr> \<and>
    (\<forall>(k, u) \<in> set (subs t). map_of h (tid u) = Some (stub k (tid t) u)) \<and>
    waiting h (folders (''/'' @ usr) (subs t)) \<and> (\<forall>j. j \<notin> set (ids t) \<longrightarrow> map_of h j = None)"
proof -
  have W: "\<not> leaf t" "good t" "distinct (ids t)"
    using t by (auto simp: wf_tree_def)
  have fp: "folder_path (''/'' @ usr)"
    using usr by (auto simp: folder_path_def entry_name_def)
  obtain i es where i: "t = FDir i es" using W(1) by (cases t) auto
  define d where "d = \<lparr>d_path = usr, d_file = False, d_parent = None, d_root = True, d_entries = []\<rparr>"
  define h0 where "h0 = AList.update i (set_root (new_dirent usr False)) [(i, new_dirent usr False)]"
  have h0: "h0 = [(i, d)]" "modify (Some i) set_root (FindOrCreateDirMapping i (base_name (''/'' @ usr)) False []) = Inr h0"
    using usr by (auto simp: h0_def d_def new_dirent_def set_root_def FindOrCreateDirMapping_def modify_def deref_def)
  have path: "Path h0 i = Inr (''/'' @ usr)"
    by (simp add: Path_def h0(1) deref_def d_def)
  have fresh: "map_of h0 j = None" if "j \<in> set (ids t)" "j \<noteq> tid t" for j
    using that i by (simp add: h0(1))
  have names: "distinct (map fst es)" "fst ` set (d_entries d) \<inter> fst ` set es = {}" "map_of h0 i = Some d"
    "distinct (map (tid \<circ> snd) es)"
    using W(2) i tids_distinct [OF W(3)] by (simp_all add: d_def h0(1))
  have kids: "entry_name k \<and> 0 \<le> tid u \<and> tid u < 2 ^ 31 \<and> map_of h0 (tid u) = None" if "(k, u) \<in> set es" for k u
    using kid_facts [OF W(2,3) _ fresh] that i by simp
  obtain h where h: "parse_items (length es) i (istream_of (entries_text es @ r)) h0 = Inr (istream_of r, h)" "grows h0 h"
    "length h0 + length es \<le> length h" "map_of h i = Some (d\<lparr>d_entries := d_entries d @ entries_of es\<rparr>)"
    "\<forall>(k, u) \<in> set es. map_of h (tid u) = Some (stub k i u)"
    "\<forall>j. j \<noteq> i \<and> j \<notin> (tid \<circ> snd) ` set es \<longrightarrow> map_of h j = map_of h0 j"
    using parse_items_text [OF names(3) path kids names(1,4,2), of r] by blast
  define h' where "h' = AList.update i (set_root (d\<lparr>d_entries := d_entries d @ entries_of es\<rparr>)) h"
  have h': "map_of h' = map_of h" "length h \<le> length h'" "modify (Some i) set_root h = Inr h'"
    using h(4) by (auto simp: h'_def set_root_def d_def modify_def deref_def length_update)
  have "regex_match kRootFolderEntryRegex (title_text ''Root folder: '' (''/'' @ usr) t) =
      Some [''/'' @ usr, int_str i, nat_str (length es)]"
    using title_match [OF fp, of t "''Root folder: ''" "''Root folder:''"] good_tid [OF W(2)] i
    by (simp add: kRootFolderEntryRegex_def)
  moreover have "ParseDirectory (istream_of (entries_text es @ r)) [''/'' @ usr, int_str i, nat_str (length es)] True [] =
      Inr (i, istream_of r, h)"
    using h(1) h0(2) W(2) i by (simp add: ParseDirectory_def)
  ultimately have "parse_line (title_text ''Root folder: '' (''/'' @ usr) t) (istream_of (entries_text es @ r)) st =
      Inr (istream_of r, st\<lparr>s_heap := h', s_root := Some i\<rparr>)"
    using st h'(3) by (simp add: parse_line_def latest_line_def root_line_def folder_line_def)
  moreover have "grows h0 h'"
    using h(2) h' by (simp add: grows_def)
  then have "waiting h' ([] @ folders (''/'' @ usr) (subs t))"
    using waiting_step [of h0 "[]" "''/'' @ usr" t h' "''/'' @ usr"] fp W fresh path h h' i
    by (simp add: waiting_def)
  moreover have "map_of h' j = None" if j: "j \<notin> set (ids t)" for j
  proof -
    have "j \<noteq> tid t" "j \<notin> (tid \<circ> snd) ` set (subs t)"
      using j ids_sub [of _ _ t] tid_in_ids by (metis, fastforce)
    then have "j \<noteq> i" "j \<notin> (tid \<circ> snd) ` set es"
      using i by simp_all
    then show ?thesis
      using h(6) h'(1) by (simp add: h0(1))
  qed
  ultimately show ?thesis
    using h(4,5) h'(1) i by (intro exI [of _ h']) (simp add: d_def)
qed

theorem parse_meta_text:
  assumes t: "wf_tree t" and usr: "entry_name usr" and n: "0 \<le> n" "n < 2 ^ 31" and st: "s_heap st = []"
  shows "\<exists>h. parse_lines (istream_of (meta_text n usr t)) st = Inr (st\<lparr>s_heap := h, s_root := Some (tid t), s_latest := n\<rparr>) \<and>
    rep_root shuffled h usr t \<and> (\<forall>j. j \<notin> set (ids t) \<longrightarrow> map_of h j = None)"
proof -
  let ?r = "level (folders (''/'' @ usr) (subs t))"
  have W: "\<not> leaf t" "good t" "distinct (ids t)"
    using t by (auto simp: wf_tree_def)
  have fp: "folder_path (''/'' @ usr)"
    using usr by (auto simp: folder_path_def entry_name_def)
  let ?st = "st\<lparr>s_latest := n\<rparr>"
  obtain h where h: "parse_line (title_text ''Root folder: '' (''/'' @ usr) t) (istream_of (entries_text (subs t) @ ?r)) ?st =
      Inr (istream_of ?r, ?st\<lparr>s_heap := h, s_root := Some (tid t)\<rparr>)"
    "map_of h (tid t) = Some \<lparr>d_path = usr, d_file = False, d_parent = None, d_root = True, d_entries = entries_of (subs t)\<rparr>"
    "\<forall>(k, u) \<in> set (subs t). map_of h (tid u) = Some (stub k (tid t) u)"
    "waiting h (folders (''/'' @ usr) (subs t))" "\<forall>j. j \<notin> set (ids t) \<longrightarrow> map_of h j = None"
    using root_line_text [OF t usr, of ?st ?r] st by auto
  let ?st1 = "?st\<lparr>s_heap := h, s_root := Some (tid t)\<rparr>"
  have "waiting (s_heap ?st1) (folders (''/'' @ usr) (subs t))"
    using h(4) by simp
  from parse_level [OF this] obtain h' where h': "parse_lines (istream_of ?r) ?st1 = Inr (?st1\<lparr>s_heap := h'\<rparr>)"
    "\<forall>(x, u) \<in> set (folders (''/'' @ usr) (subs t)). \<forall>k p. map_of h (tid u) = Some (stub k p u) \<longrightarrow> rep shuffled h' p k u"
    "\<forall>j. j \<notin> set (concat (map (\<lambda>(x, t). ids t) (folders (''/'' @ usr) (subs t)))) \<longrightarrow> map_of h' j = map_of h j"
    by auto
  have l1: "parse_line (latest_text n) (istream_of s) st = Inr (istream_of s, ?st)" for s
    using latest_match [OF n(1)] n by (simp add: parse_line_def latest_line_def root_line_def folder_line_def)
  have "parse_lines (istream_of (meta_text n usr t)) st =
      parse_lines (istream_of (folder_text ''Root folder: '' (''/'' @ usr) t @ ?r)) ?st"
    using parse_lines_step [OF _ l1] n(1) by (simp add: meta_text_def latest_text_def)
  also have "\<dots> = parse_lines (istream_of ?r) (?st\<lparr>s_heap := h, s_root := Some (tid t)\<rparr>)"
    using parse_lines_step [OF no_nl_title(2) [OF fp W(2)] h(1)] by (simp add: folder_text_def)
  also note h'(1)
  finally have run: "parse_lines (istream_of (meta_text n usr t)) st = Inr (st\<lparr>s_heap := h', s_root := Some (tid t), s_latest := n\<rparr>)"
    by simp
  have old: "map_of h' j = map_of h j" if "j = tid t \<or> (\<exists>k u. (k, u) \<in> set (subs t) \<and> leaf u \<and> j = tid u)" for j
    using h'(3) not_waiting [OF W(3), of "[]" j "''/'' @ usr"] that by simp
  have "rep shuffled h' (tid t) k u" if ku: "(k, u) \<in> set (subs t)" for k u
  proof (cases "leaf u")
    case True
    then have "map_of h' (tid u) = map_of h (tid u)"
      using old ku by blast
    then show ?thesis
      using True h(3) ku stub_rep [of u shuffled h' "tid t" k] by auto
  next
    case False
    then have "((''/'' @ usr) @ ''/'' @ k, u) \<in> set (folders (''/'' @ usr) (subs t))"
      using ku unfolding folders_set by blast
    then show ?thesis
      using h'(2) h(3) ku by fastforce
  qed
  moreover have "map_of h' (tid t) = map_of h (tid t)"
    using old by blast
  moreover have "map_of h' j = None" if j: "j \<notin> set (ids t)" for j
  proof -
    have "j \<notin> set (concat (map (\<lambda>(y, u). ids u) (folders (''/'' @ usr) (subs t))))"
      using j ids_sub [of _ _ t] by (auto simp: folders_set) blast
    then show ?thesis
      using h'(3) h(5) j by simp
  qed
  ultimately show ?thesis
    using run h(2) W(1) by (intro exI [of _ h']) (auto simp: rep_root_def shuffled_def)
qed

end
