(* ===== verification/Storage_Edit.thy ===== *)
theory Storage_Edit
  imports Storage_Parse
begin

text \<open>
  Changes of a tree at a path (adding, removing, renaming and moving an entry), and that the changes that the handlers
  make to single objects are these changes of the tree that the objects represent.
\<close>

section \<open>Editing a folder of a tree\<close>

fun edit :: "string list \<Rightarrow> (ftree \<Rightarrow> ftree) \<Rightarrow> ftree \<Rightarrow> ftree" where
  "edit [] f t = f t"
| "edit (n # ns) f (FFile i) = FFile i"
| "edit (n # ns) f (FDir i es) = FDir i (map (\<lambda>(k, t). (k, if k = n then edit ns f t else t)) es)"

definition add_to :: "string \<Rightarrow> ftree \<Rightarrow> ftree \<Rightarrow> ftree" where
  "add_to k u v = FDir (tid v) (subs v @ [(k, u)])"

definition remove_from :: "string \<Rightarrow> ftree \<Rightarrow> ftree" where
  "remove_from k v = FDir (tid v) (filter (\<lambda>e. fst e \<noteq> k) (subs v))"

definition add_at :: "string list \<Rightarrow> string \<Rightarrow> ftree \<Rightarrow> ftree \<Rightarrow> ftree" where
  "add_at ns k u = edit ns (add_to k u)"

definition remove_at :: "string list \<Rightarrow> string \<Rightarrow> ftree \<Rightarrow> ftree" where
  "remove_at ns k = edit ns (remove_from k)"

lemma edit_map_of: "map_of (map (\<lambda>(k, t). (k, if k = n then f t else t)) es) m =
    map_option (\<lambda>t. if m = n then f t else t) (map_of es m)"
  by (induction es) auto

lemma edit_head:
  assumes "look t ns = Some v" "tid (f v) = tid v" "leaf (f v) = leaf v"
  shows "tid (edit ns f t) = tid t" "leaf (edit ns f t) = leaf t"
  using assms by (induction ns f t rule: edit.induct) auto

text \<open>A path through a tree starts at a folder that has an entry for its first name.\<close>

lemma look_ConsE:
  assumes "look t (n # ns) = Some v"
  obtains i es w where "t = FDir i es" "map_of es n = Some w" "(n, w) \<in> set es" "look w ns = Some v"
  using assms by (cases t) (auto split: option.splits dest: map_of_SomeD)

section \<open>The files and folders that a user sees\<close>

datatype fnode = Folder | Doc string

text \<open>\<open>fview c t\<close>: what is found at a path, when \<open>c\<close> has the contents of the files.\<close>

definition fcontent :: "(string \<Rightarrow> string) \<Rightarrow> ftree \<Rightarrow> fnode" where
  "fcontent c u = (if leaf u then Doc (c (int_str (tid u))) else Folder)"

definition fview :: "(string \<Rightarrow> string) \<Rightarrow> ftree \<Rightarrow> string list \<Rightarrow> fnode option" where
  "fview c t ns = map_option (fcontent c) (look t ns)"

text \<open>\<open>graft p B A\<close>: the view \<open>A\<close> with \<open>B\<close> at and below the path \<open>p\<close>.\<close>

definition graft :: "string list \<Rightarrow> (string list \<Rightarrow> fnode option) \<Rightarrow> (string list \<Rightarrow> fnode option) \<Rightarrow> string list \<Rightarrow> fnode option" where
  "graft p B A ms = (if take (length p) ms = p then B (drop (length p) ms) else A ms)"

definition nothing :: "string list \<Rightarrow> fnode option" where
  "nothing ms = None"

definition single :: "fnode \<Rightarrow> string list \<Rightarrow> fnode option" where
  "single x ms = (if ms = [] then Some x else None)"

lemma graft_Nil [simp]: "graft [] B A = B"
  by (simp add: graft_def fun_eq_iff)

lemma graft_nested:
  assumes "\<And>ms. C ms = A (ns @ ms)"
  shows "graft ns (graft ls B C) A = graft (ns @ ls) B A"
proof
  fix ms
  show "graft ns (graft ls B C) A ms = graft (ns @ ls) B A ms"
  proof (cases "take (length ns) ms = ns")
    case True
    then obtain rs where rs: "ms = ns @ rs" by (metis append_take_drop_id)
    then show ?thesis
      using assms by (simp add: graft_def)
  next
    case False
    have "take (length ns) ms = take (length ns) (take (length (ns @ ls)) ms)"
      by simp
    then have "take (length (ns @ ls)) ms \<noteq> ns @ ls"
      using False by (metis append_eq_conv_conj)
    then show ?thesis
      using False by (simp add: graft_def)
  qed
qed

lemma fview_Nil [simp]: "fview c t [] = Some (fcontent c t)"
  by (simp add: fview_def)

lemma fview_Cons: "fview c t (m # ms) = (case map_of (subs t) m of None \<Rightarrow> None | Some u \<Rightarrow> fview c u ms)"
  by (simp add: fview_def split: option.splits)

lemma fview_single: "fview c (FFile i) = single (Doc (c (int_str i)))" "fview c (FDir i []) = single Folder"
  by (auto simp: fun_eq_iff fview_def single_def fcontent_def neq_Nil_conv)

lemma fview_edit:
  assumes "look t ns = Some v" "tid (f v) = tid v" "leaf (f v) = leaf v"
  shows "fview c (edit ns f t) = graft ns (fview c (f v)) (fview c t)"
  using assms
proof (induction ns arbitrary: t)
  case (Cons n ns)
  from Cons.prems(1) obtain i es w where t: "t = FDir i es" "map_of es n = Some w" "(n, w) \<in> set es" "look w ns = Some v"
    by (rule look_ConsE)
  have "fview c (edit (n # ns) f t) ms = graft (n # ns) (fview c (f v)) (fview c t) ms" for ms
  proof (cases ms)
    case (Cons m ms')
    then show ?thesis
      using Cons.IH [OF t(4) Cons.prems(2,3)] t(1,2) by (simp add: fview_Cons edit_map_of graft_def split: option.splits)
  qed (simp add: t(1) graft_def fcontent_def)
  then show ?case by (simp add: fun_eq_iff)
qed simp

lemma fview_add_at:
  assumes "look t ns = Some v" "\<not> leaf v" "map_of (subs v) k = None"
  shows "fview c (add_at ns k u t) = graft (ns @ [k]) (fview c u) (fview c t)"
proof -
  have "fview c (add_to k u v) = graft [k] (fview c u) (fview c v)"
  proof
    fix ms
    show "fview c (add_to k u v) ms = graft [k] (fview c u) (fview c v) ms"
      using assms(2,3) by (cases ms) (auto simp: fview_Cons add_to_def graft_def fcontent_def map_add_def split: option.splits)
  qed
  moreover have "fview c (add_at ns k u t) = graft ns (fview c (add_to k u v)) (fview c t)"
    using fview_edit [OF assms(1), of "add_to k u" c] assms(2) by (simp add: add_at_def add_to_def)
  moreover have "fview c v ms = fview c t (ns @ ms)" for ms
    using assms(1) by (simp add: fview_def look_append)
  ultimately show ?thesis
    using graft_nested [of "fview c v" "fview c t" ns] by simp
qed

lemma fview_remove_at:
  assumes "look t ns = Some v" "\<not> leaf v"
  shows "fview c (remove_at ns k t) = graft (ns @ [k]) nothing (fview c t)"
proof -
  have "map_of (filter (\<lambda>e. fst e \<noteq> k) es) m = (if m = k then None else map_of es m)" for es :: "(string \<times> ftree) list" and m
    by (induction es) auto
  then have "fview c (remove_from k v) ms = graft [k] nothing (fview c v) ms" for ms
    using assms(2) by (cases ms) (auto simp: fview_Cons remove_from_def graft_def fcontent_def nothing_def split: option.splits)
  then have "fview c (remove_from k v) = graft [k] nothing (fview c v)"
    by (simp add: fun_eq_iff)
  moreover have "fview c (remove_at ns k t) = graft ns (fview c (remove_from k v)) (fview c t)"
    using fview_edit [OF assms(1), of "remove_from k" c] assms(2) by (simp add: remove_at_def remove_from_def)
  moreover have "fview c v ms = fview c t (ns @ ms)" for ms
    using assms(1) by (simp add: fview_def look_append)
  ultimately show ?thesis
    using graft_nested [of "fview c v" "fview c t" ns] by simp
qed

lemma fview_arrange [simp]: "reorders ord \<Longrightarrow> good t \<Longrightarrow> fview c (arrange ord t) = fview c t"
proof -
  assume ord: "reorders ord"
  have *: "good t \<Longrightarrow> map_option (fcontent c) (look (arrange ord t) ms) = map_option (fcontent c) (look t ms)" for ms
  proof (induction ms arbitrary: t)
    case (Cons m ms)
    show ?case
    proof (cases t)
      case (FDir i es)
      let ?es = "map (\<lambda>(k, t). (k, arrange ord t)) es"
      have d: "distinct (map fst ?es)" "mset ?es = mset (ord i ?es)"
        using Cons.prems FDir ord by (auto simp: reorders_def comp_def split_beta)
      then have "map_of (ord i ?es) = map_of ?es"
        using mset_map_of [of "ord i ?es" ?es] by simp
      moreover have "map_of ?es m = map_option (arrange ord) (map_of es m)"
        by (induction es) auto
      moreover have "map_option (fcontent c) (look (arrange ord u) ms) = map_option (fcontent c) (look u ms)" if "map_of es m = Some u" for u
        using Cons.IH [of u] Cons.prems FDir map_of_SomeD [OF that] by auto
      ultimately show ?thesis
        using FDir by (auto split: option.splits)
    qed simp
  qed (simp add: fcontent_def)
  show "good t \<Longrightarrow> fview c (arrange ord t) = fview c t"
    using * by (simp add: fview_def fun_eq_iff)
qed

section \<open>The objects of an edited tree\<close>

text \<open>
  What a change of the objects must do to edit the folder \<open>v\<close> of \<open>t\<close>: the object of \<open>v\<close> gets new entries, and
  nothing outside \<open>v\<close> changes.
\<close>

definition edits_folder :: "heap \<Rightarrow> heap \<Rightarrow> ftree \<Rightarrow> ftree \<Rightarrow> (string \<times> ftree) list \<Rightarrow> bool" where
  "edits_folder h h' t v es' \<longleftrightarrow>
     (\<exists>d m. map_of h (tid v) = Some d \<and> map_of h' (tid v) = Some (d\<lparr>d_entries := m\<rparr>) \<and> shuffled m (entries_of es')) \<and>
     (\<forall>(k, u) \<in> set es'. rep shuffled h' (tid v) k u) \<and>
     (\<forall>j \<in> set (ids t). j \<notin> set (ids v) \<longrightarrow> map_of h' j = map_of h j)"

lemma edits_sub: "edits_folder h h' t v es' \<Longrightarrow> set (ids w) \<subseteq> set (ids t) \<Longrightarrow> edits_folder h h' w v es'"
  unfolding edits_folder_def by blast

lemma edit_entries:
  assumes "distinct (map fst es)" "map_of es a = Some w" "tid (edit ns f w) = tid w"
  shows "entries_of (map (\<lambda>(k, t). (k, if k = a then edit ns f t else t)) es) = entries_of es"
  unfolding entries_of_def map_map
proof (rule map_cong [OF refl])
  fix e assume e: "e \<in> set es"
  then have "snd e = w" if "fst e = a"
    using eq_key_imp_eq_value [OF assms(1) _ map_of_SomeD [OF assms(2)], of "snd e"] that by (metis prod.collapse)
  then show "((\<lambda>(k, t). (k, Some (tid t))) \<circ> (\<lambda>(k, t). (k, if k = a then edit ns f t else t))) e = (\<lambda>(k, t). (k, Some (tid t))) e"
    using assms(3) by (cases e) auto
qed

lemma edit_kids:
  assumes t: "t = FDir i es" "good t" "distinct (ids t)" and w: "map_of es a = Some w" "look w ns = Some v"
    and R: "\<And>k u. (k, u) \<in> set es \<Longrightarrow> rep shuffled h i k u" and e: "edits_folder h h' t v es'"
    and IH: "rep shuffled h' i a (edit ns f w)"
    and ku: "(k, u) \<in> set (map (\<lambda>(k, t). (k, if k = a then edit ns f t else t)) es)"
  shows "rep shuffled h' i k u"
proof -
  have aw: "(a, w) \<in> set (subs t)"
    using w(1) t(1) map_of_SomeD by fastforce
  obtain x where x: "(k, x) \<in> set es" "u = (if k = a then edit ns f x else x)"
    using ku by auto
  show ?thesis
  proof (cases "k = a")
    case True
    then have "x = w"
      using x(1) w(1) t(1,2) by auto
    then show ?thesis using IH True x(2) by simp
  next
    case False
    have kx: "(k, x) \<in> set (subs t)"
      using x(1) t(1) by simp
    have "map_of h' j = map_of h j" if j: "j \<in> set (ids x)" for j
    proof -
      have "j \<notin> set (ids v)"
        using ids_apart [OF t(3) kx aw] False j look_ids [OF w(2)] by blast
      then show ?thesis
        using e j ids_sub [OF kx] unfolding edits_folder_def by blast
    qed
    then show ?thesis
      using rep_frame [OF R [OF x(1)]] False x(2) by simp
  qed
qed

lemma folder_unchanged:
  assumes "edits_folder h h' t v es'" "distinct (ids t)" "(a, w) \<in> set (subs t)" "look w ns = Some v"
  shows "map_of h' (tid t) = map_of h (tid t)"
  using assms(1) tid_fresh [OF assms(2,3)] look_ids [OF assms(4)] tid_in_ids [of t] unfolding edits_folder_def by blast

lemma rep_edit:
  assumes "rep shuffled h p n t" "good t" "distinct (ids t)" "look t ns = Some v" "\<not> leaf v"
    "f v = FDir (tid v) es'" "edits_folder h h' t v es'"
  shows "rep shuffled h' p n (edit ns f t)"
  using assms
proof (induction ns arbitrary: p n t)
  case Nil
  then obtain i es where "t = FDir i es" "v = t" by (cases t) auto
  then show ?case
    using Nil.prems unfolding edits_folder_def by auto
next
  case (Cons a ns)
  from Cons.prems(4) obtain i es w where t: "t = FDir i es" "map_of es a = Some w" "(a, w) \<in> set es" "look w ns = Some v"
    by (rule look_ConsE)
  have aw: "(a, w) \<in> set (subs t)" and gw: "good w" "distinct (ids w)"
    using t good_sub [OF Cons.prems(2)] look_distinct [OF Cons.prems(3), of "[a]" w] by simp_all
  have R: "rep shuffled h i k u" if "(k, u) \<in> set es" for k u
    using Cons.prems(1) t(1) that by auto
  have IH: "rep shuffled h' i a (edit ns f w)"
    using Cons.IH [OF R [OF t(3)] gw t(4) Cons.prems(5,6) edits_sub [OF Cons.prems(7) ids_sub [OF aw]]] .
  have "tid (edit ns f w) = tid w"
    using edit_head [OF t(4), of f] Cons.prems(5,6) by simp
  then have "entries_of (map (\<lambda>(k, t). (k, if k = a then edit ns f t else t)) es) = entries_of es"
    using edit_entries t(1,2) Cons.prems(2) by simp
  moreover have "map_of h' i = map_of h i"
    using folder_unchanged [OF Cons.prems(7,3) aw t(4)] t(1) by simp
  moreover have "\<forall>(k, u) \<in> set (map (\<lambda>(k, t). (k, if k = a then edit ns f t else t)) es). rep shuffled h' i k u"
    using edit_kids [OF t(1) Cons.prems(2,3) t(2,4) R Cons.prems(7) IH] by blast
  ultimately show ?case
    using Cons.prems(1) t(1) by (simp del: set_map)
qed

lemma rep_root_edit:
  assumes "rep_root shuffled h usr t" "wf_tree t" "look t ns = Some v" "\<not> leaf v"
    "f v = FDir (tid v) es'" "edits_folder h h' t v es'"
  shows "rep_root shuffled h' usr (edit ns f t)"
proof (cases ns)
  case Nil
  then show ?thesis
    using assms unfolding edits_folder_def rep_root_def by auto
next
  case (Cons a ns')
  from assms(3) [unfolded Cons] obtain i es w where t: "t = FDir i es" "map_of es a = Some w" "(a, w) \<in> set es" "look w ns' = Some v"
    by (rule look_ConsE)
  have W: "good t" "distinct (ids t)"
    using assms(2) by (auto simp: wf_tree_def)
  have aw: "(a, w) \<in> set (subs t)" and gw: "good w" "distinct (ids w)"
    using t good_sub [OF W(1)] look_distinct [OF W(2), of "[a]" w] by simp_all
  have R: "rep shuffled h i k u" if "(k, u) \<in> set es" for k u
    using assms(1) t(1) that by (auto simp: rep_root_def)
  have IH: "rep shuffled h' i a (edit ns' f w)"
    using rep_edit [where f = f, OF R [OF t(3)] gw t(4) assms(4,5) edits_sub [OF assms(6) ids_sub [OF aw]]] .
  have "tid (edit ns' f w) = tid w"
    using edit_head [OF t(4), of f] assms(4,5) by simp
  then have "entries_of (map (\<lambda>(k, t). (k, if k = a then edit ns' f t else t)) es) = entries_of es"
    using edit_entries t(1,2) W(1) by simp
  moreover have "map_of h' i = map_of h i"
    using folder_unchanged [OF assms(6) W(2) aw t(4)] t(1) by simp
  moreover have "\<forall>(k, u) \<in> set (map (\<lambda>(k, t). (k, if k = a then edit ns' f t else t)) es). rep shuffled h' i k u"
    using edit_kids [OF t(1) W t(2,4) R assms(6) IH] by blast
  ultimately show ?thesis
    using assms(1) t(1) Cons by (simp add: rep_root_def del: set_map)
qed

section \<open>Edited trees are well formed\<close>

lemma split_entry:
  assumes "distinct (map fst es)" "map_of es a = Some w"
  shows "\<exists>xs ys. es = xs @ (a, w) # ys \<and>
    map (\<lambda>(k, t). (k, if k = a then g t else t)) es = xs @ (a, g w) # ys"
proof -
  obtain xs ys where es: "es = xs @ (a, w) # ys"
    using map_of_SomeD [OF assms(2)] split_list by fastforce
  have "map (\<lambda>(k, t). (k, if k = a then g t else t)) zs = zs" if "a \<notin> fst ` set zs" for zs
    using that by (intro map_idI) (auto simp: image_iff)
  then have "map (\<lambda>(k, t). (k, if k = a then g t else t)) es = xs @ (a, g w) # ys"
    using assms(1) unfolding es by simp
  then show ?thesis using es by blast
qed

lemma ids_edit:
  assumes "good t" "look t ns = Some v"
  shows "mset (ids (edit ns f t)) + mset (ids v) = mset (ids t) + mset (ids (f v))"
  using assms
proof (induction ns arbitrary: t)
  case (Cons a ns)
  from Cons.prems(2) obtain i es w where t: "t = FDir i es" "map_of es a = Some w" "(a, w) \<in> set es" "look w ns = Some v"
    by (rule look_ConsE)
  obtain xs ys where xy: "es = xs @ (a, w) # ys"
    "map (\<lambda>(k, t). (k, if k = a then edit ns f t else t)) es = xs @ (a, edit ns f w) # ys"
    using split_entry [OF _ t(2), of "edit ns f"] Cons.prems(1) t(1) by (simp del: map_append) blast
  have "good w"
    using good_sub [OF Cons.prems(1), of a w] t(1,3) by simp
  from Cons.IH [OF this t(4)] show ?case
    unfolding t(1) edit.simps xy(2) unfolding xy(1) by (simp add: ac_simps)
qed simp

lemma good_edit:
  assumes "good t" "look t ns = Some v" "good (f v)"
  shows "good (edit ns f t)"
  using assms
proof (induction ns arbitrary: t)
  case (Cons a ns)
  from Cons.prems(2) obtain i es w where t: "t = FDir i es" "map_of es a = Some w" "(a, w) \<in> set es" "look w ns = Some v"
    by (rule look_ConsE)
  obtain xs ys where xy: "es = xs @ (a, w) # ys"
    "map (\<lambda>(k, t). (k, if k = a then edit ns f t else t)) es = xs @ (a, edit ns f w) # ys"
    using split_entry [OF _ t(2), of "edit ns f"] Cons.prems(1) t(1) by (simp del: map_append) blast
  have "good w"
    using good_sub [OF Cons.prems(1), of a w] t(1,3) by simp
  from Cons.IH [OF this t(4) Cons.prems(3)] Cons.prems(1) show ?case
    unfolding t(1) edit.simps xy(2) unfolding xy(1) by auto
qed simp

lemma wf_add_at:
  assumes t: "wf_tree t" and v: "look t ns = Some v" "\<not> leaf v" "map_of (subs v) k = None"
    and u: "good u" "distinct (ids u)" "set (ids u) \<inter> set (ids t) = {}" and k: "entry_name k" "length (subs v) < 2 ^ 31 - 1"
  shows "wf_tree (add_at ns k u t)" "mset (ids (add_at ns k u t)) = mset (ids t) + mset (ids u)"
proof -
  obtain i es where i: "v = FDir i es" using v(2) by (cases v) auto
  have W: "good t" "distinct (ids t)" "\<not> leaf t"
    using t by (auto simp: wf_tree_def)
  have "good (add_to k u v)"
    using look_good [OF W(1) v(1)] v(3) u(1) k i by (auto simp: add_to_def map_of_eq_None_iff)
  then have g: "good (add_at ns k u t)"
    unfolding add_at_def by (rule good_edit [OF W(1) v(1)])
  have "mset (ids (add_to k u v)) = mset (ids v) + mset (ids u)"
    using i by (simp add: add_to_def)
  then show m: "mset (ids (add_at ns k u t)) = mset (ids t) + mset (ids u)"
    using ids_edit [OF W(1) v(1), of "add_to k u"] by (simp add: add_at_def)
  then have "distinct (ids (add_at ns k u t))"
    using W(2) u(2,3) by (metis distinct_append inf_commute mset_append mset_eq_imp_distinct_iff)
  moreover have "\<not> leaf (add_at ns k u t)"
    using edit_head(2) [OF v(1), of "add_to k u"] v(2) W(3) by (simp add: add_at_def add_to_def)
  ultimately show "wf_tree (add_at ns k u t)"
    using g by (simp add: wf_tree_def)
qed

lemma wf_remove_at:
  assumes t: "wf_tree t" and v: "look t ns = Some v" "map_of (subs v) k = Some u"
  shows "wf_tree (remove_at ns k t)" "mset (ids (remove_at ns k t)) + mset (ids u) = mset (ids t)"
proof -
  obtain i es where i: "v = FDir i es" using v(2) by (cases v) auto
  have W: "good t" "distinct (ids t)" "\<not> leaf t"
    using t by (auto simp: wf_tree_def)
  have gv: "good v"
    by (rule look_good [OF W(1) v(1)])
  have "length (filter (\<lambda>e. fst e \<noteq> k) es) < 2 ^ 31"
    using gv i le_less_trans [OF length_filter_le [of "\<lambda>e. fst e \<noteq> k" es]] by simp
  then have "good (remove_from k v)"
    using gv i by (auto simp: remove_from_def distinct_map_filter)
  then have g: "good (remove_at ns k t)"
    unfolding remove_at_def by (rule good_edit [OF W(1) v(1)])
  obtain xs ys where xy: "es = xs @ (k, u) # ys"
    using map_of_SomeD [OF v(2)] split_list i by fastforce
  have "filter (\<lambda>e. fst e \<noteq> k) es = xs @ ys"
  proof -
    have keep: "filter (\<lambda>e. fst e \<noteq> k) zs = zs" if "k \<notin> fst ` set zs" for zs :: "(string \<times> ftree) list"
      using that by (intro filter_True) (auto simp: image_iff)
    have "k \<notin> fst ` set xs" "k \<notin> fst ` set ys"
      using gv i xy by auto
    then show ?thesis
      by (simp add: xy keep)
  qed
  then have "mset (ids (remove_from k v)) + mset (ids u) = mset (ids v)"
    using i xy by (simp add: remove_from_def)
  then have V: "mset (ids v) = mset (ids u) + mset (ids (remove_from k v))"
    by (simp only: ac_simps)
  have "(mset (ids (remove_at ns k t)) + mset (ids u)) + mset (ids (remove_from k v)) =
      mset (ids t) + mset (ids (remove_from k v))"
    using ids_edit [OF W(1) v(1), of "remove_from k"] unfolding V remove_at_def by (simp only: ac_simps)
  then show m: "mset (ids (remove_at ns k t)) + mset (ids u) = mset (ids t)"
    by (rule add_right_imp_eq)
  then have "distinct (ids (remove_at ns k t))"
    using W(2) by (metis distinct_append mset_append mset_eq_imp_distinct_iff)
  moreover have "\<not> leaf (remove_at ns k t)"
    using edit_head(2) [OF v(1), of "remove_from k"] i W(3) by (simp add: remove_at_def remove_from_def)
  ultimately show "wf_tree (remove_at ns k t)"
    using g by (simp add: wf_tree_def)
qed

section \<open>The length of the text\<close>

text \<open>The order of the entries does not matter for the length, and removing an entry makes the text shorter.\<close>

fun tlen :: "nat \<Rightarrow> ftree \<Rightarrow> nat" where
  "tlen x (FFile i) = x + length (title_text ''Folder: '' [] (FFile i)) + 1"
| "tlen x (FDir i es) = x + length (title_text ''Folder: '' [] (FDir i es)) + 1 +
     sum_list (map (\<lambda>(k, u). length (entry_text k u) + (if leaf u then 0 else tlen (x + 1 + length k) u)) es)"

lemma length_entries_text: "length (entries_text es) = sum_list (map (\<lambda>(k, u). length (entry_text k u)) es)"
  unfolding entries_text_def by (induction es) auto

lemma tlen_folders: "sum_list (map (\<lambda>(y, u). tlen (length y) u) (folders x es)) =
    sum_list (map (\<lambda>(k, u). if leaf u then 0 else tlen (length x + 1 + length k) u) es)"
  by (induction x es rule: folders.induct) auto

lemma tlen_folder: "length (folder_text title x t) + sum_list (map (\<lambda>(y, u). tlen (length y) u) (folders x (subs t))) + 8 =
    tlen (length x) t + length title"
proof (cases t)
  case (FDir i es)
  have "sum_list (map (\<lambda>(k, u). length (entry_text k u) + (if leaf u then 0 else tlen (length x + 1 + length k) u)) es) =
      sum_list (map (\<lambda>(k, u). length (entry_text k u)) es) +
      sum_list (map (\<lambda>(k, u). if leaf u then 0 else tlen (length x + 1 + length k) u) es)"
    by (induction es) auto
  then show ?thesis
    using FDir by (simp add: folder_text_def title_text_def length_entries_text tlen_folders)
qed (simp add: folder_text_def title_text_def entries_text_def)

lemma length_level: "length (level q) = sum_list (map (\<lambda>(x, t). tlen (length x) t) q)"
proof (induction q rule: level.induct)
  case (2 x t q)
  then show ?case
    using tlen_folder [of "''Folder: ''" x t] by simp
qed simp

lemma length_meta_text: "length (meta_text n usr t) = length (latest_text n) + 6 + tlen (1 + length usr) t"
  using tlen_folder [of "''Root folder: ''" "''/'' @ usr" t] by (simp add: meta_text_def length_level)

lemma tlen_arrange [simp]: "reorders ord \<Longrightarrow> tlen x (arrange ord t) = tlen x t"
proof (induction t arbitrary: x rule: tree_induct)
  case (FDir i es)
  let ?g = "\<lambda>(k, u). length (entry_text k u) + (if leaf u then 0 else tlen (x + 1 + length k) u)"
  let ?es = "map (\<lambda>(k, t). (k, arrange ord t)) es"
  have "sum_list (map ?g (ord i ?es)) = sum_list (map ?g ?es)"
  proof -
    have "mset (ord i ?es) = mset ?es"
      using FDir.prems by (simp add: reorders_def)
    then have "mset (map ?g (ord i ?es)) = mset (map ?g ?es)"
      by (simp only: mset_map)
    then show ?thesis
      unfolding sum_mset_sum_list [symmetric] by (rule arg_cong)
  qed
  also have "map ?g ?es = map ?g es"
    unfolding map_map by (rule map_cong [OF refl]) (use FDir in \<open>auto simp: entry_text_def\<close>)
  finally show ?case
    using FDir.prems by (simp add: title_text_def)
qed simp

lemma length_meta_arrange: "reorders ord \<Longrightarrow> length (meta_text n usr (arrange ord t)) = length (meta_text n usr t)"
  by (simp add: length_meta_text)

lemma length_nat_str_mono: "a \<le> b \<Longrightarrow> length (nat_str a) \<le> length (nat_str b)"
proof (induction b arbitrary: a rule: nat_str.induct)
  case (1 b)
  show ?case
  proof (cases "a < 10")
    case True
    then have "length (nat_str a) = 1"
      by (subst nat_str.simps) simp
    then show ?thesis
      by (simp add: Suc_le_eq)
  next
    case False
    then have "\<not> b < 10" "a div 10 \<le> b div 10"
      using "1.prems" by (simp_all add: div_le_mono)
    then have "length (nat_str (a div 10)) \<le> length (nat_str (b div 10))"
      using "1.IH" by blast
    then show ?thesis
      using False \<open>\<not> b < 10\<close> nat_str.simps [of a] nat_str.simps [of b] by simp
  qed
qed

lemma tlen_edit:
  assumes "good t" "look t ns = Some v" "\<And>y. tlen y (f v) \<le> tlen y v" "tid (f v) = tid v" "leaf (f v) = leaf v"
  shows "tlen x (edit ns f t) \<le> tlen x t"
  using assms(1,2)
proof (induction ns arbitrary: t x)
  case (Cons a ns)
  from Cons.prems(2) obtain i es w where t: "t = FDir i es" "map_of es a = Some w" "(a, w) \<in> set es" "look w ns = Some v"
    by (rule look_ConsE)
  obtain xs ys where xy: "es = xs @ (a, w) # ys"
    "map (\<lambda>(k, t). (k, if k = a then edit ns f t else t)) es = xs @ (a, edit ns f w) # ys"
    using split_entry [OF _ t(2), of "edit ns f"] Cons.prems(1) t(1) by (simp del: map_append) blast
  have "good w"
    using good_sub [OF Cons.prems(1), of a w] t(1,3) by simp
  from Cons.IH [OF this t(4), of "x + 1 + length a"] show ?case
    using edit_head [OF t(4), of f] assms(4,5)
    unfolding t(1) edit.simps xy(2) unfolding xy(1) by (simp add: title_text_def entry_text_def)
qed (use assms(3) in simp)

lemma tlen_remove_at:
  assumes "good t" "look t ns = Some v" "\<not> leaf v"
  shows "tlen x (remove_at ns k t) \<le> tlen x t"
  unfolding remove_at_def
proof (rule tlen_edit [OF assms(1,2)])
  obtain i es where v: "v = FDir i es" using assms(3) by (cases v) auto
  show "tlen y (remove_from k v) \<le> tlen y v" for y
  proof -
    have "sum_list (map g (filter P es)) \<le> sum_list (map g es)" for g :: "string \<times> ftree \<Rightarrow> nat" and P
      by (induction es) auto
    moreover have "length (nat_str (length (filter (\<lambda>e. fst e \<noteq> k) es))) \<le> length (nat_str (length es))"
      by (intro length_nat_str_mono) simp
    ultimately show ?thesis
      using add_mono by (simp add: v remove_from_def title_text_def) fastforce
  qed
qed (use assms(3) in \<open>simp_all add: remove_from_def\<close>)

section \<open>The handlers' changes of the objects\<close>

lemma modify_Inr: "map_of h i = Some d \<Longrightarrow> modify (Some i) f h = Inr (AList.update i (f d) h)"
  by (simp add: modify_def deref_def)

lemma rep_root_frame:
  assumes "rep_root R h usr t" "\<And>j. j \<in> set (ids t) \<Longrightarrow> map_of h' j = map_of h j"
  shows "rep_root R h' usr t"
proof -
  obtain i es where t: "t = FDir i es" using assms(1) by (cases t) (auto simp: rep_root_def)
  have "rep R h' i k u" if "(k, u) \<in> set es" for k u
  proof (rule rep_frame)
    show "rep R h i k u" using assms(1) t that by (auto simp: rep_root_def)
    show "map_of h' j = map_of h j" if "j \<in> set (ids u)" for j
      using assms(2) that \<open>(k, u) \<in> set es\<close> t by fastforce
  qed
  moreover have "map_of h' i = map_of h i"
    using assms(2) t by simp
  ultimately show ?thesis
    using assms(1) t by (auto simp: rep_root_def)
qed

text \<open>A subtree under another name and in another folder.\<close>

lemma rep_retitle:
  assumes "rep R h p k w" "map_of h (tid w) = Some d" "map_of h' (tid w) = Some (d\<lparr>d_path := k', d_parent := Some p'\<rparr>)"
    "\<And>j. j \<in> set (ids w) \<Longrightarrow> j \<noteq> tid w \<Longrightarrow> map_of h' j = map_of h j" "distinct (ids w)"
  shows "rep R h' p' k' w"
proof (cases w)
  case (FDir i es)
  have "rep R h' i l u" if lu: "(l, u) \<in> set es" for l u
  proof (rule rep_frame)
    show "rep R h i l u" using assms(1) FDir lu by auto
    show "map_of h' j = map_of h j" if "j \<in> set (ids u)" for j
    proof (rule assms(4))
      have kt: "(l, u) \<in> set (subs w)" using lu FDir by simp
      show "j \<in> set (ids w)" using ids_sub [OF kt] that by blast
      show "j \<noteq> tid w" using tid_fresh [OF assms(5) kt] that by metis
    qed
  qed
  then show ?thesis
    using assms(1-3) FDir by auto
qed (use assms in auto)

lemma shuffled_add: "shuffled m (entries_of es) \<Longrightarrow> map_of es k = None \<Longrightarrow>
    shuffled (AList.update k (Some (tid u)) m) (entries_of (es @ [(k, u)]))"
proof -
  assume a: "shuffled m (entries_of es)" "map_of es k = None"
  have "set m = set (entries_of es)"
    using a(1) by (metis shuffled_def set_mset_mset)
  then have "k \<notin> fst ` set m"
    using a(2) by (simp add: map_of_eq_None_iff) (metis fst_entries list.set_map)
  then show ?thesis
    using a(1) by (simp add: update_fresh map_of_eq_None_iff shuffled_def entries_of_def)
qed

lemma shuffled_remove: "shuffled m (entries_of es) \<Longrightarrow>
    shuffled (AList.delete k m) (entries_of (filter (\<lambda>e. fst e \<noteq> k) es))"
proof -
  assume a: "shuffled m (entries_of es)"
  have "AList.delete k m = filter (\<lambda>e. fst e \<noteq> k) m"
    by (induction m) auto
  moreover have "entries_of (filter (\<lambda>e. fst e \<noteq> k) es) = filter (\<lambda>e. fst e \<noteq> k) (entries_of es)"
    by (induction es) (auto simp: entries_of_def)
  ultimately show ?thesis
    using a by (simp add: shuffled_def mset_filter)
qed

lemma folder_object:
  assumes "rep_root shuffled h usr t" "look t ns = Some v" "\<not> leaf v"
  shows "\<exists>d. map_of h (tid v) = Some d \<and> \<not> d_file d \<and> shuffled (d_entries d) (entries_of (subs v))"
  using rep_object [OF assms(1,2)] assms(3) by auto

text \<open>The entries of a folder of the tree, seen from the folder.\<close>

lemma folder_kids:
  assumes "rep_root R h usr t" "look t ns = Some v" "(k, u) \<in> set (subs v)"
  shows "rep R h (tid v) k u"
proof (cases ns rule: rev_cases)
  case Nil
  then show ?thesis using assms by (auto simp: rep_root_def)
next
  case (snoc ms n)
  then obtain w where "rep R h (tid w) n v"
    using rep_look assms(1,2) by blast
  then show ?thesis
    using rep_sub assms(3) by blast
qed

lemma add_entry:
  assumes R: "rep_root shuffled h usr t" and t: "wf_tree t" and v: "look t ns = Some v" "\<not> leaf v" "map_of (subs v) k = None"
    and u: "rep shuffled h (tid v) k u" "set (ids u) \<inter> set (ids t) = {}"
  shows "\<exists>d h'. map_of h (tid v) = Some d \<and> modify (Some (tid v)) (AddEntry k (Some (tid u))) h = Inr h' \<and>
    map_of h' = (map_of h)(tid v \<mapsto> AddEntry k (Some (tid u)) d) \<and> rep_root shuffled h' usr (add_at ns k u t)"
proof -
  obtain d where d: "map_of h (tid v) = Some d" "shuffled (d_entries d) (entries_of (subs v))"
    using folder_object [OF R v(1,2)] by blast
  let ?h = "AList.update (tid v) (AddEntry k (Some (tid u)) d) h"
  have W: "distinct (ids v)" "set (ids v) \<subseteq> set (ids t)"
    using t look_distinct v(1) look_ids by (auto simp: wf_tree_def)
  have "rep shuffled ?h (tid v) l x" if lx: "(l, x) \<in> set (subs v @ [(k, u)])" for l x
  proof (rule rep_frame)
    show "rep shuffled h (tid v) l x"
      using lx u(1) folder_kids [OF R v(1), of l x] by auto
    show "map_of ?h j = map_of h j" if "j \<in> set (ids x)" for j
    proof -
      have "tid v \<notin> set (ids u)"
        using u(2) W(2) tid_in_ids [of v] by blast
      then have "j \<noteq> tid v"
        using that lx tid_fresh [OF W(1), of l x] by auto
      then show ?thesis by simp
    qed
  qed
  then have "edits_folder h ?h t v (subs v @ [(k, u)])"
    unfolding edits_folder_def using d shuffled_add [OF d(2) v(3)] tid_in_ids [of v] by (auto simp: AddEntry_def)
  from rep_root_edit [OF R t v(1,2) _ this, of "add_to k u"] show ?thesis
    using d(1) modify_Inr [OF d(1)] by (auto simp: add_at_def add_to_def)
qed

lemma remove_entry:
  assumes R: "rep_root shuffled h usr t" and t: "wf_tree t" and v: "look t ns = Some v" "\<not> leaf v"
  shows "\<exists>d h'. map_of h (tid v) = Some d \<and> modify (Some (tid v)) (DeleteEntry k) h = Inr h' \<and>
    map_of h' = (map_of h)(tid v \<mapsto> DeleteEntry k d) \<and> rep_root shuffled h' usr (remove_at ns k t)"
proof -
  obtain d where d: "map_of h (tid v) = Some d" "shuffled (d_entries d) (entries_of (subs v))"
    using folder_object [OF R v] by blast
  let ?h = "AList.update (tid v) (DeleteEntry k d) h" and ?es = "filter (\<lambda>e. fst e \<noteq> k) (subs v)"
  have W: "distinct (ids v)"
    using t look_distinct v(1) by (auto simp: wf_tree_def)
  have "rep shuffled ?h (tid v) l x" if lx: "(l, x) \<in> set ?es" for l x
  proof (rule rep_frame)
    show "rep shuffled h (tid v) l x"
      using lx folder_kids [OF R v(1), of l x] by auto
    show "map_of ?h j = map_of h j" if "j \<in> set (ids x)" for j
      using that lx tid_fresh [OF W, of l x] by auto
  qed
  then have "edits_folder h ?h t v ?es"
    unfolding edits_folder_def using d shuffled_remove [OF d(2)] tid_in_ids [of v] by (auto simp: DeleteEntry_def)
  from rep_root_edit [OF R t v _ this, of "remove_from k"] show ?thesis
    using d(1) modify_Inr [OF d(1)] by (auto simp: remove_at_def remove_from_def)
qed

definition fresh_node :: "int \<Rightarrow> bool \<Rightarrow> ftree" where
  "fresh_node i is_file = (if is_file then FFile i else FDir i [])"

lemma fresh_node_simps [simp]: "tid (fresh_node i b) = i" "leaf (fresh_node i b) = b" "ids (fresh_node i b) = [i]"
  "good (fresh_node i b) = (0 \<le> i \<and> i < 2 ^ 31)" "subs (fresh_node i b) = []"
  by (auto simp: fresh_node_def)

lemma create_entry_rep:
  assumes R: "rep_root shuffled h usr t" and t: "wf_tree t" and v: "look t ns = Some v" "\<not> leaf v" "map_of (subs v) k = None"
    and i: "map_of h i = None" and lo: "lo_parent lo = Some (tid v)" "lo_name lo = k"
  shows "\<exists>h'. create_entry lo i b h = Inr h' \<and> rep_root shuffled h' usr (add_at ns k (fresh_node i b) t)"
proof -
  define u where "u = fresh_node i b"
  have u: "tid u = i" "leaf u = b" "ids u = [i]"
    by (simp_all add: u_def)
  have it: "i \<notin> set (ids t)"
    using rep_root_dom [OF R] i by blast
  define hA where "hA = AList.update i (stub k (tid v) u) h"
  have RA: "rep_root shuffled hA usr t"
    by (rule rep_root_frame [OF R]) (use it in \<open>auto simp: hA_def\<close>)
  have "rep shuffled hA (tid v) k u"
    by (simp add: u_def fresh_node_def hA_def stub_def shuffled_def entries_of_def)
  then obtain d h' where d: "map_of hA (tid v) = Some d" "map_of h' = (map_of hA)(tid v \<mapsto> AddEntry k (Some i) d)"
    "rep_root shuffled h' usr (add_at ns k u t)"
    using add_entry [OF RA t v, of u] it u by auto
  have vi: "tid v \<noteq> i"
    using look_ids [OF v(1)] tid_in_ids [of v] it by blast
  define h1 where "h1 = AList.update i (new_dirent k b) h"
  define h2 where "h2 = AList.update (tid v) (AddEntry k (Some i) d) h1"
  define h3 where "h3 = AList.update i ((new_dirent k b)\<lparr>d_parent := Some (tid v)\<rparr>) h2"
  have "map_of h1 (tid v) = Some d" "map_of h2 i = Some (new_dirent k b)"
    using d(1) vi by (simp_all add: h1_def hA_def h2_def)
  then have "create_entry lo i b h = Inr h3"
    using i lo by (simp add: create_entry_def h3_def h2_def modify_Inr flip: h1_def)
  moreover have "map_of h3 = map_of h'"
    using d(2) vi u(2) by (auto simp: h3_def h2_def h1_def hA_def stub_def new_dirent_def)
  then have "rep_root shuffled h3 usr (add_at ns k u t)"
    using rep_root_frame [OF d(3)] by simp
  ultimately show ?thesis
    unfolding u_def by blast
qed

lemma subs_remove: "subs (remove_from k v) = filter (\<lambda>e. fst e \<noteq> k) (subs v)" "tid (remove_from k v) = tid v"
  "\<not> leaf (remove_from k v)"
  by (simp_all add: remove_from_def)

lemma map_of_remove: "map_of (filter (\<lambda>e. fst e \<noteq> k) es) m = (if m = k then None else map_of es m)"
  by (induction es) auto

lemma look_edit:
  assumes "look t ns = Some v" "look t ms = Some x" "tid (f v) = tid v" "leaf (f v) = leaf v" "\<not> (\<exists>ls. ms = ns @ ls)"
  shows "\<exists>x'. look (edit ns f t) ms = Some x' \<and> tid x' = tid x \<and> leaf x' = leaf x \<and> map fst (subs x') = map fst (subs x)"
  using assms
proof (induction ns arbitrary: t ms)
  case (Cons a ns)
  from Cons.prems(1) obtain i es w where t: "t = FDir i es" "map_of es a = Some w" "(a, w) \<in> set es" "look w ns = Some v"
    by (rule look_ConsE)
  show ?case
  proof (cases ms)
    case Nil
    then show ?thesis using Cons.prems(2) t(1) by auto
  next
    case (Cons m ms')
    show ?thesis
    proof (cases "m = a")
      case True
      then show ?thesis
        using Cons.IH [OF t(4) _ Cons.prems(3,4), of ms'] Cons.prems(2,5) t(1,2) Cons by (simp add: edit_map_of)
    next
      case False
      then show ?thesis
        using Cons.prems(2) t(1) Cons by (auto simp: edit_map_of split: option.splits)
    qed
  qed
qed simp

lemma look_edit_same: "look t ns = Some v \<Longrightarrow> look (edit ns f t) (ns @ ms) = look (f v) ms"
proof (induction ns arbitrary: t)
  case (Cons a ns)
  from Cons.prems obtain i es w where t: "t = FDir i es" "map_of es a = Some w" "(a, w) \<in> set es" "look w ns = Some v"
    by (rule look_ConsE)
  then show ?case
    using Cons.IH [OF t(4)] by (simp add: edit_map_of)
qed simp

text \<open>A folder that is not in a removed subtree is still there.\<close>

lemma look_remove_at:
  assumes v: "look t ns = Some v" "\<not> leaf v" and x: "look t ms = Some x" "\<not> (\<exists>ls. ms = (ns @ [k]) @ ls)"
  shows "\<exists>x'. look (remove_at ns k t) ms = Some x' \<and> tid x' = tid x \<and> leaf x' = leaf x \<and>
    (map_of (subs x') m = None \<longleftrightarrow> map_of (subs x) m = None \<or> ms = ns \<and> m = k)"
proof (cases "\<exists>ls. ms = ns @ ls")
  case True
  then obtain ls where ls: "ms = ns @ ls" by blast
  have "look (remove_at ns k t) ms = look (remove_from k v) ls"
    using look_edit_same [OF v(1)] ls by (simp add: remove_at_def)
  moreover have "look v ls = Some x"
    using x(1) v(1) ls by (simp add: look_append)
  ultimately show ?thesis
    using x(2) ls v(2) by (cases ls) (auto simp: subs_remove map_of_remove split: option.splits)
next
  case False
  have "map_of (subs y) m = None \<longleftrightarrow> m \<notin> set (map fst (subs y))" for y
    by (simp add: map_of_eq_None_iff)
  then show ?thesis
    using look_edit [OF v(1) x(1), of "remove_from k"] False v(2) by (auto simp: remove_at_def subs_remove simp del: set_map)
qed

text \<open>An entry is taken out and put in elsewhere: the common part of renaming and moving.\<close>

lemma relink_entry:
  assumes R: "rep_root shuffled h usr t" and t: "wf_tree t"
    and v: "look t ns = Some v" "map_of (subs v) k = Some w"
    and x: "look t ms = Some x" "\<not> leaf x" "\<not> (\<exists>ls. ms = (ns @ [k]) @ ls)"
    and k': "map_of (subs x) k' = None \<or> ms = ns \<and> k' = k"
    and dw: "map_of h (tid w) = Some dw" and dw': "dw' = dw\<lparr>d_path := k', d_parent := Some (tid x)\<rparr>"
  shows "\<exists>h1 h2 h3. modify (Some (tid w)) (\<lambda>_. dw') h = Inr h1 \<and>
    modify (Some (tid v)) (DeleteEntry k) h1 = Inr h2 \<and>
    modify (Some (tid x)) (AddEntry k' (Some (tid w))) h2 = Inr h3 \<and>
    rep_root shuffled h3 usr (add_at ms k' w (remove_at ns k t))"
proof -
  let ?t = "remove_at ns k t"
  have lv: "\<not> leaf v" using v(2) by (cases v) auto
  have kw: "(k, w) \<in> set (subs v)" using map_of_SomeD [OF v(2)] .
  have W: "wf_tree ?t" "mset (ids ?t) + mset (ids w) = mset (ids t)" "distinct (ids t)"
    using wf_remove_at [OF t v] t by (auto simp: wf_tree_def)
  then have "distinct (ids ?t @ ids w)"
    by (metis mset_append mset_eq_imp_distinct_iff)
  then have dis: "set (ids w) \<inter> set (ids ?t) = {}" "distinct (ids w)"
    by auto
  have vw: "tid v \<notin> set (ids w)"
    using tid_fresh [OF look_distinct [OF W(3) v(1)] kw] .
  then have wv: "tid w \<noteq> tid v"
    using tid_in_ids [of w] by metis
  have xw: "tid x \<notin> set (ids w)"
    using look_same_tid [OF W(3) x(1), of "ns @ [k]" w] v x(3) by (auto simp: look_append)
  obtain d hR where hR: "map_of h (tid v) = Some d" "map_of hR = (map_of h)(tid v \<mapsto> DeleteEntry k d)" "rep_root shuffled hR usr ?t"
    using remove_entry [OF R t v(1) lv, of k] by blast
  define h1 where "h1 = AList.update (tid w) dw' h"
  define h2 where "h2 = AList.update (tid v) (DeleteEntry k d) h1"
  have m2: "map_of h2 = (map_of h)(tid w \<mapsto> dw', tid v \<mapsto> DeleteEntry k d)"
    by (simp add: h2_def h1_def)
  have R2: "rep_root shuffled h2 usr ?t"
  proof (rule rep_root_frame [OF hR(3)])
    fix j assume "j \<in> set (ids ?t)"
    then have "j \<noteq> tid w" using dis(1) tid_in_ids [of w] by blast
    then show "map_of h2 j = map_of hR j" by (simp add: m2 hR(2))
  qed
  have "rep shuffled h2 (tid x) k' w"
  proof (rule rep_retitle [OF folder_kids [OF R v(1) kw] dw])
    show "map_of h2 (tid w) = Some (dw\<lparr>d_path := k', d_parent := Some (tid x)\<rparr>)"
      using wv by (simp add: m2 dw')
    show "map_of h2 j = map_of h j" if "j \<in> set (ids w)" "j \<noteq> tid w" for j
      using that vw by (auto simp: m2)
  qed (rule dis(2))
  moreover obtain x' where x': "look ?t ms = Some x'" "tid x' = tid x" "\<not> leaf x'" "map_of (subs x') k' = None"
    using look_remove_at [OF v(1) lv x(1,3), of k'] x(2) k' by auto
  ultimately obtain h3 where "modify (Some (tid x)) (AddEntry k' (Some (tid w))) h2 = Inr h3"
    "rep_root shuffled h3 usr (add_at ms k' w ?t)"
    using add_entry [OF R2 W(1) x'(1,3,4), of w] dis(1) by auto
  moreover have "modify (Some (tid w)) (\<lambda>_. dw') h = Inr h1" "modify (Some (tid v)) (DeleteEntry k) h1 = Inr h2"
    using dw wv hR(1) by (simp_all add: h1_def h2_def modify_Inr)
  ultimately show ?thesis by blast
qed

lemma entry_object:
  assumes "rep_root R h usr t" "look t ns = Some v" "(k, w) \<in> set (subs v)"
  shows "\<exists>m. map_of h (tid w) = Some \<lparr>d_path = k, d_file = leaf w, d_parent = Some (tid v), d_root = False, d_entries = m\<rparr>"
  using rep_node [OF folder_kids [OF assms]] by blast

lemma modify_const: "map_of h i = Some d \<Longrightarrow> modify (Some i) f h = modify (Some i) (\<lambda>_. f d) h"
  by (simp add: modify_Inr)

lemma rename_entry_rep:
  assumes R: "rep_root shuffled h usr t" and t: "wf_tree t"
    and v: "look t ns = Some v" "map_of (subs v) k = Some w" and k': "map_of (subs v) k' = None \<or> k' = k"
    and lo: "lo_parent lo = Some (tid v)" "lo_dir lo = Some (tid w)" "lo_name lo = k"
  shows "\<exists>h'. rename_entry lo k' h = Inr h' \<and> rep_root shuffled h' usr (add_at ns k' w (remove_at ns k t))"
proof -
  have kw: "(k, w) \<in> set (subs v)" using map_of_SomeD [OF v(2)] .
  have lv: "\<not> leaf v" using v(2) by (cases v) auto
  obtain m where w: "map_of h (tid w) = Some \<lparr>d_path = k, d_file = leaf w, d_parent = Some (tid v), d_root = False, d_entries = m\<rparr>"
    using entry_object [OF R v(1) kw] by blast
  obtain h1 h2 h3 where "modify (Some (tid w)) (\<lambda>d. d\<lparr>d_path := k'\<rparr>) h = Inr h1"
    "modify (Some (tid v)) (DeleteEntry k) h1 = Inr h2" "modify (Some (tid v)) (AddEntry k' (Some (tid w))) h2 = Inr h3"
    "rep_root shuffled h3 usr (add_at ns k' w (remove_at ns k t))"
    using relink_entry [OF R t v v(1) lv _ _ w refl, of k'] k' modify_const [OF w, of "\<lambda>d. d\<lparr>d_path := k'\<rparr>"] by auto
  moreover obtain d where "map_of h (tid v) = Some d"
    using folder_object [OF R v(1) lv] by blast
  moreover have "Path h (tid v) = Inr (path_text usr ns)"
    using Path_look [OF R _ v(1)] t by (simp add: wf_tree_def)
  ultimately show ?thesis
    using lo by (simp add: rename_entry_def deref_def)
qed

lemma move_entry_rep:
  assumes R: "rep_root shuffled h usr t" and t: "wf_tree t"
    and v: "look t ns = Some v" "map_of (subs v) k = Some w"
    and x: "look t ms = Some x" "\<not> leaf x" "\<not> (\<exists>ls. ms = (ns @ [k]) @ ls)" "map_of (subs x) k = None"
    and lo: "lo_parent lo = Some (tid v)" "lo_dir lo = Some (tid w)" "lo_name lo = k"
  shows "\<exists>h'. move_entry lo (Some (tid x)) h = Inr h' \<and> rep_root shuffled h' usr (add_at ms k w (remove_at ns k t))"
proof -
  have kw: "(k, w) \<in> set (subs v)" using map_of_SomeD [OF v(2)] .
  obtain m where w: "map_of h (tid w) = Some \<lparr>d_path = k, d_file = leaf w, d_parent = Some (tid v), d_root = False, d_entries = m\<rparr>"
    using entry_object [OF R v(1) kw] by blast
  obtain h1 h2 h3 where "modify (Some (tid w)) (\<lambda>d. d\<lparr>d_parent := Some (tid x)\<rparr>) h = Inr h1"
    "modify (Some (tid v)) (DeleteEntry k) h1 = Inr h2" "modify (Some (tid x)) (AddEntry k (Some (tid w))) h2 = Inr h3"
    "rep_root shuffled h3 usr (add_at ms k w (remove_at ns k t))"
    using relink_entry [OF R t v x(1-3) _ w refl, of k] x(4) modify_const [OF w, of "\<lambda>d. d\<lparr>d_parent := Some (tid x)\<rparr>"] by auto
  moreover obtain d where "map_of h (tid x) = Some d"
    using folder_object [OF R x(1,2)] by blast
  moreover have "Path h (tid x) = Inr (path_text usr ms)"
    using Path_look [OF R _ x(1)] t by (simp add: wf_tree_def)
  ultimately show ?thesis
    using lo by (simp add: move_entry_def deref_def)
qed

end
