(* ===== verification/Storage_Service.thy ===== *)
theory Storage_Service
  imports Storage_Edit Kvstore_Correct
begin

text \<open>
  The file storage service over the interface of the store: what each request does to the tree that the metadata describes and to the
  contents of the files, for a user whose metadata is the text of a well-formed tree.
\<close>

section \<open>Stored trees\<close>

text \<open>\<open>c\<close> has the values of the user: the metadata shows the tree in some order, and no identifier is above \<open>Latest ID\<close>.\<close>

definition sound_tree :: "int \<Rightarrow> ftree \<Rightarrow> bool" where
  "sound_tree n t \<longleftrightarrow> wf_tree t \<and> 0 \<le> n \<and> n < 2 ^ 31 \<and> (\<forall>i \<in> set (ids t). i \<le> n)"

definition stored :: "(string \<Rightarrow> string) \<Rightarrow> string \<Rightarrow> int \<Rightarrow> ftree \<Rightarrow> bool" where
  "stored c u n t \<longleftrightarrow> sound_tree n t \<and> (\<exists>ord. reorders ord \<and> c kMetadataFp = meta_text n u (arrange ord t))"

definition loaded :: "storage \<Rightarrow> string \<Rightarrow> int \<Rightarrow> ftree \<Rightarrow> string \<Rightarrow> bool" where
  "loaded st u n t m \<longleftrightarrow> s_root st = Some (tid t) \<and> s_latest st = n \<and> s_meta st = m \<and> rep_root shuffled (s_heap st) u t \<and> sound_tree n t"

lemma loadedD:
  assumes "loaded st u n t m"
  shows "s_root st = Some (tid t)" "s_latest st = n" "s_meta st = m" "rep_root shuffled (s_heap st) u t" "sound_tree n t"
    "wf_tree t" "good t" "distinct (ids t)" "\<not> leaf t"
  using assms by (auto simp: loaded_def sound_tree_def wf_tree_def)

lemma tid_arrange_root: "reorders ord \<Longrightarrow> loaded st u n (arrange ord t) m = loaded st u n t m"
  using mset_eq_setD [OF ids_arrange [of ord t]] by (simp add: loaded_def sound_tree_def)

lemma meta_not_empty [simp]: "meta_text n u t \<noteq> []"
  by (simp add: meta_text_def latest_text_def)

text \<open>There are no more entries than identifiers.\<close>

lemma ids_nonempty: "0 < length (ids t)"
  by (cases t) auto

lemma subs_less_ids: "length (subs v) < length (ids v)"
proof (cases v)
  case (FDir i es)
  have "length es \<le> length (concat (map (\<lambda>(k, t). ids t) es))"
  proof (induction es)
    case (Cons e es)
    then show ?case using ids_nonempty [of "snd e"] by (cases e) (simp del: length_greater_0_conv)
  qed simp
  then show ?thesis using FDir by simp
qed simp

lemma good_ids: "good t \<Longrightarrow> i \<in> set (ids t) \<Longrightarrow> 0 \<le> i"
  by (induction t rule: tree_induct) auto

lemma ids_count:
  assumes "sound_tree n t"
  shows "int (length (ids t)) \<le> n + 1"
proof -
  have "set (ids t) \<subseteq> {0..n}"
    using assms good_ids by (auto simp: sound_tree_def wf_tree_def)
  then have "card (set (ids t)) \<le> card {0..n}"
    by (intro card_mono) auto
  moreover have "card (set (ids t)) = length (ids t)"
    using assms by (simp add: sound_tree_def wf_tree_def distinct_card)
  ultimately have "length (ids t) \<le> nat (n + 1)"
    by simp
  moreover have "0 \<le> n"
    using assms by (simp add: sound_tree_def)
  ultimately show ?thesis by linarith
qed

lemma entries_bound:
  assumes "sound_tree n t" "look t ns = Some v"
  shows "int (length (subs v)) \<le> n"
  using subs_less_ids [of v] look_depth [OF assms(2)] ids_count [OF assms(1)] by linarith

lemma sound_add:
  assumes t: "sound_tree n t" and v: "look t ns = Some v" "\<not> leaf v" "map_of (subs v) k = None" and k: "entry_name k"
    and n: "n + 1 < 2 ^ 31"
  shows "sound_tree (n + 1) (add_at ns k (fresh_node (n + 1) b) t)"
proof -
  have T: "wf_tree t" "0 \<le> n" "\<forall>i \<in> set (ids t). i \<le> n"
    using t by (auto simp: sound_tree_def)
  then have "set (ids (fresh_node (n + 1) b)) \<inter> set (ids t) = {}"
    by fastforce
  moreover have "length (subs v) < 2 ^ 31 - 1"
    using entries_bound [OF t v(1)] n by simp
  ultimately have W: "wf_tree (add_at ns k (fresh_node (n + 1) b) t)"
    "mset (ids (add_at ns k (fresh_node (n + 1) b) t)) = mset (ids t) + mset (ids (fresh_node (n + 1) b))"
    using wf_add_at [OF T(1) v _ _ _ k, of "fresh_node (n + 1) b"] T(2) n by simp_all
  have "set (ids (add_at ns k (fresh_node (n + 1) b) t)) = set (ids t) \<union> {n + 1}"
    using arg_cong [OF W(2), of set_mset] by simp
  then show ?thesis
    using W(1) T n by (auto simp: sound_tree_def intro: order_trans)
qed

lemma sound_remove:
  assumes t: "sound_tree n t" and v: "look t ns = Some v" "map_of (subs v) k = Some w"
  shows "sound_tree n (remove_at ns k t)" "set (ids w) \<inter> set (ids (remove_at ns k t)) = {}" "set (ids w) \<subseteq> set (ids t)"
proof -
  have T: "wf_tree t" "0 \<le> n" "n < 2 ^ 31" "\<forall>i \<in> set (ids t). i \<le> n"
    using t by (auto simp: sound_tree_def)
  note W = wf_remove_at [OF T(1) v]
  have ids: "set (ids t) = set (ids (remove_at ns k t)) \<union> set (ids w)"
    using arg_cong [OF W(2), of set_mset] by simp
  then show "sound_tree n (remove_at ns k t)" "set (ids w) \<subseteq> set (ids t)"
    using W(1) T by (auto simp: sound_tree_def)
  have "distinct (ids (remove_at ns k t) @ ids w)"
    using W(2) T(1) by (metis mset_append mset_eq_imp_distinct_iff wf_tree_def)
  then show "set (ids w) \<inter> set (ids (remove_at ns k t)) = {}"
    by auto
qed

lemma tid_add_at: "look t ns = Some v \<Longrightarrow> \<not> leaf v \<Longrightarrow> tid (add_at ns k u t) = tid t"
  using edit_head(1) [of t ns v "add_to k u"] by (simp add: add_at_def add_to_def)

lemma tid_remove_at: "look t ns = Some v \<Longrightarrow> \<not> leaf v \<Longrightarrow> tid (remove_at ns k t) = tid t"
  using edit_head(1) [of t ns v "remove_from k"] by (simp add: remove_at_def remove_from_def)

lemma tid_relink:
  assumes "look t ns = Some v" "\<not> leaf v" "look t ms = Some x" "\<not> leaf x" "\<not> (\<exists>ls. ms = (ns @ [k]) @ ls)"
  shows "tid (add_at ms k' w (remove_at ns k t)) = tid t"
proof -
  obtain x' where "look (remove_at ns k t) ms = Some x'" "\<not> leaf x'"
    using look_remove_at [OF assms(1,2,3,5)] assms(4) by auto
  then show ?thesis
    using tid_add_at tid_remove_at [OF assms(1,2)] by simp
qed

text \<open>A subtree that is linked again, after it was taken out.\<close>

lemma sound_relink:
  assumes t: "sound_tree n t" and v: "look t ns = Some v" "map_of (subs v) k = Some w"
    and x: "look t ms = Some x" "\<not> leaf x" "\<not> (\<exists>ls. ms = (ns @ [k]) @ ls)" and k': "map_of (subs x) k' = None \<or> ms = ns \<and> k' = k"
    and e: "entry_name k'"
  shows "sound_tree n (add_at ms k' w (remove_at ns k t))"
proof -
  have lv: "\<not> leaf v" using v(2) by (cases v) auto
  note S = sound_remove [OF t v]
  obtain x' where x': "look (remove_at ns k t) ms = Some x'" "\<not> leaf x'" "map_of (subs x') k' = None"
    using look_remove_at [OF v(1) lv x(1,3), of k'] x(2) k' by auto
  have gw: "good w" "distinct (ids w)"
    using t v look_good [of t "ns @ [k]" w] look_distinct [of t "ns @ [k]" w] by (auto simp: look_append sound_tree_def wf_tree_def)
  have T: "wf_tree (remove_at ns k t)" "0 \<le> n" "n < 2 ^ 31"
    using S(1) by (auto simp: sound_tree_def)
  have "length (subs x') + length (ids w) < length (ids (remove_at ns k t)) + length (ids w)"
    using subs_less_ids [of x'] look_depth [OF x'(1)] by simp
  also have "\<dots> = length (ids t)"
    using arg_cong [OF wf_remove_at(2) [OF _ v], of size] t by (simp add: sound_tree_def)
  finally have "length (subs x') < 2 ^ 31 - 1"
    using ids_nonempty [of w] ids_count [OF t] T by (simp del: length_greater_0_conv)
  note A = wf_add_at [OF T(1) x' gw S(2) e this]
  have "set (ids (add_at ms k' w (remove_at ns k t))) = set (ids (remove_at ns k t)) \<union> set (ids w)"
    using arg_cong [OF A(2), of set_mset] by simp
  then show ?thesis
    using A(1) S t by (auto simp: sound_tree_def)
qed

section \<open>Reading and writing the metadata\<close>

lemma int_str_not_meta [simp]:
  assumes "0 \<le> i"
  shows "int_str i \<noteq> kMetadataFp" "kMetadataFp \<noteq> int_str i"
proof -
  show "int_str i \<noteq> kMetadataFp"
    using int_str_digits [OF assms] by (auto simp: kMetadataFp_def is_digit_def)
  then show "kMetadataFp \<noteq> int_str i" by (rule not_sym)
qed

lemma int_str_inj: "0 \<le> i \<Longrightarrow> 0 \<le> j \<Longrightarrow> int_str i = int_str j \<longleftrightarrow> i = j"
  by (simp add: int_str_nat eq_nat_nat_iff)

text \<open>The steps that a request shares: the handler of a user over a link, the path of an entry, an answer.\<close>

definition serves :: "('m, 's) handler \<Rightarrow> ('m, 's) link \<Rightarrow> string \<Rightarrow> bool" where
  "serves hn l u \<longleftrightarrow> hd_link hn = l \<and> hd_usr hn = u \<and> iter_ok (hd_iter hn) \<and> entry_name u"

lemma servesD: "serves hn l u \<Longrightarrow> hd_link hn = l \<and> hd_usr hn = u \<and> iter_ok (hd_iter hn) \<and> entry_name u"
  by (simp add: serves_def)

lemma validate_loaded:
  assumes "loaded st u n t m" "list_all entry_name (ns @ [k])" "look t ns = Some v"
  shows "ValidatePathAndGetDir (fp_of (ns @ [k])) st = Inr
    (case map_of (subs v) k of
       None \<Rightarrow> \<lparr>lo_ok = False, lo_parent = Some (tid v), lo_dir = None, lo_name = k\<rparr>
     | Some w \<Rightarrow> \<lparr>lo_ok = True, lo_parent = Some (tid v), lo_dir = Some (tid w), lo_name = k\<rparr>, st)"
  using validate_look [OF loadedD(4,7,1) [OF assms(1)] assms(2)] assms(3) by (auto simp: located_at_def)

lemma validate_missing:
  assumes "loaded st u n t m" "list_all entry_name (ns @ [k])" "look t ns = None"
  shows "\<exists>miss. ValidatePathAndGetDir (fp_of (ns @ [k])) st =
    Inr (\<lparr>lo_ok = False, lo_parent = None, lo_dir = None, lo_name = miss\<rparr>, st)"
  using validate_look [OF loadedD(4,7,1) [OF assms(1)] assms(2)] assms(3) by (auto simp: located_at_def)

lemma validate_found:
  assumes "loaded st u n t m" "list_all entry_name (ns @ [k])" "look t (ns @ [k]) = Some w"
  shows "\<exists>v. look t ns = Some v \<and> map_of (subs v) k = Some w \<and> \<not> leaf v \<and> ValidatePathAndGetDir (fp_of (ns @ [k])) st =
    Inr (\<lparr>lo_ok = True, lo_parent = Some (tid v), lo_dir = Some (tid w), lo_name = k\<rparr>, st)"
proof -
  obtain v where v: "look t ns = Some v" "map_of (subs v) k = Some w"
    using assms(3) by (auto simp: look_append split: option.splits)
  then have "\<not> leaf v" by (cases v) auto
  then show ?thesis
    using validate_loaded [OF assms(1,2) v(1)] v by simp
qed

lemma validate_absent:
  assumes "loaded st u n t m" "list_all entry_name (ns @ [k])" "look t (ns @ [k]) = None"
  shows "\<exists>lo. ValidatePathAndGetDir (fp_of (ns @ [k])) st = Inr (lo, st) \<and> \<not> lo_ok lo \<and> (look t ns = None \<longrightarrow> lo_parent lo = None)"
proof (cases "look t ns")
  case None
  then show ?thesis using validate_missing [OF assms(1,2)] by auto
next
  case (Some v)
  then have "map_of (subs v) k = None"
    using assms(3) by (auto simp: look_append split: option.splits)
  then show ?thesis using validate_loaded [OF assms(1,2) Some] Some by simp
qed

text \<open>The path of a folder, the root included.\<close>

definition dir_path :: "string list \<Rightarrow> string" where
  "dir_path ns = (if ns = [] then ''/'' else fp_of ns)"

lemma validate_dir:
  assumes "loaded st u n t m" "list_all entry_name ns" "look t ns = Some x"
  shows "\<exists>p k. ValidatePathAndGetDir (dir_path ns) st = Inr (\<lparr>lo_ok = True, lo_parent = Some p, lo_dir = Some (tid x), lo_name = k\<rparr>, st)"
proof (cases ns rule: rev_cases)
  case Nil
  then show ?thesis
    using assms loadedD(1) [OF assms(1)] by (simp add: dir_path_def ValidatePathAndGetDir_def root_ptr_def)
next
  case (snoc ms k)
  then show ?thesis
    using validate_found [OF assms(1), of ms k x] assms(2,3) by (auto simp: dir_path_def)
qed

text \<open>The list of the entries of a folder.\<close>

definition listing :: "string \<Rightarrow> string list \<Rightarrow> (string \<times> ftree) list \<Rightarrow> (string \<times> bool) list" where
  "listing u ns es = map (\<lambda>(k, x). (path_text u (ns @ [k]), \<not> leaf x)) es"

lemma dir_listing_text:
  assumes R: "rep_root shuffled h u t" and t: "wf_tree t" and es: "\<And>c x. (c, x) \<in> set es \<Longrightarrow> look t (ns @ [c]) = Some x"
  shows "dir_listing h (entries_of es) = Inr (listing u ns es)"
  using es
proof (induction es)
  case (Cons e es)
  obtain c x where e: "e = (c, x)" by (cases e)
  have x: "look t (ns @ [c]) = Some x"
    using Cons.prems [of c x] e by simp
  obtain d where "map_of h (tid x) = Some d" "d_file d = leaf x"
    using rep_object [OF R x] by blast
  moreover have "dir_listing h (entries_of es) = Inr (listing u ns es)"
    by (rule Cons.IH) (use Cons.prems in auto)
  ultimately show ?case
    using Path_look [OF R _ x] t by (simp add: e entries_of_def deref_def wf_tree_def listing_def)
qed (simp add: entries_of_def listing_def)

lemma printed:
  assumes "loaded st u n t m" "iter_ok iter"
  shows "\<exists>ord. reorders ord \<and> GetMetadataStr iter st = Some (Inr (meta_text n u (arrange ord t)))"
  using printed_text [OF assms(2) loadedD(4,6,1) [OF assms(1)]] loadedD(2) [OF assms(1)] by simp

lemma pure_Inr: "pure (Inr x) s = Some (Inr x, s)"
  by (simp add: pure_def)

lemma sret_Some [simp]: "sret x s = Some (Inr x, s)"
  by (simp add: sret_def)

text \<open>The paths of the entries of a folder, without the name of the root folder.\<close>

lemma strip_user_path: "entry_name u \<Longrightarrow> strip_user (path_text u (n # ns)) = Inr (fp_of (n # ns))"
  using find_char_append [of "CHR ''/''" u "n @ fp_of ns"] by (simp add: strip_user_def substr_from_def path_text_def fp_of_def)

lemma child_paths_fp:
  assumes R: "rep_root shuffled h u t" and t: "wf_tree t" and u: "entry_name u"
    and es: "\<And>c x. (c, x) \<in> set es \<Longrightarrow> look t (ns @ [c]) = Some x"
  shows "child_paths h (entries_of es) = Inr (map (\<lambda>(c, x). fp_of (ns @ [c])) es)"
  using es
proof (induction es)
  case (Cons e es)
  obtain c x where e: "e = (c, x)" by (cases e)
  have x: "look t (ns @ [c]) = Some x"
    using Cons.prems [of c x] e by simp
  obtain d where d: "map_of h (tid x) = Some d"
    using rep_object [OF R x] by blast
  have "strip_user (path_text u (ns @ [c])) = Inr (fp_of (ns @ [c]))"
    using strip_user_path [OF u] by (cases ns) simp_all
  moreover have "child_paths h (entries_of es) = Inr (map (\<lambda>(c, x). fp_of (ns @ [c])) es)"
    by (rule Cons.IH) (use Cons.prems in auto)
  ultimately show ?case
    using Path_look [OF R _ x] t d by (simp add: e entries_of_def deref_def wf_tree_def)
qed (simp add: entries_of_def)

text \<open>The entries of a folder in the order of a visit.\<close>

lemma visited_entries:
  assumes "rep_root shuffled h u t" "good t" "look t ns = Some v" "\<not> leaf v" "iter_ok iter"
  shows "\<exists>d es. map_of h (tid v) = Some d \<and> \<not> d_file d \<and> (d_entries d = [] \<longleftrightarrow> subs v = []) \<and> length (d_entries d) = length (subs v) \<and>
    iter (d_entries d) = entries_of es \<and> mset es = mset (subs v)"
proof -
  obtain d where d: "map_of h (tid v) = Some d" "\<not> d_file d" "shuffled (d_entries d) (entries_of (subs v))"
    using folder_object [OF assms(1,3,4)] by blast
  let ?es = "visit_order iter h (tid v) (subs v)"
  have "mset ?es = mset (subs v)"
    using visit_reorders by (simp add: reorders_def)
  moreover have "iter (d_entries d) = entries_of ?es"
    using visit_entries [OF assms(5) d(1,3) good_names [OF look_good [OF assms(2,3)]]] by (simp add: visited_def)
  moreover have "length (d_entries d) = length (entries_of (subs v))"
    using d(3) unfolding shuffled_def by (rule mset_eq_length)
  then have "length (d_entries d) = length (subs v)"
    by (simp add: entries_of_def)
  ultimately show ?thesis
    using d by (intro exI [of _ d] exI [of _ ?es]) auto
qed

lemma query_text:
  assumes st: "loaded st u n t m" and iter: "iter_ok iter" and v: "look t ns = Some v" "\<not> leaf v"
  shows "\<exists>xs. query_dir_info iter (s_heap st) (Some (tid v)) = Inr (Dir_info (path_text u ns) xs) \<and>
    mset xs = mset (listing u ns (subs v))"
proof -
  note L = loadedD [OF st]
  obtain d es where d: "map_of (s_heap st) (tid v) = Some d" "iter (d_entries d) = entries_of es" "mset es = mset (subs v)"
    using visited_entries [OF L(4,7) v iter] by blast
  have "dir_listing (s_heap st) (entries_of es) = Inr (listing u ns es)"
    by (rule dir_listing_text [OF L(4,6)]) (use look_entry [OF L(6) v(1)] d(3) mset_eq_setD in blast)
  moreover have "mset (listing u ns es) = mset (listing u ns (subs v))"
    using d(3) by (simp add: listing_def)
  ultimately show ?thesis
    using Path_look [OF L(4,8) v(1)] d(1,2) by (simp add: query_dir_info_def deref_def)
qed

text \<open>The files of a tree, and what is left of their contents after a deletion: nothing, and nothing else changes.\<close>

fun files :: "ftree \<Rightarrow> int list" where
  "files (FFile i) = [i]"
| "files (FDir i es) = concat (map (\<lambda>(k, t). files t) es)"

definition cleans :: "string \<Rightarrow> int list \<Rightarrow> (string \<Rightarrow> string \<Rightarrow> string) \<Rightarrow> (string \<Rightarrow> string \<Rightarrow> string) \<Rightarrow> bool" where
  "cleans u is m m' \<longleftrightarrow> (\<forall>i \<in> set is. m' u (int_str i) = []) \<and>
     (\<forall>x j. x \<noteq> u \<or> j \<noteq> kMetadataFp \<and> j \<notin> int_str ` set is \<longrightarrow> m' x j = m x j)"

lemma cleans_Nil [simp]: "cleans u [] m m"
  by (simp add: cleans_def)

lemma cleans_append:
  assumes "cleans u is m m1" "cleans u js m1 m2" "\<forall>i \<in> set is. 0 \<le> i"
  shows "cleans u (is @ js) m m2"
proof -
  have "m2 u (int_str i) = []" if i: "i \<in> set is" for i
  proof (cases "int_str i \<in> int_str ` set js")
    case True
    then show ?thesis using assms(2) unfolding cleans_def by auto
  next
    case False
    then have "m2 u (int_str i) = m1 u (int_str i)"
      using assms(2,3) i unfolding cleans_def by auto
    then show ?thesis using assms(1) i unfolding cleans_def by simp
  qed
  moreover have "m2 x j = m x j" if "x \<noteq> u \<or> j \<noteq> kMetadataFp \<and> j \<notin> int_str ` set (is @ js)" for x j
  proof -
    have "m2 x j = m1 x j" "m1 x j = m x j"
      using assms(1,2) that unfolding cleans_def by (auto simp: image_Un)
    then show ?thesis by simp
  qed
  ultimately show ?thesis
    using assms(2) unfolding cleans_def by auto
qed

lemma cleans_set: "cleans u is m m' \<Longrightarrow> set is = set js \<Longrightarrow> cleans u js m m'"
  by (simp add: cleans_def)

lemma files_ids: "set (files t) \<subseteq> set (ids t)"
proof (induction t rule: tree_induct)
  case (FDir i es)
  then show ?case by fastforce
qed simp

lemma files_nonneg: "good t \<Longrightarrow> \<forall>i \<in> set (files t). 0 \<le> i"
  using files_ids good_ids by blast

text \<open>Removing first the entries of an entry, and then the entry.\<close>

lemma remove_nested: "remove_at ns k (remove_at (ns @ [k]) c t) = remove_at ns k t"
  unfolding remove_at_def
proof (induction ns arbitrary: t)
  case Nil
  have "filter (\<lambda>e. fst e \<noteq> k) (map (\<lambda>(l, t). (l, if l = k then f t else t)) es) = filter (\<lambda>e. fst e \<noteq> k) es"
    for f and es :: "(string \<times> ftree) list"
    by (induction es) auto
  then show ?case by (cases t) (simp_all add: remove_from_def)
next
  case (Cons n ns)
  then show ?case by (cases t) (auto simp: comp_def)
qed

lemma sbind_metadata: "GetMetadataStr (hd_iter hn) st = Some (Inr m) \<Longrightarrow> sbind (metadata_text hn st) f = f m"
  by (simp add: metadata_text_def)

text \<open>The requests that need an entry at a path, and those that make one.\<close>

definition needs_entry :: "storage_type \<Rightarrow> storage_request \<Rightarrow> string \<Rightarrow> bool" where
  "needs_entry type req p \<longleftrightarrow>
     type = FILE_DOWNLOAD \<and> req = File_download_req p \<or>
     (type = FILE_RENAME \<or> type = DIR_RENAME) \<and> (\<exists>k. req = Rename_req p k) \<or>
     (type = FILE_MOVE \<or> type = DIR_MOVE) \<and> (\<exists>q. req = Move_req p q) \<or>
     (type = FILE_DELE \<or> type = DIR_DELE) \<and> req = Delete_req p \<or>
     type = DIR_QUERY \<and> req = Dir_create_or_query_req p \<or>
     type = QUERY_ALL_DIR \<and> req = Query_all_file_to_move p"

definition creates :: "storage_type \<Rightarrow> storage_request \<Rightarrow> string \<Rightarrow> bool" where
  "creates type req p \<longleftrightarrow> type = FILE_UPLOAD \<and> (\<exists>c. req = File_upload_req p c) \<or> type = DIR_CREATE \<and> req = Dir_create_or_query_req p"

text \<open>A path may lack the slash at its start.\<close>

definition path_to :: "string \<Rightarrow> string list \<Rightarrow> bool" where
  "path_to fp ns \<longleftrightarrow> fp = fp_of ns \<or> CHR ''/'' # fp = fp_of ns"

lemma path_to_fp [simp]: "path_to (fp_of ns) ns"
  by (simp add: path_to_def)

lemma validate_path_to:
  assumes "path_to fp (ns @ [k])" "list_all entry_name (ns @ [k])"
  shows "ValidatePathAndGetDir fp st = ValidatePathAndGetDir (fp_of (ns @ [k])) st"
proof (cases "fp = fp_of (ns @ [k])")
  case False
  then have fp: "fp_of (ns @ [k]) = CHR ''/'' # fp"
    using assms(1) by (simp add: path_to_def)
  obtain c cs where c: "hd (ns @ [k]) = c # cs" "c \<noteq> CHR ''/''"
    using assms(2) by (cases ns; cases "hd (ns @ [k])") (auto simp: entry_name_def)
  then have "fp \<noteq> ''/''"
    using fp by (cases ns) (auto simp: fp_of_def)
  then show ?thesis
    using fp_of_not_root [OF assms(2)] by (simp add: ValidatePathAndGetDir_def fp resolve_slash)
qed simp

context sized_kv_link
begin

lemma read_stored:
  assumes s: "inv s" "okd u kMetadataFp v" and st: "stored (val s u) u n t" and hn: "serves hn l u"
  shows "\<exists>st s'. ReadMetadata hn new_storage s = Some (Inr (True, st), s') \<and> loaded st u n t (val s u kMetadataFp) \<and>
    (\<forall>j. j \<notin> set (ids t) \<longrightarrow> map_of (s_heap st) j = None) \<and> inv s' \<and> val s' = val s \<and> known s' = known s"
proof -
  obtain ord where ord: "reorders ord" "val s u kMetadataFp = meta_text n u (arrange ord t)" "sound_tree n t"
    using st by (auto simp: stored_def)
  let ?m = "val s u kMetadataFp"
  obtain s' where s': "kv_gets l [] u kMetadataFp s = ((0, ?m), s')" "inv s'" "val s' = val s" "known s' = known s"
    using gets_law [OF s, of "[]"] ord(2) by auto
  let ?st = "new_storage\<lparr>s_meta := ?m\<rparr>"
  have W: "wf_tree (arrange ord t)" "0 \<le> n" "n < 2 ^ 31" "entry_name u"
    using ord(1,3) hn by (simp_all add: sound_tree_def serves_def)
  have "s_heap ?st = []" by (simp add: new_storage_def)
  from parse_meta_text [OF W(1,4,2,3) this] obtain h where
    "parse_lines (istream_of ?m) ?st = Inr (?st\<lparr>s_heap := h, s_root := Some (tid (arrange ord t)), s_latest := n\<rparr>)"
    "rep_root shuffled h u (arrange ord t)" "\<forall>j. j \<notin> set (ids t) \<longrightarrow> map_of h j = None"
    unfolding ord(2) using mset_eq_setD [OF ids_arrange [OF ord(1), of t]] by auto
  then show ?thesis
    using s' ord hn by (simp add: ReadMetadata_def sbind_call ParseMetadataFile_def pure_Inr loaded_def serves_def new_storage_def)
qed

lemma write_loaded:
  assumes s: "inv s" "known s u" and st: "loaded st u n t (val s u kMetadataFp)" and hn: "serves hn l u"
    and ok: "okd u kMetadataFp (meta_text n u t)"
  shows "\<exists>m s'. GetMetadataStr (hd_iter hn) st = Some (Inr m) \<and> WriteMetadataToKv hn st s = Some (Inr True, s') \<and> inv s' \<and>
    val s' = set_val u kMetadataFp m (val s) \<and> known s' = known s \<and> stored (val s' u) u n t \<and>
    loaded (st\<lparr>s_meta := m\<rparr>) u n t (val s' u kMetadataFp)"
proof -
  obtain ord where ord: "reorders ord" "GetMetadataStr (hd_iter hn) st = Some (Inr (meta_text n u (arrange ord t)))"
    using printed [OF st] hn by (auto simp: serves_def)
  let ?m = "meta_text n u (arrange ord t)"
  have "okd u kMetadataFp ?m"
    by (rule okd_same_length [OF ok]) (simp add: length_meta_arrange [OF ord(1)])
  from cput_law [OF s(1) disjI1 [OF s(2)] this, of "val s u kMetadataFp"] s(2) obtain s' where
    s': "kv_cput l u kMetadataFp (val s u kMetadataFp) ?m s = (0, s')" "inv s'" "val s' = set_val u kMetadataFp ?m (val s)"
    "known s' = (\<lambda>w. w = u \<or> known s w)"
    by auto
  have "known s' = known s"
    using s'(4) s(2) by auto
  moreover have "WriteMetadataToKv hn st s = Some (Inr True, s')"
    using s'(1) ord(2) hn loadedD(3) [OF st] by (simp add: WriteMetadataToKv_def metadata_text_def sbind_call serves_def)
  moreover have "loaded (st\<lparr>s_meta := ?m\<rparr>) u n t (val s' u kMetadataFp)"
    using st s'(3) by (simp add: loaded_def)
  moreover have "stored (val s' u) u n t"
    using s'(3) ord(1) loadedD(5) [OF st] by (auto simp: stored_def)
  ultimately show ?thesis
    using ord(2) s'(2,3) by blast
qed

text \<open>A request is served by a handler that has just read the metadata.\<close>

lemma with_handler_run:
  assumes "ReadMetadata hn new_storage s = Some (Inr (True, st), s1)" "HandleRequest hn type req st s1 = Some (Inr (r, st'), s2)"
  shows "with_handler hn type req s = Some (Inr r, s2)"
  using assms by (simp add: with_handler_def InitializeHandler_def sbind_Some)

section \<open>Creating\<close>

lemma creation_loaded:
  assumes s: "inv s" "known s u" and st: "loaded st u n t (val s u kMetadataFp)" and hn: "serves hn l u"
    and v: "look t ns = Some v" "\<not> leaf v" "map_of (subs v) k = None" and k: "list_all entry_name (ns @ [k])"
    and n: "n + 1 < 2 ^ 31" and type: "type = FILE_UPLOAD \<or> type = DIR_CREATE"
    and path: "path_to (if type = FILE_UPLOAD then upload_path req else create_path req) (ns @ [k])"
    and ok: "okd u kMetadataFp (meta_text (n + 1) u (add_at ns k (fresh_node (n + 1) (type = FILE_UPLOAD)) t))"
      "type = FILE_UPLOAD \<Longrightarrow> okd u (int_str (n + 1)) (upload_content req)"
    and fresh: "map_of (s_heap st) (n + 1) = None"
  shows "\<exists>r st' s'. HandleCreationAndQuery hn (Suc a) type req resp st s = Some (Inr (r, st'), s') \<and> resp_status r = SUCCESS \<and>
    inv s' \<and> known s' = known s \<and> stored (val s' u) u (n + 1) (add_at ns k (fresh_node (n + 1) (type = FILE_UPLOAD)) t) \<and>
    (type = FILE_UPLOAD \<longrightarrow> val s' u (int_str (n + 1)) = upload_content req) \<and>
    (\<forall>w j. w \<noteq> u \<or> j \<noteq> kMetadataFp \<and> (type = FILE_UPLOAD \<longrightarrow> j \<noteq> int_str (n + 1)) \<longrightarrow> val s' w j = val s w j)"
proof -
  note L = loadedD [OF st]
  let ?b = "type = FILE_UPLOAD" and ?lo = "\<lparr>lo_ok = False, lo_parent = Some (tid v), lo_dir = None, lo_name = k\<rparr>"
  let ?t = "add_at ns k (fresh_node (n + 1) ?b) t"
  have T: "0 \<le> n" "\<forall>i \<in> set (ids t). i \<le> n"
    using L(5) by (auto simp: sound_tree_def)
  have V: "ValidatePathAndGetDir (if ?b then upload_path req else create_path req) st = Inr (?lo, st)"
    using validate_loaded [OF st k v(1)] v(3) validate_path_to [OF path k] by simp
  obtain h where h: "create_entry ?lo (n + 1) ?b (s_heap st) = Inr h" "rep_root shuffled h u ?t"
    using create_entry_rep [OF L(4,6) v fresh, of ?lo ?b] by auto
  define st2 where "st2 = st\<lparr>s_latest := n + 1, s_heap := h\<rparr>"
  have made: "with_heap (st\<lparr>s_latest := n + 1\<rparr>) (create_entry ?lo (n + 1) ?b (s_heap st)) = Inr st2"
    by (simp add: with_heap_def h(1) st2_def)
  have "loaded st2 u (n + 1) ?t (val s u kMetadataFp)"
    using h(2) L sound_add [OF L(5) v _ n, of ?b] k edit_head(1) [OF v(1), of "add_to k (fresh_node (n + 1) ?b)"] v(2)
    by (simp add: loaded_def st2_def add_at_def add_to_def)
  from write_loaded [OF s this hn ok(1)] obtain m s1 where m: "metadata_text hn st2 s = Some (Inr m, s)"
    "WriteMetadataToKv hn st2 s = Some (Inr True, s1)" "inv s1" "val s1 = set_val u kMetadataFp m (val s)" "known s1 = known s"
    "stored (val s1 u) u (n + 1) ?t"
    by (auto simp: metadata_text_def pure_loop_def)
  have step: "HandleCreationAndQuery hn (Suc a) type req resp st s =
    sbind (if ?b then call (kv_puts l u (int_str (n + 1)) (upload_content req)) else sret 0) (\<lambda>ret.
       if ret \<noteq> 0 then upload_failed hn (if ?b then upload_path req else create_path req) resp (st2\<lparr>s_meta := m\<rparr>)
       else sret (PopulateSuccessResp u resp, st2\<lparr>s_meta := m\<rparr>)) s1"
    using type V L(2) T(1) n made servesD [OF hn]
    by (auto simp: Let_def sbind_Some [where m = "metadata_text hn st2", OF m(1)] sbind_Some [where m = "WriteMetadataToKv hn st2", OF m(2)])
  show ?thesis
  proof (cases ?b)
    case True
    obtain s2 where s2: "kv_puts l u (int_str (n + 1)) (upload_content req) s1 = (0, s2)" "inv s2"
      "val s2 = set_val u (int_str (n + 1)) (upload_content req) (val s1)" "known s2 = known s1"
      using puts_law [OF m(3) _ ok(2) [OF True]] s(2) m(5) by auto
    have "stored (val s2 u) u (n + 1) ?t"
      using m(6) s2(3) T(1) by (simp add: stored_def set_val_def)
    then show ?thesis
      using step True s2 m(4,5) by (auto simp: sbind_call PopulateSuccessResp_def resp_status_def set_val_def)
  next
    case False
    then show ?thesis
      using step m by (auto simp: PopulateSuccessResp_def resp_status_def set_val_def)
  qed
qed

section \<open>Deleting\<close>

text \<open>An object without entries: the contents of a file, the entry, and the object itself are removed.\<close>

lemma delete_self_loaded:
  assumes s: "inv s" "known s u" and st: "loaded st u n t (val s u kMetadataFp)" and hn: "serves hn l u"
    and v: "look t ns = Some v" "map_of (subs v) k = Some w" "subs w = []"
    and lo: "lo_parent lo = Some (tid v)" "lo_name lo = k"
    and ok: "okd u kMetadataFp (meta_text n u t)" "okd u (int_str (tid w)) []"
  shows "\<exists>st' s'. delete_self hn again lo (tid w) b fp resp st s = Some (Inr (PopulateSuccessResp u resp, st'), s') \<and>
    inv s' \<and> known s' = known s \<and> loaded st' u n (remove_at ns k t) (val s' u kMetadataFp) \<and>
    stored (val s' u) u n (remove_at ns k t) \<and> cleans u (files w) (val s) (val s')"
proof -
  note L = loadedD [OF st]
  have lv: "\<not> leaf v" using v(2) by (cases v) auto
  have w: "look t (ns @ [k]) = Some w"
    using v by (simp add: look_append)
  obtain d where d: "map_of (s_heap st) (tid w) = Some d" "d_file d = leaf w"
    using rep_object [OF L(4) w] by blast
  have i: "0 \<le> tid w"
    using good_tid [OF look_good [OF L(7) w]] by simp
  obtain s1 where s1: "(if d_file d then call (kv_dele l u (int_str (tid w))) else sret 0) s = Some (Inr 0, s1)"
    "inv s1" "known s1 = known s" "val s1 = (if leaf w then set_val u (int_str (tid w)) [] (val s) else val s)"
    using dele_law [OF s ok(2)] d(2) s(1) by (cases "leaf w") (auto simp: call_def)
  obtain h where h: "modify (Some (tid v)) (DeleteEntry k) (s_heap st) = Inr h" "rep_root shuffled h u (remove_at ns k t)"
    using remove_entry [OF L(4,6) v(1) lv, of k] by blast
  define st1 where "st1 = st\<lparr>s_heap := h\<rparr>"
  have m1: "val s1 u kMetadataFp = val s u kMetadataFp"
    using s1(4) i by (simp add: set_val_def)
  have "loaded st1 u n (remove_at ns k t) (val s1 u kMetadataFp)"
    using h(2) L sound_remove(1) [OF L(5) v(1,2)] edit_head(1) [OF v(1), of "remove_from k"] lv m1
    by (simp add: loaded_def st1_def remove_at_def remove_from_def)
  moreover have "okd u kMetadataFp (meta_text n u (remove_at ns k t))"
    using okd_shorter [OF ok(1)] tlen_remove_at [OF L(7) v(1) lv] by (simp add: length_meta_text)
  ultimately obtain m s2 where m: "metadata_text hn st1 s1 = Some (Inr m, s1)"
    "WriteMetadataToKv hn st1 s1 = Some (Inr True, s2)" "inv s2" "val s2 = set_val u kMetadataFp m (val s1)" "known s2 = known s1"
    "stored (val s2 u) u n (remove_at ns k t)" "loaded (st1\<lparr>s_meta := m\<rparr>) u n (remove_at ns k t) (val s2 u kMetadataFp)"
    using write_loaded [OF s1(2) _ _ hn, of st1 n "remove_at ns k t"] s1(3) s(2) by (auto simp: metadata_text_def pure_loop_def)
  let ?st' = "st1\<lparr>s_meta := m, s_heap := AList.delete (tid w) (s_heap st1)\<rparr>"
  have gone: "tid w \<notin> set (ids (remove_at ns k t))"
    using sound_remove(2) [OF L(5) v(1,2)] tid_in_ids [of w] by blast
  have "rep_root shuffled (AList.delete (tid w) h) u (remove_at ns k t)"
    by (rule rep_root_frame [OF h(2)]) (use gone in \<open>auto simp: delete_conv'\<close>)
  then have L': "loaded ?st' u n (remove_at ns k t) (val s2 u kMetadataFp)"
    using m(7) by (simp add: loaded_def st1_def)
  have hn': "hd_link hn = l" "hd_usr hn = u"
    using servesD [OF hn] by simp_all
  have "delete_self hn again lo (tid w) b fp resp st s = Some (Inr (PopulateSuccessResp u resp, ?st'), s2)"
    unfolding delete_self_def hn'
    using d(1) lo h(1)
    by (simp add: deref_def with_heap_def flip: st1_def
      add: sbind_Some [where m = "if d_file d then call (kv_dele l u (int_str (tid w))) else sret 0", OF s1(1)] sbind_Some [where m = "metadata_text hn st1", OF m(1)] sbind_Some [where m = "WriteMetadataToKv hn st1", OF m(2)])
  moreover have "files w = (if leaf w then [tid w] else [])"
    using v(3) by (cases w) simp_all
  then have "cleans u (files w) (val s) (val s2)"
    using m(4) s1(4) i by (auto simp: cleans_def set_val_def)
  ultimately show ?thesis
    using m(3,5,6) s1(3) L' by auto
qed

text \<open>
  The loop over the entries \<open>es\<close> of the folder \<open>ms\<close>, when \<open>del\<close> removes each of them: the folder is empty in the end, and nothing else
  of the tree has changed.
\<close>

lemma delete_children_loaded:
  assumes del: "\<forall>s st t wt c x resp. inv s \<and> known s u \<and> loaded st u n t (val s u kMetadataFp) \<and> look t ms = Some wt \<and>
      map_of (subs wt) c = Some x \<and> (c, x) \<in> set es\<^sub>0 \<and> okd u kMetadataFp (meta_text n u t) \<longrightarrow>
      (\<exists>r st' s'. del (fp_of (ms @ [c])) resp st s = Some (Inr (r, st'), s') \<and> resp_status r = SUCCESS \<and> inv s' \<and> known s' = known s \<and>
        loaded st' u n (remove_at ms c t) (val s' u kMetadataFp) \<and> cleans u (files x) (val s) (val s'))"
  shows "\<lbrakk>inv s; known s u; loaded st u n t (val s u kMetadataFp); look t ms = Some wt; \<not> leaf wt; set es = set (subs wt); distinct (map fst es);
      set es \<subseteq> set es\<^sub>0; okd u kMetadataFp (meta_text n u t)\<rbrakk> \<Longrightarrow>
    \<exists>r st' s' t' w'. delete_children del (map (\<lambda>(c, x). fp_of (ms @ [c])) es) resp st s = Some (Inr (True, r, st'), s') \<and>
      inv s' \<and> known s' = known s \<and> loaded st' u n t' (val s' u kMetadataFp) \<and> okd u kMetadataFp (meta_text n u t') \<and>
      look t' ms = Some w' \<and> tid w' = tid wt \<and> leaf w' = leaf wt \<and> subs w' = [] \<and>
      (\<forall>ps x. look t ps = Some x \<longrightarrow> \<not> (\<exists>ls. ps = ms @ ls) \<longrightarrow> (\<exists>x'. look t' ps = Some x' \<and> tid x' = tid x)) \<and>
      (\<forall>ns k. ms = ns @ [k] \<longrightarrow> remove_at ns k t' = remove_at ns k t) \<and>
      cleans u (concat (map (\<lambda>(c, x). files x) es)) (val s) (val s')"
proof (induction es arbitrary: s st t wt resp)
  case Nil
  then show ?case
    by (intro exI [of _ resp] exI [of _ st] exI [of _ s] exI [of _ t] exI [of _ wt]) auto
next
  case (Cons e es)
  obtain c x where e: "e = (c, x)" by (cases e)
  note L = loadedD [OF Cons.prems(3)]
  have gw: "good wt" "distinct (map fst (subs wt))"
    using look_good [OF L(7) Cons.prems(4)] good_names by blast+
  have cx: "map_of (subs wt) c = Some x" "(c, x) \<in> set (subs wt)" "(c, x) \<in> set es\<^sub>0"
    using Cons.prems(6,8) gw(2) e by auto
  obtain r st1 s1 where D: "del (fp_of (ms @ [c])) resp st s = Some (Inr (r, st1), s1)" "resp_status r = SUCCESS" "inv s1" "known s1 = known s"
    "loaded st1 u n (remove_at ms c t) (val s1 u kMetadataFp)" "cleans u (files x) (val s) (val s1)"
    using del Cons.prems(1-4,9) cx(1,3) by blast
  let ?t = "remove_at ms c t" and ?w = "remove_from c wt"
  have look: "look ?t ms = Some ?w"
    using look_edit_same [OF Cons.prems(4), of "remove_from c" "[]"] by (simp add: remove_at_def)
  have W: "\<not> leaf ?w" "tid ?w = tid wt" "subs ?w = filter (\<lambda>e. fst e \<noteq> c) (subs wt)"
    by (simp_all add: remove_from_def)
  have rest: "set es = set (subs ?w)" "distinct (map fst es)" "set es \<subseteq> set es\<^sub>0"
    using Cons.prems(6,7,8) e gw(2) W(3) by (auto dest: eq_key_imp_eq_value)
  have meta: "okd u kMetadataFp (meta_text n u ?t)"
    using okd_shorter [OF Cons.prems(9)] tlen_remove_at [OF L(7) Cons.prems(4,5)] by (simp add: length_meta_text)
  have known: "known s1 u"
    using D(4) Cons.prems(2) by simp
  obtain r' st' s' t' w' where IH: "delete_children del (map (\<lambda>(c, x). fp_of (ms @ [c])) es) r st1 s1 = Some (Inr (True, r', st'), s')"
    "inv s'" "known s' = known s1" "loaded st' u n t' (val s' u kMetadataFp)" "okd u kMetadataFp (meta_text n u t')"
    "look t' ms = Some w'" "tid w' = tid ?w" "leaf w' = leaf ?w" "subs w' = []"
    "\<forall>ps x. look ?t ps = Some x \<longrightarrow> \<not> (\<exists>ls. ps = ms @ ls) \<longrightarrow> (\<exists>x'. look t' ps = Some x' \<and> tid x' = tid x)"
    "\<forall>ns k. ms = ns @ [k] \<longrightarrow> remove_at ns k t' = remove_at ns k ?t"
    "cleans u (concat (map (\<lambda>(c, x). files x) es)) (val s1) (val s')"
    using Cons.IH [OF D(3) known D(5) look W(1) rest meta, of r] by blast
  have "delete_children del (map (\<lambda>(c, x). fp_of (ms @ [c])) (e # es)) resp st s = Some (Inr (True, r', st'), s')"
    using D(1,2) IH(1) by (simp add: e sbind_def)
  moreover have "cleans u (concat (map (\<lambda>(c, x). files x) (e # es))) (val s) (val s')"
    using cleans_append [OF D(6) IH(12)] files_nonneg [of x] good_sub [OF gw(1) cx(2)] by (simp add: e)
  moreover have "\<exists>x'. look t' ps = Some x' \<and> tid x' = tid x" if px: "look t ps = Some x" "\<not> (\<exists>ls. ps = ms @ ls)" for ps x
    using look_edit [OF Cons.prems(4) px(1) _ _ px(2), of "remove_from c"] IH(10) px(2) W(1,2) Cons.prems(5)
    by (metis remove_at_def)
  moreover have "remove_at ns k t' = remove_at ns k t" if "ms = ns @ [k]" for ns k
    using IH(11) that remove_nested by simp
  ultimately show ?case
    using IH(2-9) D(4) W(1,2) Cons.prems(5) by auto
qed

lemma delete_loaded:
  assumes hn: "serves hn l u"
  shows "\<lbrakk>inv s; known s u; loaded st u n t (val s u kMetadataFp); list_all entry_name (ns @ [k]); look t ns = Some v;
      map_of (subs v) k = Some w; okd u kMetadataFp (meta_text n u t); \<forall>i \<in> set (ids w). okd u (int_str i) [];
      length (ids w) \<le> f; 0 \<le> a\<rbrakk> \<Longrightarrow>
    \<exists>r st' s'. HandleDelete hn f a b (fp_of (ns @ [k])) resp st s = Some (Inr (r, st'), s') \<and> resp_status r = SUCCESS \<and> inv s' \<and>
      known s' = known s \<and> loaded st' u n (remove_at ns k t) (val s' u kMetadataFp) \<and> stored (val s' u) u n (remove_at ns k t) \<and>
      cleans u (files w) (val s) (val s')"
proof (induction f arbitrary: s st t ns k v w a b resp)
  case 0
  then show ?case using ids_nonempty [of w] by simp
next
  case (Suc f)
  note L = loadedD [OF Suc.prems(3)]
  have hn': "hd_link hn = l" "hd_usr hn = u" "iter_ok (hd_iter hn)" "entry_name u"
    using servesD [OF hn] by simp_all
  have lw: "look t (ns @ [k]) = Some w"
    using Suc.prems(5,6) by (simp add: look_append)
  have gw: "good w" "distinct (map fst (subs w))"
    using look_good [OF L(7) lw] good_names by blast+
  let ?lo = "\<lparr>lo_ok = True, lo_parent = Some (tid v), lo_dir = Some (tid w), lo_name = k\<rparr>"
  let ?self = "delete_self hn (HandleDelete hn f (a - 1) True (fp_of (ns @ [k]))) ?lo (tid w) b (fp_of (ns @ [k]))"
  have V: "ValidatePathAndGetDir (fp_of (ns @ [k])) st = Inr (?lo, st)"
    using validate_loaded [OF Suc.prems(3,4,5)] Suc.prems(6) by simp
  show ?case
  proof (cases "subs w = []")
    case True
    obtain d where d: "map_of (s_heap st) (tid w) = Some d" "d_file d = leaf w" "leaf w \<or> d_entries d = []"
      using rep_object [OF L(4) lw] True by (auto simp: shuffled_def entries_of_def)
    have "HandleDelete hn (Suc f) a b (fp_of (ns @ [k])) resp st s = ?self resp st s"
      using Suc.prems(10) V d by (auto simp: deref_def)
    then show ?thesis
      using delete_self_loaded [OF Suc.prems(1-3) hn Suc.prems(5,6) True, of ?lo] Suc.prems(7,8)
      by (fastforce simp: PopulateSuccessResp_def resp_status_def)
  next
    case False
    then have wl: "\<not> leaf w" by (cases w) auto
    obtain d es where d: "map_of (s_heap st) (tid w) = Some d" "\<not> d_file d" "d_entries d \<noteq> []"
      "hd_iter hn (d_entries d) = entries_of es" "mset es = mset (subs w)"
      using visited_entries [OF L(4,7) lw wl hn'(3)] False by blast
    have es: "set es = set (subs w)" "distinct (map fst es)"
      using d(5) gw(2) by (metis set_mset_mset, metis mset_eq_imp_distinct_iff mset_map)
    let ?ps = "map (\<lambda>(c, x). fp_of ((ns @ [k]) @ [c])) es"
    have "child_paths (s_heap st) (entries_of es) = Inr ?ps"
      by (rule child_paths_fp [OF L(4,6) hn'(4)]) (use look_entry [OF L(6) lw] es(1) in auto)
    then have step: "HandleDelete hn (Suc f) a b (fp_of (ns @ [k])) resp st s =
      sbind (delete_children (HandleDelete hn f 0 b) ?ps resp st) (\<lambda>(ok, resp1, st2).
        if \<not> ok then sret (resp1, st2) else ?self resp1 st2) s"
      using Suc.prems(10) V d by (simp add: deref_def)
    have small: "length (ids x) \<le> f" "set (ids x) \<subseteq> set (ids w)" "entry_name c" if "(c, x) \<in> set es" for c x
    proof -
      have cx: "(c, x) \<in> set (subs w)" using that es(1) by simp
      then have "look w [c] = Some x"
        using gw(2) by simp
      then show "length (ids x) \<le> f"
        using look_depth Suc.prems(9) by fastforce
      show "set (ids x) \<subseteq> set (ids w)" "entry_name c"
        using ids_sub [OF cx] good_sub [OF gw(1) cx] by auto
    qed
    have kid: "\<exists>r st' s'. HandleDelete hn f 0 b (fp_of ((ns @ [k]) @ [c])) resp st s = Some (Inr (r, st'), s') \<and> resp_status r = SUCCESS \<and>
        inv s' \<and> known s' = known s \<and> loaded st' u n (remove_at (ns @ [k]) c t) (val s' u kMetadataFp) \<and> cleans u (files x) (val s) (val s')"
      if "inv s" "known s u" "loaded st u n t (val s u kMetadataFp)" "look t (ns @ [k]) = Some wt" "map_of (subs wt) c = Some x"
        "(c, x) \<in> set es" "okd u kMetadataFp (meta_text n u t)" for s st t wt c x resp
      using Suc.IH [OF that(1-3) _ that(4,5,7) _ small(1) [OF that(6)], of 0 b resp] small(2,3) [OF that(6)] Suc.prems(4,8)
      by fastforce
    have kids: "\<forall>s st t wt c x resp. inv s \<and> known s u \<and> loaded st u n t (val s u kMetadataFp) \<and> look t (ns @ [k]) = Some wt \<and>
      map_of (subs wt) c = Some x \<and> (c, x) \<in> set es \<and> okd u kMetadataFp (meta_text n u t) \<longrightarrow>
      (\<exists>r st' s'. HandleDelete hn f 0 b (fp_of ((ns @ [k]) @ [c])) resp st s = Some (Inr (r, st'), s') \<and> resp_status r = SUCCESS \<and>
        inv s' \<and> known s' = known s \<and> loaded st' u n (remove_at (ns @ [k]) c t) (val s' u kMetadataFp) \<and>
        cleans u (files x) (val s) (val s'))"
      by (intro allI impI) (elim conjE, rule kid)
    obtain r1 st1 s1 t1 w1 where C: "delete_children (HandleDelete hn f 0 b) ?ps resp st s = Some (Inr (True, r1, st1), s1)"
      "inv s1" "known s1 = known s" "loaded st1 u n t1 (val s1 u kMetadataFp)" "okd u kMetadataFp (meta_text n u t1)"
      "look t1 (ns @ [k]) = Some w1" "tid w1 = tid w" "leaf w1 = leaf w" "subs w1 = []"
      "\<forall>ps x. look t ps = Some x \<longrightarrow> \<not> (\<exists>ls. ps = (ns @ [k]) @ ls) \<longrightarrow> (\<exists>x'. look t1 ps = Some x' \<and> tid x' = tid x)"
      "\<forall>ns' k'. ns @ [k] = ns' @ [k'] \<longrightarrow> remove_at ns' k' t1 = remove_at ns' k' t"
      "cleans u (concat (map (\<lambda>(c, x). files x) es)) (val s) (val s1)"
      using delete_children_loaded [where del = "HandleDelete hn f 0 b" and ms = "ns @ [k]" and es\<^sub>0 = es and resp = resp,
        OF kids Suc.prems(1-3) lw wl es(1,2) subset_refl Suc.prems(7)]
      by (elim exE conjE)
    have C11: "remove_at ns k t1 = remove_at ns k t"
      using C(11) by simp
    obtain v1 where v1: "look t1 ns = Some v1" "tid v1 = tid v"
      using C(10) Suc.prems(5) by fastforce
    then have w1: "map_of (subs v1) k = Some w1"
      using C(6) by (auto simp: look_append split: option.splits)
    have "known s1 u" "okd u (int_str (tid w1)) []"
      using C(3,7) Suc.prems(2,8) by simp_all
    from delete_self_loaded [OF C(2) this(1) C(4) hn v1(1) w1 C(9) _ _ C(5) this(2), of ?lo "HandleDelete hn f (a - 1) True (fp_of (ns @ [k]))" b "fp_of (ns @ [k])" r1]
    obtain st' s' where S: "?self r1 st1 s1 = Some (Inr (PopulateSuccessResp u r1, st'), s')" "inv s'" "known s' = known s1"
      "loaded st' u n (remove_at ns k t) (val s' u kMetadataFp)" "stored (val s' u) u n (remove_at ns k t)"
      "cleans u (files w1) (val s1) (val s')"
      using v1(2) C(7) C11 by auto
    have "files w1 = []"
      using C(8,9) wl by (cases w1) simp_all
    then have "cleans u (concat (map (\<lambda>(c, x). files x) es) @ []) (val s) (val s')"
      using cleans_append [OF C(12), of "[]" "val s'"] S(6) files_nonneg good_sub [OF gw(1)] es(1) by fastforce
    then have "cleans u (files w) (val s) (val s')"
      using es(1) wl by (cases w) (auto elim: cleans_set)
    then show ?thesis
      using step C(1,3) S by (simp add: sbind_def PopulateSuccessResp_def resp_status_def)
  qed
qed

section \<open>Renaming and moving\<close>

lemma rename_loaded:
  assumes s: "inv s" "known s u" and st: "loaded st u n t (val s u kMetadataFp)" and hn: "serves hn l u"
    and p: "list_all entry_name (ns @ [k])" "look t (ns @ [k]) = Some w" and k': "entry_name k'" "k' = k \<or> look t (ns @ [k']) = None"
    and ok: "okd u kMetadataFp (meta_text n u (add_at ns k' w (remove_at ns k t)))"
  shows "\<exists>r st' s' m. HandleRename hn (Suc a) (fp_of (ns @ [k])) k' resp st s = Some (Inr (r, st'), s') \<and> resp_status r = SUCCESS \<and>
    inv s' \<and> known s' = known s \<and> stored (val s' u) u n (add_at ns k' w (remove_at ns k t)) \<and> val s' = set_val u kMetadataFp m (val s)"
proof -
  note L = loadedD [OF st]
  let ?t = "add_at ns k' w (remove_at ns k t)"
  obtain v where v: "look t ns = Some v" "map_of (subs v) k = Some w" "\<not> leaf v" and V: "ValidatePathAndGetDir (fp_of (ns @ [k])) st =
      Inr (\<lparr>lo_ok = True, lo_parent = Some (tid v), lo_dir = Some (tid w), lo_name = k\<rparr>, st)"
    using validate_found [OF st p] by blast
  have k'v: "map_of (subs v) k' = None \<or> k' = k"
    using k'(2) v(1) by (auto simp: look_append split: option.splits)
  obtain h where h: "rename_entry \<lparr>lo_ok = True, lo_parent = Some (tid v), lo_dir = Some (tid w), lo_name = k\<rparr> k' (s_heap st) = Inr h"
    "rep_root shuffled h u ?t"
    using rename_entry_rep [OF L(4,6) v(1,2) k'v, of "\<lparr>lo_ok = True, lo_parent = Some (tid v), lo_dir = Some (tid w), lo_name = k\<rparr>"] by auto
  define st2 where "st2 = st\<lparr>s_heap := h\<rparr>"
  have "sound_tree n ?t"
    using sound_relink [OF L(5) v(1,2,1,3)] k'v k'(1) by simp
  moreover have "tid ?t = tid t"
    by (rule tid_relink [OF v(1,3,1,3)]) simp
  ultimately have "loaded st2 u n ?t (val s u kMetadataFp)"
    using h(2) L by (simp add: loaded_def st2_def)
  from write_loaded [OF s this hn ok] obtain m s1 where m: "GetMetadataStr (hd_iter hn) st2 = Some (Inr m)"
    "WriteMetadataToKv hn st2 s = Some (Inr True, s1)" "inv s1" "val s1 = set_val u kMetadataFp m (val s)" "known s1 = known s"
    "stored (val s1 u) u n ?t"
    by blast
  have hn': "hd_usr hn = u"
    using servesD [OF hn] by simp
  have "HandleRename hn (Suc a) (fp_of (ns @ [k])) k' resp st s = Some (Inr (PopulateSuccessResp u resp, st2\<lparr>s_meta := m\<rparr>), s1)"
    by (simp add: hn' V h(1) with_heap_def sbind_Some [where m = "WriteMetadataToKv hn st2", OF m(2)] sbind_metadata [OF m(1)] flip: st2_def)
  then show ?thesis
    using m by (auto simp: PopulateSuccessResp_def resp_status_def)
qed

lemma move_loaded:
  assumes s: "inv s" "known s u" and st: "loaded st u n t (val s u kMetadataFp)" and hn: "serves hn l u"
    and p: "list_all entry_name (ns @ [k])" "look t (ns @ [k]) = Some w"
    and x: "list_all entry_name ms" "look t ms = Some x" "\<not> leaf x" "\<not> (\<exists>ls. ms = (ns @ [k]) @ ls)" "look t (ms @ [k]) = None"
    and ok: "okd u kMetadataFp (meta_text n u (add_at ms k w (remove_at ns k t)))"
  shows "\<exists>r st' s' m. HandleMove hn (Suc a) (fp_of (ns @ [k])) (dir_path ms) resp st s = Some (Inr (r, st'), s') \<and> resp_status r = SUCCESS \<and>
    inv s' \<and> known s' = known s \<and> stored (val s' u) u n (add_at ms k w (remove_at ns k t)) \<and> val s' = set_val u kMetadataFp m (val s)"
proof -
  note L = loadedD [OF st]
  let ?t = "add_at ms k w (remove_at ns k t)"
  obtain v where v: "look t ns = Some v" "map_of (subs v) k = Some w" "\<not> leaf v" and V: "ValidatePathAndGetDir (fp_of (ns @ [k])) st =
      Inr (\<lparr>lo_ok = True, lo_parent = Some (tid v), lo_dir = Some (tid w), lo_name = k\<rparr>, st)"
    using validate_found [OF st p] by blast
  obtain p0 k0 where D: "ValidatePathAndGetDir (dir_path ms) st = Inr (\<lparr>lo_ok = True, lo_parent = Some p0, lo_dir = Some (tid x), lo_name = k0\<rparr>, st)"
    using validate_dir [OF st x(1,2)] by blast
  have kx: "map_of (subs x) k = None"
    using x(2,5) by (auto simp: look_append split: option.splits)
  obtain h where h: "move_entry \<lparr>lo_ok = True, lo_parent = Some (tid v), lo_dir = Some (tid w), lo_name = k\<rparr> (Some (tid x)) (s_heap st) = Inr h"
    "rep_root shuffled h u ?t"
    using move_entry_rep [OF L(4,6) v(1,2) x(2-4) kx, of "\<lparr>lo_ok = True, lo_parent = Some (tid v), lo_dir = Some (tid w), lo_name = k\<rparr>"] by auto
  define st2 where "st2 = st\<lparr>s_heap := h\<rparr>"
  have "sound_tree n ?t"
    by (rule sound_relink [OF L(5) v(1,2) x(2-4)]) (use kx p(1) in auto)
  moreover have "tid ?t = tid t"
    by (rule tid_relink [OF v(1,3) x(2-4)])
  ultimately have "loaded st2 u n ?t (val s u kMetadataFp)"
    using h(2) L by (simp add: loaded_def st2_def)
  from write_loaded [OF s this hn ok] obtain m s1 where m: "GetMetadataStr (hd_iter hn) st2 = Some (Inr m)"
    "WriteMetadataToKv hn st2 s = Some (Inr True, s1)" "inv s1" "val s1 = set_val u kMetadataFp m (val s)" "known s1 = known s"
    "stored (val s1 u) u n ?t"
    by blast
  have hn': "hd_usr hn = u"
    using servesD [OF hn] by simp
  have "HandleMove hn (Suc a) (fp_of (ns @ [k])) (dir_path ms) resp st s = Some (Inr (PopulateSuccessResp u resp, st2\<lparr>s_meta := m\<rparr>), s1)"
    by (simp add: hn' V D h(1) with_heap_def sbind_Some [where m = "WriteMetadataToKv hn st2", OF m(2)] sbind_metadata [OF m(1)] flip: st2_def)
  then show ?thesis
    using m by (auto simp: PopulateSuccessResp_def resp_status_def)
qed

section \<open>Requests that change nothing\<close>

lemma download_loaded:
  assumes s: "inv s" and st: "loaded st u n t m" and hn: "serves hn l u"
    and p: "list_all entry_name (ns @ [k])" "look t (ns @ [k]) = Some (FFile i)"
    and ok: "okd u (int_str i) x" "val s u (int_str i) \<noteq> []"
  shows "\<exists>r s'. HandleFileDownload hn (fp_of (ns @ [k])) resp st s = Some (Inr (r, st), s') \<and> resp_status r = SUCCESS \<and>
    sv_body r = File_download (val s u (int_str i)) \<and> inv s' \<and> known s' = known s \<and> val s' = val s"
proof -
  note L = loadedD [OF st]
  obtain v where V: "ValidatePathAndGetDir (fp_of (ns @ [k])) st =
      Inr (\<lparr>lo_ok = True, lo_parent = Some (tid v), lo_dir = Some i, lo_name = k\<rparr>, st)"
    using validate_found [OF st p] by auto
  obtain d where d: "map_of (s_heap st) i = Some d"
    using rep_object [OF L(4) p(2)] by auto
  obtain s1 where s1: "kv_gets l [] u (int_str i) s = ((0, val s u (int_str i)), s1)" "inv s1" "val s1 = val s" "known s1 = known s"
    using gets_law [OF s ok(1), of "[]"] ok(2) by auto
  have hn': "hd_link hn = l" "hd_usr hn = u"
    using servesD [OF hn] by simp_all
  show ?thesis
    using s1 by (simp add: HandleFileDownload_def V hn' deref_def d sbind_call PopulateSuccessResp_def resp_status_def)
qed

lemma query_loaded:
  assumes st: "loaded st u n t m" and hn: "serves hn l u"
    and p: "list_all entry_name ns" "look t ns = Some v" "\<not> leaf v" "create_path req = dir_path ns"
  shows "\<exists>r xs. HandleCreationAndQuery hn (Suc a) DIR_QUERY req resp st s = Some (Inr (r, st), s) \<and> resp_status r = SUCCESS \<and>
    sv_body r = Dir_info (path_text u ns) xs \<and> mset xs = mset (listing u ns (subs v))"
proof -
  obtain p0 k0 where D: "ValidatePathAndGetDir (dir_path ns) st = Inr (\<lparr>lo_ok = True, lo_parent = Some p0, lo_dir = Some (tid v), lo_name = k0\<rparr>, st)"
    using validate_dir [OF st p(1,2)] by blast
  obtain xs where "query_dir_info (hd_iter hn) (s_heap st) (Some (tid v)) = Inr (Dir_info (path_text u ns) xs)"
    "mset xs = mset (listing u ns (subs v))"
    using query_text [OF st _ p(2,3)] servesD [OF hn] by blast
  then show ?thesis
    using D p(4) by (simp add: PopulateSuccessResp_def resp_status_def)
qed

lemma absent_loaded:
  assumes st: "loaded st u n t m" and p: "list_all entry_name (ns @ [k])" "look t (ns @ [k]) = None"
    and req: "needs_entry type req (fp_of (ns @ [k]))" and fuel: "0 < hd_fuel hn"
  shows "\<exists>r. HandleRequest hn type req st s = Some (Inr (r, st), s) \<and> resp_status r = FAIL"
proof -
  obtain lo where V: "ValidatePathAndGetDir (fp_of (ns @ [k])) st = Inr (lo, st)" "\<not> lo_ok lo"
    using validate_absent [OF st p] by blast
  obtain f where f: "hd_fuel hn = Suc f"
    using fuel by (cases "hd_fuel hn") auto
  have r: "root_ptr st = Inr (tid t)"
    using loadedD(1) [OF st] by (simp add: root_ptr_def)
  show ?thesis
    using req V by (auto simp: needs_entry_def HandleRequest_def f r failed_def resp_status_def HandleFileDownload_def
      HandleQueryAllMovableDir_def create_path_def)
qed

lemma refused_loaded:
  assumes st: "loaded st u n t m" and p: "list_all entry_name (ns @ [k])" "look t ns = None \<or> look t (ns @ [k]) \<noteq> None"
    and req: "creates type req (fp_of (ns @ [k]))"
  shows "\<exists>r. HandleRequest hn type req st s = Some (Inr (r, st), s) \<and> resp_status r = FAIL"
proof -
  obtain lo where V: "ValidatePathAndGetDir (fp_of (ns @ [k])) st = Inr (lo, st)" "lo_ok lo \<or> lo_parent lo = None"
  proof (cases "look t (ns @ [k])")
    case None
    then show ?thesis using validate_absent [OF st p(1) None] p(2) that by auto
  next
    case (Some w)
    then show ?thesis using validate_found [OF st p(1) Some] that by auto
  qed
  show ?thesis
    using req V by (cases "lo_ok lo") (auto simp: creates_def HandleRequest_def failed_def resp_status_def upload_path_def create_path_def Let_def)
qed

section \<open>Whole requests\<close>

lemma request_stored:
  assumes s: "inv s" "okd u kMetadataFp v" and st: "stored (val s u) u n t" and hn: "serves hn l u"
    and run: "\<And>st s1. loaded st u n t (val s1 u kMetadataFp) \<Longrightarrow> \<forall>j. j \<notin> set (ids t) \<longrightarrow> map_of (s_heap st) j = None \<Longrightarrow>
      inv s1 \<Longrightarrow> val s1 = val s \<Longrightarrow> known s1 = known s \<Longrightarrow>
      \<exists>r st' s'. HandleRequest hn type req st s1 = Some (Inr (r, st'), s') \<and> Q r s'"
  shows "\<exists>r s'. with_handler hn type req s = Some (Inr r, s') \<and> Q r s'"
proof -
  obtain st s1 where R: "ReadMetadata hn new_storage s = Some (Inr (True, st), s1)" "loaded st u n t (val s u kMetadataFp)"
    "\<forall>j. j \<notin> set (ids t) \<longrightarrow> map_of (s_heap st) j = None" "inv s1" "val s1 = val s" "known s1 = known s"
    using read_stored [OF s st hn] by blast
  then have "loaded st u n t (val s1 u kMetadataFp)"
    by simp
  from run [OF this R(3-6)] obtain r st' s' where "HandleRequest hn type req st s1 = Some (Inr (r, st'), s')" "Q r s'"
    by blast
  then show ?thesis
    using with_handler_run [OF R(1)] by blast
qed

end

end
