(* ===== verification/Storage_Correct.thy ===== *)
theory Storage_Correct
  imports Storage_Service Web_Request
begin

text \<open>
  The file storage service on a node of the store: what every request answers and what the user sees afterwards, as operations on the
  map from paths to files and folders.
\<close>

section \<open>The drive of a user\<close>

text \<open>\<open>nd\<close> is a serving primary whose metadata of the user \<open>u\<close> shows the tree \<open>t\<close> and fits into a value.\<close>

definition drive :: "node \<Rightarrow> string \<Rightarrow> int \<Rightarrow> ftree \<Rightarrow> bool" where
  "drive nd u n t \<longleftrightarrow> serving nd \<and> member nd u \<and> entry_name u \<and> u \<noteq> ''logging'' \<and> stored (nval nd u) u n t \<and>
     length (meta_text n u t) < 2 ^ 31"

text \<open>What the user sees, and the operations on it.\<close>

definition shown :: "node \<Rightarrow> string \<Rightarrow> ftree \<Rightarrow> string list \<Rightarrow> fnode option" where
  "shown nd u t = fview (nval nd u) t"

definition place :: "string list \<Rightarrow> fnode \<Rightarrow> (string list \<Rightarrow> fnode option) \<Rightarrow> string list \<Rightarrow> fnode option" where
  "place p x V = graft p (single x) V"

definition erase :: "string list \<Rightarrow> (string list \<Rightarrow> fnode option) \<Rightarrow> string list \<Rightarrow> fnode option" where
  "erase p V = graft p nothing V"

definition relocate :: "string list \<Rightarrow> string list \<Rightarrow> (string list \<Rightarrow> fnode option) \<Rightarrow> string list \<Rightarrow> fnode option" where
  "relocate p q V = graft q (\<lambda>ms. V (p @ ms)) (erase p V)"

lemma entry_token: "entry_name k = token k"
proof -
  have "name_char c \<and> c \<noteq> CHR ''/'' \<longleftrightarrow> log_char c" for c
    by (auto simp: name_char_def log_char_def alpha_def is_digit_def)
  then show ?thesis by (simp add: entry_name_def token_def)
qed

lemma digit_token: "0 \<le> i \<Longrightarrow> token (int_str i)"
  using int_str_digits [of i] by (simp add: token_def log_char_def)

lemma kMetadataFp_token: "token kMetadataFp"
  by (simp add: kMetadataFp_def token_def log_char_def alpha_def)

lemma drive_data_ok:
  assumes "drive nd u n t"
  shows "length v < 2 ^ 31 \<Longrightarrow> data_ok u kMetadataFp v" "0 \<le> i \<Longrightarrow> length v < 2 ^ 31 \<Longrightarrow> data_ok u (int_str i) v"
  using assms digit_token kMetadataFp_token by (simp_all add: data_ok_def drive_def entry_token)

lemma driveD:
  assumes "drive nd u n t"
  shows "serving nd" "member nd u" "stored (nval nd u) u n t" "sound_tree n t" "wf_tree t" "good t" "0 \<le> n"
  using assms by (auto simp: drive_def stored_def sound_tree_def wf_tree_def)

lemma fview_cong: "(\<And>i. i \<in> set (ids t) \<Longrightarrow> c (int_str i) = c' (int_str i)) \<Longrightarrow> fview c t = fview c' t"
proof
  fix ms assume c: "\<And>i. i \<in> set (ids t) \<Longrightarrow> c (int_str i) = c' (int_str i)"
  show "fview c t ms = fview c' t ms"
    using c look_ids [of t ms] tid_in_ids by (cases "look t ms") (auto simp: fview_def fcontent_def subset_iff)
qed

text \<open>A request to a node: the handler reads the metadata of the drive, and then works on its objects.\<close>

lemma request_drive:
  assumes d: "drive nd u n t" and hn: "serves hn (node_link e) u"
    and run: "\<And>st nd1. loaded st u n t (nval nd1 u kMetadataFp) \<Longrightarrow> \<forall>j. j \<notin> set (ids t) \<longrightarrow> map_of (s_heap st) j = None \<Longrightarrow>
      drive nd1 u n t \<Longrightarrow> nval nd1 = nval nd \<Longrightarrow>
      \<exists>r st' nd'. HandleRequest hn type req st nd1 = Some (Inr (r, st'), nd') \<and> Q r nd'"
  shows "\<exists>r nd'. with_handler hn type req nd = Some (Inr r, nd') \<and> Q r nd'"
proof (rule sized_node.request_stored [OF driveD(1) [OF d] _ driveD(3) [OF d] hn])
  show "data_ok u kMetadataFp []"
    using drive_data_ok(1) [OF d] by simp
  fix st nd1
  assume "loaded st u n t (nval nd1 u kMetadataFp)" "\<forall>j. j \<notin> set (ids t) \<longrightarrow> map_of (s_heap st) j = None"
    "serving nd1" "nval nd1 = nval nd" "member nd1 = member nd"
  moreover from this d have "drive nd1 u n t"
    by (simp add: drive_def)
  ultimately show "\<exists>r st' nd'. HandleRequest hn type req st nd1 = Some (Inr (r, st'), nd') \<and> Q r nd'"
    using run by blast
qed

section \<open>New files and folders\<close>

lemma creation_drive:
  assumes d: "drive nd u n t" and hn: "serves hn (node_link e) u" and req: "creates type req fp" "path_to fp (ns @ [k])"
    and p: "list_all entry_name (ns @ [k])" "look t ns = Some v" "\<not> leaf v" "look t (ns @ [k]) = None"
    and n: "n + 1 < 2 ^ 31" "length (upload_content req) < 2 ^ 31"
      "length (meta_text (n + 1) u (add_at ns k (fresh_node (n + 1) (type = FILE_UPLOAD)) t)) < 2 ^ 31"
  shows "\<exists>r nd'. with_handler hn type req nd = Some (Inr r, nd') \<and> resp_status r = SUCCESS \<and>
    (drive nd' u (n + 1) (add_at ns k (fresh_node (n + 1) (type = FILE_UPLOAD)) t) \<and>
      shown nd' u (add_at ns k (fresh_node (n + 1) (type = FILE_UPLOAD)) t) = place (ns @ [k]) (if type = FILE_UPLOAD then Doc (upload_content req) else Folder) (shown nd u t)) \<and>
    (\<forall>w. w \<noteq> u \<longrightarrow> nval nd' w = nval nd w)"
proof (rule request_drive [OF d hn])
  fix st nd1
  assume st: "loaded st u n t (nval nd1 u kMetadataFp)" "\<forall>j. j \<notin> set (ids t) \<longrightarrow> map_of (s_heap st) j = None"
    and d1: "drive nd1 u n t" "nval nd1 = nval nd"
  let ?b = "type = FILE_UPLOAD"
  let ?t = "add_at ns k (fresh_node (n + 1) ?b) t"
  have vk: "map_of (subs v) k = None"
    using p(2,4) by (auto simp: look_append split: option.splits)
  have i: "n + 1 \<notin> set (ids t)"
    using driveD(4) [OF d] by (auto simp: sound_tree_def)
  have type: "?b \<or> type = DIR_CREATE" "path_to (if ?b then upload_path req else create_path req) (ns @ [k])"
    using req by (auto simp: creates_def upload_path_def create_path_def)
  have "map_of (s_heap st) (n + 1) = None"
    using st(2) i by simp
  moreover have "data_ok u kMetadataFp (meta_text (n + 1) u ?t)" "?b \<Longrightarrow> data_ok u (int_str (n + 1)) (upload_content req)"
    using drive_data_ok [OF d] n driveD(7) [OF d] by simp_all
  ultimately obtain r st' nd' where C: "HandleCreationAndQuery hn (Suc kMaxAttempt) type req invalid_request st nd1 = Some (Inr (r, st'), nd')"
    "resp_status r = SUCCESS" "serving nd'" "member nd' = member nd1" "stored (nval nd' u) u (n + 1) ?t"
    "?b \<longrightarrow> nval nd' u (int_str (n + 1)) = upload_content req"
    "\<forall>w j. w \<noteq> u \<or> j \<noteq> kMetadataFp \<and> (?b \<longrightarrow> j \<noteq> int_str (n + 1)) \<longrightarrow> nval nd' w j = nval nd1 w j"
    using sized_node.creation_loaded [OF driveD(1,2) [OF d1(1)] st(1) hn p(2,3) vk p(1) n(1) type, of kMaxAttempt invalid_request] by blast
  have run: "HandleRequest hn type req st nd1 = Some (Inr (r, st'), nd')"
    using C(1) req by (auto simp: HandleRequest_def creates_def)
  have "drive nd' u (n + 1) ?t"
    using d1 C(3-5) n by (simp add: drive_def)
  moreover have "shown nd' u ?t = place (ns @ [k]) (if ?b then Doc (upload_content req) else Folder) (shown nd u t)"
  proof -
    have old: "nval nd' u (int_str j) = nval nd u (int_str j)" if "j \<in> set (ids t)" for j
    proof -
      have "0 \<le> j" "j \<noteq> n + 1"
        using good_ids [OF driveD(6) [OF d] that] that i by auto
      then show ?thesis
        using C(7) d1(2) driveD(7) [OF d] by (simp add: int_str_inj)
    qed
    have "fview (nval nd' u) t = fview (nval nd u) t"
      by (rule fview_cong) (rule old)
    moreover have "fview (nval nd' u) (fresh_node (n + 1) ?b) = single (if ?b then Doc (upload_content req) else Folder)"
      using C(6) by (simp add: fresh_node_def fview_single)
    ultimately show ?thesis
      using fview_add_at [OF p(2,3) vk, of "nval nd' u" "fresh_node (n + 1) ?b"] by (simp add: shown_def place_def)
  qed
  moreover have "\<forall>w. w \<noteq> u \<longrightarrow> nval nd' w = nval nd w"
    using C(7) d1(2) by (simp add: fun_eq_iff)
  ultimately show "\<exists>r st' nd'. HandleRequest hn type req st nd1 = Some (Inr (r, st'), nd') \<and> resp_status r = SUCCESS \<and>
    (drive nd' u (n + 1) (add_at ns k (fresh_node (n + 1) (type = FILE_UPLOAD)) t) \<and>
      shown nd' u (add_at ns k (fresh_node (n + 1) (type = FILE_UPLOAD)) t) = place (ns @ [k]) (if type = FILE_UPLOAD then Doc (upload_content req) else Folder) (shown nd u t)) \<and>
    (\<forall>w. w \<noteq> u \<longrightarrow> nval nd' w = nval nd w)"
    using run C(2) by blast
qed

lemma upload_drive:
  assumes d: "drive nd u n t" and hn: "serves hn (node_link e) u" and fp: "path_to fp (ns @ [k])"
    and p: "list_all entry_name (ns @ [k])" "shown nd u t ns = Some Folder" "shown nd u t (ns @ [k]) = None"
    and n: "length c < 2 ^ 31" "n + 1 < 2 ^ 31" "length (meta_text (n + 1) u (add_at ns k (FFile (n + 1)) t)) < 2 ^ 31"
  shows "\<exists>r nd'. upload_file hn fp c nd = Some (Inr r, nd') \<and> resp_status r = SUCCESS \<and> drive nd' u (n + 1) (add_at ns k (FFile (n + 1)) t) \<and>
    shown nd' u (add_at ns k (FFile (n + 1)) t) = place (ns @ [k]) (Doc c) (shown nd u t) \<and> (\<forall>w. w \<noteq> u \<longrightarrow> nval nd' w = nval nd w)"
proof -
  have q: "creates FILE_UPLOAD (File_upload_req fp c) fp" "upload_content (File_upload_req fp c) = c"
    by (simp_all add: creates_def upload_content_def)
  obtain v where v: "look t ns = Some v" "\<not> leaf v" "look t (ns @ [k]) = None"
    using p(2,3) by (auto simp: shown_def fview_def fcontent_def split: if_splits)
  show ?thesis
    using creation_drive [OF d hn q(1) fp p(1) v n(2)] q(2) n(1,3) unfolding upload_file_def by (auto simp: fresh_node_def)
qed

section \<open>Deleting\<close>

lemma delete_drive:
  assumes d: "drive nd u n t" and hn: "serves hn (node_link e) u" and type: "type = FILE_DELE \<or> type = DIR_DELE"
    and p: "list_all entry_name (ns @ [k])" "look t (ns @ [k]) = Some w" and fuel: "length (ids w) \<le> hd_fuel hn"
  shows "\<exists>r nd'. with_handler hn type (Delete_req (fp_of (ns @ [k]))) nd = Some (Inr r, nd') \<and> resp_status r = SUCCESS \<and>
    drive nd' u n (remove_at ns k t) \<and> shown nd' u (remove_at ns k t) = erase (ns @ [k]) (shown nd u t) \<and>
    (\<forall>i \<in> set (files w). nval nd' u (int_str i) = []) \<and> (\<forall>w. w \<noteq> u \<longrightarrow> nval nd' w = nval nd w)"
proof (rule request_drive [OF d hn])
  fix st nd1
  assume st: "loaded st u n t (nval nd1 u kMetadataFp)" and d1: "drive nd1 u n t" "nval nd1 = nval nd"
  let ?t = "remove_at ns k t"
  obtain v where v: "look t ns = Some v" "map_of (subs v) k = Some w"
    using p(2) by (auto simp: look_append split: option.splits)
  then have lv: "\<not> leaf v" by (cases v) auto
  have meta: "length (meta_text n u t) < 2 ^ 31"
    using d by (simp add: drive_def)
  have "data_ok u kMetadataFp (meta_text n u t)"
    using drive_data_ok [OF d] meta by simp
  moreover have "\<forall>i \<in> set (ids w). data_ok u (int_str i) []"
    using drive_data_ok [OF d] good_ids [OF look_good [OF driveD(6) [OF d] p(2)]] by simp
  ultimately obtain r st' nd' where D: "HandleDelete hn (hd_fuel hn) (int kMaxAttempt) False (fp_of (ns @ [k])) invalid_request st nd1 =
      Some (Inr (r, st'), nd')" "resp_status r = SUCCESS" "serving nd'" "member nd' = member nd1" "stored (nval nd' u) u n ?t"
    "cleans u (files w) (nval nd1) (nval nd')"
    using sized_node.delete_loaded [OF hn driveD(1,2) [OF d1(1)] st p(1) v _ _ fuel, of "int kMaxAttempt" False invalid_request] by auto
  have run: "HandleRequest hn type (Delete_req (fp_of (ns @ [k]))) st nd1 = Some (Inr (r, st'), nd')"
    using D(1) type by (auto simp: HandleRequest_def)
  have "length (meta_text n u ?t) < 2 ^ 31"
    using meta tlen_remove_at [OF driveD(6) [OF d] v(1) lv, of "1 + length u" k] by (simp add: length_meta_text)
  then have "drive nd' u n ?t"
    using d1 D(3-5) by (simp add: drive_def)
  moreover have "shown nd' u ?t = erase (ns @ [k]) (shown nd u t)"
  proof -
    have "nval nd' u (int_str j) = nval nd u (int_str j)" if j: "j \<in> set (ids ?t)" for j
    proof -
      note S = sound_remove [OF driveD(4) [OF d] v]
      have nn: "0 \<le> j" "\<forall>i \<in> set (files w). 0 \<le> i"
        using good_ids [OF _ j] S(1) files_nonneg [OF look_good [OF driveD(6) [OF d] p(2)]]
        by (auto simp: sound_tree_def wf_tree_def)
      have "j \<notin> set (files w)"
        using S(2) files_ids [of w] j by blast
      then have "int_str j \<notin> int_str ` set (files w)"
        using nn int_str_inj by auto
      then show ?thesis
        using D(6) d1(2) nn(1) by (simp add: cleans_def)
    qed
    then have "fview (nval nd' u) ?t = fview (nval nd u) ?t"
      by (rule fview_cong)
    then show ?thesis
      using fview_remove_at [OF v(1) lv] by (simp add: shown_def erase_def)
  qed
  moreover have "\<forall>w. w \<noteq> u \<longrightarrow> nval nd' w = nval nd w" "\<forall>i \<in> set (files w). nval nd' u (int_str i) = []"
    using D(6) d1(2) by (simp_all add: fun_eq_iff cleans_def)
  ultimately show "\<exists>r st' nd'. HandleRequest hn type (Delete_req (fp_of (ns @ [k]))) st nd1 = Some (Inr (r, st'), nd') \<and>
    resp_status r = SUCCESS \<and> drive nd' u n (remove_at ns k t) \<and> shown nd' u (remove_at ns k t) = erase (ns @ [k]) (shown nd u t) \<and>
    (\<forall>i \<in> set (files w). nval nd' u (int_str i) = []) \<and> (\<forall>w. w \<noteq> u \<longrightarrow> nval nd' w = nval nd w)"
    using run D(2) by blast
qed

section \<open>Renaming and moving\<close>

text \<open>An entry that is put elsewhere: what the user sees, and that only the metadata has changed.\<close>

lemma relinked_drive:
  assumes d: "drive nd u n t" and nd': "serving nd'" "member nd' = member nd" "nval nd' = set_val u kMetadataFp m (nval nd)"
    and st: "stored (nval nd' u) u n (add_at ms k' w (remove_at ns k t))"
      "length (meta_text n u (add_at ms k' w (remove_at ns k t))) < 2 ^ 31"
    and v: "look t ns = Some v" "map_of (subs v) k = Some w"
    and x: "look t ms = Some x" "\<not> leaf x" "\<not> (\<exists>ls. ms = (ns @ [k]) @ ls)" "map_of (subs x) k' = None \<or> ms = ns \<and> k' = k"
  shows "drive nd' u n (add_at ms k' w (remove_at ns k t)) \<and> shown nd' u (add_at ms k' w (remove_at ns k t)) = relocate (ns @ [k]) (ms @ [k']) (shown nd u t)"
    "\<forall>y. y \<noteq> u \<longrightarrow> nval nd' y = nval nd y"
proof -
  let ?r = "remove_at ns k t" and ?t = "add_at ms k' w (remove_at ns k t)"
  have lv: "\<not> leaf v" using v(2) by (cases v) auto
  obtain x' where x': "look ?r ms = Some x'" "\<not> leaf x'" "map_of (subs x') k' = None"
    using look_remove_at [OF v(1) lv x(1,3), of k'] x(2,4) by auto
  have "drive nd' u n ?t"
    using d nd' st by (simp add: drive_def)
  moreover have "shown nd' u ?t = relocate (ns @ [k]) (ms @ [k']) (shown nd u t)"
  proof -
    have "fview (nval nd' u) ?t = fview (nval nd u) ?t"
    proof (rule fview_cong)
      fix i assume "i \<in> set (ids ?t)"
      then have "0 \<le> i"
        using good_ids st(1) by (auto simp: stored_def sound_tree_def wf_tree_def)
      then show "nval nd' u (int_str i) = nval nd u (int_str i)"
        using nd'(3) by (simp add: set_val_def)
    qed
    moreover have "fview (nval nd u) w = (\<lambda>ls. fview (nval nd u) t ((ns @ [k]) @ ls))"
      using v by (simp add: fun_eq_iff fview_def look_append)
    ultimately show ?thesis
      using fview_add_at [OF x', of "nval nd u" w] fview_remove_at [OF v(1) lv, of "nval nd u" k]
      by (simp add: shown_def relocate_def erase_def)
  qed
  ultimately show "drive nd' u n (add_at ms k' w (remove_at ns k t)) \<and> shown nd' u (add_at ms k' w (remove_at ns k t)) = relocate (ns @ [k]) (ms @ [k']) (shown nd u t)"
    by blast
  show "\<forall>y. y \<noteq> u \<longrightarrow> nval nd' y = nval nd y"
    using nd'(3) by (simp add: set_val_def)
qed

lemma rename_drive:
  assumes d: "drive nd u n t" and hn: "serves hn (node_link e) u" and type: "type = FILE_RENAME \<or> type = DIR_RENAME"
    and p: "list_all entry_name (ns @ [k])" "look t (ns @ [k]) = Some w" and k': "entry_name k'" "k' = k \<or> look t (ns @ [k']) = None"
    and ok: "length (meta_text n u (add_at ns k' w (remove_at ns k t))) < 2 ^ 31"
  shows "\<exists>r nd'. with_handler hn type (Rename_req (fp_of (ns @ [k])) k') nd = Some (Inr r, nd') \<and> resp_status r = SUCCESS \<and>
    drive nd' u n (add_at ns k' w (remove_at ns k t)) \<and> shown nd' u (add_at ns k' w (remove_at ns k t)) = relocate (ns @ [k]) (ns @ [k']) (shown nd u t) \<and>
    (\<forall>w. w \<noteq> u \<longrightarrow> nval nd' w = nval nd w)"
proof (rule request_drive [OF d hn])
  fix st nd1
  assume st: "loaded st u n t (nval nd1 u kMetadataFp)" and d1: "drive nd1 u n t" "nval nd1 = nval nd"
  obtain v where v: "look t ns = Some v" "map_of (subs v) k = Some w"
    using p(2) by (auto simp: look_append split: option.splits)
  then have lv: "\<not> leaf v" by (cases v) auto
  have k'v: "map_of (subs v) k' = None \<or> ns = ns \<and> k' = k"
    using k'(2) v(1) by (auto simp: look_append split: option.splits)
  have "data_ok u kMetadataFp (meta_text n u (add_at ns k' w (remove_at ns k t)))"
    using drive_data_ok [OF d] ok by simp
  from sized_node.rename_loaded [OF driveD(1,2) [OF d1(1)] st hn p k' this, of kMaxAttempt invalid_request]
  obtain r st' nd' m where D: "HandleRename hn (Suc kMaxAttempt) (fp_of (ns @ [k])) k' invalid_request st nd1 = Some (Inr (r, st'), nd')"
    "resp_status r = SUCCESS" "serving nd'" "member nd' = member nd1" "stored (nval nd' u) u n (add_at ns k' w (remove_at ns k t))"
    "nval nd' = set_val u kMetadataFp m (nval nd1)"
    by blast
  have "HandleRequest hn type (Rename_req (fp_of (ns @ [k])) k') st nd1 = Some (Inr (r, st'), nd')"
    using D(1) type by (auto simp: HandleRequest_def)
  moreover note relinked_drive [OF d1(1) D(3,4,6,5) ok v v(1) lv _ k'v]
  ultimately show "\<exists>r st' nd'. HandleRequest hn type (Rename_req (fp_of (ns @ [k])) k') st nd1 = Some (Inr (r, st'), nd') \<and>
    resp_status r = SUCCESS \<and> drive nd' u n (add_at ns k' w (remove_at ns k t)) \<and> shown nd' u (add_at ns k' w (remove_at ns k t)) = relocate (ns @ [k]) (ns @ [k']) (shown nd u t) \<and>
    (\<forall>w. w \<noteq> u \<longrightarrow> nval nd' w = nval nd w)"
    using D(2) d1(2) by (simp add: shown_def)
qed

lemma move_drive:
  assumes d: "drive nd u n t" and hn: "serves hn (node_link e) u" and type: "type = FILE_MOVE \<or> type = DIR_MOVE"
    and p: "list_all entry_name (ns @ [k])" "look t (ns @ [k]) = Some w"
    and x: "list_all entry_name ms" "look t ms = Some x" "\<not> leaf x" "\<not> (\<exists>ls. ms = (ns @ [k]) @ ls)" "look t (ms @ [k]) = None"
    and ok: "length (meta_text n u (add_at ms k w (remove_at ns k t))) < 2 ^ 31"
  shows "\<exists>r nd'. with_handler hn type (Move_req (fp_of (ns @ [k])) (dir_path ms)) nd = Some (Inr r, nd') \<and> resp_status r = SUCCESS \<and>
    drive nd' u n (add_at ms k w (remove_at ns k t)) \<and> shown nd' u (add_at ms k w (remove_at ns k t)) = relocate (ns @ [k]) (ms @ [k]) (shown nd u t) \<and>
    (\<forall>w. w \<noteq> u \<longrightarrow> nval nd' w = nval nd w)"
proof (rule request_drive [OF d hn])
  fix st nd1
  assume st: "loaded st u n t (nval nd1 u kMetadataFp)" and d1: "drive nd1 u n t" "nval nd1 = nval nd"
  obtain v where v: "look t ns = Some v" "map_of (subs v) k = Some w"
    using p(2) by (auto simp: look_append split: option.splits)
  have kx: "map_of (subs x) k = None \<or> ms = ns \<and> k = k"
    using x(2,5) by (auto simp: look_append split: option.splits)
  have "data_ok u kMetadataFp (meta_text n u (add_at ms k w (remove_at ns k t)))"
    using drive_data_ok [OF d] ok by simp
  from sized_node.move_loaded [OF driveD(1,2) [OF d1(1)] st hn p x this, of kMaxAttempt invalid_request]
  obtain r st' nd' m where D: "HandleMove hn (Suc kMaxAttempt) (fp_of (ns @ [k])) (dir_path ms) invalid_request st nd1 = Some (Inr (r, st'), nd')"
    "resp_status r = SUCCESS" "serving nd'" "member nd' = member nd1" "stored (nval nd' u) u n (add_at ms k w (remove_at ns k t))"
    "nval nd' = set_val u kMetadataFp m (nval nd1)"
    by blast
  have "HandleRequest hn type (Move_req (fp_of (ns @ [k])) (dir_path ms)) st nd1 = Some (Inr (r, st'), nd')"
    using D(1) type by (auto simp: HandleRequest_def)
  moreover note relinked_drive [OF d1(1) D(3,4,6,5) ok v x(2-4) kx]
  ultimately show "\<exists>r st' nd'. HandleRequest hn type (Move_req (fp_of (ns @ [k])) (dir_path ms)) st nd1 = Some (Inr (r, st'), nd') \<and>
    resp_status r = SUCCESS \<and> drive nd' u n (add_at ms k w (remove_at ns k t)) \<and> shown nd' u (add_at ms k w (remove_at ns k t)) = relocate (ns @ [k]) (ms @ [k]) (shown nd u t) \<and>
    (\<forall>w. w \<noteq> u \<longrightarrow> nval nd' w = nval nd w)"
    using D(2) d1(2) by (simp add: shown_def)
qed

section \<open>Reading, and requests that are refused\<close>

text \<open>What such a request leaves behind.\<close>

definition same_drive :: "node \<Rightarrow> node \<Rightarrow> string \<Rightarrow> int \<Rightarrow> ftree \<Rightarrow> bool" where
  "same_drive nd nd' u n t \<longleftrightarrow> drive nd' u n t \<and> nval nd' = nval nd"

lemma download_drive:
  assumes d: "drive nd u n t" and hn: "serves hn (node_link e) u"
    and p: "list_all entry_name (ns @ [k])" "shown nd u t (ns @ [k]) = Some (Doc c)" "c \<noteq> []"
  shows "\<exists>r nd'. download_file hn (fp_of (ns @ [k])) nd = Some (Inr r, nd') \<and> resp_status r = SUCCESS \<and> sv_body r = File_download c \<and>
    same_drive nd nd' u n t"
  unfolding download_file_def
proof (rule request_drive [OF d hn])
  fix st nd1
  assume st: "loaded st u n t (nval nd1 u kMetadataFp)" and d1: "drive nd1 u n t" "nval nd1 = nval nd"
  obtain i where i: "look t (ns @ [k]) = Some (FFile i)" "nval nd1 u (int_str i) = c"
    using p(2) d1(2) by (auto simp: shown_def fview_def fcontent_def split: if_splits elim: leaf.elims)
  have "0 \<le> i"
    using look_good [OF driveD(6) [OF d] i(1)] by simp
  then have "data_ok u (int_str i) []"
    using drive_data_ok [OF d] by simp
  from sized_node.download_loaded [OF driveD(1) [OF d1(1)] st hn p(1) i(1) this, of invalid_request]
  obtain r nd' where "HandleFileDownload hn (fp_of (ns @ [k])) invalid_request st nd1 = Some (Inr (r, st), nd')" "resp_status r = SUCCESS"
    "sv_body r = File_download c" "serving nd'" "member nd' = member nd1" "nval nd' = nval nd1"
    using i(2) p(3) by auto
  then show "\<exists>r st' nd'. HandleRequest hn FILE_DOWNLOAD (File_download_req (fp_of (ns @ [k]))) st nd1 = Some (Inr (r, st'), nd') \<and>
    resp_status r = SUCCESS \<and> sv_body r = File_download c \<and> same_drive nd nd' u n t"
    using d1 by (auto simp: HandleRequest_def same_drive_def drive_def)
qed

lemma query_drive:
  assumes d: "drive nd u n t" and hn: "serves hn (node_link e) u" and p: "list_all entry_name ns" "look t ns = Some v" "\<not> leaf v"
  shows "\<exists>r nd' xs. query_dir hn (dir_path ns) nd = Some (Inr r, nd') \<and> resp_status r = SUCCESS \<and>
    sv_body r = Dir_info (path_text u ns) xs \<and> mset xs = mset (listing u ns (subs v)) \<and> same_drive nd nd' u n t"
proof -
  have "\<exists>r nd'. with_handler hn DIR_QUERY (Dir_create_or_query_req (dir_path ns)) nd = Some (Inr r, nd') \<and> (resp_status r = SUCCESS \<and>
    (\<exists>xs. sv_body r = Dir_info (path_text u ns) xs \<and> mset xs = mset (listing u ns (subs v))) \<and> same_drive nd nd' u n t)"
  proof (rule request_drive [OF d hn])
    fix st nd1
    assume st: "loaded st u n t (nval nd1 u kMetadataFp)" and d1: "drive nd1 u n t" "nval nd1 = nval nd"
    let ?q = "Dir_create_or_query_req (dir_path ns)"
    have "create_path ?q = dir_path ns"
      by (simp add: create_path_def)
    from sized_node.query_loaded [OF st hn p this, of kMaxAttempt invalid_request]
    show "\<exists>r st' nd'. HandleRequest hn DIR_QUERY ?q st nd1 = Some (Inr (r, st'), nd') \<and> (resp_status r = SUCCESS \<and>
      (\<exists>xs. sv_body r = Dir_info (path_text u ns) xs \<and> mset xs = mset (listing u ns (subs v))) \<and> same_drive nd nd' u n t)"
      using d1 unfolding HandleRequest_def same_drive_def by (simp del: HandleCreationAndQuery.simps) blast
  qed
  then show ?thesis
    unfolding query_dir_def create_or_query_dir_def by blast
qed

text \<open>A request for a path that is not there, or for a new entry that cannot be made: the answer is \<open>FAIL\<close>, and nothing changes.\<close>

definition refuses :: "storage_type \<Rightarrow> storage_request \<Rightarrow> string list \<Rightarrow> string \<Rightarrow> ftree \<Rightarrow> bool" where
  "refuses type req ns k t \<longleftrightarrow>
     needs_entry type req (fp_of (ns @ [k])) \<and> look t (ns @ [k]) = None \<or>
     creates type req (fp_of (ns @ [k])) \<and> (look t ns = None \<or> look t (ns @ [k]) \<noteq> None)"

lemma refused_drive:
  assumes d: "drive nd u n t" and hn: "serves hn (node_link e) u" "0 < hd_fuel hn"
    and p: "list_all entry_name (ns @ [k])" "refuses type req ns k t"
  shows "\<exists>r nd'. with_handler hn type req nd = Some (Inr r, nd') \<and> resp_status r = FAIL \<and> same_drive nd nd' u n t"
proof (rule request_drive [OF d hn(1)])
  fix st nd1
  assume st: "loaded st u n t (nval nd1 u kMetadataFp)" and d1: "drive nd1 u n t" "nval nd1 = nval nd"
  have "\<exists>r. HandleRequest hn type req st nd1 = Some (Inr (r, st), nd1) \<and> resp_status r = FAIL"
    using p(2) unfolding refuses_def
  proof (elim disjE conjE)
    assume "needs_entry type req (fp_of (ns @ [k]))" "look t (ns @ [k]) = None"
    then show ?thesis by (rule_tac sized_node.absent_loaded [OF st p(1) _ _ hn(2)])
  next
    assume c: "creates type req (fp_of (ns @ [k]))"
    show ?thesis if "look t ns = None"
      by (rule sized_node.refused_loaded [OF st p(1) disjI1 [OF that] c])
    show ?thesis if "look t (ns @ [k]) \<noteq> None"
      by (rule sized_node.refused_loaded [OF st p(1) disjI2 [OF that] c])
  qed
  then show "\<exists>r st' nd'. HandleRequest hn type req st nd1 = Some (Inr (r, st'), nd') \<and> resp_status r = FAIL \<and> same_drive nd nd' u n t"
    using d1 unfolding same_drive_def by blast
qed

section \<open>New users, and drives for the examples\<close>

lemma int_str_one: "int_str 1 = ''1''"
  by code_simp

lemma meta_text_new: "meta_text 1 u (FDir 1 []) = ''Latest ID: 1'' @ [nl] @ ''Root folder: /'' @ u @ '' ID 1 Items 0'' @ [nl]"
proof -
  have "nat_str 0 = ''0''"
    by code_simp
  then show ?thesis
    by (simp add: int_str_one meta_text_def latest_text_def folder_text_def title_text_def entries_text_def)
qed

lemma arrange_id: "arrange (\<lambda>_ es. es) t = t" "reorders (\<lambda>_ es. es)"
proof -
  show "arrange (\<lambda>_ es. es) t = t"
    by (induction t rule: tree_induct) (auto intro: map_idI)
qed (simp add: reorders_def)

lemma put_drive:
  assumes "serving nd" "member nd u" "entry_name u" "u \<noteq> ''logging''" "sound_tree n t" "length (meta_text n u t) < 2 ^ 31"
  shows "\<exists>nd'. kv_puts (node_link e) u kMetadataFp (meta_text n u t) nd = (0, nd') \<and> drive nd' u n t \<and>
    nval nd' = set_val u kMetadataFp (meta_text n u t) (nval nd)"
proof -
  have "data_ok u kMetadataFp (meta_text n u t)"
    using assms kMetadataFp_token by (simp add: data_ok_def entry_token)
  from kv_node.puts_law [OF assms(1,2) this] obtain nd' where nd': "kv_puts (node_link e) u kMetadataFp (meta_text n u t) nd = (0, nd')"
    "serving nd'" "nval nd' = set_val u kMetadataFp (meta_text n u t) (nval nd)" "member nd' = member nd"
    by auto
  have "stored (nval nd' u) u n t"
    unfolding stored_def using nd'(3) assms(5) arrange_id(1) [of t] arrange_id(2) by (intro conjI exI [of _ "\<lambda>_ es. es"]) simp_all
  then show ?thesis
    using nd' assms by (simp add: drive_def)
qed

lemma new_drive:
  assumes "route u = Some (node_link e)" "serving nd" "member nd u" "entry_name u" "u \<noteq> ''logging''" "length u < 2 ^ 30"
  shows "\<exists>nd'. initialize_usr route u nd = (True, nd') \<and> drive nd' u 1 (FDir 1 []) \<and> shown nd' u (FDir 1 []) = single Folder \<and>
    (\<forall>w. w \<noteq> u \<longrightarrow> nval nd' w = nval nd w)"
proof -
  have "sound_tree 1 (FDir 1 [])" "length (meta_text 1 u (FDir 1 [])) < 2 ^ 31"
    using assms(6) by (simp_all add: sound_tree_def wf_tree_def meta_text_new)
  from put_drive [OF assms(2-5) this] obtain nd' where nd': "kv_puts (node_link e) u kMetadataFp (meta_text 1 u (FDir 1 [])) nd = (0, nd')"
    "drive nd' u 1 (FDir 1 [])" "nval nd' = set_val u kMetadataFp (meta_text 1 u (FDir 1 [])) (nval nd)"
    by blast
  have "initialize_usr route u nd = (True, nd')"
    using nd'(1) unfolding meta_text_new kMetadataFp_def by (simp add: initialize_usr_def assms(1))
  then show ?thesis
    using nd'(2,3) by (simp add: shown_def fview_single set_val_def)
qed

lemma shown_folder: "shown nd u t p = Some Folder \<longleftrightarrow> (\<exists>v. look t p = Some v \<and> \<not> leaf v)"
  by (auto simp: shown_def fview_def fcontent_def)

lemma shown_None: "shown nd u t p = None \<longleftrightarrow> look t p = None"
  by (simp add: shown_def fview_def)

definition example_handler :: "(kv_command + kv_ret, node) handler" where
  "example_handler = \<lparr>hd_iter = rev, hd_link = node_link example_env, hd_usr = ''amy'', hd_fd = 5, hd_fuel = 100\<rparr>"

definition example_tree :: ftree where
  "example_tree = FDir 1 [(''a'', FDir 2 [(''f.txt'', FFile 3), (''b'', FDir 4 [])]), (''c'', FDir 5 [])]"

lemmas entry_name_defs = entry_name_def name_char_def alpha_def is_digit_def

lemma example_serves: "serves example_handler (node_link example_env) ''amy''" "hd_fuel example_handler = 100"
  by (simp_all add: serves_def example_handler_def iter_ok_def entry_name_defs)

lemma example_drive:
  assumes "sound_tree n t" "length (meta_text n ''amy'' t) < 2 ^ 31"
  shows "\<exists>nd. drive nd ''amy'' n t"
proof -
  have "member (example_node True 1) ''amy''" "entry_name ''amy''"
    by (simp_all add: entry_name_defs)
  then show ?thesis
    using put_drive [OF example_serving _ _ _ assms] by fastforce
qed

lemma example_tree_drive: "\<exists>nd. drive nd ''amy'' 5 example_tree"
proof (rule example_drive)
  show "sound_tree 5 example_tree"
    by (simp add: example_tree_def sound_tree_def wf_tree_def entry_name_defs)
  have "length (meta_text 5 ''amy'' example_tree) = 170"
    by code_simp
  then show "length (meta_text 5 ''amy'' example_tree) < 2 ^ 31"
    by simp
qed

section \<open>Properties\<close>

text \<open>
  C6. The metadata survives the store.  The text that a handler prints for the tree its objects represent, whatever the order in
  which it visits them, is read by another handler as the same tree, with the same root, names, kinds, identifiers and latest
  identifier.
\<close>

theorem metadata_roundtrip:
  assumes "rep_root shuffled (s_heap st) u t" "wf_tree t" "s_root st = Some (tid t)" "entry_name u"
    "0 \<le> s_latest st" "s_latest st < 2 ^ 31" "iter_ok iter"
  shows "\<exists>m st'. GetMetadataStr iter st = Some (Inr m) \<and> ParseMetadataFile (new_storage\<lparr>s_meta := m\<rparr>) = Inr (True, st') \<and>
    rep_root shuffled (s_heap st') u t \<and> s_root st' = s_root st \<and> s_latest st' = s_latest st"
proof -
  obtain ord where ord: "reorders ord" "GetMetadataStr iter st = Some (Inr (meta_text (s_latest st) u (arrange ord t)))"
    using printed_text [OF assms(7,1,2,3)] by blast
  let ?m = "meta_text (s_latest st) u (arrange ord t)"
  have "wf_tree (arrange ord t)" "s_heap (new_storage\<lparr>s_meta := ?m\<rparr>) = []"
    using ord(1) assms(2) by (simp_all add: new_storage_def)
  from parse_meta_text [OF this(1) assms(4-6) this(2)] show ?thesis
    using ord assms(3) by (auto simp: ParseMetadataFile_def)
qed

theorem metadata_roundtrip_witness:
  "\<exists>m st'. GetMetadataStr rev \<lparr>s_heap = [(1, \<lparr>d_path = ''amy'', d_file = False, d_parent = None, d_root = True,
        d_entries = [(''a'', Some 2)]\<rparr>), (2, \<lparr>d_path = ''a'', d_file = True, d_parent = Some 1, d_root = False, d_entries = []\<rparr>)],
      s_root = Some 1, s_latest = 2, s_meta = []\<rparr> = Some (Inr m) \<and>
    ParseMetadataFile (new_storage\<lparr>s_meta := m\<rparr>) = Inr (True, st') \<and> s_root st' = Some 1 \<and> s_latest st' = 2"
proof -
  let ?st = "\<lparr>s_heap = [(1, \<lparr>d_path = ''amy'', d_file = False, d_parent = None, d_root = True,
        d_entries = [(''a'', Some 2)]\<rparr>), (2, \<lparr>d_path = ''a'', d_file = True, d_parent = Some 1, d_root = False, d_entries = []\<rparr>)],
      s_root = Some 1, s_latest = 2, s_meta = []\<rparr>"
  let ?t = "FDir 1 [(''a'', FFile 2)]"
  have "rep_root shuffled (s_heap ?st) ''amy'' ?t" "wf_tree ?t" "entry_name ''amy''" "iter_ok rev"
    by (simp_all add: rep_root_def shuffled_def entries_of_def wf_tree_def entry_name_defs iter_ok_def)
  then show ?thesis
    using metadata_roundtrip [of ?st "''amy''" ?t rev] by auto
qed

text \<open>
  A new user has an empty drive.  What \<open>initialize_usr\<close> stores for a user whose name has only the characters that
  the metadata can hold is the metadata of a root folder without entries, and the drives of the others stay as they are.
\<close>

lemma new_user_has_empty_drive:
  assumes "route u = Some (node_link e)" "serving nd" "member nd u" "entry_name u" "u \<noteq> ''logging''" "length u < 2 ^ 30"
  shows "\<exists>nd'. initialize_usr route u nd = (True, nd') \<and> drive nd' u 1 (FDir 1 []) \<and> shown nd' u (FDir 1 []) = single Folder \<and>
    (\<forall>w. w \<noteq> u \<longrightarrow> nval nd' w = nval nd w)"
  using new_drive [where route = route, OF assms] .

text \<open>
  An uploaded file can be downloaded.  Uploading a new file into a folder that exists succeeds; a later request of
  the same user over any connection downloads exactly the bytes of the file; every other path shows what it showed before, and
  other users' data is untouched.
\<close>

lemma uploaded_file_is_downloaded:
  assumes d: "drive nd u n t" and hn: "serves hn (node_link e) u" "serves hn' (node_link e') u"
    and p: "list_all entry_name (ns @ [k])" "shown nd u t ns = Some Folder" "shown nd u t (ns @ [k]) = None"
    and c: "c \<noteq> []" "length c < 2 ^ 31" and n: "n + 1 < 2 ^ 31" "length (meta_text (n + 1) u (add_at ns k (FFile (n + 1)) t)) < 2 ^ 31"
  shows "\<exists>r1 nd1 r2 nd2 t'. upload_file hn (fp_of (ns @ [k])) c nd = Some (Inr r1, nd1) \<and> resp_status r1 = SUCCESS \<and>
    download_file hn' (fp_of (ns @ [k])) nd1 = Some (Inr r2, nd2) \<and> resp_status r2 = SUCCESS \<and> sv_body r2 = File_download c \<and>
    drive nd2 u (n + 1) t' \<and> shown nd2 u t' = place (ns @ [k]) (Doc c) (shown nd u t) \<and> (\<forall>w. w \<noteq> u \<longrightarrow> nval nd2 w = nval nd w)"
proof -
  obtain r1 nd1 t' where U: "upload_file hn (fp_of (ns @ [k])) c nd = Some (Inr r1, nd1)" "resp_status r1 = SUCCESS" "drive nd1 u (n + 1) t'"
    "shown nd1 u t' = place (ns @ [k]) (Doc c) (shown nd u t)" "\<forall>w. w \<noteq> u \<longrightarrow> nval nd1 w = nval nd w"
    using upload_drive [OF d hn(1) path_to_fp p c(2) n] by blast
  have "shown nd1 u t' (ns @ [k]) = Some (Doc c)"
    using U(4) by (simp add: place_def graft_def single_def)
  from download_drive [OF U(3) hn(2) p(1) this c(1)] show ?thesis
    using U by (auto simp: same_drive_def shown_def)
qed

text \<open>
  A new folder appears.  Creating a folder in a folder that exists, under a name that is not taken, succeeds; the new path
  shows a folder, everything else shows what it showed before, and a query of the new folder answers its full path and no entries.
\<close>

lemma created_folder_appears:
  assumes d: "drive nd u n t" and hn: "serves hn (node_link e) u" "serves hn' (node_link e') u"
    and p: "list_all entry_name (ns @ [k])" "shown nd u t ns = Some Folder" "shown nd u t (ns @ [k]) = None"
    and n: "n + 1 < 2 ^ 31" "length (meta_text (n + 1) u (add_at ns k (FDir (n + 1) []) t)) < 2 ^ 31"
  shows "\<exists>r1 nd1 r2 nd2 t'. create_dir_at hn (fp_of (ns @ [k])) nd = Some (Inr r1, nd1) \<and> resp_status r1 = SUCCESS \<and>
    query_dir hn' (fp_of (ns @ [k])) nd1 = Some (Inr r2, nd2) \<and> resp_status r2 = SUCCESS \<and>
    sv_body r2 = Dir_info (path_text u (ns @ [k])) [] \<and> drive nd2 u (n + 1) t' \<and>
    shown nd2 u t' = place (ns @ [k]) Folder (shown nd u t) \<and> (\<forall>w. w \<noteq> u \<longrightarrow> nval nd2 w = nval nd w)"
proof -
  let ?q = "Dir_create_or_query_req (fp_of (ns @ [k]))"
  have q: "creates DIR_CREATE ?q (fp_of (ns @ [k]))" "upload_content ?q = []"
    by (simp_all add: creates_def upload_content_def)
  obtain v where v: "look t ns = Some v" "\<not> leaf v" "look t (ns @ [k]) = None"
    using p(2,3) by (auto simp: shown_folder shown_None)
  obtain r1 nd1 t' where U: "with_handler hn DIR_CREATE ?q nd = Some (Inr r1, nd1)" "resp_status r1 = SUCCESS" "drive nd1 u (n + 1) t'"
    "shown nd1 u t' = place (ns @ [k]) Folder (shown nd u t)" "\<forall>w. w \<noteq> u \<longrightarrow> nval nd1 w = nval nd w"
    using creation_drive [OF d hn(1) q(1) path_to_fp p(1) v n(1)] q(2) n(2) by (auto simp: fresh_node_def)
  have at: "shown nd1 u t' ((ns @ [k]) @ ms) = (if ms = [] then Some Folder else None)" for ms
    unfolding U(4) by (simp add: place_def graft_def single_def)
  obtain w where w: "look t' (ns @ [k]) = Some w" "\<not> leaf w"
    using at [of "[]"] by (auto simp: shown_folder)
  have "subs w = []"
  proof (rule ccontr)
    assume "subs w \<noteq> []"
    then obtain c x where "(c, x) \<in> set (subs w)"
      by (cases "subs w") auto
    from look_entry [OF driveD(5) [OF U(3)] w(1) this] have "shown nd1 u t' ((ns @ [k]) @ [c]) \<noteq> None"
      by (simp add: shown_None)
    then show False using at [of "[c]"] by simp
  qed
  then show ?thesis
    using query_drive [OF U(3) hn(2) p(1) w] U
    by (auto simp: create_dir_at_def create_or_query_dir_def same_drive_def shown_def listing_def dir_path_def)
qed

text \<open>
  The listing of a folder is complete.  A query of a folder succeeds, changes nothing, and answers its full path with
  one entry for every path directly below it, in some order: the full path of the entry and whether it is a folder.
\<close>

lemma folder_listing_is_complete:
  assumes d: "drive nd u n t" and hn: "serves hn (node_link e) u" and p: "list_all entry_name ns" "shown nd u t ns = Some Folder"
  shows "\<exists>r nd' xs. query_dir hn (dir_path ns) nd = Some (Inr r, nd') \<and> resp_status r = SUCCESS \<and>
    sv_body r = Dir_info (path_text u ns) xs \<and> distinct xs \<and>
    set xs = {(path_text u (ns @ [k]), shown nd u t (ns @ [k]) = Some Folder) | k. shown nd u t (ns @ [k]) \<noteq> None} \<and>
    nval nd' = nval nd"
proof -
  obtain v where v: "look t ns = Some v" "\<not> leaf v"
    using p(2) by (auto simp: shown_folder)
  have names: "distinct (map fst (subs v))"
    using good_names [OF look_good [OF driveD(6) [OF d] v(1)]] .
  obtain r nd' xs where Q: "query_dir hn (dir_path ns) nd = Some (Inr r, nd')" "resp_status r = SUCCESS"
    "sv_body r = Dir_info (path_text u ns) xs" "mset xs = mset (listing u ns (subs v))" "same_drive nd nd' u n t"
    using query_drive [OF d hn p(1) v] by blast
  have at: "look t (ns @ [k]) = map_of (subs v) k" for k
    using v(1) by (simp add: look_append split: option.splits)
  have "set xs = set (listing u ns (subs v))"
    using Q(4) by (rule mset_eq_setD)
  also have "\<dots> = {(path_text u (ns @ [k]), \<not> leaf w) | k w. map_of (subs v) k = Some w}"
    using names by (auto simp: listing_def)
  also have "\<dots> = {(path_text u (ns @ [k]), shown nd u t (ns @ [k]) = Some Folder) | k. shown nd u t (ns @ [k]) \<noteq> None}"
    by (auto simp: shown_folder shown_None at; metis)
  finally have "set xs = \<dots>" .
  moreover have "inj_on (\<lambda>(k, x). (path_text u (ns @ [k]), \<not> leaf x)) (set (subs v))"
    using names by (auto simp: inj_on_def path_text_def dest: eq_key_imp_eq_value)
  then have "distinct (listing u ns (subs v))"
    using names by (simp add: listing_def distinct_map)
  then have "distinct xs"
    using Q(4) by (metis mset_eq_imp_distinct_iff)
  ultimately show ?thesis
    using Q by (auto simp: same_drive_def)
qed

text \<open>
  Deleting removes the whole subtree.  Deleting a file, or a folder with everything below it, succeeds; afterwards nothing is
  shown at or below the path, the contents of every file below it are gone from the store, every other path shows what it showed before, and
  other users' data is untouched.  The recursion is never deeper than there are entries to remove.
\<close>

lemma delete_removes_subtree:
  assumes d: "drive nd u n t" and hn: "serves hn (node_link e) u" and p: "list_all entry_name (ns @ [k])" "look t (ns @ [k]) = Some w"
    and fuel: "length (ids w) \<le> hd_fuel hn" and del: "del = delete_file \<or> del = delete_dir"
  shows "\<exists>r nd' t'. del hn (fp_of (ns @ [k])) nd = Some (Inr r, nd') \<and> resp_status r = SUCCESS \<and> drive nd' u n t' \<and>
    shown nd' u t' = erase (ns @ [k]) (shown nd u t) \<and> (\<forall>i \<in> set (files w). nval nd' u (int_str i) = []) \<and>
    (\<forall>w. w \<noteq> u \<longrightarrow> nval nd' w = nval nd w)"
  using delete_drive [OF d hn _ p fuel, of FILE_DELE] delete_drive [OF d hn _ p fuel, of DIR_DELE] del
  unfolding delete_file_def [abs_def] delete_dir_def [abs_def] delete_file_or_dir_def by blast

text \<open>
  Renaming keeps the subtree.  Renaming a file or folder to a name that is not taken in its folder succeeds: the whole subtree is
  shown under the new name and no longer under the old one, with the same contents; everything else shows what it showed before.
\<close>

lemma rename_relocates:
  assumes d: "drive nd u n t" and hn: "serves hn (node_link e) u" and p: "list_all entry_name (ns @ [k])" "look t (ns @ [k]) = Some w"
    and k': "entry_name k'" "k' = k \<or> shown nd u t (ns @ [k']) = None"
    and ok: "length (meta_text n u (add_at ns k' w (remove_at ns k t))) < 2 ^ 31" and ren: "ren = rename_file \<or> ren = rename_dir"
  shows "\<exists>r nd' t'. ren hn (fp_of (ns @ [k])) k' nd = Some (Inr r, nd') \<and> resp_status r = SUCCESS \<and> drive nd' u n t' \<and>
    shown nd' u t' = relocate (ns @ [k]) (ns @ [k']) (shown nd u t) \<and> (\<forall>w. w \<noteq> u \<longrightarrow> nval nd' w = nval nd w)"
proof -
  have "k' = k \<or> look t (ns @ [k']) = None"
    using k'(2) by (simp add: shown_None)
  from rename_drive [OF d hn _ p k'(1) this ok, of FILE_RENAME] rename_drive [OF d hn _ p k'(1) this ok, of DIR_RENAME] ren
  show ?thesis
    unfolding rename_file_def [abs_def] rename_dir_def [abs_def] rename_file_or_dir_def by blast
qed

text \<open>
  Moving keeps the subtree.  Moving a file or folder into a folder (the root, or any other that is not the moved one or below it) where
  its name is not taken succeeds: the whole subtree is shown in the new folder and no longer in the old one, with the same contents;
  everything else shows what it showed before.
\<close>

lemma move_relocates:
  assumes d: "drive nd u n t" and hn: "serves hn (node_link e) u" and p: "list_all entry_name (ns @ [k])" "look t (ns @ [k]) = Some w"
    and x: "list_all entry_name ms" "shown nd u t ms = Some Folder" "\<not> (\<exists>ls. ms = (ns @ [k]) @ ls)" "shown nd u t (ms @ [k]) = None"
    and ok: "length (meta_text n u (add_at ms k w (remove_at ns k t))) < 2 ^ 31" and mv: "mv = Storage.move_file \<or> mv = move_dir"
  shows "\<exists>r nd' t'. mv hn (fp_of (ns @ [k])) (dir_path ms) nd = Some (Inr r, nd') \<and> resp_status r = SUCCESS \<and> drive nd' u n t' \<and>
    shown nd' u t' = relocate (ns @ [k]) (ms @ [k]) (shown nd u t) \<and> (\<forall>w. w \<noteq> u \<longrightarrow> nval nd' w = nval nd w)"
proof -
  obtain v where v: "look t ms = Some v" "\<not> leaf v" "look t (ms @ [k]) = None"
    using x(2,4) by (auto simp: shown_folder shown_None)
  from move_drive [OF d hn _ p x(1) v(1,2) x(3) v(3) ok, of FILE_MOVE] move_drive [OF d hn _ p x(1) v(1,2) x(3) v(3) ok, of DIR_MOVE] mv
  show ?thesis
    unfolding Storage.move_file_def [abs_def] move_dir_def [abs_def] move_file_or_dir_def by blast
qed

text \<open>
  C9. Impossible requests are refused.  A request for a path that is not there (to read, list, rename, move or delete it), and one to create a
  file or folder that exists or whose parent does not, is answered with \<open>FAIL\<close>; nothing in the store changes.
\<close>

theorem impossible_requests_are_refused:
  assumes "drive nd u n t" "serves hn (node_link e) u" "0 < hd_fuel hn" "list_all entry_name (ns @ [k])" "refuses type req ns k t"
  shows "\<exists>r nd'. with_handler hn type req nd = Some (Inr r, nd') \<and> resp_status r = FAIL \<and> drive nd' u n t \<and> nval nd' = nval nd"
  using refused_drive [OF assms] by (simp add: same_drive_def)

theorem impossible_requests_are_refused_witness:
  "\<exists>nd r nd'. with_handler example_handler FILE_MOVE (Move_req ''/a/x'' ''/c'') nd = Some (Inr r, nd') \<and> resp_status r = FAIL \<and>
    nval nd' = nval nd"
proof -
  obtain nd where nd: "drive nd ''amy'' 5 example_tree"
    using example_tree_drive by blast
  have "list_all entry_name ([''a''] @ [''x''])" "refuses FILE_MOVE (Move_req ''/a/x'' ''/c'') [''a''] ''x'' example_tree"
    by (simp_all add: entry_name_defs refuses_def needs_entry_def fp_of_def example_tree_def)
  then show ?thesis
    using impossible_requests_are_refused [OF nd example_serves(1)] example_serves(2) by fastforce
qed

end
