(* ===== verification/Storage_Faults.thy ===== *)
theory Storage_Faults
  imports Storage_Correct
begin

text \<open>
  Requests that the file storage service accepts although it cannot serve them: moving a folder below itself, a folder path that ends
  with a slash, renaming the root, a new file below a file, and users whose name the metadata cannot hold.
\<close>

section \<open>Moving a folder below itself\<close>

lemma move_below_rep:
  assumes R: "rep_root shuffled h usr t" and t: "wf_tree t"
    and v: "look t ns = Some v" "map_of (subs v) k = Some w"
    and x: "look t ((ns @ [k]) @ ls) = Some x"
    and lo: "lo_parent lo = Some (tid v)" "lo_dir lo = Some (tid w)" "lo_name lo = k"
  shows "\<exists>h'. move_entry lo (Some (tid x)) h = Inr h' \<and> rep_root shuffled h' usr (remove_at ns k t)"
proof -
  let ?t = "remove_at ns k t"
  have lv: "\<not> leaf v" using v(2) by (cases v) auto
  have w: "look t (ns @ [k]) = Some w"
    using v by (simp add: look_append)
  have "look w ls = Some x"
    using x w look_append [of t "ns @ [k]" ls] by simp
  then have xw: "tid x \<in> set (ids w)"
    using look_ids [of w ls x] tid_in_ids [of x] by blast
  have D: "distinct (ids t)"
    using t by (simp add: wf_tree_def)
  have "distinct (ids ?t @ ids w)"
    using wf_remove_at(2) [OF t v] D by (metis mset_append mset_eq_imp_distinct_iff)
  then have out: "set (ids w) \<inter> set (ids ?t) = {}"
    by auto
  have vw: "tid v \<notin> set (ids w)"
    using tid_fresh [OF look_distinct [OF D v(1)] map_of_SomeD [OF v(2)]] .
  obtain dw dx where d: "map_of h (tid w) = Some dw" "map_of h (tid x) = Some dx"
    using rep_object [OF R w] rep_object [OF R x] by blast
  obtain dv hR where V: "map_of h (tid v) = Some dv" "map_of hR = (map_of h)(tid v \<mapsto> DeleteEntry k dv)" "rep_root shuffled hR usr ?t"
    using remove_entry [OF R t v(1) lv, of k] by blast
  have ne: "tid w \<noteq> tid v" "tid x \<noteq> tid v"
    using vw xw tid_in_ids [of w] by metis+
  define h1 where "h1 = AList.update (tid w) (dw\<lparr>d_parent := Some (tid x)\<rparr>) h"
  define h2 where "h2 = AList.update (tid v) (DeleteEntry k dv) h1"
  obtain dx' where dx': "map_of h2 (tid x) = Some dx'"
    using d ne by (cases "tid x = tid w") (simp_all add: h2_def h1_def)
  define h3 where "h3 = AList.update (tid x) (AddEntry k (Some (tid w)) dx') h2"
  have "move_entry lo (Some (tid x)) h = Inr h3"
    using d V(1) ne lo dx' Path_look [OF R D x]
    by (simp add: move_entry_def deref_def modify_Inr h1_def [symmetric] h2_def [symmetric] h3_def [symmetric])
      (simp add: h1_def h2_def h3_def modify_Inr)
  moreover have "rep_root shuffled h3 usr ?t"
  proof (rule rep_root_frame [OF V(3)])
    fix j assume "j \<in> set (ids ?t)"
    then have "j \<noteq> tid w" "j \<noteq> tid x"
      using out xw tid_in_ids [of w] by blast+
    then show "map_of h3 j = map_of hR j"
      by (simp add: h3_def h2_def h1_def V(2))
  qed
  ultimately show ?thesis by blast
qed

lemma move_below_drive:
  assumes d: "drive nd u n t" and hn: "serves hn (node_link e) u" and type: "type = FILE_MOVE \<or> type = DIR_MOVE"
    and p: "list_all entry_name ((ns @ [k]) @ ls)" "look t (ns @ [k]) = Some w" "look t ((ns @ [k]) @ ls) = Some x"
  shows "\<exists>r nd'. with_handler hn type (Move_req (fp_of (ns @ [k])) (dir_path ((ns @ [k]) @ ls))) nd = Some (Inr r, nd') \<and>
    (resp_status r = SUCCESS \<and> (\<exists>t'. drive nd' u n t' \<and> shown nd' u t' = erase (ns @ [k]) (shown nd u t)) \<and>
     (\<forall>i. 0 \<le> i \<longrightarrow> nval nd' u (int_str i) = nval nd u (int_str i)))"
proof (rule request_drive [OF d hn])
  fix st nd1
  assume st: "loaded st u n t (nval nd1 u kMetadataFp)" and d1: "drive nd1 u n t" "nval nd1 = nval nd"
  note L = loadedD [OF st]
  let ?t = "remove_at ns k t" and ?p = "fp_of (ns @ [k])" and ?q = "dir_path ((ns @ [k]) @ ls)"
  have pk: "list_all entry_name (ns @ [k])"
    using p(1) by simp
  obtain v where v: "look t ns = Some v" "map_of (subs v) k = Some w" "\<not> leaf v" and V: "ValidatePathAndGetDir ?p st =
      Inr (\<lparr>lo_ok = True, lo_parent = Some (tid v), lo_dir = Some (tid w), lo_name = k\<rparr>, st)"
    using validate_found [OF st pk p(2)] by blast
  obtain p0 k0 where D: "ValidatePathAndGetDir ?q st = Inr (\<lparr>lo_ok = True, lo_parent = Some p0, lo_dir = Some (tid x), lo_name = k0\<rparr>, st)"
    using validate_dir [OF st p(1,3)] by blast
  obtain h where h: "move_entry \<lparr>lo_ok = True, lo_parent = Some (tid v), lo_dir = Some (tid w), lo_name = k\<rparr> (Some (tid x)) (s_heap st) = Inr h"
    "rep_root shuffled h u ?t"
    using move_below_rep [OF L(4,6) v(1,2) p(3), of "\<lparr>lo_ok = True, lo_parent = Some (tid v), lo_dir = Some (tid w), lo_name = k\<rparr>"] by auto
  define st2 where "st2 = st\<lparr>s_heap := h\<rparr>"
  have "loaded st2 u n ?t (nval nd1 u kMetadataFp)"
    using h(2) L sound_remove(1) [OF L(5) v(1,2)] tid_remove_at [OF v(1,3)] by (simp add: loaded_def st2_def)
  moreover have len: "length (meta_text n u ?t) < 2 ^ 31"
    using d tlen_remove_at [OF L(7) v(1,3), of "1 + length u" k] by (simp add: length_meta_text drive_def)
  then have "data_ok u kMetadataFp (meta_text n u ?t)"
    using drive_data_ok(1) [OF d] by simp
  ultimately obtain m nd' where m: "GetMetadataStr (hd_iter hn) st2 = Some (Inr m)"
    "WriteMetadataToKv hn st2 nd1 = Some (Inr True, nd')" "serving nd'" "nval nd' = set_val u kMetadataFp m (nval nd1)" "member nd' = member nd1"
    "stored (nval nd' u) u n ?t"
    using sized_node.write_loaded [OF driveD(1,2) [OF d1(1)] _ hn] by blast
  have hn': "hd_usr hn = u"
    using servesD [OF hn] by simp
  have "HandleMove hn (Suc kMaxAttempt) ?p ?q invalid_request st nd1 = Some (Inr (PopulateSuccessResp u invalid_request, st2\<lparr>s_meta := m\<rparr>), nd')"
    by (simp add: hn' V D h(1) with_heap_def sbind_Some [where m = "WriteMetadataToKv hn st2", OF m(2)] sbind_metadata [OF m(1)] flip: st2_def
      del: append_assoc)
  then have "HandleRequest hn type (Move_req ?p ?q) st nd1 = Some (Inr (PopulateSuccessResp u invalid_request, st2\<lparr>s_meta := m\<rparr>), nd')"
    using type by (auto simp: HandleRequest_def)
  moreover have "drive nd' u n ?t"
    using d1 m(3,5,6) len by (simp add: drive_def)
  moreover have keep: "nval nd' u (int_str i) = nval nd u (int_str i)" if "0 \<le> i" for i
    using m(4) d1(2) that by (simp add: set_val_def)
  have "fview (nval nd' u) ?t = fview (nval nd u) ?t"
    by (rule fview_cong, rule keep) (use good_ids sound_remove(1) [OF L(5) v(1,2)] in \<open>auto simp: sound_tree_def wf_tree_def\<close>)
  then have "shown nd' u ?t = erase (ns @ [k]) (shown nd u t)"
    using fview_remove_at [OF v(1,3)] by (simp add: shown_def erase_def)
  ultimately show "\<exists>r st' nd'. HandleRequest hn type (Move_req ?p ?q) st nd1 = Some (Inr (r, st'), nd') \<and> (resp_status r = SUCCESS \<and>
    (\<exists>t'. drive nd' u n t' \<and> shown nd' u t' = erase (ns @ [k]) (shown nd u t)) \<and>
    (\<forall>i. 0 \<le> i \<longrightarrow> nval nd' u (int_str i) = nval nd u (int_str i)))"
    using keep by (auto simp: PopulateSuccessResp_def resp_status_def)
qed

text \<open>
  C40. A folder that is moved below itself is lost.  Moving an entry to itself or to a place below it is answered with \<open>SUCCESS\<close>; afterwards the
  entry is neither in its old folder nor in the new one, nothing below its path is shown, and the contents of its files stay in the store
  where no request finds them.
\<close>

theorem move_below_itself_loses:
  assumes d: "drive nd u n t" and hn: "serves hn (node_link e) u" and p: "list_all entry_name ((ns @ [k]) @ ls)"
    and s: "shown nd u t ((ns @ [k]) @ ls) \<noteq> None" and mv: "mv = Storage.move_file \<or> mv = move_dir"
  shows "\<exists>r nd' t'. mv hn (fp_of (ns @ [k])) (dir_path ((ns @ [k]) @ ls)) nd = Some (Inr r, nd') \<and> resp_status r = SUCCESS \<and>
    drive nd' u n t' \<and> shown nd' u t' = erase (ns @ [k]) (shown nd u t) \<and>
    (\<forall>i. 0 \<le> i \<longrightarrow> nval nd' u (int_str i) = nval nd u (int_str i))"
proof -
  obtain w x where "look t (ns @ [k]) = Some w" "look t ((ns @ [k]) @ ls) = Some x"
    using s look_append [of t "ns @ [k]" ls] by (auto simp: shown_None simp del: append_assoc split: option.splits)
  from move_below_drive [OF d hn _ p this, of FILE_MOVE] move_below_drive [OF d hn _ p this, of DIR_MOVE] mv show ?thesis
    unfolding Storage.move_file_def [abs_def] move_dir_def [abs_def] move_file_or_dir_def by blast
qed

theorem move_below_itself_loses_witness:
  "\<exists>nd r nd' t'. move_dir example_handler ''/a'' ''/a/b'' nd = Some (Inr r, nd') \<and> resp_status r = SUCCESS \<and>
    drive nd' ''amy'' 5 t' \<and> shown nd' ''amy'' t' [''a''] = None \<and> shown nd' ''amy'' t' [''a'', ''b'', ''a''] = None"
proof -
  obtain nd where nd: "drive nd ''amy'' 5 example_tree"
    using example_tree_drive by blast
  have h: "list_all entry_name (([] @ [''a'']) @ [''b''])" "shown nd ''amy'' example_tree (([] @ [''a'']) @ [''b'']) \<noteq> None"
    unfolding shown_None by (simp_all add: entry_name_defs example_tree_def)
  have fp: "fp_of ([] @ [''a'']) = ''/a''" "dir_path (([] @ [''a'']) @ [''b'']) = ''/a/b''"
    by (simp_all add: fp_of_def dir_path_def)
  obtain r nd' t' where R: "move_dir example_handler ''/a'' ''/a/b'' nd = Some (Inr r, nd')" "resp_status r = SUCCESS" "drive nd' ''amy'' 5 t'"
    "shown nd' ''amy'' t' = erase ([] @ [''a'']) (shown nd ''amy'' example_tree)"
    using move_below_itself_loses [OF nd example_serves(1) h disjI2 [OF refl]] unfolding fp by blast
  have "shown nd' ''amy'' t' [''a''] = None" "shown nd' ''amy'' t' [''a'', ''b'', ''a''] = None"
    unfolding R(4) by (simp_all add: erase_def graft_def nothing_def)
  then show ?thesis
    using R(1-3) by blast
qed

section \<open>A folder path that ends with a slash\<close>

text \<open>Whatever a request ends with, it starts with a handler that has read the metadata.\<close>

lemma request_reads:
  assumes d: "drive nd u n t" and hn: "serves hn (node_link e) u"
  shows "\<exists>st nd1. loaded st u n t (nval nd1 u kMetadataFp) \<and> (\<forall>j. j \<notin> set (ids t) \<longrightarrow> map_of (s_heap st) j = None) \<and>
    drive nd1 u n t \<and> nval nd1 = nval nd \<and>
    (\<forall>type req. with_handler hn type req nd = sbind (HandleRequest hn type req st) (\<lambda>(r, _). sret r) nd1)"
proof -
  have "data_ok u kMetadataFp []"
    using drive_data_ok(1) [OF d] by simp
  from sized_node.read_stored [OF driveD(1) [OF d] this driveD(3) [OF d] hn]
  obtain st nd1 where R: "ReadMetadata hn new_storage nd = Some (Inr (True, st), nd1)" "loaded st u n t (nval nd u kMetadataFp)"
    "\<forall>j. j \<notin> set (ids t) \<longrightarrow> map_of (s_heap st) j = None" "serving nd1" "nval nd1 = nval nd" "member nd1 = member nd"
    by blast
  then show ?thesis
    using d by (intro exI [of _ st] exI [of _ nd1]) (simp add: drive_def with_handler_def InitializeHandler_def sbind_Some)
qed

lemma resolve_slash_end:
  assumes R: "rep_root shuffled h usr t" "good t" and x: "map_of (subs x) n = None"
  shows "look t ms = Some w \<Longrightarrow> list_all entry_name (ns @ [n]) \<Longrightarrow> look w (ns @ [n]) = Some x \<Longrightarrow>
    \<exists>h'. resolve h (Some (tid w)) rel (fp_of (ns @ [n]) @ ''/'') =
      Inr (\<lparr>lo_ok = True, lo_parent = Some (tid x), lo_dir = None, lo_name = n\<rparr>, h')"
proof (induction ns arbitrary: ms w rel)
  case Nil
  obtain d where d: "deref h (Some (tid w)) = Inr (tid w, d)" "map_of (d_entries d) = map_of (entries_of (subs w))"
    using entries_look [OF R Nil.prems(1)] by blast
  have wx: "map_of (subs w) n = Some x"
    using Nil.prems(3) by (simp split: option.splits)
  then have "look t (ms @ [n]) = Some x"
    using Nil.prems(1) by (simp add: look_append)
  then obtain dx where dx: "deref h (Some (tid x)) = Inr (tid x, dx)" "map_of (d_entries dx) = map_of (entries_of (subs x))"
    using entries_look [OF R] by blast
  have none: "find_char (CHR ''/'') [] = None"
    by simp
  have "resolve h (Some (tid x)) n [] = Inr (\<lparr>lo_ok = True, lo_parent = Some (tid x), lo_dir = None, lo_name = n\<rparr>,
      AList.update (tid x) (AddEntry n None dx) h)"
    unfolding resolve.simps [of h _ _ "[]"] none using dx x by (simp add: GetEntry_def map_of_entries)
  then show ?case
    using resolve_step [OF _ d(1), of n rel "[]"] Nil.prems(2) d(2) wx
    by (simp add: fp_of_def resolve_slash map_of_entries)
next
  case (Cons m ns)
  obtain d where d: "deref h (Some (tid w)) = Inr (tid w, d)" "map_of (d_entries d) = map_of (entries_of (subs w))"
    using entries_look [OF R Cons.prems(1)] by blast
  obtain y where y: "map_of (subs w) m = Some y" "look y (ns @ [n]) = Some x"
    using Cons.prems(3) by (auto split: option.splits)
  obtain path where path: "fp_of (ns @ [n]) @ ''/'' = CHR ''/'' # path"
    by (cases ns) (auto simp: fp_of_def)
  have "fp_of ((m # ns) @ [n]) @ ''/'' = CHR ''/'' # m @ CHR ''/'' # path"
    using path by (simp add: fp_of_def)
  then have "resolve h (Some (tid w)) rel (fp_of ((m # ns) @ [n]) @ ''/'') = resolve h (Some (tid y)) m (fp_of (ns @ [n]) @ ''/'')"
    using resolve_step [OF _ d(1), of m rel path] Cons.prems(2) d(2) y(1) path by (simp add: resolve_slash map_of_entries)
  moreover have "look t (ms @ [m]) = Some y"
    using Cons.prems(1) y(1) by (simp add: look_append)
  ultimately show ?case
    using Cons.IH [of "ms @ [m]" y m] Cons.prems(2) y(2) by simp
qed

text \<open>
  The documented form of a folder path ends the server.  \<open>proto.proto\<close> says that the new folder of a move is written with a
  slash at its end.  For such a path the handler looks for an entry with the folder's own name in the folder itself, and follows
  the null pointer that this lookup inserts: the move of any file or folder to a folder without such an entry is undefined.
\<close>

lemma slash_path_is_undefined:
  assumes d: "drive nd u n t" and hn: "serves hn (node_link e) u" and p: "list_all entry_name (ns @ [k])" "shown nd u t (ns @ [k]) \<noteq> None"
    and q: "list_all entry_name (ms @ [m])" "shown nd u t (ms @ [m]) = Some Folder" "shown nd u t (ms @ [m, m]) = None"
    and mv: "mv = Storage.move_file \<or> mv = move_dir"
  shows "\<exists>nd'. mv hn (fp_of (ns @ [k])) (fp_of (ms @ [m]) @ ''/'') nd = Some (Inl Undefined, nd')"
proof -
  let ?q = "fp_of (ms @ [m]) @ ''/''"
  obtain st nd1 where R: "loaded st u n t (nval nd1 u kMetadataFp)"
    "\<forall>type req. with_handler hn type req nd = sbind (HandleRequest hn type req st) (\<lambda>(r, _). sret r) nd1"
    using request_reads [OF d hn] by blast
  note L = loadedD [OF R(1)]
  obtain w where w: "look t (ns @ [k]) = Some w"
    using p(2) by (auto simp: shown_None)
  obtain v where V: "ValidatePathAndGetDir (fp_of (ns @ [k])) st =
      Inr (\<lparr>lo_ok = True, lo_parent = Some (tid v), lo_dir = Some (tid w), lo_name = k\<rparr>, st)"
    using validate_found [OF R(1) p(1) w] by blast
  obtain x where x: "look t (ms @ [m]) = Some x" "map_of (subs x) m = None"
    using q(2,3) look_append [of t "ms @ [m]" "[m]"] by (auto simp: shown_folder shown_None split: option.splits)
  obtain h' where "resolve (s_heap st) (Some (tid t)) [] ?q = Inr (\<lparr>lo_ok = True, lo_parent = Some (tid x), lo_dir = None, lo_name = m\<rparr>, h')"
    using resolve_slash_end [OF L(4,7) x(2), of "[]" t ms "[]"] q(1) x(1) by auto
  moreover have "?q \<noteq> ''/''"
    by (cases ms) (simp_all add: fp_of_def)
  ultimately have D: "ValidatePathAndGetDir ?q st = Inr (\<lparr>lo_ok = True, lo_parent = Some (tid x), lo_dir = None, lo_name = m\<rparr>, st\<lparr>s_heap := h'\<rparr>)"
    using L(1) by (simp add: ValidatePathAndGetDir_def root_ptr_def)
  have "HandleMove hn (Suc kMaxAttempt) (fp_of (ns @ [k])) ?q invalid_request st nd1 = Some (Inl Undefined, nd1)"
    by (simp add: V D move_entry_def deref_def with_heap_def pure_def)
  then have "HandleRequest hn type (Move_req (fp_of (ns @ [k])) ?q) st nd1 = Some (Inl Undefined, nd1)" if "type = FILE_MOVE \<or> type = DIR_MOVE" for type
    using that by (auto simp: HandleRequest_def)
  then show ?thesis
    using R(2) mv unfolding Storage.move_file_def [abs_def] move_dir_def [abs_def] move_file_or_dir_def by (auto simp: sbind_def)
qed

section \<open>Renaming the root\<close>

text \<open>A loop over folders that meets a folder among its own entries again and again does not end.\<close>

definition circles :: "iter \<Rightarrow> heap \<Rightarrow> int set \<Rightarrow> int \<Rightarrow> bool" where
  "circles iter h S r \<longleftrightarrow>
     (\<forall>i \<in> S. \<exists>l ds. dir_lines iter h ''Folder: '' i = Inr (l, ds) \<and> set ds \<subseteq> S \<and> (i = r \<longrightarrow> r \<in> set ds))"

lemma folders_loop_cycle:
  assumes "circles iter h S r" "set queue \<subseteq> S" "r \<in> set queue"
  shows "folders_loop iter h queue ss = None"
proof -
  let ?P = "\<lambda>iter h queue ss y. circles iter h S r \<longrightarrow> set queue \<subseteq> S \<longrightarrow> r \<notin> set queue"
  have "?P iter h queue ss y" if run: "folders_loop iter h queue ss = Some y" for y
  proof (rule folders_loop.raw_induct [where P = ?P, OF _ run], intro impI notI)
    fix f :: "iter \<Rightarrow> heap \<Rightarrow> int list \<Rightarrow> string \<Rightarrow> string res option" and iter h queue ss y
    assume IH: "\<And>iter h queue ss y. f iter h queue ss = Some y \<Longrightarrow> circles iter h S r \<longrightarrow> set queue \<subseteq> S \<longrightarrow> r \<notin> set queue"
      and step: "(case queue of [] \<Rightarrow> Some (Inr ss) | i # queue' \<Rightarrow>
        (case dir_lines iter h ''Folder: '' i of Inl e \<Rightarrow> Some (Inl e) | Inr (t, ds) \<Rightarrow> f iter h (queue' @ ds) (ss @ t))) = Some y"
      and c: "circles iter h S r" "set queue \<subseteq> S" "r \<in> set queue"
    obtain i q where q: "queue = i # q"
      using c(3) by (cases queue) auto
    obtain l ds where D: "dir_lines iter h ''Folder: '' i = Inr (l, ds)" "set ds \<subseteq> S" "i = r \<longrightarrow> r \<in> set ds"
      using c(1,2) q unfolding circles_def by auto
    have "f iter h (q @ ds) (ss @ l) = Some y"
      using step q D(1) by simp
    from IH [OF this] show False
      using c q D(2,3) by auto
  qed
  then show ?thesis
    using assms by (cases "folders_loop iter h queue ss") auto
qed

lemma entry_lines_total:
  assumes "\<And>name p. (name, p) \<in> set es \<Longrightarrow> \<exists>j d. p = Some j \<and> map_of h j = Some d"
  shows "\<exists>l ds. entry_lines h es = Inr (l, ds) \<and> set ds = {j. \<exists>name d. (name, Some j) \<in> set es \<and> map_of h j = Some d \<and> \<not> d_file d}"
  using assms
proof (induction es)
  case (Cons e es)
  obtain name p where e: "e = (name, p)" by (cases e)
  obtain j d where p: "p = Some j" "map_of h j = Some d"
    using Cons.prems [of name p] e by auto
  have "\<exists>l ds. entry_lines h es = Inr (l, ds) \<and> set ds = {j. \<exists>name d. (name, Some j) \<in> set es \<and> map_of h j = Some d \<and> \<not> d_file d}"
  proof (rule Cons.IH)
    show "\<exists>j d. q = Some j \<and> map_of h j = Some d" if "(m, q) \<in> set es" for m q
      using Cons.prems [of m q] that by simp
  qed
  then obtain l ds where "entry_lines h es = Inr (l, ds)"
    "set ds = {j. \<exists>name d. (name, Some j) \<in> set es \<and> map_of h j = Some d \<and> \<not> d_file d}"
    by blast
  then show ?case
    using p by (auto simp: e deref_def)
qed simp

text \<open>The folders of a tree, by their identifiers.\<close>

definition folder_ids :: "ftree \<Rightarrow> int set" where
  "folder_ids t = {tid v | ns v. look t ns = Some v \<and> \<not> leaf v}"

lemma set_update: "set (AList.update k x m) \<subseteq> set m \<union> {(k, x)}"
  by (induction m) auto

lemma length_update_same: "map_of m k = Some x \<Longrightarrow> length (AList.update k y m) = length m"
  by (induction m) (auto split: if_splits)

lemma rename_root_cycle:
  assumes R: "rep_root shuffled h usr t" and t: "wf_tree t" and iter: "iter_ok iter"
    and d: "map_of h (tid t) = Some d"
    and h': "map_of h' = (map_of h)(tid t \<mapsto> d\<lparr>d_path := k, d_entries := AList.update k (Some (tid t)) (d_entries d)\<rparr>)"
      "length h \<le> length h'"
    and i: "i \<in> folder_ids t"
  shows "\<exists>l ds. dir_lines iter h' title i = Inr (l, ds) \<and> set ds \<subseteq> folder_ids t \<and> (i = tid t \<longrightarrow> tid t \<in> set ds)"
proof -
  obtain ns v where v: "look t ns = Some v" "\<not> leaf v" "tid v = i"
    using i by (auto simp: folder_ids_def)
  have W: "\<not> leaf t" "good t" "distinct (ids t)"
    using t by (auto simp: wf_tree_def)
  obtain dv where dv: "map_of h i = Some dv" "\<not> d_file dv" "shuffled (d_entries dv) (entries_of (subs v))"
    using folder_object [OF R v(1,2)] v(3) by blast
  have kids: "(\<exists>j x. p = Some j \<and> map_of h j = Some x \<and> (\<not> d_file x \<longrightarrow> j \<in> folder_ids t))" if np: "(name, p) \<in> set (d_entries dv)" for name p
  proof -
    have "(name, p) \<in> set (entries_of (subs v))"
      using np dv(3) unfolding shuffled_def by (metis set_mset_mset)
    then obtain x where x: "(name, x) \<in> set (subs v)" "p = Some (tid x)"
      by (auto simp: entries_of_def)
    have "look t (ns @ [name]) = Some x"
      by (rule look_entry [OF t v(1) x(1)])
    then show ?thesis
      using rep_object [OF R, of "ns @ [name]" x] x(2) by (auto simp: folder_ids_def)
  qed
  define d' where "d' = d\<lparr>d_path := k, d_entries := AList.update k (Some (tid t)) (d_entries d)\<rparr>"
  have dfile: "\<not> d_file d"
    using folder_object [OF R, of "[]" t] W(1) d by auto
  have root: "tid t \<in> folder_ids t"
    using W(1) unfolding folder_ids_def by (intro CollectI exI [of _ t] exI [of _ "[]"]) simp
  obtain di where di: "map_of h' i = Some di" "set (d_entries di) \<subseteq> set (d_entries dv) \<union> {(k, Some (tid t))}"
    "i = tid t \<longrightarrow> (k, Some (tid t)) \<in> set (d_entries di)"
  proof (cases "i = tid t")
    case True
    then have "dv = d" "map_of h' i = Some d'"
      using d dv(1) h'(1) by (simp_all add: d'_def)
    moreover have "set (AList.update k (Some (tid t)) (d_entries d)) \<subseteq> set (d_entries d) \<union> {(k, Some (tid t))}"
      by (rule set_update)
    moreover have "(k, Some (tid t)) \<in> set (AList.update k (Some (tid t)) (d_entries d))"
      using map_of_SomeD [of "AList.update k (Some (tid t)) (d_entries d)" k] by simp
    ultimately show ?thesis
      using that [of d'] by (simp add: d'_def)
  next
    case False
    then show ?thesis using that [of dv] dv(1) h'(1) by auto
  qed
  define h0 where "h0 = AList.update (tid t) (d\<lparr>d_path := k\<rparr>) h"
  have "rep_root shuffled h0 k t"
  proof -
    have "rep shuffled h0 (tid t) c x" if cx: "(c, x) \<in> set (subs t)" for c x
      by (rule rep_frame [OF folder_kids [OF R _ cx, of "[]"]]) (use tid_fresh [OF W(3) cx] in \<open>auto simp: h0_def\<close>)
    then show ?thesis
      using R d by (auto simp: rep_root_def h0_def)
  qed
  then have P0: "Path h0 i = Inr (path_text k ns)"
    using Path_look [OF _ W(3) v(1)] v(3) by blast
  have "length h0 = length h"
    using d by (simp add: h0_def length_update_same)
  then have "grows h0 h'"
    using h' by (auto simp: grows_def h0_def)
  then have P: "Path h' i = Inr (path_text k ns)"
    using grows_Path P0 by blast
  have es: "\<exists>j x. p = Some j \<and> map_of h' j = Some x \<and> (\<not> d_file x \<longrightarrow> j \<in> folder_ids t)" if np: "(name, p) \<in> set (iter (d_entries di))" for name p
  proof -
    have "(name, p) \<in> set (d_entries di)"
      using np iter unfolding iter_ok_def by (metis set_mset_mset)
    then consider "(name, p) \<in> set (d_entries dv)" | "p = Some (tid t)"
      using di(2) by auto
    then show ?thesis
    proof cases
      case 1
      from kids [OF this] show ?thesis using h'(1) root by auto
    next
      case 2
      then show ?thesis using h'(1) root by auto
    qed
  qed
  obtain l ds where E: "entry_lines h' (iter (d_entries di)) = Inr (l, ds)"
    "set ds = {j. \<exists>name x. (name, Some j) \<in> set (iter (d_entries di)) \<and> map_of h' j = Some x \<and> \<not> d_file x}"
    using entry_lines_total [of "iter (d_entries di)" h'] es by blast
  have "set ds \<subseteq> folder_ids t"
    unfolding E(2) using es by fastforce
  moreover have "tid t \<in> set ds" if "i = tid t"
  proof -
    have "(k, Some (tid t)) \<in> set (iter (d_entries di))"
      using di(3) that iter unfolding iter_ok_def by (metis set_mset_mset)
    then show ?thesis
      unfolding E(2) using h'(1) dfile by auto
  qed
  ultimately show ?thesis
    using di(1) P E(1) by (simp add: dir_lines_def deref_def)
qed

text \<open>
  Renaming the root never ends.  A request to rename \<open>/\<close>, whatever the new name, makes the root an entry of itself; printing
  the metadata then visits the root again and again, and the request never returns: the thread that serves it
  fills the memory of the web server.
\<close>

lemma rename_root_never_ends:
  assumes d: "drive nd u n t" and hn: "serves hn (node_link e) u" and ren: "ren = rename_file \<or> ren = rename_dir"
  shows "ren hn ''/'' k nd = None"
proof -
  obtain st nd1 where R: "loaded st u n t (nval nd1 u kMetadataFp)"
    "\<forall>type req. with_handler hn type req nd = sbind (HandleRequest hn type req st) (\<lambda>(r, _). sret r) nd1"
    using request_reads [OF d hn] by blast
  note L = loadedD [OF R(1)]
  let ?lo = "\<lparr>lo_ok = True, lo_parent = Some (tid t), lo_dir = Some (tid t), lo_name = []\<rparr>"
  have V: "ValidatePathAndGetDir ''/'' st = Inr (?lo, st)"
    using L(1) by (simp add: ValidatePathAndGetDir_def root_ptr_def)
  obtain dr where dr: "map_of (s_heap st) (tid t) = Some dr" "shuffled (d_entries dr) (entries_of (subs t))"
    using folder_object [OF L(4) _ L(9), of "[]"] by auto
  have "[] \<notin> fst ` set (entries_of (subs t))"
    using good_sub [OF L(7), of "[]"] by (fastforce simp: entries_of_def entry_name_def)
  then have "[] \<notin> fst ` set (d_entries dr)"
    using dr(2) unfolding shuffled_def by (metis set_mset_mset)
  then have del: "AList.delete [] (d_entries dr) = d_entries dr"
    by (simp add: delete_id)
  define h' where "h' = AList.update (tid t) (AddEntry k (Some (tid t)) (dr\<lparr>d_path := k\<rparr>))
    (AList.update (tid t) (dr\<lparr>d_path := k\<rparr>) (AList.update (tid t) (dr\<lparr>d_path := k\<rparr>) (s_heap st)))"
  have "rename_entry ?lo k (s_heap st) = Inr h'"
    using dr(1) Path_look [OF L(4,8), of "[]"] del by (simp add: rename_entry_def deref_def modify_def h'_def DeleteEntry_def)
  moreover have h': "map_of h' = (map_of (s_heap st))(tid t \<mapsto> dr\<lparr>d_path := k, d_entries := AList.update k (Some (tid t)) (d_entries dr)\<rparr>)"
    "length (s_heap st) \<le> length h'"
    using dr(1) by (simp_all add: h'_def AddEntry_def length_update_same)
  have iter: "iter_ok (hd_iter hn)"
    using servesD [OF hn] by simp
  note C = rename_root_cycle [OF L(4,6) iter dr(1) h']
  have root: "tid t \<in> folder_ids t"
    using L(9) unfolding folder_ids_def by (intro CollectI exI [of _ t] exI [of _ "[]"]) simp
  obtain l ds where D: "dir_lines (hd_iter hn) h' ''Root folder: '' (tid t) = Inr (l, ds)" "set ds \<subseteq> folder_ids t" "tid t \<in> set ds"
    using C [OF root] by blast
  have "circles (hd_iter hn) h' (folder_ids t) (tid t)"
    unfolding circles_def using C by blast
  from folders_loop_cycle [OF this D(2,3)] have "GetMetadataStr (hd_iter hn) (st\<lparr>s_heap := h'\<rparr>) = None"
    using L(1) D(1) by (simp add: GetMetadataStr_def root_ptr_def)
  ultimately have "HandleRename hn (Suc kMaxAttempt) ''/'' k invalid_request st nd1 = None"
    by (simp add: V with_heap_def WriteMetadataToKv_def metadata_text_def pure_loop_def sbind_def)
  then have "HandleRequest hn type (Rename_req ''/'' k) st nd1 = None" if "type = FILE_RENAME \<or> type = DIR_RENAME" for type
    using that by (auto simp: HandleRequest_def)
  then show ?thesis
    using R(2) ren unfolding rename_file_def [abs_def] rename_dir_def [abs_def] rename_file_or_dir_def by (auto simp: sbind_def)
qed

section \<open>A file below a file\<close>

text \<open>The text of the metadata depends on the folders only: objects that grow new files, or entries of files, print the same.\<close>

definition same_folders :: "heap \<Rightarrow> heap \<Rightarrow> bool" where
  "same_folders h h' \<longleftrightarrow> grows h h' \<and> (\<forall>j d. map_of h j = Some d \<longrightarrow>
     (\<exists>d'. map_of h' j = Some d' \<and> d_file d' = d_file d \<and> (\<not> d_file d \<longrightarrow> d_entries d' = d_entries d)))"

definition is_folder :: "heap \<Rightarrow> int \<Rightarrow> bool" where
  "is_folder h i \<longleftrightarrow> (\<exists>d. map_of h i = Some d \<and> \<not> d_file d)"

lemma deref_Inr: "deref h p = Inr (i, d) \<longleftrightarrow> p = Some i \<and> map_of h i = Some d"
  by (auto simp: deref_def split: option.splits)

lemma entry_lines_same:
  assumes "same_folders h h'"
  shows "entry_lines h es = Inr (l, ds) \<Longrightarrow> entry_lines h' es = Inr (l, ds) \<and> (\<forall>i \<in> set ds. is_folder h i)"
proof (induction es arbitrary: l ds)
  case (Cons e es)
  obtain name p where e: "e = (name, p)" by (cases e)
  obtain i d l1 ds1 where D: "deref h p = Inr (i, d)" "entry_lines h es = Inr (l1, ds1)"
    "l = name @ '' ID '' @ int_str i @ '' '' @ Type_name d @ [nl] @ l1" "ds = (if d_file d then ds1 else i # ds1)"
    using Cons.prems by (auto simp: e rbind_eq_Inr)
  obtain d' where "deref h' p = Inr (i, d')" "d_file d' = d_file d" "map_of h i = Some d"
    using D(1) assms by (auto simp: deref_Inr same_folders_def)
  moreover have "entry_lines h' es = Inr (l1, ds1)" "\<forall>j \<in> set ds1. is_folder h j"
    using Cons.IH [OF D(2)] by blast+
  ultimately show ?case
    using D by (auto simp: e is_folder_def Type_name_def)
qed simp

lemma dir_lines_same:
  assumes h: "same_folders h h'" "is_folder h i" and run: "dir_lines iter h title i = Inr (l, ds)"
  shows "dir_lines iter h' title i = Inr (l, ds) \<and> (\<forall>j \<in> set ds. is_folder h j)"
proof -
  obtain d p l1 where D: "map_of h i = Some d" "Path h i = Inr p" "entry_lines h (iter (d_entries d)) = Inr (l1, ds)"
    "l = title @ p @ '' ID '' @ int_str i @ '' Items '' @ nat_str (length (d_entries d)) @ [nl] @ l1"
    using run by (auto simp: dir_lines_def rbind_eq_Inr deref_Inr)
  have "\<not> d_file d"
    using h(2) D(1) by (simp add: is_folder_def)
  then obtain d' where "map_of h' i = Some d'" "d_entries d' = d_entries d"
    using h(1) D(1) unfolding same_folders_def by blast
  moreover have "Path h' i = Inr p"
    using grows_Path D(2) h(1) unfolding same_folders_def by blast
  ultimately show ?thesis
    using entry_lines_same [OF h(1) D(3)] D(4) by (simp add: dir_lines_def deref_def)
qed

lemma folders_loop_same:
  assumes "same_folders h h'" "\<forall>i \<in> set queue. is_folder h i" and run: "folders_loop iter h queue ss = Some (Inr l)"
  shows "folders_loop iter h' queue ss = Some (Inr l)"
proof -
  let ?P = "\<lambda>iter h queue ss y. same_folders h h' \<longrightarrow> (\<forall>i \<in> set queue. is_folder h i) \<longrightarrow> y = Inr l \<longrightarrow>
    folders_loop iter h' queue ss = Some (Inr l)"
  have "?P iter h queue ss y" if run: "folders_loop iter h queue ss = Some y" for y
  proof (rule folders_loop.raw_induct [where P = ?P, OF _ run], intro impI)
    fix f :: "iter \<Rightarrow> heap \<Rightarrow> int list \<Rightarrow> string \<Rightarrow> string res option" and iter h queue ss and y :: "string res"
    assume IH: "\<And>iter h queue ss y. f iter h queue ss = Some y \<Longrightarrow> ?P iter h queue ss y"
      and step: "(case queue of [] \<Rightarrow> Some (Inr ss) | i # queue' \<Rightarrow>
        (case dir_lines iter h ''Folder: '' i of Inl e \<Rightarrow> Some (Inl e) | Inr (t, ds) \<Rightarrow> f iter h (queue' @ ds) (ss @ t))) = Some y"
      and c: "same_folders h h'" "\<forall>i \<in> set queue. is_folder h i" "y = Inr l"
    show "folders_loop iter h' queue ss = Some (Inr l)"
    proof (cases queue)
      case Nil
      then show ?thesis
        using step c(3) by (subst folders_loop.simps) simp
    next
      case (Cons i q)
      obtain l1 ds where D: "dir_lines iter h ''Folder: '' i = Inr (l1, ds)" "f iter h (q @ ds) (ss @ l1) = Some y"
        using step Cons c(3) by (auto split: sum.splits)
      have "is_folder h i"
        using c(2) Cons by simp
      note S = dir_lines_same [OF c(1) this D(1)]
      have "folders_loop iter h' (q @ ds) (ss @ l1) = Some (Inr l)"
        using IH [OF D(2)] c S Cons by auto
      then show ?thesis
        using S Cons by (subst folders_loop.simps) simp
    qed
  qed
  then show ?thesis
    using assms by blast
qed

lemma GetMetadataStr_same:
  assumes "same_folders (s_heap st) h'" "s_root st = Some r" "is_folder (s_heap st) r" "GetMetadataStr iter st = Some (Inr m)"
  shows "GetMetadataStr iter (st\<lparr>s_heap := h'\<rparr>) = Some (Inr m)"
proof -
  obtain l ds where D: "dir_lines iter (s_heap st) ''Root folder: '' r = Inr (l, ds)"
    "folders_loop iter (s_heap st) ds (''Latest ID: '' @ int_str (s_latest st) @ [nl] @ l) = Some (Inr m)"
    using assms(2,4) by (auto simp: GetMetadataStr_def root_ptr_def split: sum.splits)
  note S = dir_lines_same [OF assms(1,3) D(1)]
  then show ?thesis
    using folders_loop_same [OF assms(1) _ D(2)] assms(2) by (simp add: GetMetadataStr_def root_ptr_def)
qed

lemma create_below_file:
  assumes R: "rep_root shuffled h usr t" and t: "good t" and v: "look t ns = Some v" "leaf v" and i: "map_of h i = None"
    and lo: "lo_parent lo = Some (tid v)" "lo_name lo = k"
  shows "\<exists>h'. create_entry lo i b h = Inr h' \<and> same_folders h h'"
proof -
  obtain d where d: "map_of h (tid v) = Some d" "d_file d"
    using rep_object [OF R v(1)] v(2) by auto
  have ne: "tid v \<noteq> i"
    using d(1) i by auto
  define h1 where "h1 = AList.update i (new_dirent k b) h"
  define h2 where "h2 = AList.update (tid v) (AddEntry k (Some i) d) h1"
  define h3 where "h3 = AList.update i ((new_dirent k b)\<lparr>d_parent := Some (tid v)\<rparr>) h2"
  have "map_of h1 (tid v) = Some d" "map_of h2 i = Some (new_dirent k b)"
    using d(1) ne by (simp_all add: h1_def h2_def)
  then have "create_entry lo i b h = Inr h3"
    using i lo by (simp add: create_entry_def h3_def h2_def modify_Inr flip: h1_def)
  moreover have "map_of h3 = (map_of h)(tid v \<mapsto> AddEntry k (Some i) d, i \<mapsto> (new_dirent k b)\<lparr>d_parent := Some (tid v)\<rparr>)"
    using ne by (auto simp: h3_def h2_def h1_def)
  moreover have "length h \<le> length h3"
    unfolding h3_def h2_def h1_def by (meson length_update order_trans)
  ultimately have "same_folders h h3"
    using d i by (auto simp: same_folders_def grows_def AddEntry_def)
  then show ?thesis
    using \<open>create_entry lo i b h = Inr h3\<close> by blast
qed

lemma upload_below_file_drive:
  assumes d: "drive nd u n t" and hn: "serves hn (node_link e) u"
    and p: "list_all entry_name (ns @ [k])" "look t ns = Some v" "leaf v"
    and n: "n + 1 < 2 ^ 31" "length c < 2 ^ 31" "length (meta_text (n + 1) u t) < 2 ^ 31"
  shows "\<exists>r nd'. with_handler hn FILE_UPLOAD (File_upload_req (fp_of (ns @ [k])) c) nd = Some (Inr r, nd') \<and> (resp_status r = SUCCESS \<and>
    drive nd' u (n + 1) t \<and> shown nd' u t = shown nd u t \<and> nval nd' u (int_str (n + 1)) = c)"
proof (rule request_drive [OF d hn])
  fix st nd1
  assume st: "loaded st u n t (nval nd1 u kMetadataFp)" "\<forall>j. j \<notin> set (ids t) \<longrightarrow> map_of (s_heap st) j = None"
    and d1: "drive nd1 u n t" "nval nd1 = nval nd"
  note L = loadedD [OF st(1)]
  let ?p = "fp_of (ns @ [k])" and ?q = "File_upload_req (fp_of (ns @ [k])) c"
    and ?lo = "\<lparr>lo_ok = False, lo_parent = Some (tid v), lo_dir = None, lo_name = k\<rparr>"
  have T: "0 \<le> n" "n + 1 \<notin> set (ids t)" "sound_tree (n + 1) t"
    using driveD(4) [OF d] n(1) by (fastforce simp: sound_tree_def)+
  have "subs v = []"
    using p(3) by (cases v) simp_all
  then have V: "ValidatePathAndGetDir ?p st = Inr (?lo, st)"
    using validate_loaded [OF st(1) p(1,2)] by simp
  have "map_of (s_heap st) (n + 1) = None"
    using st(2) T(2) by simp
  from create_below_file [OF L(4,7) p(2,3) this, of ?lo k True] obtain h where h: "create_entry ?lo (n + 1) True (s_heap st) = Inr h"
    "same_folders (s_heap st) h"
    by auto
  define st2 where "st2 = st\<lparr>s_latest := n + 1, s_heap := h\<rparr>"
  obtain ord where ord: "reorders ord" "GetMetadataStr (hd_iter hn) (st\<lparr>s_latest := n + 1\<rparr>) = Some (Inr (meta_text (n + 1) u (arrange ord t)))"
    using printed_text [of "hd_iter hn" "st\<lparr>s_latest := n + 1\<rparr>" u t] servesD [OF hn] L by auto
  let ?m = "meta_text (n + 1) u (arrange ord t)"
  have "is_folder (s_heap st) (tid t)"
    using folder_object [OF L(4) _ L(9), of "[]"] by (auto simp: is_folder_def)
  then have m: "GetMetadataStr (hd_iter hn) st2 = Some (Inr ?m)"
    using GetMetadataStr_same [of "st\<lparr>s_latest := n + 1\<rparr>" h "tid t" "hd_iter hn"] h(2) L(1) ord(2) by (simp add: st2_def)
  have "data_ok u kMetadataFp ?m" "data_ok u (int_str (n + 1)) c"
    using drive_data_ok [OF d] n(2,3) T(1) by (simp_all add: length_meta_arrange [OF ord(1)])
  from kv_node.cput_law [OF driveD(1) [OF d1(1)] disjI1 [OF driveD(2) [OF d1(1)]] this(1),
      where ?v1.0 = "nval nd1 u kMetadataFp"]
  obtain nd2 where P: "kv_cput (node_link e) u kMetadataFp (nval nd1 u kMetadataFp) ?m nd1 = (0, nd2)" "serving nd2"
    "nval nd2 = set_val u kMetadataFp ?m (nval nd1)" "member nd2 = (\<lambda>w. w = u \<or> member nd1 w)"
    by auto
  from kv_node.puts_law [OF P(2) _ \<open>data_ok u (int_str (n + 1)) c\<close>] P(4)
  obtain nd3 where Q: "kv_puts (node_link e) u (int_str (n + 1)) c nd2 = (0, nd3)" "serving nd3"
    "nval nd3 = set_val u (int_str (n + 1)) c (nval nd2)" "member nd3 = member nd2"
    by auto
  have hn': "hd_link hn = node_link e" "hd_usr hn = u"
    using servesD [OF hn] by simp_all
  have W: "WriteMetadataToKv hn st2 nd1 = Some (Inr True, nd2)"
  proof -
    have "s_meta st2 = nval nd1 u kMetadataFp"
      using L(3) by (simp add: st2_def)
    then show ?thesis
      using P(1) by (simp add: WriteMetadataToKv_def sbind_metadata [OF m] hn' sbind_call)
  qed
  have made: "with_heap (st\<lparr>s_latest := n + 1\<rparr>) (create_entry ?lo (n + 1) True (s_heap st)) = Inr st2"
    by (simp add: with_heap_def h(1) st2_def)
  have "HandleCreationAndQuery hn (Suc kMaxAttempt) FILE_UPLOAD ?q invalid_request st nd1 =
      Some (Inr (PopulateSuccessResp u invalid_request, st2\<lparr>s_meta := ?m\<rparr>), nd3)"
    using V L(2) T(1) n(1) made hn' Q(1)
    by (auto simp: upload_path_def upload_content_def Let_def sbind_metadata [OF m] sbind_Some [where m = "WriteMetadataToKv hn st2", OF W] sbind_call)
  then have "HandleRequest hn FILE_UPLOAD ?q st nd1 = Some (Inr (PopulateSuccessResp u invalid_request, st2\<lparr>s_meta := ?m\<rparr>), nd3)"
    by (simp add: HandleRequest_def)
  moreover have "drive nd3 u (n + 1) t"
    using d1 P(3,4) Q(2-4) T ord(1) n(3) by (auto simp: drive_def stored_def set_val_def)
  moreover have "shown nd3 u t = shown nd u t"
    unfolding shown_def
  proof (rule fview_cong)
    fix i assume "i \<in> set (ids t)"
    then have "0 \<le> i" "i \<noteq> n + 1"
      using good_ids L(7) T(2) by auto
    then show "nval nd3 u (int_str i) = nval nd u (int_str i)"
      using P(3) Q(3) d1(2) T(1) by (simp add: set_val_def int_str_inj)
  qed
  moreover have "nval nd3 u (int_str (n + 1)) = c"
    using Q(3) by simp
  ultimately show "\<exists>r st' nd'. HandleRequest hn FILE_UPLOAD ?q st nd1 = Some (Inr (r, st'), nd') \<and> (resp_status r = SUCCESS \<and>
    drive nd' u (n + 1) t \<and> shown nd' u t = shown nd u t \<and> nval nd' u (int_str (n + 1)) = c)"
    by (auto simp: PopulateSuccessResp_def resp_status_def)
qed

text \<open>
  A file that is uploaded below a file is lost.  The path is checked for a parent, but not that the parent is a folder: the upload is
  answered with \<open>SUCCESS\<close> and its bytes are stored under a fresh identifier, but the metadata has no line for the new entry,
  so nothing that the user is shown changes.
\<close>

lemma upload_below_file_is_lost:
  assumes "drive nd u n t" "serves hn (node_link e) u" "list_all entry_name (ns @ [k])" "shown nd u t ns = Some (Doc x)"
    "n + 1 < 2 ^ 31" "length c < 2 ^ 31" "length (meta_text (n + 1) u t) < 2 ^ 31"
  shows "\<exists>r nd'. upload_file hn (fp_of (ns @ [k])) c nd = Some (Inr r, nd') \<and> resp_status r = SUCCESS \<and>
    drive nd' u (n + 1) t \<and> shown nd' u t = shown nd u t \<and> nval nd' u (int_str (n + 1)) = c"
proof -
  obtain v where "look t ns = Some v" "leaf v"
    using assms(4) by (auto simp: shown_def fview_def fcontent_def split: if_splits)
  from upload_below_file_drive [OF assms(1-3) this assms(5-7)] show ?thesis
    unfolding upload_file_def by blast
qed

section \<open>Users whose name the metadata cannot hold\<close>

lemma accepts_Grp [simp]: "accepts (Grp a) s t = accepts a s t"
  by (auto simp: accepts_def)

lemma user_no_space: "valid_username u \<Longrightarrow> c \<in> set u \<Longrightarrow> \<not> is_space c"
proof
  assume u: "valid_username u" "c \<in> set u" and sp: "is_space c"
  have "valid_userchar c"
    using u by (simp add: valid_username_def list_all_iff)
  moreover have "(of_char c :: int) \<le> 32"
  proof -
    have "(of_char c :: int) = int (of_char c :: nat)"
      by (rule of_nat_of_char [symmetric])
    then show ?thesis
      using sp unfolding is_space_def by linarith
  qed
  ultimately show False
    by (simp add: valid_userchar_def Let_def)
qed

lemma folder_regex_head:
  assumes "accepts (folder_regex title) s t"
  shows "\<exists>d1 xs d r. s = title @ d1 # CHR ''/'' # xs @ d # r \<and> (\<forall>c \<in> set xs. name_char c) \<and> is_space d"
proof -
  obtain u1 u2 u3 where a: "accepts (Lit title) s u1" "accepts (Cls is_space) u1 u2"
    "accepts (Grp (Seq (Lit ''/'') (Many name_char))) u2 u3" "accepts (seqs [Cls is_space, Lit ''ID'',
     Cls is_space, Grp (Some1 is_digit), Cls is_space, Lit ''Items'', Cls is_space, Grp (Some1 is_digit)]) u3 t"
    using assms unfolding folder_regex_def seqs.simps(3) [of _ _ "_ # _"] accepts_Seq [of "Lit title"] accepts_Seq [of "Cls is_space"]
      accepts_Seq [of "Grp (Seq (Lit ''/'') (Many name_char))"] by blast
  obtain d r where "u3 = d # r" "is_space d"
    using a(4) unfolding seqs.simps(3) accepts_Seq [of "Cls is_space"] accepts_simps by blast
  then show ?thesis
    using a(1-3) by auto
qed

lemma odd_root_line:
  assumes "valid_username u" "c \<in> set u" "\<not> name_char c"
  shows "regex_match kRootFolderEntryRegex (''Root folder: /'' @ u @ r) = None"
proof (rule ccontr)
  assume "regex_match kRootFolderEntryRegex (''Root folder: /'' @ u @ r) \<noteq> None"
  then have "accepts kRootFolderEntryRegex (''Root folder: /'' @ u @ r) []"
    by (simp only: regex_match_accepts)
  then obtain d1 xs d r' where a: "''Root folder: /'' @ u @ r = ''Root folder:'' @ d1 # CHR ''/'' # xs @ d # r'"
      and x: "\<forall>c \<in> set xs. name_char c" "is_space d"
    unfolding kRootFolderEntryRegex_def using folder_regex_head by blast
  have "u @ r = xs @ d # r'"
    using a by simp
  then consider zs where "u = xs @ zs" "zs @ r = d # r'" | zs where "xs = u @ zs"
    by (auto simp: append_eq_append_conv2)
  then show False
  proof cases
    case 1
    then show ?thesis
      using assms x user_no_space [OF assms(1), of d] by (cases zs) auto
  next
    case 2
    then show ?thesis using assms(2,3) x(1) by auto
  qed
qed

text \<open>
  Some users have no drive.  A user name may have any visible character but seven, while the metadata is read with
  letters, digits and a few signs only.  For every other valid name the metadata that \<open>initialize_usr\<close> stores is read
  without finding the root, the reading reports success, and every request for a file or folder of this user then follows a pointer that was never set.
\<close>

lemma odd_user_has_no_drive:
  assumes "valid_username u" "c \<in> set u" "\<not> name_char c"
  shows "\<exists>st. ParseMetadataFile (new_storage\<lparr>s_meta := meta_text 1 u (FDir 1 [])\<rparr>) = Inr (True, st) \<and> s_root st = None \<and>
    (needs_entry type req p \<or> creates type req p \<longrightarrow> 0 < hd_fuel hn \<longrightarrow> HandleRequest hn type req st s = Some (Inl Undefined, s))"
proof -
  let ?st = "new_storage\<lparr>s_meta := meta_text 1 u (FDir 1 [])\<rparr>" and ?line = "''Root folder: /'' @ u @ '' ID 1 Items 0''"
  have nl: "nl \<notin> set u"
    using user_no_space [OF assms(1), of nl] by (auto simp: is_space_def)
  have "parse_line (latest_text 1) (istream_of r) ?st = Inr (istream_of r, ?st\<lparr>s_latest := 1\<rparr>)" for r
    using latest_match [of 1] by (simp add: parse_line_def latest_line_def root_line_def folder_line_def)
  moreover have "parse_line ?line (istream_of []) (?st\<lparr>s_latest := 1\<rparr>) = Inr (istream_of [], ?st\<lparr>s_latest := 1\<rparr>)"
  proof -
    have "regex_match kLatestIdRegex ?line = None" "regex_match kFolderEntryRegex ?line = None"
      by (simp_all add: regex_match_def kLatestIdRegex_def kFolderEntryRegex_def folder_regex_def)
    then show ?thesis
      using odd_root_line [OF assms, of "'' ID 1 Items 0''"] unfolding parse_line_def latest_line_def root_line_def folder_line_def by simp
  qed
  moreover have "meta_text 1 u (FDir 1 []) = latest_text 1 @ nl # ?line @ [nl]"
    unfolding meta_text_new by (simp add: latest_text_def int_str_one)
  moreover have "nl \<notin> set (latest_text 1)" "nl \<notin> set ?line"
    using nl by (simp_all add: latest_text_def)
  ultimately have "parse_lines (istream_of (meta_text 1 u (FDir 1 []))) ?st = Inr (?st\<lparr>s_latest := 1\<rparr>)"
    using parse_lines_step [of "latest_text 1" "?line @ [nl]" ?st] parse_lines_step [of ?line "[]" "?st\<lparr>s_latest := 1\<rparr>"]
    by (simp add: parse_lines.simps [of "istream_of []"])
  then have P: "ParseMetadataFile ?st = Inr (True, ?st\<lparr>s_latest := 1\<rparr>)" "root_ptr (?st\<lparr>s_latest := 1\<rparr>) = Inl Undefined"
    by (simp_all add: ParseMetadataFile_def root_ptr_def new_storage_def)
  have V: "ValidatePathAndGetDir q (?st\<lparr>s_latest := 1\<rparr>) = Inl Undefined" for q
    using P(2) by (simp add: ValidatePathAndGetDir_def)
  have "HandleRequest hn type req (?st\<lparr>s_latest := 1\<rparr>) s = Some (Inl Undefined, s)"
    if "needs_entry type req p \<or> creates type req p" "0 < hd_fuel hn"
  proof -
    obtain f where "hd_fuel hn = Suc f"
      using \<open>0 < hd_fuel hn\<close> by (cases "hd_fuel hn") auto
    then show ?thesis
      using that(1) by (auto simp: needs_entry_def creates_def HandleRequest_def HandleFileDownload_def HandleQueryAllMovableDir_def V P(2) pure_def)
  qed
  then show ?thesis
    using P(1) by (simp add: new_storage_def)
qed

end
