(* ===== verification/Storage_Forms.thy ===== *)
theory Storage_Forms
  imports Storage_Pages Storage_Tree
begin

text \<open>
  The forms that a browser sends to the storage pages: a file as \<open>multipart/form-data\<close>, and the one field of a download.  What
  the functions of \<open>storage_reply.h\<close> read from them.
\<close>

section \<open>Searching\<close>

lemma find_str_skip: "c \<notin> set l \<Longrightarrow> find_str (c # p) (l @ r) = map_option (\<lambda>i. length l + i) (find_str (c # p) r)"
  by (cases "find_str (c # p) r"; induction l) auto

lemma contains_append [simp]: "contains (a @ p @ r) p"
proof -
  have "find_str p (a @ p @ r) \<noteq> None"
  proof (induction a)
    case Nil
    show ?case using is_prefix_append [of p r] by (cases "p @ r") auto
  next
    case (Cons x a)
    then show ?case by auto
  qed
  then show ?thesis by (simp add: contains_def)
qed

lemma find_str_None_char: "c \<in> set p \<Longrightarrow> c \<notin> set s \<Longrightarrow> find_str p s = None"
proof (induction s)
  case (Cons x s)
  have "\<not> is_prefix p (x # s)"
    using Cons.prems by (auto simp: is_prefix_iff) (metis Un_iff list.set_intros set_append set_ConsD)
  then show ?case using Cons by simp
qed auto

lemma find_last_char_append: "d \<notin> set z \<Longrightarrow> find_last_char d (a @ d # z) = Some (length a)"
  by (simp add: find_last_char_def)

lemma find_str_line_end: "CHR 0x0D \<notin> set l \<Longrightarrow> find_str (crlf @ crlf) (l @ crlf @ crlf @ r) = Some (length l)"
  using find_str_skip [of "CHR 0x0D" l] by (simp add: crlf_def)

lemma find_str_line: "CHR 0x0D \<notin> set l \<Longrightarrow> c \<noteq> CHR 0x0D \<Longrightarrow>
    find_str (crlf @ crlf) (l @ crlf @ c # r) = map_option (\<lambda>i. length l + 2 + i) (find_str (crlf @ crlf) (c # r))"
  using find_str_skip [of "CHR 0x0D" l] by (simp add: crlf_def option.map_comp comp_def)

section \<open>Uploads\<close>

definition disposition :: "string \<Rightarrow> string" where
  "disposition k = ''Content-Disposition: form-data; name=\"uploadfile\"; filename=\"'' @ k @ [CHR 0x22]"

definition multipart :: "string \<Rightarrow> string \<Rightarrow> string \<Rightarrow> string \<Rightarrow> string" where
  "multipart b k ty c = ''--'' @ b @ crlf @ disposition k @ crlf @ ''Content-Type: '' @ ty @ crlf @ crlf @ c @ crlf @
     ''--'' @ b @ ''--'' @ crlf"

text \<open>A boundary, and the type of a file.\<close>

definition header_text :: "string \<Rightarrow> bool" where
  "header_text s \<longleftrightarrow> CHR 0x0D \<notin> set s \<and> CHR ''%'' \<notin> set s \<and> CHR ''+'' \<notin> set s"

lemma valid_filename_chars:
  assumes "valid_filename k"
  shows "CHR 0x0D \<notin> set k" "CHR ''%'' \<notin> set k" "CHR ''+'' \<notin> set k" "CHR ''='' \<notin> set k" "CHR '';'' \<notin> set k" "CHR 0x22 \<notin> set k"
  using assms by (auto simp: valid_filename_def list_all_iff valid_char_def alpha_def is_digit_def Let_def)

lemma valid_entry_name: "valid_filename k \<Longrightarrow> k \<noteq> [] \<Longrightarrow> entry_name k"
  by (auto simp: valid_filename_def list_all_iff valid_char_def entry_name_def name_char_def Let_def alpha_def is_digit_def split: if_splits)

lemma substr_from_append: "length (a @ q) = n \<Longrightarrow> substr_from (a @ q @ t) n = Inr t"
  by (auto simp: substr_from_def)

lemma get_file_content_multipart:
  assumes b: "header_text b" and k: "valid_filename k" and ty: "header_text ty" and len: "length (multipart b k ty c) < 2 ^ 31"
  shows "get_file_content (multipart b k ty c) = Inr c"
proof -
  let ?t = "c @ crlf @ ''--'' @ b @ ''--'' @ crlf"
  let ?h = "''--'' @ b @ crlf @ disposition k @ crlf @ ''Content-Type: '' @ ty"
  have cr: "CHR 0x0D \<notin> set (''--'' @ b)" "CHR 0x0D \<notin> set (disposition k)" "CHR 0x0D \<notin> set (''Content-Type: '' @ ty)"
    using b ty valid_filename_chars [OF k] by (auto simp: header_text_def disposition_def)
  have "find_str (crlf @ crlf) ((''Content-Type: '' @ ty) @ crlf @ crlf @ ?t) = Some (length (''Content-Type: '' @ ty))"
    by (rule find_str_line_end [OF cr(3)])
  moreover have "find_str (crlf @ crlf) (disposition k @ crlf @ (''Content-Type: '' @ ty) @ crlf @ crlf @ ?t) =
      map_option (\<lambda>i. length (disposition k) + 2 + i) (find_str (crlf @ crlf) ((''Content-Type: '' @ ty) @ crlf @ crlf @ ?t))"
    using find_str_line [OF cr(2), of "CHR ''C''"] by simp
  moreover have "find_str (crlf @ crlf) ((''--'' @ b) @ crlf @ disposition k @ crlf @ (''Content-Type: '' @ ty) @ crlf @ crlf @ ?t) =
      map_option (\<lambda>i. length (''--'' @ b) + 2 + i) (find_str (crlf @ crlf) (disposition k @ crlf @ (''Content-Type: '' @ ty) @ crlf @ crlf @ ?t))"
    using find_str_line [OF cr(1), of "CHR ''C''"] by (simp add: disposition_def)
  ultimately have "find_str (crlf @ crlf) (multipart b k ty c) = Some (length ?h)"
    by (simp add: multipart_def crlf_def)
  moreover have m: "multipart b k ty c = ?h @ (crlf @ crlf) @ ?t" "length (crlf @ crlf) = 4"
    by (simp_all add: multipart_def crlf_def)
  moreover have "substr_from (multipart b k ty c) (length ?h + 4) = Inr ?t"
    unfolding m(1) by (rule substr_from_append) (simp add: crlf_def)
  ultimately have start: "substr_from (multipart b k ty c) (case find_str (crlf @ crlf) (multipart b k ty c) of None \<Rightarrow> 3 | Some i \<Rightarrow> i + 4) = Inr ?t"
    by (simp only: option.case)
  have l: "length ?t = length c + length b + 8" "length ?t < 2 ^ 31"
    using len by (simp_all add: crlf_def multipart_def)
  then have "sint (word_of_int (int (length ?t) - 6) :: 32 word) = int (length ?t) - 6"
    unfolding sint_sbintrunc' by (intro signed_take_bit_int_eq_self) simp_all
  then have i: "nat (sint (word_of_int (int (length ?t) - 6) :: 32 word) + 1) = length c + (length b + 3)"
    using l(1) by simp
  have "CHR 0x0D \<notin> set (CHR 0x0A # CHR ''-'' # take (length b) (CHR ''-'' # b))"
    using cr(1) by (auto dest: in_set_takeD)
  moreover have "take (length b) ((CHR ''-'' # b) @ r) = take (length b) (CHR ''-'' # b)" for r
    unfolding take_append by simp
  then have "take (length c + (length b + 3)) ?t = c @ CHR 0x0D # CHR 0x0A # CHR ''-'' # take (length b) (CHR ''-'' # b)"
    by (simp add: crlf_def numeral_3_eq_3)
  ultimately have "find_last_char (CHR 0x0D) (take (length c + (length b + 3)) ?t) = Some (length c)"
    using find_last_char_append by simp
  then show ?thesis
    unfolding get_file_content_def start rbind_simps Let_def i by simp
qed

lemma http_parse_plain: "CHR ''%'' \<notin> set p \<Longrightarrow> CHR ''+'' \<notin> set p \<Longrightarrow> http_parse (p @ r) = p @ http_parse r"
  by (induction p) auto

lemma multipart_decoded:
  assumes b: "header_text b" and k: "valid_filename k"
  shows "\<exists>r. http_parse (multipart b k ty c) = (''--'' @ b) @ CHR 0x0D # (CHR 0x0A # disposition k) @ CHR 0x0D # r"
proof -
  let ?p = "''--'' @ b @ crlf @ disposition k @ [CHR 0x0D]"
  have "CHR ''%'' \<notin> set ?p" "CHR ''+'' \<notin> set ?p"
    using b valid_filename_chars [OF k] by (auto simp: header_text_def disposition_def crlf_def)
  from http_parse_plain [OF this, of "CHR 0x0A # ''Content-Type: '' @ ty @ crlf @ crlf @ c @ crlf @ ''--'' @ b @ ''--'' @ crlf"]
  show ?thesis
    by (auto simp: multipart_def crlf_def)
qed

lemma inside_quotes_quoted:
  assumes "CHR 0x22 \<notin> set a" "CHR 0x22 \<notin> set k"
  shows "inside_quotes (a @ CHR 0x22 # k @ [CHR 0x22]) = Inr k"
proof -
  have "find_last_char (CHR 0x22) (a @ CHR 0x22 # k @ [CHR 0x22]) = Some (Suc (length a + length k))"
    using find_last_char_append [of "CHR 0x22" "[]" "a @ CHR 0x22 # k"] by simp
  then show ?thesis
    using assms by (simp add: inside_quotes_def substr_def)
qed

lemma get_file_name_multipart:
  assumes b: "header_text b" and k: "valid_filename k"
  shows "get_file_name (http_parse (multipart b k ty c)) = Inr k" "contains (http_parse (multipart b k ty c)) ''name=\"uploadfile\"''"
proof -
  obtain r where r: "http_parse (multipart b k ty c) = (''--'' @ b) @ CHR 0x0D # (CHR 0x0A # disposition k) @ CHR 0x0D # r"
    using multipart_decoded [OF b k] by blast
  note ok = valid_filename_chars [OF k]
  have cr: "CHR 0x0D \<notin> set (''--'' @ b)" "CHR 0x0D \<notin> set (CHR 0x0A # disposition k)"
    using b ok by (auto simp: header_text_def disposition_def)
  have "vec_at (split (http_parse (multipart b k ty c)) (CHR 0x0D)) 1 = Inr (CHR 0x0A # disposition k)"
    unfolding r split_step [OF cr(1)] split_step [OF cr(2)] by (simp add: vec_at_def)
  moreover have "split (CHR 0x0A # disposition k) (CHR '';'') =
      [CHR 0x0A # ''Content-Disposition: form-data'', '' name=\"uploadfile\"'', '' filename=\"'' @ k @ [CHR 0x22]]"
  proof -
    have "CHR 0x0A # disposition k = (CHR 0x0A # ''Content-Disposition: form-data'') @ CHR '';'' # '' name=\"uploadfile\"'' @ CHR '';'' #
        '' filename=\"'' @ k @ [CHR 0x22]"
      by (simp add: disposition_def)
    moreover have "split ('' filename=\"'' @ k @ [CHR 0x22]) (CHR '';'') = ['' filename=\"'' @ k @ [CHR 0x22]]"
      by (rule split_last) (use ok in auto)
    moreover have semi: "CHR '';'' \<notin> set (CHR 0x0A # ''Content-Disposition: form-data'')" "CHR '';'' \<notin> set '' name=\"uploadfile\"''"
      by simp_all
    ultimately show ?thesis
      by (simp only: split_step [OF semi(1)] split_step [OF semi(2)])
  qed
  ultimately show "get_file_name (http_parse (multipart b k ty c)) = Inr k"
    using inside_quotes_quoted [of "'' filename=''" k] ok by (simp add: get_file_name_def vec_at_def)
  have "http_parse (multipart b k ty c) = (''--'' @ b @ [CHR 0x0D, CHR 0x0A] @ ''Content-Disposition: form-data; '') @
      ''name=\"uploadfile\"'' @ (''; filename=\"'' @ k @ [CHR 0x22, CHR 0x0D] @ r)"
    unfolding r by (simp add: disposition_def)
  then show "contains (http_parse (multipart b k ty c)) ''name=\"uploadfile\"''"
    by (metis contains_append)
qed

section \<open>Expressions that do not match\<close>

definition needs :: "char \<Rightarrow> re \<Rightarrow> bool" where
  "needs c e \<longleftrightarrow> (\<forall>s. c \<notin> set s \<longrightarrow> matches e s = [])"

lemma needs_Lit: "c \<in> set p \<Longrightarrow> needs c (Lit p)"
  by (auto simp: needs_def lit_matches_Some split: option.splits)

lemma needs_Seq1: "needs c a \<Longrightarrow> needs c (Seq a b)"
  by (simp add: needs_def)

lemma needs_Seq2: "needs c b \<Longrightarrow> needs c (Seq a b)"
  unfolding needs_def
proof (intro allI impI)
  fix s assume b: "\<forall>s. c \<notin> set s \<longrightarrow> matches b s = []" and c: "c \<notin> set s"
  have "matches b r = []" if "(g, r) \<in> set (matches a s)" for g r
    using matches_suffix [OF that] b c by auto
  then show "matches (Seq a b) s = []"
    by auto
qed

lemma search_Lit: "find_str p s = None \<Longrightarrow> regex_search (Seq (Lit p) e) s = None"
proof (induction s)
  case Nil
  then show ?case by (cases p) auto
next
  case (Cons c s)
  then have "lit_matches p (c # s) = None"
    by (cases "lit_matches p (c # s)") (auto simp: lit_matches_Some split: if_splits)
  then show ?case using Cons by (auto split: if_splits)
qed

lemma search_None: "(\<And>p r. s = p @ r \<Longrightarrow> matches e r = []) \<Longrightarrow> regex_search e s = None"
proof (induction s)
  case (Cons c s)
  have "matches e (c # s) = []"
    by (rule Cons.prems [of "[]"]) simp
  moreover have "regex_search e s = None"
  proof (rule Cons.IH)
    fix p r assume "s = p @ r"
    then show "matches e r = []" by (intro Cons.prems [of "c # p"]) simp
  qed
  ultimately show ?case by simp
qed (auto split: list.splits)

lemma suffix_of_field:
  assumes "x @ d # y = p @ r" "d \<notin> set y" "d \<in> set r"
  shows "\<exists>j \<le> length x. r = drop j x @ d # y"
proof -
  have r: "r = drop (length p) (x @ d # y)"
    using assms(1) by simp
  show ?thesis
  proof (cases "length p \<le> length x")
    case True
    then show ?thesis using r by (intro exI [of _ "length p"]) simp
  next
    case False
    then have "length p - length x = Suc (length p - Suc (length x))"
      by simp
    then have "r = drop (length p - Suc (length x)) y"
      unfolding r drop_append using False by simp
    then show ?thesis
      using assms(2,3) by (auto dest: in_set_dropD)
  qed
qed

section \<open>Downloads\<close>

text \<open>In the form of a download the only equals sign stands behind the name of the field.\<close>

lemma download_form_skips:
  assumes p: "CHR ''='' \<notin> set p" and e: "needs (CHR ''='') e" "\<And>s. \<not> is_prefix q s \<Longrightarrow> matches e s = []"
    and q: "\<forall>j \<le> 8. \<not> is_prefix q (drop j ''download'' @ CHR ''='' # p)"
  shows "regex_search e (''download='' @ p) = None"
proof (rule search_None)
  fix a r assume ar: "''download='' @ p = a @ r"
  show "matches e r = []"
  proof (cases "CHR ''='' \<in> set r")
    case True
    have "''download'' @ CHR ''='' # p = a @ r"
      using ar by simp
    from suffix_of_field [OF this p True] obtain j where "j \<le> length ''download''" "r = drop j ''download'' @ CHR ''='' # p"
      by blast
    moreover have "length ''download'' = 8"
      by simp
    ultimately have "j \<le> 8" "r = drop j ''download'' @ CHR ''='' # p"
      by (simp only:)+
    then show ?thesis using e(2) q by blast
  next
    case False
    then show ?thesis using e(1) by (simp add: needs_def)
  qed
qed

lemma eight_steps:
  assumes "P 0 \<and> P 1 \<and> P 2 \<and> P 3 \<and> P 4 \<and> P 5 \<and> P 6 \<and> P 7 \<and> P (8 :: nat)"
  shows "\<forall>j \<le> 8. P j"
proof (intro allI impI)
  fix j :: nat assume "j \<le> 8"
  then have "j = 0 \<or> j = 1 \<or> j = 2 \<or> j = 3 \<or> j = 4 \<or> j = 5 \<or> j = 6 \<or> j = 7 \<or> j = 8"
    by auto
  then show "P j" using assms by blast
qed

lemma matches_Lit_prefix: "\<not> is_prefix q s \<Longrightarrow> matches (Lit q) s = []"
  by (cases "lit_matches q s") (auto simp: lit_matches_Some)

lemma matches_type_prefix: "\<not> is_prefix q s \<Longrightarrow> matches (Seq (type_regex q) e) s = []"
  by (simp add: type_regex_def matches_Lit_prefix del: matches.simps(1))

lemma download_form_kinds:
  assumes p: "CHR ''='' \<notin> set p" "CHR 0x22 \<notin> set p"
  shows "regex_search kNewfolderRegex (''download='' @ p) = None" "regex_search kRenameRegex (''download='' @ p) = None"
    "regex_search kMoveRegex (''download='' @ p) = None" "regex_search kDeleteRegex (''download='' @ p) = None"
    "\<not> contains (''download='' @ p) ''name=\"uploadfile\"''"
proof -
  show "regex_search kNewfolderRegex (''download='' @ p) = None" unfolding kNewfolderRegex_def seqs.simps
    by (rule download_form_skips [where q = "''newfolder=''", OF p(1)])
      (rule eight_steps | simp add: needs_Seq1 needs_Lit matches_Lit_prefix del: matches.simps(1))+
  show "regex_search kRenameRegex (''download='' @ p) = None" unfolding kRenameRegex_def seqs.simps
    by (rule download_form_skips [where q = "''rename''", OF p(1) _ matches_type_prefix])
      (rule eight_steps | simp add: needs_Seq1 needs_Seq2 needs_Lit)+
  show "regex_search kMoveRegex (''download='' @ p) = None" unfolding kMoveRegex_def seqs.simps
    by (rule download_form_skips [where q = "''move''", OF p(1) _ matches_type_prefix])
      (rule eight_steps | simp add: needs_Seq1 needs_Seq2 needs_Lit)+
  show "regex_search kDeleteRegex (''download='' @ p) = None" unfolding kDeleteRegex_def seqs.simps
    by (rule download_form_skips [where q = "''delete''", OF p(1) _ matches_type_prefix])
      (rule eight_steps | simp add: needs_Seq1 needs_Seq2 needs_Lit)+
  show "\<not> contains (''download='' @ p) ''name=\"uploadfile\"''"
    unfolding contains_def using p(2) by (subst find_str_None_char [of "CHR 0x22"]) simp_all
qed

lemma download_form_path:
  assumes "\<forall>c \<in> set p. name_char c"
  shows "regex_search kDownloadRegex (''download='' @ p) = Some ([p], [])"
  unfolding kDownloadRegex_def seqs.simps
  by (rule search_first, rule first_Lit_Seq) (use first_Grp [OF first_Many [of p name_char "[]"]] assms in simp)

section \<open>Text that looks like another form\<close>

lemma search_at:
  assumes "find_str (q @ [d]) p = None" "d \<notin> set q"
  shows "regex_search (Seq (Lit (q @ [d])) e) (p @ (q @ [d]) @ r) = regex_search (Seq (Lit (q @ [d])) e) ((q @ [d]) @ r)"
  using assms(1)
proof (induction p)
  case (Cons x p)
  have no: "\<not> is_prefix (q @ [d]) (x # p)" "find_str (q @ [d]) p = None"
    using Cons.prems by (auto split: if_splits)
  have "lit_matches (q @ [d]) ((x # p) @ (q @ [d]) @ r) = None"
  proof (rule ccontr)
    assume "lit_matches (q @ [d]) ((x # p) @ (q @ [d]) @ r) \<noteq> None"
    then obtain z where "(x # p) @ (q @ d # r) = q @ (d # z)"
      by (auto simp: lit_matches_Some)
    then consider us where "x # p = q @ us" "us @ q @ d # r = d # z" | us where "(x # p) @ us = q" "q @ d # r = us @ d # z"
      unfolding append_eq_append_conv2 by metis
    then show False
    proof cases
      case 1
      show False
      proof (cases us)
        case Nil
        then have "hd q = d" "q \<noteq> []"
          using 1 by (cases q; simp)+
        then show False using assms(2) hd_in_set by metis
      next
        case (Cons y ys)
        then show False using 1 no(1) by (simp add: is_prefix_iff)
      qed
    next
      case 2
      have us: "d \<notin> set us"
        using 2(1) assms(2) by auto
      have "q = takeWhile (\<lambda>c. c \<noteq> d) (q @ d # r)" "us = takeWhile (\<lambda>c. c \<noteq> d) (us @ d # z)"
        using assms(2) us by (simp_all add: takeWhile_tail)
      then have "q = us" using 2(2) by metis
      then show False using 2(1) by simp
    qed
  qed
  then have "regex_search (Seq (Lit (q @ [d])) e) ((x # p) @ (q @ [d]) @ r) = regex_search (Seq (Lit (q @ [d])) e) (p @ (q @ [d]) @ r)"
    by simp
  then show ?case using Cons.IH [OF no(2)] by (simp only:)
qed simp

definition form_head :: "string \<Rightarrow> string \<Rightarrow> string \<Rightarrow> string" where
  "form_head b k ty = ''--'' @ b @ crlf @ disposition k @ crlf @ ''Content-Type: '' @ ty @ crlf @ crlf"

lemma newfolder_in_file:
  assumes b: "header_text b" and k: "valid_filename k" and ty: "header_text ty" and m: "valid_filename m"
    and head: "\<not> contains (form_head b k ty) ''newfolder=''"
  shows "\<exists>rest. regex_search kNewfolderRegex (http_parse (multipart b k ty (''newfolder='' @ m))) = Some ([m], rest)"
proof -
  let ?t = "crlf @ ''--'' @ b @ ''--'' @ crlf"
  have mp: "multipart b k ty (''newfolder='' @ m) = form_head b k ty @ (''newfolder'' @ [CHR ''='']) @ m @ ?t"
    by (simp add: multipart_def form_head_def)
  have "CHR ''%'' \<notin> set (multipart b k ty (''newfolder='' @ m))" "CHR ''+'' \<notin> set (multipart b k ty (''newfolder='' @ m))"
    using b ty valid_filename_chars(2,3) [OF k] valid_filename_chars(2,3) [OF m]
    by (simp_all add: multipart_def header_text_def disposition_def crlf_def)
  from http_parse_plain [OF this, of "[]"] have plain: "http_parse (multipart b k ty (''newfolder='' @ m)) = multipart b k ty (''newfolder='' @ m)"
    by (simp only: append_Nil2 http_parse.simps(1))
  have "\<forall>c \<in> set m. name_char c"
  proof (cases "m = []")
    case False
    then have "entry_name m"
      by (rule valid_entry_name [OF m])
    then show ?thesis by (simp add: entry_name_def)
  qed simp
  moreover have "case ?t of [] \<Rightarrow> True | c # _ \<Rightarrow> \<not> name_char c"
    by (simp add: crlf_def name_char_def alpha_def is_digit_def)
  ultimately have "first_match (Grp (Many name_char)) (m @ ?t) [m] ?t"
    by (intro first_Grp first_Many)
  then have "first_match (Seq (Lit ''newfolder='') (Grp (Many name_char))) (''newfolder='' @ m @ ?t) [m] ?t"
    by (rule first_Lit_Seq)
  from search_first [OF this] have "regex_search (Seq (Lit (''newfolder'' @ [CHR ''=''])) (Grp (Many name_char)))
      ((''newfolder'' @ [CHR ''='']) @ m @ ?t) = Some ([m], ?t)"
    by simp
  moreover have "find_str (''newfolder'' @ [CHR ''='']) (form_head b k ty) = None" "CHR ''='' \<notin> set ''newfolder''"
    using head by (simp_all add: contains_def)
  from search_at [OF this, of "Grp (Many name_char)" "m @ ?t"] have "regex_search (Seq (Lit (''newfolder'' @ [CHR ''=''])) (Grp (Many name_char)))
      (form_head b k ty @ (''newfolder'' @ [CHR ''='']) @ m @ ?t) =
    regex_search (Seq (Lit (''newfolder'' @ [CHR ''=''])) (Grp (Many name_char))) ((''newfolder'' @ [CHR ''='']) @ m @ ?t)" .
  ultimately have "regex_search (Seq (Lit (''newfolder'' @ [CHR ''=''])) (Grp (Many name_char)))
      (form_head b k ty @ (''newfolder'' @ [CHR ''='']) @ m @ ?t) = Some ([m], ?t)"
    by (simp only:)
  moreover have "kNewfolderRegex = Seq (Lit (''newfolder'' @ [CHR ''=''])) (Grp (Many name_char))"
    by (simp add: kNewfolderRegex_def)
  ultimately show ?thesis
    unfolding plain unfolding mp by (intro exI [of _ ?t]) (simp only:)
qed

end
