(* ===== verification/Storage_Movable.thy ===== *)
theory Storage_Movable
  imports Storage_Correct "HOL-Library.Sublist"
begin

text \<open>
  The folders that the service offers as destinations of a move: what \<open>HandleQueryAllMovableDir\<close> collects while it visits the
  folders level after level.
\<close>

section \<open>Destinations\<close>

text \<open>
  \<open>places e p ms t\<close>: the paths of the folders of \<open>t\<close>, which is at the path \<open>ms\<close>, without the folder \<open>p\<close> and without those at or
  below \<open>e\<close>.
\<close>

fun places :: "string list \<Rightarrow> string list \<Rightarrow> string list \<Rightarrow> ftree \<Rightarrow> string list list" where
  "places e p ms (FFile i) = []"
| "places e p ms (FDir i es) =
     (if ms = e then [] else (if ms = p then [] else [ms]) @ concat (map (\<lambda>(k, t). places e p (ms @ [k]) t) es))"

lemma places_leaf: "leaf t \<Longrightarrow> places e p ms t = []"
  by (cases t) auto

lemma places_folder: "\<not> leaf t \<Longrightarrow> places e p ms t =
    (if ms = e then [] else (if ms = p then [] else [ms]) @ concat (map (\<lambda>(k, u). places e p (ms @ [k]) u) (subs t)))"
  by (cases t) auto

lemma prefix_snoc_same: "prefix e (ms @ [k]) \<Longrightarrow> \<not> prefix e ms \<or> e = ms \<Longrightarrow> e = ms \<or> e = ms @ [k]"
  by auto

lemma set_places:
  assumes "good t" "\<not> strict_prefix e ms"
  shows "ls \<in> set (places e p ms t) \<longleftrightarrow>
    (\<exists>ns x. ls = ms @ ns \<and> look t ns = Some x \<and> \<not> leaf x \<and> ls \<noteq> p \<and> \<not> prefix e ls)"
  using assms
proof (induction t arbitrary: ms rule: tree_induct)
  case (FFile i)
  have "look (FFile i) ns = Some x \<Longrightarrow> leaf x" for ns x
    by (cases ns) auto
  then show ?case by auto
next
  case (FDir i es)
  show ?case
  proof (cases "ms = e")
    case False
    then have e: "\<not> prefix e ms"
      using FDir.prems(2) by (auto simp: strict_prefix_def)
    have names: "distinct (map fst es)"
      using FDir.prems(1) by simp
    have sub: "ls \<in> set (places e p (ms @ [k]) t) \<longleftrightarrow>
        (\<exists>ns x. ls = (ms @ [k]) @ ns \<and> look t ns = Some x \<and> \<not> leaf x \<and> ls \<noteq> p \<and> \<not> prefix e ls)" if kt: "(k, t) \<in> set es" for k t
      by (rule FDir.IH [OF kt]) (use FDir.prems(1) kt e in \<open>auto simp: strict_prefix_def\<close>)
    have "(\<exists>ns x. ls = ms @ ns \<and> look (FDir i es) ns = Some x \<and> \<not> leaf x \<and> ls \<noteq> p \<and> \<not> prefix e ls) \<longleftrightarrow>
        ls = ms \<and> ls \<noteq> p \<or> (\<exists>k t. (k, t) \<in> set es \<and> (\<exists>ns x. ls = (ms @ [k]) @ ns \<and> look t ns = Some x \<and> \<not> leaf x \<and> ls \<noteq> p \<and> \<not> prefix e ls))"
      (is "?L \<longleftrightarrow> ?R")
    proof
      assume ?L
      then obtain ns x where x: "ls = ms @ ns" "look (FDir i es) ns = Some x" "\<not> leaf x" "ls \<noteq> p" "\<not> prefix e ls"
        by blast
      then show ?R
      proof (cases ns)
        case (Cons k ns')
        then obtain t where t: "map_of es k = Some t" "look t ns' = Some x"
          using x(2) by (auto split: option.splits)
        then have "ls = (ms @ [k]) @ ns'" "(k, t) \<in> set es"
          using x(1) Cons map_of_SomeD [OF t(1)] by simp_all
        then show ?thesis
          using t(2) x(3-5) by blast
      qed simp
    next
      assume ?R
      then consider "ls = ms" "ls \<noteq> p" | k t ns x where "(k, t) \<in> set es" "ls = (ms @ [k]) @ ns" "look t ns = Some x" "\<not> leaf x" "ls \<noteq> p" "\<not> prefix e ls"
        by blast
      then show ?L
      proof cases
        case 1
        then show ?thesis using e by (intro exI [of _ "[]"] exI [of _ "FDir i es"]) simp
      next
        case 2
        then have "look (FDir i es) (k # ns) = Some x"
          using map_of_is_SomeI [OF names] by simp
        then show ?thesis using 2 by (intro exI [of _ "k # ns"] exI [of _ x]) simp
      qed
    qed
    moreover have "ls \<in> set (places e p ms (FDir i es)) \<longleftrightarrow>
        ls = ms \<and> ls \<noteq> p \<or> (\<exists>k t. (k, t) \<in> set es \<and> ls \<in> set (places e p (ms @ [k]) t))"
      using False by auto
    ultimately show ?thesis
      using sub by blast
  qed (auto simp: prefix_def)
qed

lemma distinct_places: "good t \<Longrightarrow> distinct (places e p ms t)"
proof (induction t arbitrary: ms rule: tree_induct)
  case (FDir i es)
  have below: "prefix ms ls" if "ls \<in> set (places e p ms t)" for ls ms t
    using that
  proof (induction t arbitrary: ms rule: tree_induct)
    case (FDir i es)
    then show ?case by (auto split: if_splits dest: append_prefixD)
  qed simp
  have "distinct (concat (map (\<lambda>(k, t). places e p (ms @ [k]) t) es))"
    using FDir
  proof (induction es)
    case (Cons c es)
    obtain k t where c: "c = (k, t)" by (cases c)
    have "distinct (places e p (ms @ [k]) t)"
      using Cons.prems c by auto
    moreover have "distinct (concat (map (\<lambda>(k, t). places e p (ms @ [k]) t) es))"
      by (rule Cons.IH) (use Cons.prems in auto)
    moreover have False if l: "ls \<in> set (places e p (ms @ [k]) t)" "(k', t') \<in> set es" "ls \<in> set (places e p (ms @ [k']) t')" for ls k' t'
    proof -
      have "k' = k"
        using below [OF l(1)] below [OF l(3)] by (auto simp: prefix_def)
      then show False
        using Cons.prems(2) l(2) c by force
    qed
    ultimately show ?case
      by (auto simp: c)
  qed simp
  moreover have "ms \<notin> set (places e p (ms @ [k]) t)" for k t
    using below [of ms "ms @ [k]" t] by auto
  ultimately show ?case by auto
qed simp

section \<open>The loop\<close>

lemma same_place:
  assumes "distinct (ids t)" "look t ns = Some u" "look t ms = Some v" "tid u = tid v"
  shows "ns = ms"
proof -
  have "tid u \<in> set (ids v)" "tid v \<in> set (ids u)"
    using assms(4) tid_in_ids by metis+
  then obtain ls ls' where "ns = ms @ ls" "ms = ns @ ls'"
    using look_same_tid [OF assms(1-3)] look_same_tid [OF assms(1,3,2)] by blast
  then show ?thesis by simp
qed

definition below :: "string list \<Rightarrow> (string \<times> ftree) list \<Rightarrow> (string list \<times> ftree) list" where
  "below ms es = map (\<lambda>(k, u). (ms @ [k], u)) (filter (\<lambda>(k, u). \<not> leaf u) es)"

lemma subfolders_entries:
  assumes "\<And>k u. (k, u) \<in> set es \<Longrightarrow> \<exists>d. map_of h (tid u) = Some d \<and> d_file d = leaf u"
  shows "subfolders h (entries_of es) = Inr (map (tid \<circ> snd) (below ms es))"
  using assms
proof (induction es)
  case (Cons e es)
  obtain k u where e: "e = (k, u)" by (cases e)
  have "subfolders h (entries_of es) = Inr (map (tid \<circ> snd) (below ms es))"
    by (rule Cons.IH) (use Cons.prems in auto)
  then show ?case
    using Cons.prems [of k u] by (auto simp: e entries_of_def deref_def below_def)
qed (simp add: entries_of_def below_def)

lemma mset_below: "mset (concat (map (\<lambda>(ms, x). places e p ms x) (below ms es))) = mset (concat (map (\<lambda>(k, u). places e p (ms @ [k]) u) es))"
  by (induction es) (auto simp: below_def places_leaf)

lemma mset_entries:
  "mset es = mset es' \<Longrightarrow> mset (concat (map (\<lambda>(k, u). places e p (ms @ [k]) u) es)) = mset (concat (map (\<lambda>(k, u). places e p (ms @ [k]) u) es'))"
  unfolding mset_concat sum_mset_sum_list [symmetric] mset_map by simp

lemma size_below: "mset es = mset (subs x) \<Longrightarrow>
    sum_list (map (\<lambda>(ms, x). length (ids x)) (below ms es)) < length (ids x)"
proof -
  assume m: "mset es = mset (subs x)"
  have "sum_list (map (\<lambda>(ms, x). length (ids x)) (below ms es)) \<le> sum_list (map (\<lambda>(k, x). length (ids x)) es)"
    by (induction es) (auto simp: below_def)
  also have "\<dots> = sum_list (map (\<lambda>(k, x). length (ids x)) (subs x))"
    unfolding sum_mset_sum_list [symmetric] mset_map m ..
  also have "\<dots> < length (ids x)"
    by (cases x) (auto simp: length_concat comp_def split_beta')
  finally show ?thesis .
qed

lemma movable_loop_tree:
  assumes R: "rep_root shuffled h u t" and t: "wf_tree t" and iter: "iter_ok iter"
    and w: "look t ns = Some v" "look t (ns @ [k]) = Some w"
    and lo: "lo_dir lo = Some (tid w)" "lo_parent lo = Some (tid v)"
  shows "(\<And>ms x. (ms, x) \<in> set q \<Longrightarrow> look t ms = Some x \<and> \<not> leaf x) \<Longrightarrow>
    \<exists>ls. movable_loop iter h lo (map (tid \<circ> snd) q) acc = Some (Inr (acc @ map (\<lambda>ms. (path_text u ms, True)) ls)) \<and>
      mset ls = mset (concat (map (\<lambda>(ms, x). places (ns @ [k]) ns ms x) q))"
proof (induction "sum_list (map (\<lambda>(ms, x). length (ids x)) q)" arbitrary: q acc rule: less_induct)
  case less
  show ?case
  proof (cases q)
    case Nil
    then show ?thesis by (subst movable_loop.simps) simp
  next
    case (Cons c q')
    obtain ms x where c: "c = (ms, x)" by (cases c)
    have x: "look t ms = Some x" "\<not> leaf x"
      using less.prems [of ms x] Cons c by auto
    have q': "look t ms = Some x \<and> \<not> leaf x" if "(ms, x) \<in> set q'" for ms x
      using less.prems [of ms x] Cons that by simp
    have T: "distinct (ids t)" "good t"
      using t by (simp_all add: wf_tree_def)
    obtain d where d: "map_of h (tid w) = Some d" "d_file d = leaf w"
      using rep_object [OF R w(2)] by blast
    have skip: "\<not> leaf w \<and> tid w = tid x \<longleftrightarrow> ms = ns @ [k]"
      using same_place [OF T(1) w(2) x(1)] x w(2) by auto
    have par: "tid v = tid x \<longleftrightarrow> ms = ns"
      using same_place [OF T(1) w(1) x(1)] x(1) w(1) by auto
    obtain dx es where es: "map_of h (tid x) = Some dx" "iter (d_entries dx) = entries_of es" "mset es = mset (subs x)"
      using visited_entries [OF R T(2) x iter] by blast
    have kids: "look t (ms @ [k]) = Some y" if "(k, y) \<in> set es" for k y
      using look_entry [OF t x(1), of k y] that mset_eq_setD [OF es(3)] by simp
    have "subfolders h (entries_of es) = Inr (map (tid \<circ> snd) (below ms es))"
      by (rule subfolders_entries) (use kids rep_object [OF R] in blast)
    then have step: "movable_step iter h lo (tid x) =
        Inr (if ms = ns @ [k] then ([], [])
             else (if ms = ns then [] else [(path_text u ms, True)], map (tid \<circ> snd) (below ms es)))"
      using d es(1,2) lo skip par Path_look [OF R T(1) x(1)] by (auto simp: movable_step_def deref_def)
    let ?q = "if ms = ns @ [k] then q' else q' @ below ms es"
    let ?new = "if ms = ns @ [k] \<or> ms = ns then [] else [ms]"
    have "sum_list (map (\<lambda>(ms, x). length (ids x)) ?q) < sum_list (map (\<lambda>(ms, x). length (ids x)) q)"
      using size_below [OF es(3), of ms] ids_nonempty [of x] Cons c by (auto simp del: length_greater_0_conv)
    moreover have "look t ms' = Some y \<and> \<not> leaf y" if "(ms', y) \<in> set ?q" for ms' y
      using that q' kids by (auto simp: below_def split: if_splits)
    ultimately obtain ls where ls: "movable_loop iter h lo (map (tid \<circ> snd) ?q) (acc @ map (\<lambda>ms. (path_text u ms, True)) ?new) =
        Some (Inr ((acc @ map (\<lambda>ms. (path_text u ms, True)) ?new) @ map (\<lambda>ms. (path_text u ms, True)) ls))"
      "mset ls = mset (concat (map (\<lambda>(ms, x). places (ns @ [k]) ns ms x) ?q))"
      using less.hyps [of ?q "acc @ map (\<lambda>ms. (path_text u ms, True)) ?new"] by blast
    have "movable_loop iter h lo (map (tid \<circ> snd) q) acc = Some (Inr (acc @ map (\<lambda>ms. (path_text u ms, True)) (?new @ ls)))"
      using ls(1) step by (subst movable_loop.simps) (auto simp: Cons c)
    moreover have "mset (?new @ ls) = mset (concat (map (\<lambda>(ms, x). places (ns @ [k]) ns ms x) q))"
      using ls(2) mset_below [of "ns @ [k]" ns ms es] mset_entries [OF es(3), of "ns @ [k]" ns ms] x(2)
      by (simp add: Cons c places_folder)
    ultimately show ?thesis by blast
  qed
qed

section \<open>The request\<close>

text \<open>The folders to which the entry \<open>ns @ [k]\<close> can be moved: every folder but its own and those at or below it.\<close>

definition destination :: "(string list \<Rightarrow> fnode option) \<Rightarrow> string list \<Rightarrow> string \<Rightarrow> string list \<Rightarrow> bool" where
  "destination V ns k ms \<longleftrightarrow> V ms = Some Folder \<and> ms \<noteq> ns \<and> \<not> prefix (ns @ [k]) ms"

lemma movable_drive:
  assumes d: "drive nd u n t" and hn: "serves hn (node_link e) u"
    and p: "list_all entry_name (ns @ [k])" "look t (ns @ [k]) = Some w"
  shows "\<exists>r nd' ls. query_movable_dir hn (fp_of (ns @ [k])) nd = Some (Inr r, nd') \<and> resp_status r = SUCCESS \<and>
    sv_body r = Movable_dirs (map (\<lambda>ms. (path_text u ms, True)) ls) \<and> distinct ls \<and>
    (\<forall>ms. ms \<in> set ls \<longleftrightarrow> destination (shown nd u t) ns k ms) \<and> same_drive nd nd' u n t"
proof -
  let ?fp = "fp_of (ns @ [k])"
  have "\<exists>r nd'. with_handler hn QUERY_ALL_DIR (Query_all_file_to_move ?fp) nd = Some (Inr r, nd') \<and> (\<exists>ls. resp_status r = SUCCESS \<and>
    sv_body r = Movable_dirs (map (\<lambda>ms. (path_text u ms, True)) ls) \<and> distinct ls \<and>
    (\<forall>ms. ms \<in> set ls \<longleftrightarrow> destination (shown nd u t) ns k ms) \<and> same_drive nd nd' u n t)"
  proof (rule request_drive [OF d hn])
    fix st nd1
    assume st: "loaded st u n t (nval nd1 u kMetadataFp)" and d1: "drive nd1 u n t" "nval nd1 = nval nd"
    note L = loadedD [OF st]
    have hn': "iter_ok (hd_iter hn)" "hd_usr hn = u"
      using servesD [OF hn] by simp_all
    let ?lo = "\<lambda>v. \<lparr>lo_ok = True, lo_parent = Some (tid v), lo_dir = Some (tid w), lo_name = k\<rparr>"
    obtain v where v: "look t ns = Some v" "ValidatePathAndGetDir ?fp st = Inr (?lo v, st)"
      using validate_found [OF st p] by blast
    have "look t [] = Some t \<and> \<not> leaf t"
      using L(9) by simp
    from movable_loop_tree [OF L(4,6) hn'(1) v(1) p(2), of "?lo v" "[([], t)]" "[]"] this
    obtain ls where ls: "movable_loop (hd_iter hn) (s_heap st) (?lo v) [tid t] [] = Some (Inr (map (\<lambda>ms. (path_text u ms, True)) ls))"
      "mset ls = mset (places (ns @ [k]) ns [] t)"
      by auto
    have root: "\<not> strict_prefix (ns @ [k]) []"
      by simp
    have "distinct ls"
      using distinct_places [OF L(7)] mset_eq_imp_distinct_iff [OF ls(2)] by simp
    moreover have "ms \<in> set ls \<longleftrightarrow> destination (shown nd u t) ns k ms" for ms
      unfolding mset_eq_setD [OF ls(2)] set_places [OF L(7) root] destination_def shown_folder by auto
    moreover have "root_ptr st = Inr (tid t)"
      using L(1) by (simp add: root_ptr_def)
    ultimately show "\<exists>r st' nd'. HandleRequest hn QUERY_ALL_DIR (Query_all_file_to_move ?fp) st nd1 = Some (Inr (r, st'), nd') \<and>
      (\<exists>ls. resp_status r = SUCCESS \<and> sv_body r = Movable_dirs (map (\<lambda>ms. (path_text u ms, True)) ls) \<and> distinct ls \<and>
      (\<forall>ms. ms \<in> set ls \<longleftrightarrow> destination (shown nd u t) ns k ms) \<and> same_drive nd nd' u n t)"
      using ls(1) v(2) d1 hn'(2)
      by (simp add: HandleRequest_def HandleQueryAllMovableDir_def resp_status_def same_drive_def exI [of _ ls])
  qed
  then show ?thesis
    unfolding query_movable_dir_def by blast
qed

text \<open>
   The offered destinations are right.  For every file or folder of a drive, whatever the order in which the service visits the
  folders, the query ends and offers exactly the folders to which the entry can be moved, each of them once: not
  the folder it is in, and none of the folders at or below it.
\<close>

lemma movable_folders_are_complete:
  assumes d: "drive nd u n t" and hn: "serves hn (node_link e) u"
    and p: "list_all entry_name (ns @ [k])" "shown nd u t (ns @ [k]) \<noteq> None"
  shows "\<exists>r nd' ls. query_movable_dir hn (fp_of (ns @ [k])) nd = Some (Inr r, nd') \<and> resp_status r = SUCCESS \<and>
    sv_body r = Movable_dirs (map (\<lambda>ms. (path_text u ms, True)) ls) \<and> distinct ls \<and>
    set ls = {ms. shown nd u t ms = Some Folder \<and> ms \<noteq> ns \<and> \<not> prefix (ns @ [k]) ms} \<and> same_drive nd nd' u n t"
proof -
  obtain w where "look t (ns @ [k]) = Some w"
    using p(2) by (auto simp: shown_None)
  from movable_drive [OF d hn p(1) this] obtain r nd' ls where M: "query_movable_dir hn (fp_of (ns @ [k])) nd = Some (Inr r, nd')"
    "resp_status r = SUCCESS" "sv_body r = Movable_dirs (map (\<lambda>ms. (path_text u ms, True)) ls)" "distinct ls"
    "\<forall>ms. ms \<in> set ls \<longleftrightarrow> destination (shown nd u t) ns k ms" "same_drive nd nd' u n t"
    by blast
  have "set ls = {ms. shown nd u t ms = Some Folder \<and> ms \<noteq> ns \<and> \<not> prefix (ns @ [k]) ms}"
    using M(5) by (auto simp: destination_def)
  with M show ?thesis by blast
qed

end
