(* ===== verification/Storage_Web.thy ===== *)
theory Storage_Web
  imports Web_Correct Storage_Forms Storage_Movable
begin

text \<open>
  The pages of the file storage service on the drive of a user: the list of a folder, and the forms with which a browser
  uploads and downloads a file.
\<close>

section \<open>The handler of a page\<close>

lemma connect_serves:
  assumes "st_route st u = Some (node_link e)" "iter_ok (st_iter st)" "entry_name u"
  shows "serves (connect_drive st u) (node_link e) u"
  using assms by (simp add: connect_drive_def serves_def)

lemma same_drive_trans: "same_drive nd nd1 u n t \<Longrightarrow> same_drive nd1 nd2 u n t \<Longrightarrow> same_drive nd nd2 u n t"
  by (simp add: same_drive_def)

lemma same_drive_shown: "same_drive nd nd1 u n t \<Longrightarrow> shown nd1 u t = shown nd u t"
  by (simp add: same_drive_def shown_def)

section \<open>The list of a folder\<close>

lemma fp_of_Nil [simp]: "fp_of [] = []" "fp_of ns = [] \<longleftrightarrow> ns = []"
  by (cases ns; simp add: fp_of_def)+

lemma after_user_path [simp]:
  assumes "entry_name u"
  shows "after_user u (path_text u ns) = Inr (fp_of ns)"
proof -
  obtain c cs where u: "u = c # cs" "c \<noteq> CHR ''/''"
    using assms by (cases u) (auto simp: entry_name_def)
  have "find_str u (path_text u ns) = Some 1"
    using u by (cases "concat (map ((#) CHR ''/'') ns)") (auto simp: path_text_def is_prefix_iff)
  then show ?thesis
    by (simp add: after_user_def substr_from_def path_text_def fp_of_def)
qed

definition option_text :: "string list \<Rightarrow> string" where
  "option_text ms = (if ms = [] then [] else ''<option value=\"'' @ fp_of ms @ ''\">'' @ fp_of ms @ ''</option>'')"

lemma move_options_text:
  "entry_name u \<Longrightarrow> move_options u (map (\<lambda>ms. (path_text u ms, True)) ls) = Inr (concat (map option_text ls))"
  by (induction ls) (simp_all add: option_text_def)

text \<open>
  \<open>item_shows\<close>: the text of the entry \<open>k\<close> with number \<open>j\<close>, whose options are the folders to which it can be moved, in some
  order.
\<close>

definition item_shows :: "pages \<Rightarrow> string \<Rightarrow> (string list \<Rightarrow> fnode option) \<Rightarrow> string list \<Rightarrow> nat \<times> string \<times> ftree \<Rightarrow> string \<Rightarrow> bool" where
  "item_shows pages u V ns e s \<longleftrightarrow>
     (case e of (j, k, x) \<Rightarrow> \<exists>ls. distinct ls \<and> set ls = {ms. destination V ns k ms} \<and>
        s = replace (file_item pages (dir_path ns) j (fp_of (ns @ [k])) (path_text u (ns @ [k]), \<not> leaf x)) ''$optionholder''
              (concat (map option_text ls)))"

lemma file_items_drive:
  assumes hn: "serves hn (node_link e) u" and names: "list_all entry_name ns"
  shows "drive nd u n t \<Longrightarrow> (\<And>k x. (k, x) \<in> set es \<Longrightarrow> entry_name k \<and> look t (ns @ [k]) = Some x) \<Longrightarrow>
    \<exists>items nd'. file_items pages hn (dir_path ns) j (listing u ns es) nd = Some (Inr (concat items), nd') \<and>
      list_all2 (item_shows pages u (shown nd u t) ns) (enumerate j es) items \<and> same_drive nd nd' u n t"
proof (induction es arbitrary: nd j)
  case Nil
  then show ?case by (auto simp: listing_def same_drive_def)
next
  case (Cons c es)
  obtain k x where c: "c = (k, x)" by (cases c)
  have x: "entry_name k" "look t (ns @ [k]) = Some x"
    using Cons.prems(2) [of k x] c by simp_all
  have u: "hd_usr hn = u" "entry_name u"
    using servesD [OF hn] by simp_all
  have "list_all entry_name (ns @ [k])"
    using names x(1) by simp
  from movable_drive [OF Cons.prems(1) hn this x(2)] obtain r nd1 ls where M:
    "query_movable_dir hn (fp_of (ns @ [k])) nd = Some (Inr r, nd1)" "sv_body r = Movable_dirs (map (\<lambda>ms. (path_text u ms, True)) ls)"
    "distinct ls" "\<forall>ms. ms \<in> set ls \<longleftrightarrow> destination (shown nd u t) ns k ms" "same_drive nd nd1 u n t"
    by blast
  have d1: "drive nd1 u n t" "shown nd1 u t = shown nd u t"
    using M(5) same_drive_shown by (auto simp: same_drive_def)
  have "\<exists>items nd'. file_items pages hn (dir_path ns) (Suc j) (listing u ns es) nd1 = Some (Inr (concat items), nd') \<and>
      list_all2 (item_shows pages u (shown nd1 u t) ns) (enumerate (Suc j) es) items \<and> same_drive nd1 nd' u n t"
    by (rule Cons.IH [OF d1(1)]) (use Cons.prems(2) in auto)
  then obtain items nd' where I: "file_items pages hn (dir_path ns) (Suc j) (listing u ns es) nd1 = Some (Inr (concat items), nd')"
    "list_all2 (item_shows pages u (shown nd u t) ns) (enumerate (Suc j) es) items" "same_drive nd1 nd' u n t"
    unfolding d1(2) by blast
  let ?s = "replace (file_item pages (dir_path ns) j (fp_of (ns @ [k])) (path_text u (ns @ [k]), \<not> leaf x)) ''$optionholder''
    (concat (map option_text ls))"
  have "file_items pages hn (dir_path ns) j (listing u ns (c # es)) nd = Some (Inr (concat (?s # items)), nd')"
    using M(1,2) I(1) u
    by (simp add: listing_def c sbind_Some [where m = "query_movable_dir hn (fp_of (ns @ [k]))", OF M(1)]
        sbind_Some [where m = "file_items pages hn (dir_path ns) (Suc j) (listing u ns es)", OF I(1)] movable_entries_def move_options_text)
      (simp add: sbind_def)
  moreover have "item_shows pages u (shown nd u t) ns (j, c) ?s"
    using M(3,4) by (auto simp: item_shows_def c)
  ultimately show ?case
    using I(2) same_drive_trans [OF M(5) I(3)] by (intro exI [of _ "?s # items"] exI [of _ nd']) simp
qed

lemma image_mset_list: "mset (map f as) = mset xs \<Longrightarrow> \<exists>bs. mset bs = mset as \<and> map f bs = xs"
proof (induction xs arbitrary: as)
  case (Cons x xs)
  then have "x \<in> set (map f as)"
    by (metis list.set_intros(1) mset_eq_setD)
  then obtain a where a: "a \<in> set as" "f a = x" by auto
  then obtain as1 as2 where as: "as = as1 @ a # as2"
    by (meson split_list)
  then have "mset (map f (as1 @ as2)) = mset xs"
    using Cons.prems a(2) by simp
  from Cons.IH [OF this] obtain bs where "mset bs = mset (as1 @ as2)" "map f bs = xs"
    by blast
  then show ?case
    using as a(2) by (intro exI [of _ "a # bs"]) simp
qed simp

text \<open>The page of a folder.\<close>

definition page_shows :: "pages \<Rightarrow> string \<Rightarrow> ftree \<Rightarrow> (string list \<Rightarrow> fnode option) \<Rightarrow> string list \<Rightarrow> response \<Rightarrow> response \<Rightarrow> bool" where
  "page_shows pages u t V ns r0 r \<longleftrightarrow>
     (\<exists>v es items. look t ns = Some v \<and> mset es = mset (subs v) \<and>
        list_all2 (item_shows pages u V ns) (enumerate 1 es) items \<and>
        r = set_body (replace (folder_page pages (''/file'' @ fp_of ns) (dir_path ns)) ''$one_file_class'' (concat items)) r0)"

lemma display_drive:
  assumes d: "drive nd u n t" and hn: "serves hn (node_link e) u" and p: "list_all entry_name ns" "look t ns = Some v" "\<not> leaf v"
  shows "\<exists>r nd'. display_files pages hn (''/file'' @ fp_of ns) r0 nd = Some (Inr r, nd') \<and>
    page_shows pages u t (shown nd u t) ns r0 r \<and> same_drive nd nd' u n t"
proof -
  obtain q nd1 xs where Q: "query_dir hn (dir_path ns) nd = Some (Inr q, nd1)" "resp_status q = SUCCESS"
    "sv_body q = Dir_info (path_text u ns) xs" "mset xs = mset (listing u ns (subs v))" "same_drive nd nd1 u n t"
    using query_drive [OF d hn p] by blast
  obtain es where es: "mset es = mset (subs v)" "listing u ns es = xs"
    using image_mset_list [of "\<lambda>(k, x). (path_text u (ns @ [k]), \<not> leaf x)" "subs v" xs] Q(4) by (auto simp: listing_def)
  have d1: "drive nd1 u n t" "shown nd1 u t = shown nd u t"
    using Q(5) same_drive_shown by (auto simp: same_drive_def)
  have "entry_name k \<and> look t (ns @ [k]) = Some x" if "(k, x) \<in> set es" for k x
    using that mset_eq_setD [OF es(1)] look_entry [OF driveD(5) [OF d] p(2)] good_sub [OF look_good [OF driveD(6) [OF d] p(2)]] by blast
  from file_items_drive [OF hn p(1) d1(1) this, of es pages 1] obtain items nd2 where I:
    "file_items pages hn (dir_path ns) 1 xs nd1 = Some (Inr (concat items), nd2)"
    "list_all2 (item_shows pages u (shown nd u t) ns) (enumerate 1 es) items" "same_drive nd1 nd2 u n t"
    unfolding es(2) d1(2) by blast
  have dir: "(if 5 < length (''/file'' @ fp_of ns) then drop 5 (''/file'' @ fp_of ns) else ''/'') = dir_path ns"
    by (simp add: dir_path_def)
  have "display_files pages hn (''/file'' @ fp_of ns) r0 nd =
    Some (Inr (set_body (replace (folder_page pages (''/file'' @ fp_of ns) (dir_path ns)) ''$one_file_class'' (concat items)) r0), nd2)"
    unfolding display_files_def Let_def dir
    using Q(2,3) by (simp add: sbind_Some [where m = "query_dir hn (dir_path ns)", OF Q(1)] dir_entries_def
        sbind_Some [where m = "file_items pages hn (dir_path ns) (Suc 0) xs", OF I(1) [unfolded One_nat_def]])
  then show ?thesis
    using I(2) es(1) p(2) same_drive_trans [OF Q(5) I(3)] unfolding page_shows_def by blast
qed

section \<open>Uploading and downloading\<close>

text \<open>A request for the storage pages goes to their handler.\<close>

lemma respond_files:
  assumes "rq_path rq = ''/file'' @ p" "rq_username rq \<noteq> []"
  shows "respond st rq w = map_option (\<lambda>(res, s1). (res, w\<lparr>w_store := s1\<rparr>)) (storage_handler st rq (w_store w))"
  using assms by (simp add: respond_def func_mp_def)

text \<open>The way to a drive: the site leads to a node that has it, and unordered maps are visited completely.\<close>

definition reaches :: "('m, node, 'x) store_site_scheme \<Rightarrow> string \<Rightarrow> ('m, node) link \<Rightarrow> bool" where
  "reaches st u l \<longleftrightarrow> st_route st u = Some l \<and> iter_ok (st_iter st)"

lemma reaches_serves: "reaches st u (node_link e) \<Longrightarrow> drive nd u n t \<Longrightarrow> serves (connect_drive st u) (node_link e) u"
  using connect_serves [of st u e] by (simp add: reaches_def drive_def)

definition files_response :: response where
  "files_response = empty_response\<lparr>rs_status := OK, rs_headers := [(CONTENT_TYPE, ''text/html'')]\<rparr>"

lemma new_path_to:
  assumes "list_all entry_name (ns @ [k])"
  shows "path_to ((if 6 < length (''/file'' @ fp_of ns) then ''/'' @ drop 6 (''/file'' @ fp_of ns) @ ''/'' else []) @ k) (ns @ [k])"
proof (cases ns)
  case Nil
  then show ?thesis by (simp add: path_to_def fp_of_def)
next
  case (Cons m ms)
  then have "m \<noteq> []"
    using assms by (simp add: entry_name_def)
  then show ?thesis
    using Cons by (simp add: path_to_def fp_of_def)
qed

lemma upload_page:
  assumes d: "drive nd u n t" and site: "reaches st u (node_link e)"
    and p: "list_all entry_name ns" "valid_filename k" "k \<noteq> []" "shown nd u t ns = Some Folder" "shown nd u t (ns @ [k]) = None"
    and form: "header_text b" "header_text ty" "length (multipart b k ty c) < 2 ^ 31"
      "\<not> contains (http_parse (multipart b k ty c)) ''newfolder=''"
    and n: "n + 1 < 2 ^ 31" "length (meta_text (n + 1) u (add_at ns k (FFile (n + 1)) t)) < 2 ^ 31"
  shows "\<exists>r nd' t'. storage_post (st_pages st) (connect_drive st u) (''/file'' @ fp_of ns) (multipart b k ty c) files_response nd =
      Some (Inr r, nd') \<and> drive nd' u (n + 1) t' \<and> shown nd' u t' = place (ns @ [k]) (Doc c) (shown nd u t) \<and>
    page_shows (st_pages st) u t' (shown nd' u t') ns files_response r \<and> (\<forall>w. w \<noteq> u \<longrightarrow> nval nd' w = nval nd w)"
proof -
  note hn = reaches_serves [OF site d]
  have names: "list_all entry_name (ns @ [k])"
    using p(1) valid_entry_name [OF p(2,3)] by simp
  let ?hn = "connect_drive st u" and ?path = "''/file'' @ fp_of ns" and ?body = "http_parse (multipart b k ty c)"
  define fp where "fp = (if 6 < length ?path then ''/'' @ drop 6 ?path @ ''/'' else []) @ k"
  have to: "path_to fp (ns @ [k])"
    unfolding fp_def by (rule new_path_to [OF names])
  have "length c < 2 ^ 31"
    using form(3) by (simp add: multipart_def)
  from upload_drive [OF d hn to names p(4,5) this n] obtain q nd1 t' where U:
    "upload_file ?hn fp c nd = Some (Inr q, nd1)" "resp_status q = SUCCESS" "drive nd1 u (n + 1) t'"
    "shown nd1 u t' = place (ns @ [k]) (Doc c) (shown nd u t)" "\<forall>w. w \<noteq> u \<longrightarrow> nval nd1 w = nval nd w"
    by blast
  have "shown nd1 u t' ns = Some Folder"
    using p(4) by (simp add: U(4) place_def graft_def)
  then obtain v where v: "look t' ns = Some v" "\<not> leaf v"
    unfolding shown_folder by blast
  from display_drive [OF U(3) hn p(1) v, of "st_pages st" files_response] obtain r nd2 where D:
    "display_files (st_pages st) ?hn ?path files_response nd1 = Some (Inr r, nd2)"
    "page_shows (st_pages st) u t' (shown nd1 u t') ns files_response r" "same_drive nd1 nd2 u (n + 1) t'"
    by blast
  have "regex_search kNewfolderRegex ?body = None"
    unfolding kNewfolderRegex_def seqs.simps by (rule search_Lit) (use form(4) in \<open>simp add: contains_def\<close>)
  then have "storage_post (st_pages st) ?hn ?path (multipart b k ty c) files_response =
      new_file (st_pages st) ?hn ?path ?body (multipart b k ty c) files_response"
    using get_file_name_multipart(2) [OF form(1) p(2)] by (simp add: storage_post_def Let_def)
  also have "\<dots> = sbind (upload_file ?hn fp c) (show_changed (st_pages st) ?hn ?path ''CANNOT UPLOAD FILE'' files_response)"
    unfolding new_file_def Let_def get_file_name_multipart(1) [OF form(1) p(2)] get_file_content_multipart [OF form(1) p(2) form(2,3)]
      sbind_return fp_def using p(2) by (simp only: if_True)
  finally have P: "storage_post (st_pages st) ?hn ?path (multipart b k ty c) files_response =
    sbind (upload_file ?hn fp c) (show_changed (st_pages st) ?hn ?path ''CANNOT UPLOAD FILE'' files_response)" .
  have "storage_post (st_pages st) ?hn ?path (multipart b k ty c) files_response nd = Some (Inr r, nd2)"
    unfolding P sbind_Some [where m = "upload_file ?hn fp c", OF U(1)] show_changed_def using U(2) D(1) by simp
  moreover have "drive nd2 u (n + 1) t'" "shown nd2 u t' = shown nd1 u t'" "nval nd2 = nval nd1"
    using D(3) by (simp_all add: same_drive_def shown_def)
  ultimately show ?thesis
    using U(4,5) D(2) by (intro exI [of _ r] exI [of _ nd2] exI [of _ t']) simp
qed

lemma last_part_slash: "CHR ''/'' \<notin> set k \<Longrightarrow> last_part (a @ CHR ''/'' # k) = k"
  by (simp add: last_part_def find_last_char_append)

text \<open>What is sent for a file: its bytes, under its name.\<close>

definition sent_file :: "string \<Rightarrow> string \<Rightarrow> response" where
  "sent_file k c = set_body c (files_response\<lparr>rs_headers := put_header CONTENT_DISPOSITION (''attachment; filename='' @ k @ '';'')
     (put_header CONTENT_TYPE (download_type k) (rs_headers files_response))\<rparr>)"

lemma download_page:
  assumes d: "drive nd u n t" and site: "reaches st u (node_link e)"
    and p: "list_all valid_filename (ns @ [k])" "[] \<notin> set (ns @ [k])" "shown nd u t (ns @ [k]) = Some (Doc c)" "c \<noteq> []"
    and form: "http_parse raw = ''download='' @ fp_of (ns @ [k])"
  shows "\<exists>nd'. storage_post (st_pages st) (connect_drive st u) path raw files_response nd = Some (Inr (sent_file k c), nd') \<and>
    same_drive nd nd' u n t"
proof -
  have names: "list_all entry_name (ns @ [k])"
    using p(1,2) valid_entry_name by (auto simp: list_all_iff)
  from download_drive [OF d reaches_serves [OF site d] names p(3,4)] obtain q nd' where Q:
    "download_file (connect_drive st u) (fp_of (ns @ [k])) nd = Some (Inr q, nd')" "resp_status q = SUCCESS" "sv_body q = File_download c"
    "same_drive nd nd' u n t"
    by blast
  have "CHR ''='' \<notin> set m \<and> CHR 0x22 \<notin> set m \<and> (\<forall>c \<in> set m. name_char c)" if "m \<in> set (ns @ [k])" for m
    using that p(1) names valid_filename_chars [of m] unfolding list_all_iff entry_name_def by blast
  then have chars: "CHR ''='' \<notin> set (fp_of (ns @ [k]))" "CHR 0x22 \<notin> set (fp_of (ns @ [k]))" "\<forall>c \<in> set (fp_of (ns @ [k])). name_char c"
    unfolding fp_of_def by (auto simp: name_char_def)
  have "last_part (''download='' @ fp_of (ns @ [k])) = k"
    using last_part_slash [of k "''download='' @ fp_of ns"] names by (simp add: fp_of_def)
  then have "storage_post (st_pages st) (connect_drive st u) path raw files_response nd = Some (Inr (sent_file k c), nd')"
    unfolding storage_post_def form Let_def download_form_kinds [OF chars(1,2)] download_form_path [OF chars(3)]
    using download_form_kinds(5) [OF chars(1,2)] Q(2,3)
    by (simp add: send_file_def Let_def sbind_Some [where m = "download_file (connect_drive st u) (fp_of (ns @ [k]))", OF Q(1)]
        file_download_def sent_file_def)
  then show ?thesis
    using Q(4) by blast
qed

section \<open>Properties\<close>

lemma handler_post:
  "rq_method rq = ''POST'' \<Longrightarrow> rq_username rq = u \<Longrightarrow>
    storage_handler st rq = storage_post (st_pages st) (connect_drive st u) (rq_path rq) (rq_body rq) files_response"
  by (simp add: storage_handler_def files_response_def)

text \<open>A form that a user posts to the page of a folder.\<close>

definition posts :: "request \<Rightarrow> string \<Rightarrow> string list \<Rightarrow> string \<Rightarrow> bool" where
  "posts rq u ns body \<longleftrightarrow> rq_username rq = u \<and> rq_method rq = ''POST'' \<and> rq_path rq = ''/file'' @ fp_of ns \<and> rq_body rq = body"

lemma respond_post:
  assumes "posts rq u ns body" "u \<noteq> []"
    "storage_post (st_pages st) (connect_drive st u) (''/file'' @ fp_of ns) body files_response (w_store w) = Some (Inr r, nd)"
  shows "respond st rq w = Some (Inr r, w\<lparr>w_store := nd\<rparr>)"
  using assms respond_files [of rq "fp_of ns" st w] handler_post [of rq u st] by (simp add: posts_def)

lemma drive_user: "drive nd u n t \<Longrightarrow> u \<noteq> []"
  by (auto simp: drive_def entry_name_def)

text \<open>
  C5. A file that is uploaded with a browser comes back.  Posting the form of a new file to the page of a folder answers the page of this
  folder and puts exactly the file on the drive, byte by byte, also when it holds carriage returns, boundaries or bytes
  that are no text; posting the form of a download, in any encoding a browser may choose, answers exactly these bytes under the name of the
  file.  The data of the other users and the sessions stay as they are.  The text of the form must not contain \<open>newfolder=\<close>.
\<close>

theorem page_upload_then_download:
  assumes d: "drive (w_store w) u n t" and site: "reaches st u (node_link e)"
    and p: "list_all valid_filename (ns @ [k])" "[] \<notin> set (ns @ [k])"
      "shown (w_store w) u t ns = Some Folder" "shown (w_store w) u t (ns @ [k]) = None"
    and up: "posts rq u ns (multipart b k ty c)" "header_text b" "header_text ty" "length (multipart b k ty c) < 2 ^ 31"
      "\<not> contains (http_parse (multipart b k ty c)) ''newfolder=''"
    and c: "c \<noteq> []" and n: "n + 1 < 2 ^ 31" "length (meta_text (n + 1) u (add_at ns k (FFile (n + 1)) t)) < 2 ^ 31"
    and down: "posts rq' u ms (''download='' @ concat es)" "list_all2 encodes (fp_of (ns @ [k])) es"
  shows "\<exists>r nd1 nd2 t'. respond st rq w = Some (Inr r, w\<lparr>w_store := nd1\<rparr>) \<and>
    page_shows (st_pages st) u t' (shown nd1 u t') ns files_response r \<and> drive nd1 u (n + 1) t' \<and>
    shown nd1 u t' = place (ns @ [k]) (Doc c) (shown (w_store w) u t) \<and> (\<forall>v. v \<noteq> u \<longrightarrow> nval nd1 v = nval (w_store w) v) \<and>
    respond st rq' (w\<lparr>w_store := nd1\<rparr>) = Some (Inr (sent_file k c), w\<lparr>w_store := nd2\<rparr>) \<and> nval nd2 = nval nd1"
proof -
  have k: "list_all entry_name ns" "valid_filename k" "k \<noteq> []"
    using p(1,2) valid_entry_name by (auto simp: list_all_iff)
  from upload_page [OF d site k p(3,4) up(2-5) n] obtain r nd1 t' where U:
    "storage_post (st_pages st) (connect_drive st u) (''/file'' @ fp_of ns) (multipart b k ty c) files_response (w_store w) = Some (Inr r, nd1)"
    "drive nd1 u (n + 1) t'" "shown nd1 u t' = place (ns @ [k]) (Doc c) (shown (w_store w) u t)"
    "page_shows (st_pages st) u t' (shown nd1 u t') ns files_response r" "\<forall>v. v \<noteq> u \<longrightarrow> nval nd1 v = nval (w_store w) v"
    by blast
  have there: "shown nd1 u t' (ns @ [k]) = Some (Doc c)"
    by (simp add: U(3) place_def graft_def single_def)
  have "http_parse (''download='' @ concat es) = ''download='' @ fp_of (ns @ [k])"
    using http_parse_roundtrip [of "fp_of (ns @ [k])" es] down(2) http_parse_plain [of "''download=''" "concat es"] by simp
  from download_page [OF U(2) site p(1,2) there c this] obtain nd2 where D:
    "storage_post (st_pages st) (connect_drive st u) (''/file'' @ fp_of ms) (''download='' @ concat es) files_response nd1 =
      Some (Inr (sent_file k c), nd2)" "same_drive nd1 nd2 u (n + 1) t'"
    by blast
  have "respond st rq w = Some (Inr r, w\<lparr>w_store := nd1\<rparr>)"
    by (rule respond_post [OF up(1) drive_user [OF d] U(1)])
  moreover have "respond st rq' (w\<lparr>w_store := nd1\<rparr>) = Some (Inr (sent_file k c), w\<lparr>w_store := nd2\<rparr>)"
    using respond_post [OF down(1) drive_user [OF d], of st "w\<lparr>w_store := nd1\<rparr>"] D(1) by simp
  ultimately show ?thesis
    using U(2-5) D(2) by (intro exI [of _ r] exI [of _ nd1] exI [of _ nd2] exI [of _ t']) (simp add: same_drive_def)
qed

definition posting :: "string \<Rightarrow> string list \<Rightarrow> string \<Rightarrow> request" where
  "posting u ns body = empty_request\<lparr>rq_username := u, rq_method := ''POST'', rq_path := ''/file'' @ fp_of ns, rq_body := body\<rparr>"

lemma posts_posting [simp]: "posts (posting u ns body) u ns body"
  by (simp add: posts_def posting_def)

lemma example_reaches: "reaches example_site ''amy'' (node_link example_env)"
  by (simp add: reaches_def example_site_def iter_ok_def)

lemma example_world_store [simp]: "w_store (example_world nd) = nd"
  by (simp add: example_world_def)

theorem page_upload_then_download_witness:
  "\<exists>nd r nd1 nd2. respond example_site (posting ''amy'' [''a''] (multipart ''XY'' ''new.txt'' ''text/plain'' ''hello'')) (example_world nd) =
      Some (Inr r, (example_world nd)\<lparr>w_store := nd1\<rparr>) \<and>
    respond example_site (posting ''amy'' [] (''download='' @ concat (map escape ''/a/new.txt''))) ((example_world nd)\<lparr>w_store := nd1\<rparr>) =
      Some (Inr (sent_file ''new.txt'' ''hello''), (example_world nd)\<lparr>w_store := nd2\<rparr>)"
proof -
  obtain nd where nd: "drive nd ''amy'' 5 example_tree"
    using example_tree_drive by blast
  let ?w = "example_world nd"
  have d: "drive (w_store ?w) ''amy'' 5 example_tree"
    using nd by simp
  have s: "shown (w_store ?w) ''amy'' example_tree [''a''] = Some Folder" "shown (w_store ?w) ''amy'' example_tree ([''a''] @ [''new.txt'']) = None"
    by (simp_all add: shown_folder shown_None example_tree_def)
  have p: "list_all valid_filename ([''a''] @ [''new.txt''])" "[] \<notin> set ([''a''] @ [''new.txt''])" "header_text ''XY''" "header_text ''text/plain''"
    "''hello'' \<noteq> []" "(5 :: int) + 1 < 2 ^ 31"
    by (simp_all add: valid_filename_def valid_char_def alpha_def is_digit_def header_text_def)
  have l: "length (multipart ''XY'' ''new.txt'' ''text/plain'' ''hello'') = 120"
    "\<not> contains (http_parse (multipart ''XY'' ''new.txt'' ''text/plain'' ''hello'')) ''newfolder=''"
    by code_simp+
  have m: "length (meta_text (5 + 1) ''amy'' (add_at [''a''] ''new.txt'' (FFile (5 + 1)) example_tree)) < 1000"
    by code_simp
  have e: "list_all2 encodes (fp_of ([''a''] @ [''new.txt''])) (map escape ''/a/new.txt'')"
    by (simp add: fp_of_def encodes_def)
  show ?thesis
    using page_upload_then_download [OF d example_reaches p(1,2) s posts_posting p(3,4) _ l(2) p(5,6) _ posts_posting e] l(1) m
    by fastforce
qed



text \<open>
  C8. A file is taken for a request to make a folder.  If the bytes of an uploaded file are \<open>newfolder=\<close> and a name, then the
  file is not stored: a folder of that name appears instead, and the answer is the page of the folder, as after a successful upload.
\<close>

theorem uploaded_text_makes_folder:
  assumes d: "drive (w_store w) u n t" and site: "reaches st u (node_link e)"
    and p: "list_all entry_name ns" "valid_filename k" "shown (w_store w) u t ns = Some Folder"
      "shown (w_store w) u t (ns @ [k]) = None"
    and m: "valid_filename m" "m \<noteq> []" "m \<noteq> k" "shown (w_store w) u t (ns @ [m]) = None"
    and up: "posts rq u ns (multipart b k ty (''newfolder='' @ m))" "header_text b" "header_text ty"
      "\<not> contains (form_head b k ty) ''newfolder=''"
    and n: "n + 1 < 2 ^ 31" "length (meta_text (n + 1) u (add_at ns m (FDir (n + 1) []) t)) < 2 ^ 31"
  shows "\<exists>r nd t'. respond st rq w = Some (Inr r, w\<lparr>w_store := nd\<rparr>) \<and> drive nd u (n + 1) t' \<and>
    page_shows (st_pages st) u t' (shown nd u t') ns files_response r \<and>
    shown nd u t' = place (ns @ [m]) Folder (shown (w_store w) u t) \<and> shown nd u t' (ns @ [k]) = None"
proof -
  note hn = reaches_serves [OF site d]
  let ?hn = "connect_drive st u" and ?path = "''/file'' @ fp_of ns" and ?raw = "multipart b k ty (''newfolder='' @ m)"
  have names: "list_all entry_name (ns @ [m])"
    using p(1) valid_entry_name [OF m(1,2)] by simp
  obtain v where v: "look t ns = Some v" "\<not> leaf v" "look t (ns @ [m]) = None"
    using p(3) m(4) by (auto simp: shown_folder shown_None)
  let ?q = "Dir_create_or_query_req (fp_of (ns @ [m]))"
  have q: "creates DIR_CREATE ?q (fp_of (ns @ [m]))" "upload_content ?q = []"
    by (simp_all add: creates_def upload_content_def)
  obtain r1 nd1 t' where C: "create_dir_at ?hn (fp_of (ns @ [m])) (w_store w) = Some (Inr r1, nd1)" "resp_status r1 = SUCCESS"
    "drive nd1 u (n + 1) t'" "shown nd1 u t' = place (ns @ [m]) Folder (shown (w_store w) u t)"
    using creation_drive [OF d hn q(1) path_to_fp names v n(1)] q(2) n(2)
    by (auto simp: fresh_node_def create_dir_at_def create_or_query_dir_def)
  have "shown nd1 u t' ns = Some Folder"
    using p(3) by (simp add: C(4) place_def graft_def)
  then obtain v' where v': "look t' ns = Some v'" "\<not> leaf v'"
    unfolding shown_folder by blast
  from display_drive [OF C(3) hn p(1) v', of "st_pages st" files_response] obtain r nd2 where D:
    "display_files (st_pages st) ?hn ?path files_response nd1 = Some (Inr r, nd2)"
    "page_shows (st_pages st) u t' (shown nd1 u t') ns files_response r" "same_drive nd1 nd2 u (n + 1) t'"
    by blast
  obtain rest where "regex_search kNewfolderRegex (http_parse ?raw) = Some ([m], rest)"
    using newfolder_in_file [OF up(2) p(2) up(3) m(1) up(4)] by blast
  then have "storage_post (st_pages st) ?hn ?path ?raw files_response = new_folder (st_pages st) ?hn ?path m files_response"
    by (simp add: storage_post_def)
  moreover have "new_path ?path m = Inr (fp_of (ns @ [m]))"
  proof (cases ns rule: rev_cases)
    case Nil
    then show ?thesis by (simp add: new_path_def substr_from_def fp_of_def)
  next
    case (snoc ms l)
    then have "l \<noteq> []" "CHR ''/'' \<notin> set l"
      using p(1) by (auto simp: entry_name_def)
    then have "last l \<noteq> CHR ''/''"
      using last_in_set by metis
    then show ?thesis
      using snoc \<open>l \<noteq> []\<close> by (simp add: new_path_def substr_from_def fp_of_def)
  qed
  ultimately have P: "storage_post (st_pages st) ?hn ?path ?raw files_response =
      sbind (create_dir_at ?hn (fp_of (ns @ [m]))) (show_changed (st_pages st) ?hn ?path ''CANNOT CREATE FOLDER'' files_response)"
    using m(1) by (simp add: new_folder_def)
  have "storage_post (st_pages st) ?hn ?path ?raw files_response (w_store w) = Some (Inr r, nd2)"
    unfolding P sbind_Some [where m = "create_dir_at ?hn (fp_of (ns @ [m]))", OF C(1)] show_changed_def using C(2) D(1) by simp
  from respond_post [OF up(1) drive_user [OF d] this] have "respond st rq w = Some (Inr r, w\<lparr>w_store := nd2\<rparr>)" .
  moreover have "drive nd2 u (n + 1) t'" "shown nd2 u t' = shown nd1 u t'"
    using D(3) by (simp_all add: same_drive_def shown_def)
  moreover have "shown nd1 u t' (ns @ [k]) = None"
    using p(4) m(3) by (simp add: C(4) place_def graft_def)
  ultimately show ?thesis
    using C(4) D(2) by (intro exI [of _ r] exI [of _ nd2] exI [of _ t']) simp
qed

theorem uploaded_text_makes_folder_witness:
  "\<exists>nd r nd' t'. respond example_site (posting ''amy'' [''a''] (multipart ''XY'' ''notes'' ''text/plain'' ''newfolder=x''))
      (example_world nd) = Some (Inr r, (example_world nd)\<lparr>w_store := nd'\<rparr>) \<and>
    shown nd' ''amy'' t' [''a'', ''notes''] = None \<and> shown nd' ''amy'' t' [''a'', ''x''] = Some Folder"
proof -
  obtain nd where nd: "drive nd ''amy'' 5 example_tree"
    using example_tree_drive by blast
  let ?w = "example_world nd"
  have d: "drive (w_store ?w) ''amy'' 5 example_tree"
    using nd by simp
  have s: "shown (w_store ?w) ''amy'' example_tree [''a''] = Some Folder" "shown (w_store ?w) ''amy'' example_tree ([''a''] @ [''notes'']) = None"
    "shown (w_store ?w) ''amy'' example_tree ([''a''] @ [''x'']) = None"
    by (simp_all add: shown_folder shown_None example_tree_def)
  have p: "list_all entry_name [''a'']" "valid_filename ''notes''" "valid_filename ''x''" "''x'' \<noteq> []" "''x'' \<noteq> ''notes''"
    "header_text ''XY''" "header_text ''text/plain''" "(5 :: int) + 1 < 2 ^ 31"
    by (simp_all add: valid_filename_def valid_char_def alpha_def is_digit_def header_text_def entry_name_defs)
  have f: "\<not> contains (form_head ''XY'' ''notes'' ''text/plain'') ''newfolder=''"
    by code_simp
  have "length (meta_text (5 + 1) ''amy'' (add_at [''a''] ''x'' (FDir (5 + 1) []) example_tree)) < 1000"
    by code_simp
  then have l: "length (meta_text (5 + 1) ''amy'' (add_at [''a''] ''x'' (FDir (5 + 1) []) example_tree)) < 2 ^ 31"
    by simp
  have q: "posts (posting ''amy'' [''a''] (multipart ''XY'' ''notes'' ''text/plain'' ''newfolder=x'')) ''amy'' [''a'']
      (multipart ''XY'' ''notes'' ''text/plain'' (''newfolder='' @ ''x''))"
    by simp
  obtain r nd' t' where R: "respond example_site (posting ''amy'' [''a''] (multipart ''XY'' ''notes'' ''text/plain'' ''newfolder=x'')) ?w =
      Some (Inr r, ?w\<lparr>w_store := nd'\<rparr>)" "shown nd' ''amy'' t' = place ([''a''] @ [''x'']) Folder (shown (w_store ?w) ''amy'' example_tree)"
    "shown nd' ''amy'' t' ([''a''] @ [''notes'']) = None"
    using uploaded_text_makes_folder [OF d example_reaches p(1,2) s(1,2) p(3-5) s(3) q p(6,7) f p(8) l] by blast
  have "shown nd' ''amy'' t' [''a'', ''x''] = Some Folder"
    by (simp add: R(2) place_def graft_def single_def)
  then show ?thesis
    using R(1,3) by auto
qed

end
