(* ===== verification/Storage_Session.thy ===== *)
theory Storage_Session
  imports Storage_Correct
begin

text \<open>
  The file storage service as an abstract file system: sequences of requests of a user, and the map from paths to files and
  folders that they work on.
\<close>

section \<open>The abstract file system\<close>

text \<open>The flag of an operation chooses between the functions for files and those for folders, which do the same.\<close>

datatype drive_op =
    Upload "string list" string string
  | New_folder "string list" string
  | Remove bool "string list" string
  | Rename_to bool "string list" string string
  | Move_to bool "string list" string "string list"

type_synonym dview = "string list \<Rightarrow> fnode option"

text \<open>
  The answer to an operation and what it does to the map; \<open>None\<close> where the service does not keep its promise: a new entry below a
  file, and an entry that is put onto another one or below itself.
\<close>

definition makes :: "string list \<Rightarrow> string \<Rightarrow> fnode \<Rightarrow> dview \<Rightarrow> (storage_status \<times> dview) option" where
  "makes ns k x V =
     (if V ns = None \<or> V (ns @ [k]) \<noteq> None then Some (FAIL, V)
      else if V ns = Some Folder then Some (SUCCESS, place (ns @ [k]) x V) else None)"

fun outcome :: "drive_op \<Rightarrow> dview \<Rightarrow> (storage_status \<times> dview) option" where
  "outcome (Upload ns k c) V = makes ns k (Doc c) V"
| "outcome (New_folder ns k) V = makes ns k Folder V"
| "outcome (Remove d ns k) V =
     (if V (ns @ [k]) = None then Some (FAIL, V) else Some (SUCCESS, erase (ns @ [k]) V))"
| "outcome (Rename_to d ns k k') V =
     (if V (ns @ [k]) = None then Some (FAIL, V)
      else if k' = k \<or> V (ns @ [k']) = None then Some (SUCCESS, relocate (ns @ [k]) (ns @ [k']) V) else None)"
| "outcome (Move_to d ns k ms) V =
     (if V (ns @ [k]) = None then Some (FAIL, V)
      else if V ms = Some Folder \<and> take (length ns + 1) ms \<noteq> ns @ [k] \<and> V (ms @ [k]) = None
        then Some (SUCCESS, relocate (ns @ [k]) (ms @ [k]) V) else None)"

fun outcomes :: "drive_op list \<Rightarrow> dview \<Rightarrow> (storage_status list \<times> dview) option" where
  "outcomes [] V = Some ([], V)"
| "outcomes (x # xs) V =
     (case outcome x V of
        None \<Rightarrow> None
      | Some (a, V1) \<Rightarrow> (case outcomes xs V1 of None \<Rightarrow> None | Some (as, V2) \<Rightarrow> Some (a # as, V2)))"

text \<open>Names that the metadata can hold, and contents that a value can hold.\<close>

fun well_named :: "drive_op \<Rightarrow> bool" where
  "well_named (Upload ns k c) = (list_all entry_name (ns @ [k]) \<and> length c < 2 ^ 31)"
| "well_named (New_folder ns k) = list_all entry_name (ns @ [k])"
| "well_named (Remove d ns k) = list_all entry_name (ns @ [k])"
| "well_named (Rename_to d ns k k') = (list_all entry_name (ns @ [k]) \<and> entry_name k')"
| "well_named (Move_to d ns k ms) = (list_all entry_name (ns @ [k]) \<and> list_all entry_name ms)"

section \<open>The requests\<close>

fun perform :: "('m, 's) handler \<Rightarrow> drive_op \<Rightarrow> (storage_resp, 's) prog" where
  "perform hn (Upload ns k c) = upload_file hn (fp_of (ns @ [k])) c"
| "perform hn (New_folder ns k) = create_dir_at hn (fp_of (ns @ [k]))"
| "perform hn (Remove d ns k) = (if d then delete_dir hn (fp_of (ns @ [k])) else delete_file hn (fp_of (ns @ [k])))"
| "perform hn (Rename_to d ns k k') =
     (if d then rename_dir hn (fp_of (ns @ [k])) k' else rename_file hn (fp_of (ns @ [k])) k')"
| "perform hn (Move_to d ns k ms) =
     (if d then move_dir hn (fp_of (ns @ [k])) (dir_path ms) else Storage.move_file hn (fp_of (ns @ [k])) (dir_path ms))"

fun session :: "('m, 's) handler \<Rightarrow> drive_op list \<Rightarrow> (storage_resp list, 's) prog" where
  "session hn [] = sret []"
| "session hn (x # xs) = sbind (perform hn x) (\<lambda>r. sbind (session hn xs) (\<lambda>rs. sret (r # rs)))"

text \<open>
  What the operations do to the tree and to the largest identifier; the metadata of each tree on the way has to fit into a value.
\<close>

definition grown :: "string list \<Rightarrow> string \<Rightarrow> bool \<Rightarrow> int \<Rightarrow> ftree \<Rightarrow> int \<times> ftree" where
  "grown ns k is_file n t =
     (if look t ns = None \<or> look t (ns @ [k]) \<noteq> None then (n, t) else (n + 1, add_at ns k (fresh_node (n + 1) is_file) t))"

definition relinked :: "string list \<Rightarrow> string \<Rightarrow> string list \<Rightarrow> string \<Rightarrow> ftree \<Rightarrow> ftree" where
  "relinked ns k ms k' t =
     (case look t (ns @ [k]) of None \<Rightarrow> t | Some w \<Rightarrow> add_at ms k' w (remove_at ns k t))"

fun after :: "drive_op \<Rightarrow> int \<Rightarrow> ftree \<Rightarrow> int \<times> ftree" where
  "after (Upload ns k c) n t = grown ns k True n t"
| "after (New_folder ns k) n t = grown ns k False n t"
| "after (Remove d ns k) n t = (n, if look t (ns @ [k]) = None then t else remove_at ns k t)"
| "after (Rename_to d ns k k') n t = (n, relinked ns k ns k' t)"
| "after (Move_to d ns k ms) n t = (n, relinked ns k ms k t)"

definition fits :: "string \<Rightarrow> int \<times> ftree \<Rightarrow> bool" where
  "fits u nt = (fst nt < 2 ^ 31 \<and> length (meta_text (fst nt) u (snd nt)) < 2 ^ 31)"

fun all_fit :: "string \<Rightarrow> drive_op list \<Rightarrow> int \<times> ftree \<Rightarrow> bool" where
  "all_fit u [] nt = True"
| "all_fit u (x # xs) nt = (let nt' = after x (fst nt) (snd nt) in fits u nt' \<and> all_fit u xs nt')"

lemma after_bound: "fst (after x n t) \<le> n + 1"
  by (cases x) (auto simp: grown_def)

section \<open>One operation\<close>

lemma performed_refused:
  assumes d: "drive nd u n t" and hn: "serves hn (node_link e) u" "0 < hd_fuel hn"
    and p: "list_all entry_name (ns @ [k])" "refuses type req ns k t"
  shows "\<exists>r nd'. with_handler hn type req nd = Some (Inr r, nd') \<and> resp_status r = FAIL \<and>
    drive nd' u n t \<and> shown nd' u t = shown nd u t \<and> (\<forall>v. v \<noteq> u \<longrightarrow> nval nd' v = nval nd v)"
  using refused_drive [OF d hn p] by (auto simp: same_drive_def shown_def)

lemma made:
  assumes d: "drive nd u n t" and hn: "serves hn (node_link e) u" "0 < hd_fuel hn"
    and p: "list_all entry_name (ns @ [k])" and req: "creates type req (fp_of (ns @ [k]))" "length (upload_content req) < 2 ^ 31"
    and x: "x = (if type = FILE_UPLOAD then Doc (upload_content req) else Folder)"
    and spec: "makes ns k x (shown nd u t) = Some (a, V)" and fit: "fits u (grown ns k (type = FILE_UPLOAD) n t)"
  shows "\<exists>r nd'. with_handler hn type req nd = Some (Inr r, nd') \<and> resp_status r = a \<and>
    drive nd' u (fst (grown ns k (type = FILE_UPLOAD) n t)) (snd (grown ns k (type = FILE_UPLOAD) n t)) \<and>
    shown nd' u (snd (grown ns k (type = FILE_UPLOAD) n t)) = V \<and> (\<forall>v. v \<noteq> u \<longrightarrow> nval nd' v = nval nd v)"
proof (cases "look t ns = None \<or> look t (ns @ [k]) \<noteq> None")
  case True
  then have "refuses type req ns k t"
    using req(1) by (simp add: refuses_def)
  moreover have "a = FAIL" "V = shown nd u t"
    using True spec by (auto simp: makes_def shown_None split: if_splits)
  ultimately show ?thesis
    using performed_refused [OF d hn p] True by (simp add: grown_def)
next
  case False
  then have "shown nd u t ns = Some Folder" "a = SUCCESS" "V = place (ns @ [k]) x (shown nd u t)"
    using spec by (auto simp: makes_def shown_None split: if_splits)
  then obtain v where v: "look t ns = Some v" "\<not> leaf v" "look t (ns @ [k]) = None"
    using False by (auto simp: shown_folder)
  have g: "grown ns k (type = FILE_UPLOAD) n t = (n + 1, add_at ns k (fresh_node (n + 1) (type = FILE_UPLOAD)) t)"
    using v by (simp add: grown_def)
  have "n + 1 < 2 ^ 31" "length (meta_text (n + 1) u (add_at ns k (fresh_node (n + 1) (type = FILE_UPLOAD)) t)) < 2 ^ 31"
    using fit unfolding fits_def g by simp_all
  from creation_drive [OF d hn(1) req(1) path_to_fp p v this(1) req(2) this(2)] show ?thesis
    unfolding g x \<open>a = SUCCESS\<close> \<open>V = _\<close> by simp
qed

lemma shown_look: "shown nd u t p \<noteq> None \<Longrightarrow> \<exists>w. look t p = Some w"
  by (simp add: shown_None)

lemma step_refines:
  assumes d: "drive nd u n t" and hn: "serves hn (node_link e) u" "length (ids t) \<le> hd_fuel hn"
    and x: "well_named x" "outcome x (shown nd u t) = Some (a, V)" "fits u (after x n t)"
  shows "\<exists>r nd'. perform hn x nd = Some (Inr r, nd') \<and> resp_status r = a \<and> drive nd' u (fst (after x n t)) (snd (after x n t)) \<and>
    shown nd' u (snd (after x n t)) = V \<and> (\<forall>v. v \<noteq> u \<longrightarrow> nval nd' v = nval nd v)"
proof -
  have fuel: "0 < hd_fuel hn"
    using hn(2) ids_nonempty [of t] by linarith
  note refused = performed_refused [OF d hn(1) fuel]
  show ?thesis
  proof (cases x)
    case (Upload ns k c)
    have "creates FILE_UPLOAD (File_upload_req (fp_of (ns @ [k])) c) (fp_of (ns @ [k]))" "upload_content (File_upload_req (fp_of (ns @ [k])) c) = c"
      by (simp_all add: creates_def upload_content_def)
    then show ?thesis
      using made [OF d hn(1) fuel, of ns k FILE_UPLOAD "File_upload_req (fp_of (ns @ [k])) c" "Doc c" a V] x Upload
      by (simp add: upload_file_def)
  next
    case (New_folder ns k)
    have "creates DIR_CREATE (Dir_create_or_query_req (fp_of (ns @ [k]))) (fp_of (ns @ [k]))"
      "upload_content (Dir_create_or_query_req (fp_of (ns @ [k]))) = []"
      by (simp_all add: creates_def upload_content_def)
    then show ?thesis
      using made [OF d hn(1) fuel, of ns k DIR_CREATE "Dir_create_or_query_req (fp_of (ns @ [k]))" Folder a V] x New_folder
      by (simp add: create_dir_at_def create_or_query_dir_def)
  next
    case (Remove b ns k)
    let ?type = "if b then DIR_DELE else FILE_DELE" and ?req = "Delete_req (fp_of (ns @ [k]))"
    have run: "perform hn x = with_handler hn ?type ?req"
      by (simp add: Remove delete_dir_def delete_file_def delete_file_or_dir_def)
    show ?thesis
    proof (cases "look t (ns @ [k])")
      case None
      then have "refuses ?type ?req ns k t" "a = FAIL" "V = shown nd u t"
        using x(2) Remove by (simp_all add: refuses_def needs_entry_def shown_None)
      then show ?thesis
        unfolding run using refused [of ns k ?type ?req] x(1) None Remove by simp
    next
      case (Some w)
      have "shown nd u t (ns @ [k]) \<noteq> None"
        using Some by (simp add: shown_None)
      then have spec: "a = SUCCESS" "V = erase (ns @ [k]) (shown nd u t)"
        using x(2) Remove by auto
      have "length (ids w) \<le> hd_fuel hn"
        using look_depth [OF Some] hn(2) by simp
      from delete_drive [OF d hn(1) _ _ Some this, of ?type] show ?thesis
        unfolding run using x(1) spec Some Remove by auto
    qed
  next
    case (Rename_to b ns k k')
    let ?type = "if b then DIR_RENAME else FILE_RENAME" and ?req = "Rename_req (fp_of (ns @ [k])) k'"
    have run: "perform hn x = with_handler hn ?type ?req"
      by (simp add: Rename_to rename_dir_def rename_file_def rename_file_or_dir_def)
    show ?thesis
    proof (cases "look t (ns @ [k])")
      case None
      then have "refuses ?type ?req ns k t" "a = FAIL" "V = shown nd u t"
        using x(2) Rename_to by (simp_all add: refuses_def needs_entry_def shown_None)
      then show ?thesis
        unfolding run using refused [of ns k ?type ?req] x(1) None Rename_to by (simp add: relinked_def)
    next
      case (Some w)
      have "shown nd u t (ns @ [k]) \<noteq> None"
        using Some by (simp add: shown_None)
      then have spec: "a = SUCCESS" "V = relocate (ns @ [k]) (ns @ [k']) (shown nd u t)" "k' = k \<or> look t (ns @ [k']) = None"
        using x(2) Rename_to by (auto simp: shown_None split: if_splits)
      have "length (meta_text n u (add_at ns k' w (remove_at ns k t))) < 2 ^ 31"
        using x(3) Some Rename_to by (simp add: fits_def relinked_def)
      from rename_drive [OF d hn(1) _ _ Some _ spec(3) this, of ?type] show ?thesis
        unfolding run using x(1) spec Some Rename_to by (auto simp: relinked_def)
    qed
  next
    case (Move_to b ns k ms)
    let ?type = "if b then DIR_MOVE else FILE_MOVE" and ?req = "Move_req (fp_of (ns @ [k])) (dir_path ms)"
    have run: "perform hn x = with_handler hn ?type ?req"
      by (simp add: Move_to move_dir_def move_file_def move_file_or_dir_def)
    show ?thesis
    proof (cases "look t (ns @ [k])")
      case None
      then have "refuses ?type ?req ns k t" "a = FAIL" "V = shown nd u t"
        using x(2) Move_to by (simp_all add: refuses_def needs_entry_def shown_None)
      then show ?thesis
        unfolding run using refused [of ns k ?type ?req] x(1) None Move_to by (simp add: relinked_def)
    next
      case (Some w)
      have "shown nd u t (ns @ [k]) \<noteq> None"
        using Some by (simp add: shown_None)
      then have spec: "a = SUCCESS" "V = relocate (ns @ [k]) (ms @ [k]) (shown nd u t)" "shown nd u t ms = Some Folder"
        "take (length ns + 1) ms \<noteq> ns @ [k]" "look t (ms @ [k]) = None"
        using x(2) Move_to by (auto simp: shown_None split: if_splits)
      obtain y where y: "look t ms = Some y" "\<not> leaf y"
        using spec(3) unfolding shown_folder by blast
      have out: "\<not> (\<exists>ls. ms = (ns @ [k]) @ ls)"
        using spec(4) by auto
      have "length (meta_text n u (add_at ms k w (remove_at ns k t))) < 2 ^ 31"
        using x(3) Some Move_to by (simp add: fits_def relinked_def)
      from move_drive [OF d hn(1) _ _ Some _ y out spec(5) this, of ?type] show ?thesis
        unfolding run using x(1) spec(1,2) Some Move_to by (auto simp: relinked_def)
    qed
  qed
qed

section \<open>Sessions\<close>

lemma session_refines:
  assumes hn: "serves hn (node_link e) u"
  shows "drive nd u n t \<Longrightarrow> n + 1 + int (length xs) \<le> int (hd_fuel hn) \<Longrightarrow> list_all well_named xs \<Longrightarrow>
    outcomes xs (shown nd u t) = Some (as, V) \<Longrightarrow> all_fit u xs (n, t) \<Longrightarrow>
    \<exists>rs nd' n' t'. session hn xs nd = Some (Inr rs, nd') \<and> map resp_status rs = as \<and> drive nd' u n' t' \<and> shown nd' u t' = V \<and>
      (\<forall>v. v \<noteq> u \<longrightarrow> nval nd' v = nval nd v)"
proof (induction xs arbitrary: nd n t as)
  case Nil
  then show ?case by auto
next
  case (Cons x xs)
  obtain a V1 as' where o: "outcome x (shown nd u t) = Some (a, V1)" "outcomes xs V1 = Some (as', V)" "as = a # as'"
    using Cons.prems(4) by (auto split: option.splits prod.splits)
  obtain n1 t1 where nt: "after x n t = (n1, t1)" by (cases "after x n t")
  have fit: "fits u (after x n t)" "all_fit u xs (n1, t1)"
    using Cons.prems(5) nt by (simp_all add: Let_def)
  have "length (ids t) \<le> hd_fuel hn"
    using ids_count [OF driveD(4) [OF Cons.prems(1)]] Cons.prems(2) by simp
  from step_refines [OF Cons.prems(1) hn this _ o(1) fit(1)] obtain r nd1 where R: "perform hn x nd = Some (Inr r, nd1)"
    "resp_status r = a" "drive nd1 u n1 t1" "shown nd1 u t1 = V1" "\<forall>v. v \<noteq> u \<longrightarrow> nval nd1 v = nval nd v"
    using Cons.prems(3) nt by auto
  have "n1 + 1 + int (length xs) \<le> int (hd_fuel hn)"
    using after_bound [of x n t] Cons.prems(2) nt by simp
  from Cons.IH [OF R(3) this _ _ fit(2), of as'] obtain rs nd' n' t' where I: "session hn xs nd1 = Some (Inr rs, nd')"
    "map resp_status rs = as'" "drive nd' u n' t'" "shown nd' u t' = V" "\<forall>v. v \<noteq> u \<longrightarrow> nval nd' v = nval nd1 v"
    using Cons.prems(3) o(2) R(4) by auto
  have "session hn (x # xs) nd = Some (Inr (r # rs), nd')"
    by (simp add: sbind_Some [where m = "perform hn x", OF R(1)] sbind_Some [where m = "session hn xs", OF I(1)])
  then show ?case
    using R(2,5) I(2-5) o(3) by (intro exI [of _ "r # rs"] exI [of _ nd'] exI [of _ n'] exI [of _ t']) auto
qed

text \<open>
  C4. The service refines an abstract file system.  Any sequence of requests of a user, each answered before the next one is sent, gets the
  answers of a map from paths to files and folders, and leaves a drive that shows this map: new entries, deletions of
  whole subtrees, renamings and moves succeed and do exactly what they say, requests about absent entries and for entries that exist are
  refused and change nothing, and the data of the other users stays as it is.  The contract ends where \<open>outcome\<close> is \<open>None\<close>:
  below a file, onto another entry, or below itself.
\<close>

theorem drive_session_refines:
  assumes "drive nd u n t" "serves hn (node_link e) u" "n + 1 + int (length xs) \<le> int (hd_fuel hn)"
    and "list_all well_named xs" "all_fit u xs (n, t)" "outcomes xs (shown nd u t) = Some (as, V)"
  shows "\<exists>rs nd' n' t'. session hn xs nd = Some (Inr rs, nd') \<and> map resp_status rs = as \<and> drive nd' u n' t' \<and> shown nd' u t' = V \<and>
    (\<forall>v. v \<noteq> u \<longrightarrow> nval nd' v = nval nd v)"
  by (rule session_refines [OF assms(2,1,3,4,6,5)])

fun sizes :: "string \<Rightarrow> drive_op list \<Rightarrow> int \<times> ftree \<Rightarrow> (int \<times> nat) list" where
  "sizes u [] nt = []"
| "sizes u (x # xs) nt = (let nt' = after x (fst nt) (snd nt) in (fst nt', length (meta_text (fst nt') u (snd nt'))) # sizes u xs nt')"

lemma all_fit_sizes: "all_fit u xs nt = list_all (\<lambda>(i, l). i < 2 ^ 31 \<and> l < 2 ^ 31) (sizes u xs nt)"
  by (induction u xs nt rule: all_fit.induct) (simp_all add: Let_def fits_def)

definition example_ops :: "drive_op list" where
  "example_ops = [New_folder [''c''] ''d'', Upload [''c'', ''d''] ''g.txt'' ''hello'', Upload [''c'', ''d''] ''g.txt'' ''again'',
     Move_to True [''c''] ''d'' [''a''], Rename_to True [] ''a'' ''x'', Remove False [''x''] ''f.txt'', Remove False [''x''] ''f.txt'']"

theorem drive_session_refines_witness:
  "\<exists>nd rs nd' t'. session example_handler example_ops nd = Some (Inr rs, nd') \<and>
    map resp_status rs = [SUCCESS, SUCCESS, FAIL, SUCCESS, SUCCESS, SUCCESS, FAIL] \<and>
    shown nd' ''amy'' t' [''x'', ''d'', ''g.txt''] = Some (Doc ''hello'') \<and> shown nd' ''amy'' t' [''a'', ''f.txt''] = None"
proof -
  obtain nd where nd: "drive nd ''amy'' 5 example_tree"
    using example_tree_drive by blast
  let ?V = "shown nd ''amy'' example_tree"
  have fuel: "(5 :: int) + 1 + int (length example_ops) \<le> int (hd_fuel example_handler)"
    by (simp add: example_ops_def example_serves)
  have names: "list_all well_named example_ops"
    by (simp add: example_ops_def entry_name_defs)
  have "list_all (\<lambda>(i, l). i < 100 \<and> l < 1000) (sizes ''amy'' example_ops (5, example_tree))"
    by code_simp
  then have "list_all (\<lambda>(i, l). i < 2 ^ 31 \<and> l < 2 ^ 31) (sizes ''amy'' example_ops (5, example_tree))"
    by (rule list.pred_mono_strong) auto
  then have fit: "all_fit ''amy'' example_ops (5, example_tree)"
    by (simp only: all_fit_sizes)
  have look: "?V [''c''] = Some Folder" "?V [''c'', ''d''] = None" "?V [''c'', ''d'', ''g.txt''] = None" "?V [''a''] = Some Folder"
    "?V [''a'', ''d''] = None" "?V [''x''] = None" "\<exists>c. ?V [''a'', ''f.txt''] = Some (Doc c)"
    by (simp_all add: shown_def fview_def fcontent_def example_tree_def)
  then have "\<exists>V. outcomes example_ops ?V = Some ([SUCCESS, SUCCESS, FAIL, SUCCESS, SUCCESS, SUCCESS, FAIL], V) \<and>
      V [''x'', ''d'', ''g.txt''] = Some (Doc ''hello'') \<and> V [''a'', ''f.txt''] = None"
    by (auto simp: example_ops_def makes_def place_def relocate_def erase_def graft_def single_def nothing_def)
  then obtain V where V: "outcomes example_ops ?V = Some ([SUCCESS, SUCCESS, FAIL, SUCCESS, SUCCESS, SUCCESS, FAIL], V)"
    "V [''x'', ''d'', ''g.txt''] = Some (Doc ''hello'')" "V [''a'', ''f.txt''] = None"
    by blast
  show ?thesis
    using drive_session_refines [OF nd example_serves(1) fuel names fit V(1)]
  proof (elim exE conjE)
    fix rs nd' n' t'
    assume a: "session example_handler example_ops nd = Some (Inr rs, nd')"
      "map resp_status rs = [SUCCESS, SUCCESS, FAIL, SUCCESS, SUCCESS, SUCCESS, FAIL]" "shown nd' ''amy'' t' = V"
    have "shown nd' ''amy'' t' [''x'', ''d'', ''g.txt''] = Some (Doc ''hello'')" "shown nd' ''amy'' t' [''a'', ''f.txt''] = None"
      unfolding a(3) by (rule V)+
    with a(1,2) show ?thesis by (intro exI conjI)
  qed
qed

end
