(* ===== verification/Chunk_Bounds.thy ===== *)
theory Chunk_Bounds
  imports Chunk_Correct
begin

text \<open>
  How large the files of a user get: the check against \<open>SIZE_LIMIT\<close> comes after a record has been written, so a chunk
  can be longer than the limit, but never by more than one record; deletions only make chunks shorter.
\<close>

section \<open>Sizes\<close>

text \<open>
  \<open>sized B fs c\<close>: every chunk has at most \<open>B\<close> bytes more than the limit, the one that is appended to is within the limit, and the later
  ones are empty.
\<close>

definition chunk_len :: "fsys \<Rightarrow> chunk \<Rightarrow> nat \<Rightarrow> nat" where
  "chunk_len fs c i = length (content fs (chunk_path (folder c) i))"

definition sized :: "nat \<Rightarrow> fsys \<Rightarrow> chunk \<Rightarrow> bool" where
  "sized B fs c \<longleftrightarrow> (\<forall>i. chunk_len fs c i \<le> SIZE_LIMIT + B) \<and> chunk_len fs c (append_index c) \<le> SIZE_LIMIT \<and>
     (\<forall>i. append_index c < i \<longrightarrow> chunk_len fs c i = 0)"

definition records_fit :: "nat \<Rightarrow> (string, string) cmap \<Rightarrow> bool" where
  "records_fit B mp = list_all (\<lambda>(k, v). length (append_kv k v) \<le> B) mp"

lemma sized_shorter:
  assumes "sized B fs c" "no_longer (folder c) fs fs'" "folder c' = folder c" "append_index c' = append_index c"
  shows "sized B fs' c'"
  using assms unfolding sized_def chunk_len_def no_longer_def by (metis le_trans le_zero_eq)

lemma append_step_sized:
  assumes c: "sized B fs c" "folder_ok fs (folder c)" and k: "length (append_kv k v) \<le> B"
    and st: "append_step k v (fs, c) = (fs', c')"
  shows "sized B fs' c'"
proof (cases "v = []")
  case True
  then show ?thesis
    using st c(1) by (auto simp: append_step_def sized_def chunk_len_def)
next
  case False
  let ?a = "append_index c" and ?path = "chunk_path (folder c) (append_index c)"
  let ?fs = "snd (append_file ?path (append_kv k v) fs)"
  have f: "folder_ok ?fs (folder c)"
    using c(2) by (simp add: folder_ok_def)
  have len: "chunk_len ?fs c i = (if i = ?a then chunk_len fs c ?a + length (append_kv k v) else chunk_len fs c i)" for i
    using c(2) by (simp add: chunk_len_def)
  have t: "tellp ?path ?fs = chunk_len ?fs c ?a"
    using folder_can_open [OF f] by (simp add: tellp_def chunk_len_def)
  have b: "chunk_len ?fs c i \<le> SIZE_LIMIT + B" "?a < i \<Longrightarrow> chunk_len ?fs c i = 0" for i
    using c(1) k unfolding len sized_def by (auto intro: add_mono)
  show ?thesis
  proof (cases "SIZE_LIMIT < chunk_len ?fs c ?a")
    case True
    then have "fs' = snd (append_file (chunk_path (folder c) (?a + 1)) [] ?fs)" "folder c' = folder c" "append_index c' = ?a + 1"
      using st False t by (auto simp: append_step_def Let_def)
    then show ?thesis
      using b by (simp add: sized_def chunk_len_def)
  next
    case False
    then have "fs' = ?fs" "folder c' = folder c" "append_index c' = ?a"
      using st \<open>v \<noteq> []\<close> t by (auto simp: append_step_def Let_def)
    then show ?thesis
      using b False by (simp add: sized_def chunk_len_def)
  qed
qed

lemma append_loop_sized:
  "sized B fs c \<Longrightarrow> folder_ok fs (folder c) \<Longrightarrow> records_fit B mp \<Longrightarrow> append_loop mp (fs, c) = (fs', c') \<Longrightarrow>
   sized B fs' c' \<and> folder c' = folder c"
proof (induction mp arbitrary: fs c)
  case (Cons p mp)
  obtain k v where p: "p = (k, v)" by (cases p)
  obtain fs1 c1 where st: "append_step k v (fs, c) = (fs1, c1)"
    by (cases "append_step k v (fs, c)")
  note fr = append_step_frame [OF st Cons.prems(2)]
  have "sized B fs1 c1"
    using append_step_sized [OF Cons.prems(1,2) _ st] Cons.prems(3) p by (simp add: records_fit_def)
  moreover have "folder_ok fs1 (folder c1)"
    using Cons.prems(2) fr(1,3) by (simp add: folder_ok_def)
  ultimately show ?case
    using Cons.IH [of fs1 c1] Cons.prems(3,4) p st fr(1) by (simp add: records_fit_def)
qed simp

section \<open>Checkpoints\<close>

text \<open>
  C20. The files of a user stay small.  Let every chunk of a well-formed folder have at most the limit of 2^26 bytes and \<open>B\<close> more, the
  current chunk not more than the limit, and the later ones be empty, as in a new folder.  A checkpoint whose records have at
  most \<open>B\<close> bytes each, with any number of updates, leaves the folder like this, as it is read at the next start; and it opens at most
  as many new chunks as it writes records.
\<close>

theorem chunks_stay_bounded:
  assumes ok: "disk_ok prefix fs usr" and c: "chunk_init prefix usr fs = Inr (FINISHED, c)"
    and mp: "batch_ok mp" "records_fit B mp" and bound: "append_index c + length mp < 2 ^ 64"
    and size: "sized B fs c"
  shows "\<exists>fs' c1 c'. append_kvs mp fs c = Inr (FINISHED, fs', c1) \<and> disk_ok prefix fs' usr \<and>
    chunk_init prefix usr fs' = Inr (FINISHED, c') \<and> sized B fs' c' \<and> append_index c' \<le> append_index c + length mp"
proof -
  obtain fs' c1 c' where A: "append_kvs mp fs c = Inr (FINISHED, fs', c1)" "disk_ok prefix fs' usr"
    "chunk_init prefix usr fs' = Inr (FINISHED, c')" "append_index c' = append_index c1" "appended mp fs c fs' c1"
    using append_kvs_reopened [OF ok c mp(1) bound] by blast
  obtain fs0 fs1 where L: "append_loop mp (fs0, c) = (fs1, c1)" "dirs fs0 = dirs fs"
    "\<forall>i. content fs0 (chunk_path (folder c) i) = content fs (chunk_path (folder c) i)" "no_longer (folder c) fs1 fs'"
    using A(5) by (auto simp: appended_def)
  obtain recs where inv: "store_inv fs c recs"
    using ok c by (auto simp: disk_ok_def)
  have inv0: "store_inv fs0 c recs"
    by (rule store_inv_content [OF inv L(2)]) (use L(3) in simp)
  have "sized B fs0 c"
    using size L(3) by (simp add: sized_def chunk_len_def)
  from append_loop_sized [OF this store_invD(1) [OF inv0] mp(2) L(1)] have S: "sized B fs1 c1" "folder c1 = folder c"
    by simp_all
  have f: "folder c' = folder c1"
    using chunk_init_folder [OF A(3)] chunk_init_folder [OF c] S(2) by simp
  have "sized B fs' c'"
    by (rule sized_shorter [OF S(1) _ f A(4)]) (simp add: L(4) S(2))
  moreover have "\<forall>q \<in> set mp. fst q \<notin> fst ` set (del_list c)"
    using chunk_init_folder [OF c] by simp
  from append_loop_inv [OF inv0 mp(1) this L(1)] have "append_index c1 \<le> append_index c + length mp"
    by blast
  ultimately show ?thesis
    using A(1-4) by auto
qed

lemma fresh_sized: "(\<And>q. read_file (prefix @ usr @ CHR ''/'' # q) fs = None) \<Longrightarrow> sized B fs (blank_chunk prefix usr)"
  by (simp add: sized_def chunk_len_def blank_chunk_def content_read chunk_path_def)

theorem chunks_stay_bounded_witness:
  "\<exists>fs' c1 c'. append_kvs [(''pwd'', ''x''), (''old'', '''')] example_fs (blank_chunk ''/d/'' ''amy'') = Inr (FINISHED, fs', c1) \<and>
    chunk_init ''/d/'' ''amy'' fs' = Inr (FINISHED, c') \<and> chunk_len fs' c' 0 \<le> SIZE_LIMIT + 8 \<and> append_index c' \<le> 2"
proof -
  have mp: "batch_ok [(''pwd'', ''x''), (''old'', '''')]"
    by (simp add: batch_ok_def wf_map_def)
  have f: "records_fit 8 [(''pwd'', ''x''), (''old'', '''')]"
    by code_simp
  have b: "append_index (blank_chunk ''/d/'' ''amy'') + length [(''pwd'', ''x''), (''old'', '''')] < 2 ^ 64"
    by (simp add: blank_chunk_def)
  have s: "sized 8 example_fs (blank_chunk ''/d/'' ''amy'')"
    by (rule fresh_sized) (rule example_fs_ok(2))
  obtain fs' c1 c' where "append_kvs [(''pwd'', ''x''), (''old'', '''')] example_fs (blank_chunk ''/d/'' ''amy'') = Inr (FINISHED, fs', c1)"
    "chunk_init ''/d/'' ''amy'' fs' = Inr (FINISHED, c')" "sized 8 fs' c'"
    "append_index c' \<le> append_index (blank_chunk ''/d/'' ''amy'') + length [(''pwd'', ''x''), (''old'', '''')]"
    using chunks_stay_bounded [OF example_fresh(1,3) mp f b s] by blast
  then show ?thesis
    by (intro exI [of _ fs'] exI [of _ c1] exI [of _ c']) (simp add: sized_def blank_chunk_def)
qed

end
