(* ===== verification/Admin.thy ===== *)
theory Admin
  imports Monitor Web
begin

text \<open>
  The administration page of the master (\<open>master/admin.h\<close>, \<open>master/master_request.h\<close>): the tables of the servers, the buttons that stop
  and restart a storage server, and the raw data of a user.  The class \<open>Response\<close> of the master is that of the web server
  (\<open>Web_Request\<close>); its \<open>Request\<close> has no cookies.
\<close>

section \<open>State\<close>

text \<open>
  \<open>sa_connect\<close> is \<open>tcp_client_socket\<close> with the exchange of messages over the new socket; \<open>sa_iter\<close> and \<open>sa_fronts\<close> are the orders in
  which the two unordered maps are visited.
\<close>

record ('m, 's) admin_site =
  sa_pages :: pages
  sa_connect :: "address \<Rightarrow> ('m, 's) link option"
  sa_iter :: "(string, string) cmap \<Rightarrow> (string \<times> string) list"
  sa_fronts :: "(int, address) cmap \<Rightarrow> (int \<times> address) list"

text \<open>\<open>kvs\<close> is one variable for all requests.\<close>

record 's admin =
  am_master :: master
  am_kvs :: "(string, string) cmap"
  am_store :: 's

section \<open>Raw data\<close>

definition get_rawdata :: "('m, 's) admin_site \<Rightarrow> string \<Rightarrow> 's admin \<Rightarrow> int res \<times> 's admin" where
  "get_rawdata st usr a =
     (case get_primary usr (am_master a) of
        Inl e \<Rightarrow> (Inl e, a)
      | Inr None \<Rightarrow> (Inr (kv_code LINK_ERROR), a)
      | Inr (Some b) \<Rightarrow>
          (case sa_connect st (bk_addr b) of
             None \<Rightarrow> (Inr (kv_code LINK_ERROR), a)
           | Some l \<Rightarrow>
               (case kv_gets_all l usr (am_store a) of
                  ((ret, kvs), s) \<Rightarrow> (Inr ret, a\<lparr>am_kvs := kvs, am_store := s\<rparr>))))"

text \<open>\<open>sprintf\<close> into a buffer of 1000 bytes; \<open>%s\<close> stops at the first null byte.\<close>

definition RAW_TABLE_FORMAT :: "int \<Rightarrow> string \<Rightarrow> string \<Rightarrow> string" where
  "RAW_TABLE_FORMAT i k v =
     ''<tr><td>'' @ int_str i @ ''</td><td>'' @ cstr k @ ''</td><td><div class=\"scrollable\">'' @ cstr v @ ''</div></td></tr>''"

fun raw_rows :: "int \<Rightarrow> (string \<times> string) list \<Rightarrow> string res" where
  "raw_rows i [] = Inr []"
| "raw_rows i ((k, v) # kvs) =
     rbind (into_buffer (RAW_TABLE_FORMAT i k v)) (\<lambda>s. rbind (raw_rows (i + 1) kvs) (\<lambda>t. Inr (s @ t)))"

definition raw_data_list_construct :: "('m, 's) admin_site \<Rightarrow> string \<Rightarrow> 's admin \<Rightarrow> string res \<times> 's admin" where
  "raw_data_list_construct st usr a =
     (if usr = [] then (Inr [], a)
      else case get_rawdata st usr a of
          (Inl e, a1) \<Rightarrow> (Inl e, a1)
        | (Inr _, a1) \<Rightarrow> (raw_rows 1 (sa_iter st (am_kvs a1)), a1))"

section \<open>Servers\<close>

definition BACKEND_ALIVE_FORMAT :: "int \<Rightarrow> string \<Rightarrow> string" where
  "BACKEND_ALIVE_FORMAT g n =
     ''<tr><td>'' @ int_str g @ ''</td><td>'' @ cstr n @ ''</td><td>Alive</td>'' @
     ''<td><form method=\"post\" enctype=\"multipart/form-data\">'' @
     ''<button class=\"button\" name=\"KILL\" value=\"'' @ cstr n @ ''\">&nbsp; &nbsp; Kill &nbsp; &nbsp;'' @ ''</button></form></td>''"

definition BACKEND_DEAD_FORMAT :: "int \<Rightarrow> string \<Rightarrow> string" where
  "BACKEND_DEAD_FORMAT g n =
     ''<tr><td>'' @ int_str g @ ''</td><td>'' @ cstr n @ ''</td><td>Dead</td>'' @
     ''<td><form method=\"post\" enctype=\"multipart/form-data\">'' @
     ''<button class=\"button\" name=\"RESTART\" value=\"'' @ cstr n @ ''\">Restart</button></form></td></tr>''"

definition BACKEND_CRASH_FORMAT :: "int \<Rightarrow> string \<Rightarrow> string" where
  "BACKEND_CRASH_FORMAT g n = ''<tr><td>'' @ int_str g @ ''</td><td>'' @ cstr n @ ''</td><td>Crash</td></tr>''"

definition FRONTEND_FORMAT :: "int \<Rightarrow> string \<Rightarrow> string \<Rightarrow> string" where
  "FRONTEND_FORMAT i n s = ''<tr><td>'' @ int_str i @ ''</td><td>'' @ cstr n @ ''</td><td>'' @ cstr s @ ''</td></tr>''"

definition backend_row :: "backend \<Rightarrow> string" where
  "backend_row b =
     (let g = sint (bk_group b); n = ad_name (bk_addr b) in
      case bk_state b of
        ALIVE \<Rightarrow> BACKEND_ALIVE_FORMAT g n
      | DEAD \<Rightarrow> BACKEND_DEAD_FORMAT g n
      | CRASH \<Rightarrow> BACKEND_CRASH_FORMAT g n)"

fun backend_list_construct :: "backend list \<Rightarrow> string res" where
  "backend_list_construct [] = Inr []"
| "backend_list_construct (b # bs) =
     rbind (into_buffer (backend_row b)) (\<lambda>s. rbind (backend_list_construct bs) (\<lambda>t. Inr (s @ t)))"

fun frontend_rows :: "int \<Rightarrow> (int \<times> address) list \<Rightarrow> string res" where
  "frontend_rows i [] = Inr []"
| "frontend_rows i ((fd, addr) # fs) =
     rbind (into_buffer (FRONTEND_FORMAT i (ad_name addr) ''Alive'')) (\<lambda>s.
     rbind (frontend_rows (i + 1) fs) (\<lambda>t. Inr (s @ t)))"

definition frontend_list_construct :: "('m, 's) admin_site \<Rightarrow> (int, address) cmap \<Rightarrow> string res" where
  "frontend_list_construct st fs = frontend_rows 1 (sa_fronts st fs)"

section \<open>The page\<close>

definition display_admin_page :: "('m, 's) admin_site \<Rightarrow> string \<Rightarrow> response \<Rightarrow> 's admin \<Rightarrow> response res \<times> 's admin" where
  "display_admin_page st usr r a =
     (let html0 = page_text (sa_pages st) (html ''/admin.html'') in
      case frontend_list_construct st (frontends (am_master a)) of
        Inl e \<Rightarrow> (Inl e, a)
      | Inr ft \<Rightarrow>
          (let html1 = replace html0 ''$frontend_table'' ft in
           case backend_list_construct (backends (am_master a)) of
             Inl e \<Rightarrow> (Inl e, a)
           | Inr bt \<Rightarrow>
               (let html2 = replace html1 ''$backend_table'' bt in
                case raw_data_list_construct st usr a of
                  (Inl e, a1) \<Rightarrow> (Inl e, a1)
                | (Inr rt, a1) \<Rightarrow> (Inr (set_body (replace html2 ''$raw_table'' rt) r), a1))))"

text \<open>The node that a button names: the fourth line of the form without the line feed in front of it.\<close>

definition form_value :: "string list \<Rightarrow> string res" where
  "form_value vec = rbind (vec_get vec 3) (\<lambda>t. substr_from t 1)"

definition admin_post :: "('m, 's) admin_site \<Rightarrow> string \<Rightarrow> response \<Rightarrow> 's admin \<Rightarrow> response res \<times> 's admin \<times> sends" where
  "admin_post st body r a =
     (let vec = split body (CHR 0x0D);
          change = (\<lambda>op. case rbind (form_value vec) address_init of
              Inl e \<Rightarrow> (Inl e, a, [])
            | Inr addr \<Rightarrow>
                (case op addr (am_master a) of
                   (_, m, s) \<Rightarrow>
                     (case display_admin_page st [] r (a\<lparr>am_master := m\<rparr>) of (res, a1) \<Rightarrow> (res, a1, s))))
      in case vec_get vec 1 of
           Inl e \<Rightarrow> (Inl e, a, [])
         | Inr name \<Rightarrow>
             if contains name ''name=\"KILL\"'' then change kill_backend
             else if contains name ''name=\"RESTART\"'' then change restart_backend
             else if contains name ''name=\"RAW\"'' then
               (case form_value vec of
                  Inl e \<Rightarrow> (Inl e, a, [])
                | Inr usr \<Rightarrow> (case display_admin_page st usr r a of (res, a1) \<Rightarrow> (res, a1, [])))
             else (case display_admin_page st [] r a of (res, a1) \<Rightarrow> (res, a1, [])))"

definition admin_handler :: "('m, 's) admin_site \<Rightarrow> request \<Rightarrow> 's admin \<Rightarrow> response res \<times> 's admin \<times> sends" where
  "admin_handler st rq a =
     (if rq_method rq = ''GET'' then
        (case display_admin_page st [] empty_response a of (res, a1) \<Rightarrow> (res, a1, []))
      else if rq_method rq = ''POST'' then admin_post st (rq_body rq) empty_response a
      else (Inr empty_response, a, []))"

section \<open>A connection\<close>

text \<open>\<open>Request::http_read\<close> of the master; the request line is looked at as a header, too.\<close>

definition admin_header :: "string \<Rightarrow> request \<Rightarrow> request" where
  "admin_header line rq =
     (if take 16 line = ''Content-Length: '' then rq\<lparr>rq_length := Some (word_of_int (atoi (drop 16 line)))\<rparr> else rq)"

function admin_headers :: "string \<Rightarrow> request \<Rightarrow> string list \<Rightarrow> bool \<times> request \<times> string list" where
  "admin_headers line rq sock =
     (if line \<noteq> [] then
        (let rq1 = admin_header line rq in
         case http_read_line sock of
           (True, line1, sock1) \<Rightarrow> admin_headers line1 rq1 sock1
         | (False, _, sock1) \<Rightarrow> (False, rq1, sock1))
      else (True, rq, sock))"
  by pat_completeness auto
termination
  by (relation "measure (\<lambda>(line, rq, sock). length (concat sock))") (auto dest: http_read_line_less [OF sym])

declare admin_headers.simps [simp del]

definition admin_http_read :: "string list \<Rightarrow> (bool \<times> request) res \<times> string list" where
  "admin_http_read sock =
     (case http_read_line sock of
        (False, _, sock1) \<Rightarrow> (Inr (False, empty_request), sock1)
      | (True, line, sock1) \<Rightarrow>
          (case split line (CHR '' '') of
             [m, p, v] \<Rightarrow>
               (case admin_headers line (empty_request\<lparr>rq_method := m, rq_path := p, rq_version := v\<rparr>) sock1 of
                  (False, rq, sock2) \<Rightarrow> (Inr (False, rq), sock2)
                | (True, rq, sock2) \<Rightarrow> read_body rq sock2)
           | _ \<Rightarrow> (Inr (False, empty_request), sock1)))"

text \<open>What is written; the version of the request is put in front twice.\<close>

definition reply_admin :: "('m, 's) admin_site \<Rightarrow> request \<Rightarrow> 's admin \<Rightarrow> string res \<times> 's admin \<times> sends" where
  "reply_admin st rq a =
     (case (if rq_path rq = ''/admin'' then admin_handler st rq a
            else (Inr
              (if contains (rq_path rq) ''.js'' then load_content (sa_pages st) OK ''text/javascript'' (html (rq_path rq)) empty_response
               else if contains (rq_path rq) ''.css'' then load_content (sa_pages st) OK ''text/css'' (html (rq_path rq)) empty_response
               else if contains (rq_path rq) ''.png'' then
                 load_content (sa_pages st) OK ''image/png'' (ABSOLUTE_DIR @ rq_path rq) empty_response
               else load_content (sa_pages st) OK ''text/html'' (html ''/error_page.html'') empty_response), a, [])) of
        (Inl e, a1, s) \<Rightarrow> (Inl e, a1, s)
      | (Inr r, a1, s) \<Rightarrow> (let body = rq_version rq @ response_string r in (Inr (rq_version rq @ body), a1, s)))"

definition serve_admin :: "('m, 's) admin_site \<Rightarrow> string list \<Rightarrow> 's admin \<Rightarrow> (string option) res \<times> 's admin \<times> sends" where
  "serve_admin st sock a =
     (case admin_http_read sock of
        (Inl e, _) \<Rightarrow> (Inl e, a, [])
      | (Inr (False, _), _) \<Rightarrow> (Inr None, a, [])
      | (Inr (True, rq), _) \<Rightarrow>
          (case reply_admin st rq a of
             (Inl e, a1, s) \<Rightarrow> (Inl e, a1, s)
           | (Inr t, a1, s) \<Rightarrow> (Inr (Some t), a1, s)))"

end
