(* ===== verification/Monitor_Correct.thy ===== *)
theory Monitor_Correct
  imports Monitor "HOL-Library.Multiset"
begin

text \<open>
  The lists of the master agree: the alive and the dead servers are exactly the configured ones with
  their states.  The invariant holds in every state that the master's events can reach, as long as
  no server registers again while the master still believes it alive.
\<close>

section \<open>Changing one element\<close>

lemma take_first_Some:
  "take_first P bs = Some (b, rest) \<Longrightarrow> P b \<and> mset bs = add_mset b (mset rest)"
proof (induction bs arbitrary: b rest)
  case (Cons x bs)
  show ?case
  proof (cases "P x")
    case False
    then obtain r where "take_first P bs = Some (b, r)" "rest = x # r"
      using Cons.prems by auto
    then show ?thesis
      using Cons.IH [of b r] by simp
  qed (use Cons.prems in simp)
qed simp

lemma take_first_None: "take_first P bs = None \<longleftrightarrow> (\<forall>b \<in> set bs. \<not> P b)"
  by (induction bs) auto

lemma take_first_order:
  "take_first P bs = Some (b, rest) \<Longrightarrow> (\<exists>xs ys. bs = xs @ b # ys \<and> rest = xs @ ys)"
proof (induction bs arbitrary: b rest)
  case (Cons x bs)
  show ?case
  proof (cases "P x")
    case True
    then have "x # bs = [] @ b # bs \<and> rest = [] @ bs" using Cons.prems by simp
    then show ?thesis by blast
  next
    case False
    then obtain r where "take_first P bs = Some (b, r)" "rest = x # r"
      using Cons.prems by auto
    then show ?thesis
      using Cons.IH by (metis append_Cons)
  qed
qed simp

lemma change_first_none: "\<forall>b \<in> set bs. \<not> P b \<Longrightarrow> change_first P f bs = bs"
  by (induction bs) auto

lemma change_first_one:
  "b \<in> set bs \<Longrightarrow> P b \<Longrightarrow> (\<And>x. x \<in> set bs \<Longrightarrow> P x \<Longrightarrow> x = b) \<Longrightarrow>
   add_mset b (mset (change_first P f bs)) = add_mset (f b) (mset bs)"
proof (induction bs)
  case (Cons x bs)
  show ?case
  proof (cases "P x")
    case True
    then have "x = b" using Cons.prems(3) by simp
    then show ?thesis using True by simp
  next
    case False
    then have "b \<in> set bs" using Cons.prems(1,2) by auto
    then have IH: "add_mset b (mset (change_first P f bs)) = add_mset (f b) (mset bs)"
      by (intro Cons.IH Cons.prems) simp_all
    have "add_mset b (add_mset x A) = add_mset x (add_mset b A)" for A
      by (rule add_mset_commute)
    then have "add_mset b (mset (change_first P f (x # bs))) = add_mset x (add_mset (f b) (mset bs))"
      using False by (simp only: change_first.simps if_False mset.simps IH)
    then show ?thesis
      by (simp only: mset.simps add_mset_commute [of x "f b"])
  qed
qed simp

lemma map_change_first: "(\<And>b. h (f b) = h b) \<Longrightarrow> map h (change_first P f bs) = map h bs"
  by (induction bs) auto



section \<open>The invariant\<close>

definition bk_name :: "backend \<Rightarrow> string" where
  "bk_name b = ad_name (bk_addr b)"

definition mirror :: "master \<Rightarrow> bool" where
  "mirror m \<longleftrightarrow> mset (alive_backends m) + mset (dead_backends m) = mset (backends m) \<and>
     distinct (map bk_name (backends m)) \<and>
     (\<forall>b \<in> set (alive_backends m). bk_state b = ALIVE) \<and> (\<forall>b \<in> set (dead_backends m). bk_state b \<noteq> ALIVE) \<and>
     (\<forall>b \<in> set (backends m). \<forall>c \<in> set (backends m). bk_fd b = bk_fd c \<and> bk_fd b \<noteq> -1 \<longrightarrow> b = c)"

lemma mirrorD:
  assumes "mirror m"
  shows "set (backends m) = set (alive_backends m) \<union> set (dead_backends m)"
    "b \<in> set (backends m) \<Longrightarrow> bk_state b = ALIVE \<longleftrightarrow> b \<in> set (alive_backends m)"
    "b \<in> set (backends m) \<Longrightarrow> c \<in> set (backends m) \<Longrightarrow> bk_name b = bk_name c \<Longrightarrow> b = c"
    "b \<in> set (backends m) \<Longrightarrow> c \<in> set (backends m) \<Longrightarrow> bk_fd b = bk_fd c \<Longrightarrow> bk_fd b \<noteq> -1 \<Longrightarrow> b = c"
proof -
  show u: "set (backends m) = set (alive_backends m) \<union> set (dead_backends m)"
    using assms by (metis mirror_def set_mset_mset set_mset_union)
  show "b \<in> set (backends m) \<Longrightarrow> bk_state b = ALIVE \<longleftrightarrow> b \<in> set (alive_backends m)"
    using assms u by (auto simp: mirror_def)
  show "b \<in> set (backends m) \<Longrightarrow> c \<in> set (backends m) \<Longrightarrow> bk_name b = bk_name c \<Longrightarrow> b = c"
    using assms by (auto simp: mirror_def distinct_map inj_on_def)
  show "b \<in> set (backends m) \<Longrightarrow> c \<in> set (backends m) \<Longrightarrow> bk_fd b = bk_fd c \<Longrightarrow> bk_fd b \<noteq> -1 \<Longrightarrow> b = c"
    using assms by (auto simp: mirror_def)
qed

text \<open>One server \<open>b\<close> moves: the change of one entry in all three lists.\<close>

lemma mirror_move:
  assumes m: "mirror m" and b: "b \<in> set (backends m)"
    and parts: "mset al + mset de = add_mset b' (mset (alive_backends m) + mset (dead_backends m) - {#b#})"
    and bs: "add_mset b (mset bs) = add_mset b' (mset (backends m))"
    and names: "map bk_name bs = map bk_name (backends m)"
    and al: "\<forall>x \<in> set al. bk_state x = ALIVE" and de: "\<forall>x \<in> set de. bk_state x \<noteq> ALIVE"
    and fd: "bk_fd b' = -1 \<or> (\<forall>x \<in> set (backends m). bk_fd x = bk_fd b' \<longrightarrow> x = b)"
    and m': "alive_backends m' = al" "dead_backends m' = de" "backends m' = bs"
  shows "mirror m'"
proof -
  obtain N where N: "mset (backends m) = add_mset b N"
    using b by (metis mset_add set_mset_mset)
  have "mset bs = add_mset b' (mset (backends m) - {#b#})"
    using bs by (simp add: N add_mset_commute [of b'])
  moreover have "mset (alive_backends m) + mset (dead_backends m) = mset (backends m)"
    "distinct (map bk_name (backends m))"
    using m by (simp_all add: mirror_def)
  moreover have "x = b' \<or> x \<in> set (backends m) \<and> x \<noteq> b" if "x \<in> set bs" for x
  proof -
    have "distinct (backends m)"
      using m by (simp add: mirror_def distinct_map)
    then have "b \<notin># mset (backends m) - {#b#}"
      by (metis Diff_iff distinct_remove1_removeAll in_multiset_in_set insertI1 mset_remove1 set_removeAll)
    then show ?thesis
      using that calculation(1) by (metis in_diffD insertE set_mset_add_mset_insert set_mset_mset)
  qed
  ultimately show ?thesis
    using al de fd names parts mirrorD(4) [OF m] unfolding mirror_def m'
    by simp (metis (no_types, lifting))
qed

section \<open>Events\<close>

text \<open>
  What an event does to the list of live servers, and which cluster message it sends: the list stays
  as it is, loses one entry, or gains one at the end; in the last two cases the group of that
  entry is told.
\<close>

type_synonym key = "address \<times> 32 word"

definition bk_key :: "backend \<Rightarrow> key" where
  "bk_key b = (bk_addr b, bk_group b)"

definition live_keys :: "master \<Rightarrow> key list" where
  "live_keys m = map bk_key (alive_backends m)"

definition config :: "master \<Rightarrow> key list \<times> 32 word" where
  "config m = (map bk_key (backends m), group_size m)"

definition told :: "32 word \<Rightarrow> master \<Rightarrow> sends \<Rightarrow> bool" where
  "told g m s \<longleftrightarrow>
     (\<exists>a. get_group_id_addr a m = g \<and> set (broadcast_group_addr (get_cluster a m)) \<subseteq> set s)"

inductive live_change :: "master \<Rightarrow> master \<Rightarrow> sends \<Rightarrow> bool" where
  same: "live_keys m' = live_keys m \<Longrightarrow> live_change m m' s"
| left: "live_keys m = xs @ k # ys \<Longrightarrow> live_keys m' = xs @ ys \<Longrightarrow> told (snd k) m' s \<Longrightarrow>
         live_change m m' s"
| joined: "live_keys m' = live_keys m @ [k] \<Longrightarrow> told (snd k) m' s \<Longrightarrow> live_change m m' s"

inductive_cases live_changeE [elim]: "live_change m m' s"

definition admissible :: "master_req \<Rightarrow> int \<Rightarrow> master \<Rightarrow> bool" where
  "admissible req fd m \<longleftrightarrow>
     (case req of
        BACKEND_INITIAL a \<Rightarrow>
          (case address_init a of
             Inl _ \<Rightarrow> True
           | Inr addr \<Rightarrow> list_all (\<lambda>b. bk_fd b \<noteq> fd) (backends m) \<and>
                         list_all (\<lambda>b. \<not> named addr b) (alive_backends m))
      | _ \<Rightarrow> True)"

inductive master_step :: "master \<Rightarrow> sends \<Rightarrow> master \<Rightarrow> bool" where
  killed: "kill_backend a m = (ok, m', s) \<Longrightarrow> master_step m s m'"
| restarted: "restart_backend a m = (ok, m', s) \<Longrightarrow> master_step m s m'"
| closed: "0 \<le> fd \<Longrightarrow> connection_closed fd m = (m', s) \<Longrightarrow> master_step m s m'"
| requested: "0 \<le> fd \<Longrightarrow> admissible req fd m \<Longrightarrow> master_command req fd m = Inr (m', r, s) \<Longrightarrow>
     master_step m s m'"

inductive master_run :: "master \<Rightarrow> master \<Rightarrow> bool" where
  start: "master_run m m"
| step: "master_run m m1 \<Longrightarrow> master_step m1 s m2 \<Longrightarrow> master_run m m2"

lemma bk_key_addr: "bk_key b = bk_key c \<Longrightarrow> bk_addr b = bk_addr c \<and> bk_group b = bk_group c"
  by (simp add: bk_key_def)

lemma find_name_config:
  "map bk_key bs = map bk_key bs' \<Longrightarrow>
   map_option bk_key (find_name n bs) = map_option bk_key (find_name n bs')"
proof (induction bs arbitrary: bs')
  case (Cons b bs)
  then obtain c cs where "bs' = c # cs" "bk_key b = bk_key c" "map bk_key bs = map bk_key cs"
    by (cases bs') auto
  then show ?case
    using Cons.IH [of cs] bk_key_addr [of b c] by simp
qed simp

lemma get_group_id_addr_config:
  assumes "config m' = config m"
  shows "get_group_id_addr a m' = get_group_id_addr a m"
  using find_name_config [of "backends m'" "backends m" "ad_name a"] assms
  by (auto simp: get_group_id_addr_def config_def bk_key_def split: option.splits)

lemma find_name_mem:
  "distinct (map bk_name bs) \<Longrightarrow> b \<in> set bs \<Longrightarrow> find_name (bk_name b) bs = Some b"
proof (induction bs)
  case (Cons x bs)
  then show ?case
    by (cases "x = b") (force simp: bk_name_def)+
qed simp

lemma group_of_named:
  assumes "mirror m" "b \<in> set (backends m)" "named a b"
  shows "get_group_id_addr a m = bk_group b"
proof -
  have "ad_name a = bk_name b" "distinct (map bk_name (backends m))"
    using assms by (simp_all add: bk_name_def mirror_def)
  then show ?thesis
    using find_name_mem [OF _ assms(2)] by (simp add: get_group_id_addr_def)
qed

section \<open>The operations keep the invariant\<close>

text \<open>\<open>ok_step\<close>: what every event achieves.\<close>

definition ok_step :: "master \<Rightarrow> master \<Rightarrow> sends \<Rightarrow> bool" where
  "ok_step m m' s \<longleftrightarrow> mirror m' \<and> config m' = config m \<and> live_change m m' s"

lemma ok_step_refl: "mirror m \<Longrightarrow> ok_step m m s"
  by (simp add: ok_step_def live_change.same)

lemma toldI:
  "get_group_id_addr a m = g \<Longrightarrow> set (broadcast_group_addr (get_cluster a m)) \<subseteq> set s \<Longrightarrow> told g m s"
  by (auto simp: told_def)

lemma change_first_named:
  assumes m: "mirror m" and b: "b \<in> set (backends m)" and P: "P b"
    and one: "\<And>x. x \<in> set (backends m) \<Longrightarrow> P x \<Longrightarrow> x = b"
    and key: "\<And>x. bk_key (f x) = bk_key x"
  shows "add_mset b (mset (change_first P f (backends m))) = add_mset (f b) (mset (backends m))"
    "map bk_name (change_first P f (backends m)) = map bk_name (backends m)"
    "map bk_key (change_first P f (backends m)) = map bk_key (backends m)"
proof -
  show "add_mset b (mset (change_first P f (backends m))) = add_mset (f b) (mset (backends m))"
    by (rule change_first_one [OF b, where P = P]) (use P one in auto)
  show "map bk_name (change_first P f (backends m)) = map bk_name (backends m)"
    by (rule map_change_first) (use key in \<open>simp add: bk_key_def bk_name_def\<close>)
  show "map bk_key (change_first P f (backends m)) = map bk_key (backends m)"
    by (rule map_change_first) (rule key)
qed

lemma live_named: "mirror m \<Longrightarrow> b \<in> set (backends m) \<Longrightarrow> c \<in> set (backends m) \<Longrightarrow> named a b \<Longrightarrow> named a c \<Longrightarrow> b = c"
  using mirrorD(3) by (simp add: bk_name_def)

text \<open>A live server \<open>b\<close> becomes a dead one, and back.\<close>

lemma leave_ok:
  assumes m: "mirror m" and t: "take_first Q (alive_backends m) = Some (b, rest)"
    and P: "P b" and one: "\<And>x. x \<in> set (backends m) \<Longrightarrow> P x \<Longrightarrow> x = b"
    and f: "\<And>x. bk_key (f x) = bk_key x" "bk_state (f b) \<noteq> ALIVE" "bk_fd (f b) = bk_fd b \<or> bk_fd (f b) = -1"
    and m': "alive_backends m' = rest" "dead_backends m' = dead_backends m @ [f b]"
      "backends m' = change_first P f (backends m)" "group_size m' = group_size m"
    and s: "named a b" "set (broadcast_group_addr (get_cluster a m')) \<subseteq> set s"
  shows "ok_step m m' s"
proof -
  obtain xs ys where al: "alive_backends m = xs @ b # ys" and r: "rest = xs @ ys"
    using take_first_order [OF t] by blast
  then have b: "b \<in> set (backends m)" using mirrorD(1) [OF m] by simp
  note c = change_first_named [where P = P and f = f and b = b, OF m b P one f(1)]
  have "mirror m'"
  proof (rule mirror_move [OF m b _ c(1,2) _ _ _ m'(1,2,3)])
    show "\<forall>x \<in> set rest. bk_state x = ALIVE" "\<forall>x \<in> set (dead_backends m @ [f b]). bk_state x \<noteq> ALIVE"
      using m f(2) by (auto simp: mirror_def al r)
    show "bk_fd (f b) = - 1 \<or> (\<forall>x \<in> set (backends m). bk_fd x = bk_fd (f b) \<longrightarrow> x = b)"
      using f(3) b mirrorD(4) [OF m] by metis
  qed (simp add: al r)
  moreover have cfg: "config m' = config m"
    by (simp add: config_def m' c(3))
  moreover have "live_change m m' s"
  proof (rule live_change.left [of m "map bk_key xs" "bk_key b" "map bk_key ys"])
    show "told (snd (bk_key b)) m' s"
      using group_of_named [OF m b s(1)] get_group_id_addr_config [OF cfg] s(2)
      by (intro toldI [of a]) (simp_all add: bk_key_def)
  qed (simp_all add: live_keys_def al r m')
  ultimately show ?thesis by (simp add: ok_step_def)
qed

lemma join_ok:
  assumes m: "mirror m" and t: "take_first Q (dead_backends m) = Some (b, rest)"
    and P: "P b" and one: "\<And>x. x \<in> set (backends m) \<Longrightarrow> P x \<Longrightarrow> x = b"
    and f: "\<And>x. bk_key (f x) = bk_key x" "bk_state (f b) = ALIVE"
      "bk_fd (f b) = bk_fd b \<or> (\<forall>x \<in> set (backends m). bk_fd x \<noteq> bk_fd (f b))"
    and m': "alive_backends m' = alive_backends m @ [f b]" "dead_backends m' = rest"
      "backends m' = change_first P f (backends m)" "group_size m' = group_size m"
    and s: "named a b" "set (broadcast_group_addr (get_cluster a m')) \<subseteq> set s"
  shows "ok_step m m' s"
proof -
  obtain xs ys where de: "dead_backends m = xs @ b # ys" and r: "rest = xs @ ys"
    using take_first_order [OF t] by blast
  then have b: "b \<in> set (backends m)" using mirrorD(1) [OF m] by simp
  note c = change_first_named [where P = P and f = f and b = b, OF m b P one f(1)]
  have "mirror m'"
  proof (rule mirror_move [OF m b _ c(1,2) _ _ _ m'(1,2,3)])
    show "\<forall>x \<in> set (alive_backends m @ [f b]). bk_state x = ALIVE" "\<forall>x \<in> set rest. bk_state x \<noteq> ALIVE"
      using m f(2) by (auto simp: mirror_def de r)
    show "bk_fd (f b) = - 1 \<or> (\<forall>x \<in> set (backends m). bk_fd x = bk_fd (f b) \<longrightarrow> x = b)"
      using f(3) b mirrorD(4) [OF m] by metis
  qed (simp add: de r)
  moreover have cfg: "config m' = config m"
    by (simp add: config_def m' c(3))
  moreover have "live_change m m' s"
  proof (rule live_change.joined [of _ _ "bk_key b"])
    show "told (snd (bk_key b)) m' s"
      using group_of_named [OF m b s(1)] get_group_id_addr_config [OF cfg] s(2)
      by (intro toldI [of a]) (simp_all add: bk_key_def)
  qed (simp_all add: live_keys_def m' f(1))
  ultimately show ?thesis by (simp add: ok_step_def)
qed

text \<open>A dead server changes its state and descriptor, but stays dead.\<close>

lemma stay_ok:
  assumes m: "mirror m" and b: "b \<in> set (dead_backends m)"
    and P: "P b" and one: "\<And>x. x \<in> set (backends m) \<Longrightarrow> P x \<Longrightarrow> x = b"
    and f: "\<And>x. bk_key (f x) = bk_key x" "bk_state (f b) \<noteq> ALIVE" "bk_fd (f b) = -1"
    and m': "alive_backends m' = alive_backends m"
      "dead_backends m' = change_first P f (dead_backends m)"
      "backends m' = change_first P f (backends m)" "group_size m' = group_size m"
  shows "ok_step m m' s"
proof -
  have bb: "b \<in> set (backends m)" and sub: "set (dead_backends m) \<subseteq> set (backends m)"
    using b mirrorD(1) [OF m] by auto
  note c = change_first_named [where P = P and f = f and b = b, OF m bb P one f(1)]
  have d: "add_mset b (mset (change_first P f (dead_backends m))) = add_mset (f b) (mset (dead_backends m))"
    by (rule change_first_one [OF b, where P = P]) (use P one sub in auto)
  obtain N where N: "mset (dead_backends m) = add_mset b N"
    using b by (metis mset_add set_mset_mset)
  have d': "mset (change_first P f (dead_backends m)) = add_mset (f b) N"
    using d by (simp add: N add_mset_commute [of "f b"])
  have "mirror m'"
  proof (rule mirror_move [OF m bb _ c(1,2) _ _ _ m'(1,2,3)])
    show "\<forall>x \<in> set (change_first P f (dead_backends m)). bk_state x \<noteq> ALIVE"
      using m f(2) N d' by (auto simp: mirror_def simp flip: set_mset_mset)
    show "\<forall>x \<in> set (alive_backends m). bk_state x = ALIVE"
      using m by (simp add: mirror_def)
  qed (use f(3) in \<open>simp_all add: N d'\<close>)
  then show ?thesis
    using m' c(3) by (simp add: ok_step_def config_def live_change.same live_keys_def)
qed

lemma taken_mem:
  assumes "mirror m"
  shows "take_first Q (alive_backends m) = Some (b, rest) \<Longrightarrow> Q b \<and> b \<in> set (backends m) \<and> bk_state b = ALIVE"
    "take_first Q (dead_backends m) = Some (b, rest) \<Longrightarrow> Q b \<and> b \<in> set (backends m) \<and> bk_state b \<noteq> ALIVE"
proof -
  have *: "Q b \<and> b \<in> set bs" if "take_first Q bs = Some (b, rest)" for bs
    using take_first_order [OF that] take_first_Some [OF that] by auto
  have "\<forall>x \<in> set (alive_backends m). bk_state x = ALIVE" "\<forall>x \<in> set (dead_backends m). bk_state x \<noteq> ALIVE"
    using assms by (simp_all add: mirror_def)
  then show "take_first Q (alive_backends m) = Some (b, rest) \<Longrightarrow> Q b \<and> b \<in> set (backends m) \<and> bk_state b = ALIVE"
    "take_first Q (dead_backends m) = Some (b, rest) \<Longrightarrow> Q b \<and> b \<in> set (backends m) \<and> bk_state b \<noteq> ALIVE"
    using * mirrorD(1) [OF assms] by blast+
qed

lemma kill_ok:
  assumes m: "mirror m" and k: "kill_backend a m = (ok, m', s)"
  shows "ok_step m m' s"
proof (cases "take_first (named a) (alive_backends m)")
  case None
  then have "change_first (\<lambda>b. named a b \<and> bk_state b = ALIVE) (\<lambda>b. b\<lparr>bk_state := DEAD\<rparr>) (backends m) = backends m"
    using mirrorD(2) [OF m] by (intro change_first_none) (auto simp: take_first_None)
  then show ?thesis
    using k None m by (simp add: kill_backend_def Let_def ok_step_refl)
next
  case (Some p)
  obtain b rest where p: "p = (b, rest)" by (cases p)
  note t = Some [unfolded p]
  show ?thesis
    using taken_mem(1) [OF m t] live_named [OF m] k p t
    by (intro leave_ok [OF m t, where P = "\<lambda>b. named a b \<and> bk_state b = ALIVE" and a = a
          and f = "\<lambda>b. b\<lparr>bk_state := DEAD\<rparr>"]) (auto simp: kill_backend_def Let_def bk_key_def)
qed

lemma restart_ok:
  assumes m: "mirror m" and k: "restart_backend a m = (ok, m', s)"
  shows "ok_step m m' s"
proof (cases "take_first (\<lambda>b. named a b \<and> bk_state b = DEAD) (dead_backends m)")
  case None
  then have "change_first (\<lambda>b. named a b \<and> bk_state b = DEAD) (\<lambda>b. b\<lparr>bk_state := ALIVE\<rparr>) (backends m) = backends m"
    using mirrorD(1) [OF m] m by (intro change_first_none) (auto simp: take_first_None mirror_def)
  then show ?thesis
    using k None m by (simp add: restart_backend_def Let_def ok_step_refl)
next
  case (Some p)
  obtain b rest where p: "p = (b, rest)" by (cases p)
  note t = Some [unfolded p]
  show ?thesis
    using taken_mem(2) [OF m t] live_named [OF m] k p t
    by (intro join_ok [OF m t, where P = "\<lambda>b. named a b \<and> bk_state b = DEAD" and a = a
          and f = "\<lambda>b. b\<lparr>bk_state := ALIVE\<rparr>"]) (auto simp: restart_backend_def Let_def bk_key_def)
qed

lemma delete_fd_ok:
  assumes m: "mirror m" and fd: "fd \<noteq> -1" and k: "delete_backend_fd fd m = (ok, m', s)"
  shows "ok_step m m' s"
proof (cases "take_first (\<lambda>b. bk_fd b = fd) (alive_backends m)")
  case (Some p)
  obtain b rest where p: "p = (b, rest)" by (cases p)
  note t = Some [unfolded p]
  show ?thesis
    using taken_mem(1) [OF m t] mirrorD(4) [OF m] fd k t
    by (intro leave_ok [OF m t, where P = "\<lambda>b. bk_fd b = fd" and a = "bk_addr b"
          and f = "\<lambda>b. b\<lparr>bk_fd := -1, bk_state := CRASH\<rparr>"])
      (auto simp: delete_backend_fd_def Let_def bk_key_def)
next
  case None
  show ?thesis
  proof (cases "\<exists>b \<in> set (dead_backends m). bk_fd b = fd")
    case True
    then obtain b where b: "b \<in> set (dead_backends m)" "bk_fd b = fd" by blast
    let ?f = "\<lambda>b. b\<lparr>bk_fd := -1, bk_state := CRASH\<rparr>"
    have m': "m' = m\<lparr>backends := change_first (\<lambda>b. bk_fd b = fd) ?f (backends m),
                   dead_backends := change_first (\<lambda>b. bk_fd b = fd) ?f (dead_backends m)\<rparr>"
      using k None True by (simp add: delete_backend_fd_def Let_def)
    have "x = b" if "x \<in> set (backends m)" "bk_fd x = fd" for x
      using that b fd mirrorD(1) [OF m] mirrorD(4) [OF m, of x b] by simp
    then show ?thesis
      by (intro stay_ok [OF m b(1), where P = "\<lambda>b. bk_fd b = fd" and f = ?f])
        (simp_all add: m' b(2) bk_key_def)
  next
    case False
    then have "change_first (\<lambda>b. bk_fd b = fd) (\<lambda>b. b\<lparr>bk_fd := -1, bk_state := CRASH\<rparr>) (backends m) = backends m"
      using None mirrorD(1) [OF m] by (intro change_first_none) (auto simp: take_first_None)
    then show ?thesis
      using k None False m by (simp add: delete_backend_fd_def Let_def ok_step_refl)
  qed
qed

lemma set_fd_ok:
  assumes m: "mirror m" and k: "set_backend_fd a fd m = (ok, m', s)"
    and fresh: "\<forall>b \<in> set (backends m). bk_fd b \<noteq> fd" and gone: "\<forall>b \<in> set (alive_backends m). \<not> named a b"
  shows "ok_step m m' s"
proof (cases "take_first (named a) (dead_backends m)")
  case None
  then have "change_first (named a) (\<lambda>b. b\<lparr>bk_fd := fd, bk_state := ALIVE\<rparr>) (backends m) = backends m"
    using mirrorD(1) [OF m] gone by (intro change_first_none) (auto simp: take_first_None)
  then show ?thesis
    using k None m by (simp add: set_backend_fd_def Let_def ok_step_refl)
next
  case (Some p)
  obtain b rest where p: "p = (b, rest)" by (cases p)
  note t = Some [unfolded p]
  show ?thesis
    using taken_mem(2) [OF m t] live_named [OF m] k t fresh
    by (intro join_ok [OF m t, where P = "named a" and a = a
          and f = "\<lambda>b. b\<lparr>bk_fd := fd, bk_state := ALIVE\<rparr>"])
      (auto simp: set_backend_fd_def Let_def bk_key_def)
qed

lemma frontends_ok: "mirror m \<Longrightarrow> ok_step m (m\<lparr>frontends := fs\<rparr>) s"
  by (simp add: ok_step_def mirror_def config_def live_change.same live_keys_def)

lemma step_ok:
  assumes "mirror m" "master_step m s m'"
  shows "ok_step m m' s"
  using assms(2,1)
proof cases
  case (killed a ok)
  then show ?thesis using kill_ok assms(1) by blast
next
  case (restarted a ok)
  then show ?thesis using restart_ok assms(1) by blast
next
  case (closed fd)
  obtain ok m1 s1 where d: "delete_backend_fd fd m = (ok, m1, s1)"
    by (metis prod_cases3)
  have "ok_step m m1 s1"
    by (rule delete_fd_ok [OF assms(1) _ d]) (use closed in simp)
  then show ?thesis
    using closed d frontends_ok [OF assms(1)] by (auto simp: connection_closed_def split: if_splits)
next
  case (requested fd req r)
  show ?thesis
  proof (cases req)
    case (BACKEND_INITIAL a)
    then obtain addr where a: "address_init a = Inr addr"
      using requested(3) BACKEND_INITIAL by (cases "address_init a") (auto simp: master_command_def)
    obtain ok m1 s1 where d: "set_backend_fd addr fd m = (ok, m1, s1)"
      by (metis prod_cases3)
    have "ok_step m m1 s1"
      by (rule set_fd_ok [OF assms(1) d]) (use requested(2) BACKEND_INITIAL a in \<open>simp_all add: admissible_def list_all_iff\<close>)
    then show ?thesis
      using requested(3) BACKEND_INITIAL a d by (simp add: master_command_def)
  next
    case (USR_TO_BACKEND u)
    then show ?thesis
      using requested(3) ok_step_refl [OF assms(1)]
      by (cases "get_primary u m") (auto simp: master_command_def)
  next
    case (FRONTEND_INITIAL a)
    then show ?thesis
      using requested(3) frontends_ok [OF assms(1)]
      by (cases "address_init a") (auto simp: master_command_def)
  qed (use requested(3) ok_step_refl [OF assms(1)] in \<open>simp_all add: master_command_def\<close>)
qed

lemma run_ok: "master_run m m' \<Longrightarrow> mirror m \<Longrightarrow> mirror m' \<and> config m' = config m"
  by (induction rule: master_run.induct) (use step_ok in \<open>auto simp: ok_step_def\<close>)

section \<open>The configured start\<close>

lemma insert_address_set: "set (insert_address a xs) \<subseteq> insert a (set xs)"
  by (induction xs) auto

lemma address_init_name: "address_init s = Inr a \<Longrightarrow> ad_name a = s"
  by (auto simp: address_init_def Let_def rbind_def split: sum.splits)

definition parsed :: "address \<Rightarrow> bool" where
  "parsed a \<longleftrightarrow> address_init (ad_name a) = Inr a"

lemma set_alist_update: "set (AList.update k v al) \<subseteq> insert (k, v) (set al)"
  by (induction al) auto

lemma read_groups_parsed:
  "read_groups ls g = Inr g' \<Longrightarrow> \<forall>(k, st) \<in> set g. \<forall>a \<in> set st. parsed a \<Longrightarrow>
   \<forall>(k, st) \<in> set g'. \<forall>a \<in> set st. parsed a"
proof (induction ls g rule: read_groups.induct)
  case (2 line ls g)
  show ?case
  proof (cases "find_char (CHR '','') line")
    case None
    have "read_groups ls g = Inr g'"
      using 2(3) by (simp only: read_groups.simps None option.case)
    then show ?thesis using 2(1) [OF None] 2(4) by blast
  next
    case (Some pos)
    then obtain ad where ad: "address_init (drop (pos + 1) line) = Inr ad"
      using 2(3) by (cases "address_init (drop (pos + 1) line)") auto
    define st0 where "st0 = (case map_of g (take pos line) of None \<Rightarrow> [] | Some st \<Rightarrow> st)"
    have "parsed x" if "x \<in> set st0" for x
      using that 2(4) by (cases "map_of g (take pos line)") (auto simp: st0_def dest!: map_of_SomeD)
    then have new: "\<forall>x \<in> set (insert_address ad st0). parsed x"
      using insert_address_set [of ad st0] address_init_name [OF ad] ad by (auto simp: parsed_def)
    have "\<forall>(k, st) \<in> set (AList.update (take pos line) (insert_address ad st0) g). \<forall>a \<in> set st. parsed a"
      using set_alist_update [of "take pos line" "insert_address ad st0" g] new 2(4) by fast
    moreover have "read_groups ls (AList.update (take pos line) (insert_address ad st0) g) = Inr g'"
      using 2(3) Some ad by (simp add: st0_def Let_def)
    ultimately show ?thesis
      using 2(2) [OF Some ad refl refl] unfolding st0_def by blast
  qed
qed simp

lemma number_groups_mem:
  "number_groups i gs = (bs, n) \<Longrightarrow> b \<in> set bs \<Longrightarrow>
   bk_state b = CRASH \<and> bk_fd b = -1 \<and> (\<exists>k st. (k, st) \<in> set gs \<and> bk_addr b \<in> set st)"
proof (induction i gs arbitrary: bs n rule: number_groups.induct)
  case (2 i k st gs)
  obtain bs1 n1 where r: "number_groups (i + 1) gs = (bs1, n1)" by (cases "number_groups (i + 1) gs")
  then have "bs = map (\<lambda>a. new_backend\<lparr>bk_group := i, bk_addr := a\<rparr>) st @ bs1"
    using 2(2) by simp
  then consider a where "a \<in> set st" "b = new_backend\<lparr>bk_group := i, bk_addr := a\<rparr>" | "b \<in> set bs1"
    using 2(3) by auto
  then show ?case
  proof cases
    case 1
    then show ?thesis by (auto simp: new_backend_def)
  next
    case 2
    then show ?thesis using "2.IH" [OF r] by auto
  qed
qed simp

lemma initialD:
  assumes init: "initialize_backend iter file = Inr (Some m)"
  obtains t g where "read_groups (split t (CHR 0x0A)) [] = Inr g"
    "number_groups 0 (iter g) = (backends m, group_size m)"
    "alive_backends m = []" "dead_backends m = backends m"
proof -
  obtain t where Some: "file = Some t"
    using init by (cases "file = None") (auto simp: initialize_backend_def)
  then obtain g where g: "read_groups (split t (CHR 0x0A)) [] = Inr g"
    using init by (cases "read_groups (split t (CHR 0x0A)) []") (auto simp: initialize_backend_def)
  obtain bs n where n: "number_groups 0 (iter g) = (bs, n)"
    by (cases "number_groups 0 (iter g)")
  have "m = \<lparr>frontends = [], backends = bs, alive_backends = [], dead_backends = bs, group_size = n\<rparr>"
    using init Some g n by (simp add: initialize_backend_def)
  then show ?thesis using that [OF g] n by simp
qed

lemma initial_mirror:
  assumes init: "initialize_backend iter file = Inr (Some m)" and d: "distinct (map bk_name (backends m))"
  shows "mirror m"
proof -
  obtain g where g: "number_groups 0 (iter g) = (backends m, group_size m)"
    "alive_backends m = []" "dead_backends m = backends m"
    using initialD [OF init] by metis
  have "bk_state b = CRASH \<and> bk_fd b = -1" if "b \<in> set (backends m)" for b
    using number_groups_mem [OF g(1) that] by blast
  then show ?thesis
    using d g by (simp add: mirror_def)
qed

lemma initial_parsed:
  assumes init: "initialize_backend iter file = Inr (Some m)" and b: "b \<in> set (backends m)"
    and iter: "\<And>g. set (iter g) \<subseteq> set g"
  shows "parsed (bk_addr b)"
proof -
  obtain t g where g: "read_groups (split t (CHR 0x0A)) [] = Inr g" "number_groups 0 (iter g) = (backends m, group_size m)"
    using initialD [OF init] by metis
  obtain k st where "(k, st) \<in> set (iter g)" "bk_addr b \<in> set st"
    using number_groups_mem [OF g(2) b] by blast
  then show ?thesis
    using read_groups_parsed [OF g(1)] iter by fastforce
qed

section \<open>Primaries\<close>

text \<open>The master's answers depend on the live keys only.\<close>

lemma first_of_group_key:
  "map_option bk_key (first_of_group g bs) = find (\<lambda>k. snd k = g) (map bk_key bs)"
  by (induction bs) (simp_all add: bk_key_def)

lemma first_of_group_mem: "first_of_group g bs = Some b \<Longrightarrow> b \<in> set bs \<and> bk_group b = g"
  by (induction bs) (auto split: if_splits)

lemma get_primaryD:
  assumes "get_primary usr m = Inr (Some b)"
  shows "get_group_id usr m = Inr (bk_group b)" "first_of_group (bk_group b) (alive_backends m) = Some b"
    "b \<in> set (alive_backends m)"
proof -
  obtain g where g: "get_group_id usr m = Inr g" "first_of_group g (alive_backends m) = Some b"
    using assms by (cases "get_group_id usr m") (auto simp: get_primary_def)
  then show "get_group_id usr m = Inr (bk_group b)" "first_of_group (bk_group b) (alive_backends m) = Some b"
    "b \<in> set (alive_backends m)"
    using first_of_group_mem [OF g(2)] by simp_all
qed

lemma get_group_id_config: "config m' = config m \<Longrightarrow> get_group_id u m' = get_group_id u m"
  by (simp add: get_group_id_def config_def cong: if_cong)

lemma get_cluster_key:
  "get_cluster a m = map fst (filter (\<lambda>k. snd k = get_group_id_addr a m) (live_keys m))"
  by (induction "alive_backends m") (simp_all add: get_cluster_def live_keys_def filter_map o_def bk_key_def)

lemma first_of_group_head:
  "first_of_group g bs = Some b \<Longrightarrow> \<exists>rest. filter (\<lambda>b. bk_group b = g) bs = b # rest"
  by (induction bs) (auto split: if_splits)

lemma live_member: "mirror m \<Longrightarrow> b \<in> set (alive_backends m) \<Longrightarrow> get_group_id_addr (bk_addr b) m = bk_group b"
  using group_of_named [of m b "bk_addr b"] mirrorD(1) by blast

lemma primary_head:
  assumes "mirror m" "get_primary usr m = Inr (Some b)"
  shows "\<exists>rest. get_cluster (bk_addr b) m = bk_addr b # rest"
  using first_of_group_head [OF get_primaryD(2) [OF assms(2)]] live_member [OF assms(1) get_primaryD(3) [OF assms(2)]]
  by (auto simp: get_cluster_def)

lemma distinct_live:
  assumes "mirror m"
  shows "distinct (map (ad_name \<circ> fst) (live_keys m))"
proof -
  have "mset (alive_backends m @ dead_backends m) = mset (backends m)"
    using assms by (simp add: mirror_def)
  then have "mset (map bk_name (alive_backends m @ dead_backends m)) = mset (map bk_name (backends m))"
    by (simp only: mset_map)
  then have "distinct (map bk_name (alive_backends m @ dead_backends m))"
    using assms mset_eq_imp_distinct_iff unfolding mirror_def by blast
  then show ?thesis
    by (simp add: live_keys_def bk_key_def bk_name_def [abs_def] o_def)
qed

lemma find_append_kept:
  "find P (xs @ k # ys) = Some p \<Longrightarrow> p \<noteq> k \<Longrightarrow> find P (xs @ ys) = Some p"
  by (induction xs) (auto split: if_splits)

lemma find_append_later: "find P xs = Some p \<Longrightarrow> find P (xs @ ys) = Some p"
  by (induction xs) auto

lemma live_change_find:
  assumes "live_change m m' s" "find P (live_keys m) = Some p" "p \<in> set (live_keys m')"
    "distinct (live_keys m)"
  shows "find P (live_keys m') = Some p"
  using assms(1)
proof cases
  case (left xs k ys)
  have "p \<noteq> k" using assms(3,4) left by auto
  then show ?thesis using find_append_kept assms(2) left by metis
qed (use assms(2) find_append_later in auto)

end
