(* ===== verification/Cluster.thy ===== *)
theory Cluster
  imports Monitor_Correct Kvstore
begin

text \<open>
  The cluster as a whole: what the master's view guarantees to the clients that ask it for a primary
  and to the backend servers that learn from it who the primary is.
\<close>

section \<open>A configuration\<close>

definition example_config :: string where
  "example_config = unlines (CHR 0x0A)
     [''0,'' @ ''10.0.0.1'' @ '':'' @ nat_str 7001, ''0,'' @ ''10.0.0.2'' @ '':'' @ nat_str 7002,
      ''1,'' @ ''10.0.0.3'' @ '':'' @ nat_str 7003]"

definition example_address :: "string \<Rightarrow> nat \<Rightarrow> address" where
  "example_address h p = \<lparr>ad_name = h @ '':'' @ nat_str p, ad_ip = h, ad_port = int p\<rparr>"

definition example_backend :: "backend_state \<Rightarrow> int \<Rightarrow> nat \<Rightarrow> backend" where
  "example_backend st fd i = \<lparr>bk_state = st, bk_fd = fd, bk_group = [0, 0, 1] ! i,
     bk_addr = example_address ([''10.0.0.1'', ''10.0.0.2'', ''10.0.0.3''] ! i) (7001 + i)\<rparr>"

definition example_start :: master where
  "example_start = (let bs = map (example_backend CRASH (-1)) [0, 1, 2] in
     \<lparr>frontends = [], backends = bs, alive_backends = [], dead_backends = bs, group_size = 2\<rparr>)"

text \<open>All three servers have registered, the second one first.\<close>

definition example_running :: master where
  "example_running =
     \<lparr>frontends = [], backends = [example_backend ALIVE 6 0, example_backend ALIVE 5 1, example_backend ALIVE 7 2],
      alive_backends = [example_backend ALIVE 5 1, example_backend ALIVE 6 0, example_backend ALIVE 7 2],
      dead_backends = [], group_size = 2\<rparr>"

lemma port_digits [simp]:
  "nat_str 7001 = ''7001''" "nat_str 7002 = ''7002''" "nat_str 7003 = ''7003''"
  by (simp_all add: nat_str.simps digit_char_def char_of_def bit_iff_odd)

lemma example_addresses [simp]:
  "address_init ''10.0.0.1:7001'' = Inr (example_address ''10.0.0.1'' 7001)"
  "address_init ''10.0.0.2:7002'' = Inr (example_address ''10.0.0.2'' 7002)"
  "address_init ''10.0.0.3:7003'' = Inr (example_address ''10.0.0.3'' 7003)"
  using address_init_parts [of "''10.0.0.1''" 7001] address_init_parts [of "''10.0.0.2''" 7002]
    address_init_parts [of "''10.0.0.3''" 7003] by (simp_all add: example_address_def)

lemma example_init: "initialize_backend (\<lambda>g. g) (Some example_config) = Inr (Some example_start)"
proof -
  have "read_groups (split example_config (CHR 0x0A)) [] =
      Inr [(''0'', [example_address ''10.0.0.1'' 7001, example_address ''10.0.0.2'' 7002]),
           (''1'', [example_address ''10.0.0.3'' 7003])]"
    unfolding example_config_def
    by (subst split_unlines) (simp_all add: example_address_def)
  then show ?thesis
    by (simp add: initialize_backend_def example_start_def Let_def new_backend_def example_backend_def)
qed

lemma example_distinct: "distinct (map bk_name (backends example_start))"
  by (simp add: example_start_def Let_def bk_name_def example_backend_def example_address_def)

definition example_register :: "int \<Rightarrow> string \<Rightarrow> master \<Rightarrow> master" where
  "example_register fd n m =
     (case master_command (BACKEND_INITIAL n) fd m of Inl _ \<Rightarrow> m | Inr (m', _, _) \<Rightarrow> m')"

lemmas example_defs =
  example_register_def master_command_def set_backend_fd_def Let_def example_start_def
  example_running_def example_backend_def example_address_def admissible_def

lemma example_registers:
  "example_register 7 ''10.0.0.3:7003'' (example_register 6 ''10.0.0.1:7001''
     (example_register 5 ''10.0.0.2:7002'' example_start)) = example_running"
  by (simp add: example_defs)

lemma register_step:
  assumes "admissible (BACKEND_INITIAL n) fd m" "0 \<le> fd" "master_run m0 m"
  shows "master_run m0 (example_register fd n m)"
proof (cases "master_command (BACKEND_INITIAL n) fd m")
  case (Inr x)
  obtain m' r s where x: "x = (m', r, s)" by (cases x)
  then have "master_step m s m'"
    using requested assms(1,2) Inr by blast
  then have "master_run m0 m'" using assms(3) step by blast
  then show ?thesis using Inr x by (simp add: example_register_def)
qed (simp add: example_register_def assms(3))

lemma example_run: "master_run example_start example_running"
proof -
  have "admissible (BACKEND_INITIAL ''10.0.0.2:7002'') 5 example_start"
    "admissible (BACKEND_INITIAL ''10.0.0.1:7001'') 6 (example_register 5 ''10.0.0.2:7002'' example_start)"
    "admissible (BACKEND_INITIAL ''10.0.0.3:7003'') 7 (example_register 6 ''10.0.0.1:7001''
     (example_register 5 ''10.0.0.2:7002'' example_start))"
    by (simp_all add: example_defs)
  then show ?thesis
    using register_step start by (simp flip: example_registers)
qed

section \<open>The master's lists\<close>

text \<open>
  The master's three lists agree in every state its events lead to: started from any
  configuration with distinct server names, the live servers are exactly the configured ones whose
  state is \<open>ALIVE\<close>, every configured server is in exactly one of the two lists, and the names and
  groups are those of the configuration.
\<close>

lemma alive_list_agrees:
  assumes "initialize_backend iter file = Inr (Some m0)" "distinct (map bk_name (backends m0))"
    "master_run m0 m"
  shows "mset (alive_backends m) + mset (dead_backends m) = mset (backends m) \<and>
    filter (\<lambda>b. bk_state b = ALIVE) (alive_backends m) = alive_backends m \<and>
    filter (\<lambda>b. bk_state b = ALIVE) (dead_backends m) = [] \<and> config m = config m0"
  using run_ok [OF assms(3) initial_mirror [OF assms(1,2)]]
  by (auto simp: mirror_def filter_empty_conv intro!: filter_True)


section \<open>Failover\<close>

text \<open>
  C22. A primary is replaced only when it leaves: whatever event happens in a reachable state, if the
  primary of a user's group is still alive afterwards then it is still the primary (a server that
  registers or is restarted never takes over), and if another server of the group is left
  alive then the group still has a primary.
\<close>

theorem primary_stays:
  assumes "mirror m" "master_step m s m'" "get_primary usr m = Inr (Some b)"
  shows "(bk_addr b \<in> set (map bk_addr (alive_backends m')) \<longrightarrow>
           (\<exists>b'. get_primary usr m' = Inr (Some b') \<and> bk_addr b' = bk_addr b)) \<and>
         (get_primary usr m' = Inr None \<longrightarrow> (\<forall>c \<in> set (alive_backends m'). bk_group c \<noteq> bk_group b))"
proof -
  let ?P = "\<lambda>k. snd k = bk_group b"
  have ok: "mirror m'" "config m' = config m" "live_change m m' s"
    using step_ok [OF assms(1,2)] by (simp_all add: ok_step_def)
  have p: "get_primary usr m' = Inr (first_of_group (bk_group b) (alive_backends m'))"
    using get_primaryD(1) [OF assms(3)] get_group_id_config [OF ok(2), of usr] by (simp add: get_primary_def)
  have find: "find ?P (live_keys m) = Some (bk_key b)"
    using first_of_group_key [of "bk_group b" "alive_backends m"] get_primaryD(2) [OF assms(3)]
    by (simp add: live_keys_def)
  have key: "bk_key c = bk_key b" if c: "c \<in> set (alive_backends m')" "bk_addr c = bk_addr b" for c
  proof -
    have "bk_group c = bk_group b"
      using live_member [OF ok(1) c(1)] live_member [OF assms(1) get_primaryD(3) [OF assms(3)]]
        get_group_id_addr_config [OF ok(2)] c(2) by metis
    then show ?thesis using c(2) by (simp add: bk_key_def)
  qed
  have "\<exists>b'. first_of_group (bk_group b) (alive_backends m') = Some b' \<and> bk_addr b' = bk_addr b"
    if "bk_addr b \<in> set (map bk_addr (alive_backends m'))"
  proof -
    obtain c where "bk_addr b = bk_addr c" "c \<in> set (alive_backends m')"
      using \<open>bk_addr b \<in> _\<close> by auto
    then have "bk_key b \<in> set (live_keys m')"
      using key by (metis image_eqI live_keys_def list.set_map)
    moreover have "distinct (live_keys m)"
      using distinct_live [OF assms(1)] by (simp add: distinct_map)
    ultimately have "find ?P (live_keys m') = Some (bk_key b)"
      using live_change_find [OF ok(3) find] by blast
    then have "map_option bk_key (first_of_group (bk_group b) (alive_backends m')) = Some (bk_key b)"
      using first_of_group_key [of "bk_group b" "alive_backends m'"] by (simp add: live_keys_def)
    then show ?thesis using bk_key_addr by blast
  qed
  moreover have "\<forall>c \<in> set bs. bk_group c \<noteq> g" if "first_of_group g bs = None" for g bs
    using that by (induction bs) (auto split: if_splits)
  ultimately show ?thesis unfolding p by simp
qed

lemma example_mirror: "mirror example_running" "config example_running = config example_start"
  using run_ok [OF example_run initial_mirror [OF example_init example_distinct]] by simp_all

lemma hash_bob: "hashh ''bob'' 3 = Inr 3204941842"
  by (simp add: hashh_def hash_prime_def hash_step_def Let_def char_s32_def)

text \<open>The first server of the example loses its connection; the user \<open>bob\<close> is in group 0.\<close>

definition example_failed :: master where
  "example_failed = fst (connection_closed 6 example_running)"

lemma example_failure: "master_step example_running (snd (connection_closed 6 example_running)) example_failed"
  by (rule closed [of 6]) (simp_all add: example_failed_def)

lemma example_primary:
  "get_primary ''bob'' example_running = Inr (Some (example_backend ALIVE 5 1))"
  by (simp add: get_primary_def get_group_id_def hash_bob example_running_def example_backend_def)

theorem primary_stays_witness:
  "\<exists>b'. get_primary ''bob'' example_failed = Inr (Some b') \<and> bk_addr b' = example_address ''10.0.0.2'' 7002"
  using primary_stays [OF example_mirror(1) example_failure example_primary]
  by (simp add: example_failed_def example_running_def connection_closed_def delete_backend_fd_def Let_def example_backend_def)

text \<open>
  C24. No server is left with an old view: whenever an event changes the live members of a group,
  every server that is live in that group afterwards is sent the new list of members.
\<close>

theorem cluster_change_is_told:
  assumes "mirror m" "master_step m s m'" "get_cluster a m' \<noteq> get_cluster a m"
    "x \<in> set (get_cluster a m')"
  shows "(x, empty_command\<lparr>c_com := ''CLUSTER'', c_addrs := map ad_name (get_cluster a m')\<rparr>) \<in> set s"
proof -
  let ?g = "get_group_id_addr a m"
  have ok: "config m' = config m" "live_change m m' s"
    using step_ok [OF assms(1,2)] by (simp_all add: ok_step_def)
  have g: "get_group_id_addr a' m' = get_group_id_addr a' m" for a'
    using get_group_id_addr_config [OF ok(1)] .
  have told: ?thesis if t: "told ?g m' s"
  proof -
    obtain a' where a': "get_group_id_addr a' m' = ?g" "set (broadcast_group_addr (get_cluster a' m')) \<subseteq> set s"
      using t by (auto simp: told_def)
    then have "get_cluster a' m' = get_cluster a m'"
      by (simp add: get_cluster_def g)
    then show ?thesis
      using a'(2) assms(4) by (auto simp: broadcast_group_addr_def)
  qed
  show ?thesis
    using ok(2)
  proof cases
    case same
    then show ?thesis using assms(3) g by (simp add: get_cluster_key)
  next
    case (left xs k ys)
    then show ?thesis
      using told assms(3) by (cases "snd k = ?g") (simp_all add: get_cluster_key g)
  next
    case (joined k)
    then show ?thesis
      using told assms(3) by (cases "snd k = ?g") (simp_all add: get_cluster_key g)
  qed
qed

theorem cluster_change_is_told_witness:
  "(example_address ''10.0.0.2'' 7002, empty_command\<lparr>c_com := ''CLUSTER'', c_addrs := [''10.0.0.2:7002'']\<rparr>)
     \<in> set (snd (connection_closed 6 example_running))"
proof -
  have "get_cluster (example_address ''10.0.0.2'' 7002) example_failed = [example_address ''10.0.0.2'' 7002]"
    by (simp add: example_failed_def connection_closed_def delete_backend_fd_def get_cluster_def
        get_group_id_addr_def example_defs)
  moreover have "get_cluster (example_address ''10.0.0.2'' 7002) example_running =
      [example_address ''10.0.0.2'' 7002, example_address ''10.0.0.1'' 7001]"
    by (simp add: get_cluster_def get_group_id_addr_def example_defs)
  ultimately show ?thesis
    using cluster_change_is_told [OF example_mirror(1) example_failure, of "example_address ''10.0.0.2'' 7002"
        "example_address ''10.0.0.2'' 7002"] by (simp add: example_address_def)
qed

section \<open>The servers' view\<close>

lemma init_all_names: "\<forall>a \<in> set as. parsed a \<Longrightarrow> init_all (map ad_name as) = Inr as"
  by (induction as) (simp_all add: parsed_def)

lemma run_parsed:
  assumes "initialize_backend iter file = Inr (Some m0)" "\<And>g. set (iter g) \<subseteq> set g"
    "config m = config m0" "b \<in> set (backends m)"
  shows "parsed (bk_addr b)"
proof -
  have "bk_key b \<in> set (map bk_key (backends m0))"
    using assms(3,4) by (metis config_def fst_conv image_eqI list.set_map)
  then show ?thesis
    using initial_parsed [OF assms(1) _ assms(2)] by (auto simp: bk_key_def)
qed

text \<open>
  C21. The master and the servers agree on the primary: in a reachable state, when a live server of
  the group of \<open>usr\<close> that is not a primary receives the list of members the master broadcasts, it
  accepts it without an exception, records exactly the live members of its group, and becomes the
  primary iff it is the server that the master names as the primary of \<open>usr\<close>.  The ports of
  the members must differ, since servers compare ports only.
\<close>

theorem one_primary_per_group:
  assumes "initialize_backend iter file = Inr (Some m0)" "distinct (map bk_name (backends m0))"
    "\<forall>g. set (iter g) \<subseteq> set g" "master_run m0 m" "get_primary usr m = Inr (Some b)"
    "my_addr nd \<in> set (get_cluster (bk_addr b) m)" "distinct (map ad_port (get_cluster (bk_addr b) m))"
    "\<not> isPrimary nd"
  shows "\<exists>nd'. parse_secondary_from_master (map ad_name (get_cluster (bk_addr b) m)) nd = Inr nd' \<and>
    secondary nd' = get_cluster (bk_addr b) m \<and> (isPrimary nd' \<longleftrightarrow> my_addr nd = bk_addr b)"
proof -
  have m: "mirror m" "config m = config m0"
    using run_ok [OF assms(4) initial_mirror [OF assms(1,2)]] by simp_all
  obtain rest where c: "get_cluster (bk_addr b) m = bk_addr b # rest"
    using primary_head [OF m(1) assms(5)] by blast
  have "\<forall>a \<in> set (get_cluster (bk_addr b) m). parsed a"
    using run_parsed [OF assms(1) _ m(2)] assms(3) mirrorD(1) [OF m(1)] by (auto simp: get_cluster_def)
  then have "init_all (map ad_name (get_cluster (bk_addr b) m)) = Inr (get_cluster (bk_addr b) m)"
    by (rule init_all_names)
  moreover have "ad_port (my_addr nd) = ad_port (bk_addr b) \<longleftrightarrow> my_addr nd = bk_addr b"
    using assms(6,7) c by (auto simp: image_iff)
  ultimately show ?thesis
    using assms(8) c by (simp add: parse_secondary_from_master_def first_node_def)
qed

section \<open>A server that registers twice\<close>

lemma change_first_set:
  "distinct bs \<Longrightarrow> b \<in> set bs \<Longrightarrow> P b \<Longrightarrow> (\<And>x. x \<in> set bs \<Longrightarrow> P x \<Longrightarrow> x = b) \<Longrightarrow>
   set (change_first P f bs) = insert (f b) (set bs - {b})"
proof (induction bs)
  case (Cons x bs)
  show ?case
  proof (cases "P x")
    case True
    then have "x = b" using Cons.prems(4) by simp
    then show ?thesis using True Cons.prems(1) by auto
  next
    case False
    then have "x \<noteq> b" "b \<in> set bs" using Cons.prems(2,3) by auto
    then have "set (change_first P f bs) = insert (f b) (set bs - {b})"
      by (intro Cons.IH) (use Cons.prems in simp_all)
    then show ?thesis using False \<open>x \<noteq> b\<close> by auto
  qed
qed simp

text \<open>
  The invariant cannot be extended to a server that registers again before the master has seen
  its old connection close: the list of live servers keeps the old descriptor, so when that
  connection is closed the master declares the server dead, although its new connection is open and
  its entry in \<open>backends\<close> says \<open>ALIVE\<close>; nothing puts it back as long as the new connection lives.
\<close>

lemma second_registration_is_lost:
  assumes "mirror m" "b \<in> set (alive_backends m)" "bk_fd b \<noteq> -1" "map_of (frontends m) (bk_fd b) = None"
    "\<forall>c \<in> set (backends m). bk_fd c \<noteq> fd"
    "set_backend_fd (bk_addr b) fd m = (ok, m1, s1)" "connection_closed (bk_fd b) m1 = (m2, s2)"
  shows "\<not> ok \<and> bk_addr b \<notin> set (map bk_addr (alive_backends m2)) \<and>
    b\<lparr>bk_fd := fd, bk_state := ALIVE\<rparr> \<in> set (backends m2)"
proof -
  let ?up = "\<lambda>b. b\<lparr>bk_fd := fd, bk_state := ALIVE\<rparr>"
  have bb: "b \<in> set (backends m)" using assms(2) mirrorD(1) [OF assms(1)] by blast
  have dis: "distinct (map (ad_name \<circ> fst) (live_keys m))" using distinct_live [OF assms(1)] .
  have "\<forall>x \<in> set (dead_backends m). \<not> named (bk_addr b) x"
  proof
    fix x assume x: "x \<in> set (dead_backends m)"
    then have "x \<noteq> b" using assms(1,2) by (auto simp: mirror_def)
    moreover have "x \<in> set (backends m)" using x mirrorD(1) [OF assms(1)] by blast
    ultimately show "\<not> named (bk_addr b) x"
      using live_named [OF assms(1) _ bb, of x "bk_addr b"] by blast
  qed
  then have none: "take_first (named (bk_addr b)) (dead_backends m) = None"
    by (simp add: take_first_None)
  have m1: "\<not> ok" "m1 = m\<lparr>backends := change_first (named (bk_addr b)) ?up (backends m)\<rparr>"
    using assms(6) none by (auto simp: set_backend_fd_def Let_def)
  have one: "x = b" if "x \<in> set (backends m)" "named (bk_addr b) x" for x
    using live_named [OF assms(1) that(1) bb that(2)] by simp
  have "distinct (backends m)" using assms(1) by (simp add: mirror_def distinct_map)
  then have bs: "set (backends m1) = insert (?up b) (set (backends m) - {b})"
    using change_first_set [of "backends m" b "named (bk_addr b)" ?up] bb one m1(2) by simp
  have gone: "\<forall>x \<in> set (backends m1). bk_fd x \<noteq> bk_fd b"
    using bs assms(3,5) bb mirrorD(4) [OF assms(1) _ bb] by auto
  obtain b' rest where t: "take_first (\<lambda>x. bk_fd x = bk_fd b) (alive_backends m1) = Some (b', rest)"
    using assms(2) m1(2) take_first_None [of "\<lambda>x. bk_fd x = bk_fd b" "alive_backends m1"]
    by (cases "take_first (\<lambda>x. bk_fd x = bk_fd b) (alive_backends m1)") auto
  obtain xs ys where xs: "alive_backends m = xs @ b' # ys" "rest = xs @ ys"
    using take_first_order [OF t] m1(2) by auto
  have "b' = b"
  proof (rule mirrorD(4) [OF assms(1) _ bb])
    show "b' \<in> set (backends m)" using xs mirrorD(1) [OF assms(1)] by simp
    show fd: "bk_fd b' = bk_fd b" using take_first_Some [OF t] by simp
    show "bk_fd b' \<noteq> -1" using assms(3) fd by simp
  qed
  moreover have "alive_backends m2 = rest" "backends m2 = backends m1"
    using assms(7) t gone m1(2) assms(4)
    by (auto simp: connection_closed_def delete_backend_fd_def Let_def change_first_none)
  moreover have "bk_addr b' \<notin> set (map bk_addr rest)"
    using dis xs by (auto simp: live_keys_def bk_key_def)
  ultimately show ?thesis using m1(1) bs by simp
qed

text \<open>The second server registers again on descriptor 9.\<close>

definition example_backup :: node where
  "example_backup = \<lparr>nd_prefix = ''storage/'', nd_cache = new_cache ''storage/logging'', nd_fs = \<lparr>files = [], dirs = []\<rparr>, max_sequence = 0, isPrimary = False,
       killed = False, nd_init = False, secondary = [], my_addr = example_address ''10.0.0.2'' 7002,
       last_checkpoint_time = 0\<rparr>"

theorem one_primary_per_group_witness:
  "\<exists>nd'. parse_secondary_from_master [''10.0.0.2:7002'', ''10.0.0.1:7001'']
      example_backup = Inr nd' \<and> isPrimary nd'"
proof -
  have c: "get_cluster (bk_addr (example_backend ALIVE 5 1)) example_running =
      [example_address ''10.0.0.2'' 7002, example_address ''10.0.0.1'' 7001]"
    by (simp add: get_cluster_def get_group_id_addr_def example_defs)
  show ?thesis
    using one_primary_per_group [OF example_init example_distinct _ example_run example_primary,
        where nd = "example_backup"]
    unfolding c by (auto simp: example_backup_def example_address_def example_backend_def)
qed

text \<open>
  When no server of a user's group is alive the master answers with an empty name instead of a failure;
  the client takes the answer for an address, and the address it parses is one with an empty host and
  port 0, so the failure shows only when the connection is attempted.
\<close>

lemma no_primary_answers_empty_name:
  assumes "get_primary usr m = Inr None"
  shows "master_command (USR_TO_BACKEND usr) fd m = Inr (m, Some (Backend_addrs [[]]), []) \<and>
    usr_to_address (\<lambda>_. Some [[]]) usr = Some [] \<and> address_init [] = Inr empty_address"
  using assms address_no_colon [of "[]"]
  by (simp add: master_command_def new_backend_def empty_address_def usr_to_address_def atoi_def scan_num_def)

end
