(* ===== verification/Node_Safety.thy ===== *)
theory Node_Safety
  imports Replication
begin

text \<open>
  What a node does with every command of a client, the listing of a user and the unknown ones included: it never raises and stays well formed.
\<close>

section \<open>Listing a user\<close>

lemma overlay_map:
  assumes "wf_map ups" "wf_map m"
  shows "wf_map (overlay ups m) \<and>
    map_of (overlay ups m) k = (case map_of ups k of None \<Rightarrow> map_of m k | Some v \<Rightarrow> if v = [] then None else Some v)"
  using assms
proof (induction ups arbitrary: m)
  case (Cons p ups)
  obtain j v where p: "p = (j, v)" by (cases p)
  let ?m = "if v \<noteq> [] then AList.update j v m else AList.delete j m"
  have w: "wf_map ups" "map_of ups j = None" "wf_map ?m"
    using Cons.prems by (auto simp: p wf_map_Cons)
  have "overlay (p # ups) m = overlay ups ?m"
    by (simp add: overlay_def p)
  moreover have "map_of ?m k = (if k = j then (if v = [] then None else Some v) else map_of m k)"
    by (simp add: delete_conv' update_conv')
  ultimately show ?case
    using Cons.IH [OF w(1,3)] w(2) by (cases "k = j") (simp_all add: p split: option.split)
qed (simp add: overlay_def)

lemma get_all_loop_wf: "get_all_loop ks fs c m = Inr m' \<Longrightarrow> wf_map m \<Longrightarrow> wf_map m'"
  by (induction ks arbitrary: m) (auto simp: rbind_def split: sum.splits prod.splits)

lemma received_map: "wf_map kvs \<Longrightarrow> map_of (fold (\<lambda>(k, v) m. AList.update k v m) kvs m) k = (case map_of kvs k of None \<Rightarrow> map_of m k | Some v \<Rightarrow> Some v)"
proof (induction kvs arbitrary: m)
  case (Cons p kvs)
  then show ?case
    by (cases p) (auto simp: wf_map_Cons update_conv' split: option.split)
qed simp

lemma run_all_spec:
  assumes nd: "node_ok nd" "\<not> killed nd" and u: "name_ok u"
    and c: "c_com c = ''ALL''" "c_usr c = Some u"
  shows "\<exists>s kvs nd'. run_command e c ret nd = Inr (quiet e (ret\<lparr>r_status := kv_code s,
        r_key_values := (if s = FINISHED then kvs else r_key_values ret)\<rparr>) nd') \<and>
    node_ok nd' \<and> nval nd' = nval nd \<and> isPrimary nd' = isPrimary nd \<and> killed nd' = killed nd \<and>
    (\<forall>k. (case map_of (if s = FINISHED then kvs else []) k of None \<Rightarrow> [] | Some v \<Rightarrow> v) = nval nd u k) \<and>
    (s = FINISHED \<longrightarrow> wf_map kvs)"
proof -
  let ?p = "nd_prefix nd" and ?fs = "nd_fs nd" and ?c = "nd_cache nd"
  note S = state_okD [OF node_state(1) [OF nd(1)]]
  show ?thesis
    using S(5) [OF u] u
  proof (cases rule: user_ok_cases)
    case (1 ch)
    obtain m where m: "get_all_kv ?fs ch = Inr m" "map_of m = disk_view ?p ?fs u"
      using 1(4) by blast
    let ?c' = "?c\<lparr>updates_cache := touch u (updates_cache ?c)\<rparr>" and ?ups = "user_map (updates_cache ?c) u"
    let ?kvs = "overlay ?ups m" and ?nd = "nd\<lparr>nd_cache := ?c\<lparr>updates_cache := touch u (updates_cache ?c)\<rparr>\<rparr>"
    have w: "wf_map ?ups" "wf_map m"
      using S(3) get_all_loop_wf [of "map fst (metadata ch)" ?fs ch "[]" m] m(1)
      by (auto simp: cache_wf_def batch_ok_def get_all_kv_def)
    have "run_command e c ret nd = Inr (quiet e (ret\<lparr>r_status := kv_code FINISHED, r_key_values := ?kvs\<rparr>) ?nd)"
      using nd(2) c 1(2) m(1) by (simp add: run_command_def GetsAll_def Let_def)
    moreover have "cache_wf ?p ?fs ?c'"
      by (rule cache_wf_touch [OF S(3) u]) simp
    then have "node_ok ?nd \<and> nval ?nd = nval nd"
      using nd(1) unfolding node_ok_def state_ok_def
      by (auto simp: nval_def cval_def upd_def rd_def coherent_def fun_eq_iff)
    moreover have "(case map_of ?kvs k of None \<Rightarrow> [] | Some v \<Rightarrow> v) = nval nd u k" for k
      using overlay_map [OF w, of k] u
      by (auto simp: nval_def cval_def dval_def upd_def m(2) split: option.splits)
    ultimately show ?thesis
      using overlay_map [OF w] by (intro exI [of _ FINISHED] exI [of _ ?kvs] exI [of _ ?nd]) simp
  next
    case 2
    have "run_command e c ret nd = Inr (quiet e (ret\<lparr>r_status := kv_code USER_ERROR, r_key_values := r_key_values ret\<rparr>) nd)"
      using nd(2) c 2(2) by (simp add: run_command_def GetsAll_def Let_def)
    moreover have "\<not> knows nd u"
      using 2(2) by (simp add: knows_def disk_ok_def)
    then have "nval nd u k = []" for k
      by (rule unknown_user(2) [OF nd(1) u])
    ultimately show ?thesis
      using nd(1) by (intro exI [of _ USER_ERROR] exI [of _ "[]"] exI [of _ nd]) simp
  qed
qed

text \<open>A live primary answers \<open>ALL\<close> with the values of the user.\<close>

lemma node_all:
  assumes nd: "serving nd" and u: "name_ok u"
  shows "\<exists>code kvs nd'. kv_gets_all (node_link e) u nd = ((code, kvs), nd') \<and> serving nd' \<and> nval nd' = nval nd \<and>
    (\<forall>k. (case map_of kvs k of None \<Rightarrow> [] | Some v \<Rightarrow> v) = nval nd u k)"
proof -
  have ok: "node_ok nd" "isPrimary nd" "\<not> killed nd"
    using nd by (simp_all add: serving_def)
  have c: "c_com (all_cmd u) = ''ALL''" "c_usr (all_cmd u) = Some u"
    by simp_all
  obtain s kvs nd' where R: "run_command e (all_cmd u) empty_ret nd = Inr (quiet e (empty_ret\<lparr>r_status := kv_code s,
        r_key_values := (if s = FINISHED then kvs else r_key_values empty_ret)\<rparr>) nd')"
    "node_ok nd'" "nval nd' = nval nd" "isPrimary nd' = isPrimary nd" "killed nd' = killed nd"
    "\<And>k. (case map_of (if s = FINISHED then kvs else []) k of None \<Rightarrow> [] | Some v \<Rightarrow> v) = nval nd u k" "s = FINISHED \<longrightarrow> wf_map kvs"
    using run_all_spec [OF ok(1,3) u c, of e empty_ret] by blast
  let ?kvs = "if s = FINISHED then kvs else []"
  have e: "r_key_values empty_ret = []"
    by (simp add: empty_ret_def)
  have "kv_gets_all (node_link e) u nd = ((kv_code s, fold (\<lambda>(k, v) m. AList.update k v m) ?kvs []), nd')"
    using R(1,4) ok(2) unfolding e by (simp add: kv_gets_all_def kv_trans_def node_link_def)
  moreover have "wf_map ?kvs"
    using R(7) by simp
  then have "map_of (fold (\<lambda>(k, v) m. AList.update k v m) ?kvs []) k = map_of ?kvs k" for k
    using received_map [of ?kvs "[]" k] by (simp split: option.splits)
  moreover have "serving nd'"
    using R(2,4,5) ok by (simp add: serving_def)
  ultimately show ?thesis
    using R(3,6) by (intro exI [of _ "kv_code s"] exI [of _ "fold (\<lambda>(k, v) m. AList.update k v m) ?kvs []"] exI [of _ nd']) simp
qed

section \<open>Every command\<close>

text \<open>
  A well-typed command: its names can stand in the log, its value can be read back, and an update is for a user that has signed up, or is the
  first password.  The commands between servers (\<open>RESTART\<close>, \<open>CLUSTER\<close>, \<open>CKPT\<close>, \<open>SYNC\<close>) are not among them.
\<close>

definition command_ok :: "node \<Rightarrow> kv_command \<Rightarrow> bool" where
  "command_ok nd c =
     (c_com c \<notin> {''RESTART'', ''CLUSTER'', ''CKPT'', ''SYNC''} \<and>
      (c_com c \<in> {''PUTS'', ''DELE''} \<longrightarrow> knows nd (cmd_usr c) \<and> data_ok (cmd_usr c) (c_key c) (c_value1 c)) \<and>
      (c_com c = ''CPUT'' \<longrightarrow> data_ok (cmd_usr c) (c_key c) (c_value2 c) \<and>
         (knows nd (cmd_usr c) \<or> c_key c = ''pwd'' \<and> c_value1 c = [] \<or> nval nd (cmd_usr c) (c_key c) \<noteq> c_value1 c)) \<and>
      (c_com c = ''GETS'' \<longrightarrow> name_ok (cmd_usr c)) \<and>
      (c_com c = ''ALL'' \<longrightarrow> (case c_usr c of None \<Rightarrow> True | Some u \<Rightarrow> name_ok u)))"

text \<open>Only the fields that a command uses matter.\<close>

lemma run_fields:
  "run_puts c nd = run_puts (puts_cmd (cmd_usr c) (c_key c) (c_value1 c)) nd"
  "run_dele c nd = run_dele (dele_cmd (cmd_usr c) (c_key c)) nd"
  "run_gets c nd = run_gets (gets_cmd (cmd_usr c) (c_key c)) nd"
  "run_cput c nd = run_cput (cput_cmd (cmd_usr c) (c_key c) (c_value1 c) (c_value2 c)) nd"
  by (simp_all add: run_puts_def run_dele_def run_gets_def run_cput_def)

definition touches :: "kv_command \<Rightarrow> node \<Rightarrow> node \<Rightarrow> bool" where
  "touches c nd nd' \<longleftrightarrow> node_ok nd' \<and> (\<forall>u k. (u, k) \<noteq> (cmd_usr c, c_key c) \<longrightarrow> nval nd' u k = nval nd u k)"

lemma updates_touches: "updates nd nd' (cmd_usr c) (c_key c) v \<Longrightarrow> touches c nd nd'"
  by (auto simp: updates_def touches_def set_val_def)

lemma keeps_touches: "keeps n nd nd' \<Longrightarrow> touches c nd nd'"
  by (simp add: keeps_def touches_def)



end
