(* ===== verification/Admin_Correct.thy ===== *)
theory Admin_Correct
  imports Admin Cluster Web_Correct Node_Safety
begin

text \<open>
  The administration page from the bytes of a request to the state of the master: the buttons of the page stop and restart exactly
  the server they stand next to, and the table of raw data shows the values of a user, though not always those of the user that was asked for.
\<close>

section \<open>Reading a request\<close>

lemma admin_headers_agree:
  "admin_headers line (rq\<lparr>rq_cookies := cs\<rparr>) sock =
     (case headers_loop line rq sock of (ok, rq1, s) \<Rightarrow> (ok, rq1\<lparr>rq_cookies := cs\<rparr>, s))"
proof (induction line rq sock rule: headers_loop.induct)
  case (1 line rq sock)
  have h: "admin_header line (rq\<lparr>rq_cookies := cs\<rparr>) = (header_line line rq)\<lparr>rq_cookies := cs\<rparr>"
  proof (cases "take 16 line = ''Content-Length: ''")
    case True
    then have "take 8 line = take 8 ''Content-Length: ''"
      by (metis take_take min.absorb1 eval_nat_numeral(2) numeral_le_iff semiring_norm(71) semiring_norm(68) semiring_norm(69))
    then show ?thesis using True by (simp add: admin_header_def header_line_def)
  qed (simp add: admin_header_def header_line_def)
  show ?case
  proof (cases "line = []")
    case True
    then show ?thesis by (simp add: admin_headers.simps [of "[]"] headers_loop.simps [of "[]"])
  next
    case False
    obtain ok line1 s1 where r: "http_read_line sock = (ok, line1, s1)"
      by (cases "http_read_line sock") auto
    show ?thesis
      using False 1 [OF False refl r [symmetric] _ refl]
      by (cases ok) (simp_all add: admin_headers.simps [of line] headers_loop.simps [of line] h r)
  qed
qed

lemma admin_read_post:
  assumes "live sock" "concat sock = request_text ''POST'' p v [length_header (length body)] body" "plain_words [p, v]"
    and "body \<noteq> []" "length body < 2 ^ 31"
  shows "\<exists>rq. fst (admin_http_read sock) = Inr (True, rq) \<and> rq_method rq = ''POST'' \<and> rq_path rq = p \<and> rq_version rq = v \<and>
    rq_body rq = body"
proof -
  let ?line = "''POST'' @ '' '' @ p @ '' '' @ v" and ?hs = "[length_header (length body)]"
  let ?start = "empty_request\<lparr>rq_method := ''POST'', rq_path := p, rq_version := v\<rparr>" and ?rq = "Web_Correct.parsed ''POST'' p v ?hs"
  have "split (''POST'' @ CHR '' '' # p @ CHR '' '' # v) (CHR '' '') = [''POST'', p, v]"
    using assms(3) by (subst split_step) (simp_all add: plain_words_def)
  then have line: "CHR 0x0D \<notin> set ?line" "split ?line (CHR '' '') = [''POST'', p, v]" "?line \<noteq> []"
    using assms(3) by (simp_all add: plain_words_def)
  obtain s1 where s1: "http_read_line sock = (True, ?line, s1)" "concat s1 = lines_text ?hs @ crlf @ body" "live s1"
    using read_line [OF assms(1) _ line(1)] assms(2) unfolding request_text_def by blast
  have "\<forall>h \<in> set ?hs. header_text h"
    by simp
  from read_headers [OF s1(3,2) this line(3), of ?start] obtain s2 where s2:
    "headers_loop ?line ?start s1 = (True, fold header_line (?line # ?hs) ?start, s2)" "concat s2 = body" "live s2"
    by blast
  have rq: "fold header_line (?line # ?hs) ?start = ?rq" "?rq\<lparr>rq_cookies := []\<rparr> = ?rq" "?start\<lparr>rq_cookies := []\<rparr> = ?start"
    "rq_length ?rq = Some (word_of_nat (length body))"
    using request_line_no_header [of "''POST''"] length_header_line [OF assms(5)] by (simp_all add: parsed_def empty_request_def)
  have "admin_headers ?line (?start\<lparr>rq_cookies := []\<rparr>) s1 = (True, ?rq\<lparr>rq_cookies := []\<rparr>, s2)"
    by (simp only: admin_headers_agree s2(1) prod.case rq(1))
  then have "admin_headers ?line ?start s1 = (True, ?rq, s2)"
    by (simp only: rq(2,3))
  then have "admin_http_read sock = read_body ?rq s2"
    by (simp only: admin_http_read_def s1(1) line(2) prod.case bool.case list.case)
  then show ?thesis
    using read_sized_body [OF s2(3,2) _ rq(4) assms(4,5)] by simp
qed

section \<open>The buttons\<close>

text \<open>What a browser sends when a button of the page is pressed, or the field of the raw data is filled in.\<close>

definition button_form :: "string \<Rightarrow> string \<Rightarrow> string \<Rightarrow> string" where
  "button_form bd name v = ''--'' @ bd @ crlf @ ''Content-Disposition: form-data; name=\"'' @ name @ [CHR 0x22] @ crlf @ crlf @
     v @ crlf @ ''--'' @ bd @ ''--'' @ crlf"

lemma button_form_parts:
  assumes "CHR 0x0D \<notin> set bd" "CHR 0x0D \<notin> set v" "name \<in> {''KILL'', ''RESTART'', ''RAW''}"
  shows "vec_get (split (button_form bd name v) (CHR 0x0D)) 1 = Inr (nl # ''Content-Disposition: form-data; name=\"'' @ name @ [CHR 0x22])"
    "form_value (split (button_form bd name v) (CHR 0x0D)) = Inr v"
proof -
  let ?d = "nl # ''Content-Disposition: form-data; name=\"'' @ name @ [CHR 0x22]" and ?r = "nl # ''--'' @ bd @ ''--'' @ crlf"
  have "CHR 0x0D \<notin> set ?d"
    using assms(3) by auto
  then have s: "split (button_form bd name v) (CHR 0x0D) = (''--'' @ bd) # ?d # [nl] # (nl # v) # split ?r (CHR 0x0D)"
  proof -
    have "button_form bd name v = (''--'' @ bd) @ CHR 0x0D # ?d @ CHR 0x0D # [nl] @ CHR 0x0D # (nl # v) @ CHR 0x0D # ?r"
      by (simp add: button_form_def crlf_def)
    moreover have "CHR 0x0D \<notin> set (''--'' @ bd)" "CHR 0x0D \<notin> set [nl]" "CHR 0x0D \<notin> set (nl # v)"
      using assms(1,2) by simp_all
    ultimately show ?thesis
      using \<open>CHR 0x0D \<notin> set ?d\<close> split_step by metis
  qed
  show "vec_get (split (button_form bd name v) (CHR 0x0D)) 1 = Inr ?d"
    "form_value (split (button_form bd name v) (CHR 0x0D)) = Inr v"
    by (simp_all add: s form_value_def vec_get_def substr_from_def)
qed

lemma button_names:
  "contains (nl # ''Content-Disposition: form-data; name=\"'' @ ''KILL'' @ [CHR 0x22]) ''name=\"KILL\"''"
  "\<not> contains (nl # ''Content-Disposition: form-data; name=\"'' @ ''RESTART'' @ [CHR 0x22]) ''name=\"KILL\"''"
  "contains (nl # ''Content-Disposition: form-data; name=\"'' @ ''RESTART'' @ [CHR 0x22]) ''name=\"RESTART\"''"
  "\<not> contains (nl # ''Content-Disposition: form-data; name=\"'' @ ''RAW'' @ [CHR 0x22]) ''name=\"KILL\"''"
  "\<not> contains (nl # ''Content-Disposition: form-data; name=\"'' @ ''RAW'' @ [CHR 0x22]) ''name=\"RESTART\"''"
  "contains (nl # ''Content-Disposition: form-data; name=\"'' @ ''RAW'' @ [CHR 0x22]) ''name=\"RAW\"''"
  by code_simp+

section \<open>The tables\<close>

lemma length_nat_str: "n < 10 ^ Suc k \<Longrightarrow> length (nat_str n) \<le> Suc k"
proof (induction k arbitrary: n)
  case 0
  then show ?case by (simp add: nat_str.simps [of n])
next
  case (Suc k)
  show ?case
  proof (cases "n < 10")
    case False
    then have "nat_str n = nat_str (n div 10) @ [digit_char (n mod 10)]"
      by (simp add: nat_str.simps [of n])
    moreover have "n div 10 < 10 ^ Suc k"
      using Suc.prems by (simp add: less_mult_imp_div_less)
    ultimately show ?thesis
      using Suc.IH [of "n div 10"] by simp
  qed (simp add: nat_str.simps [of n])
qed

lemma length_int_str: "length (int_str (sint (w :: 32 word))) \<le> 11"
proof -
  have "- (2 ^ 31) \<le> sint w" "sint w < 2 ^ 31"
    using sint_range_size [of w] by (simp_all add: word_size)
  then have "nat \<bar>sint w\<bar> < 10 ^ Suc 9"
    by simp
  then show ?thesis
    using length_nat_str [of "nat \<bar>sint w\<bar>" 9] by (auto simp: int_str_def split: if_splits)
qed

lemma length_cstr: "length (cstr s) \<le> length s"
  by (simp add: cstr_def length_takeWhile_le)

lemma row_fits: "length (bk_name b) \<le> 300 \<Longrightarrow> into_buffer (backend_row b) = Inr (backend_row b)"
  using length_int_str [of "bk_group b"] length_cstr [of "bk_name b"]
  by (cases "bk_state b") (simp_all add: backend_row_def into_buffer_def bk_name_def BACKEND_ALIVE_FORMAT_def BACKEND_DEAD_FORMAT_def
      BACKEND_CRASH_FORMAT_def Let_def)

definition short_names :: "master \<Rightarrow> bool" where
  "short_names m = list_all (\<lambda>b. length (bk_name b) \<le> 300) (backends m)"

lemma backend_table: "list_all (\<lambda>b. length (bk_name b) \<le> 300) bs \<Longrightarrow> backend_list_construct bs = Inr (concat (map backend_row bs))"
  by (induction bs) (simp_all add: row_fits)

text \<open>The page with the tables \<open>ft\<close> of the web servers and \<open>rt\<close> of the raw data, and the answer to a request.\<close>

definition admin_page :: "pages \<Rightarrow> string \<Rightarrow> string \<Rightarrow> backend list \<Rightarrow> string" where
  "admin_page p ft rt bs = replace (replace (replace (page_text p (html ''/admin.html'')) ''$frontend_table'' ft)
     ''$backend_table'' (concat (map backend_row bs))) ''$raw_table'' rt"

definition admin_answer :: "pages \<Rightarrow> string \<Rightarrow> string \<Rightarrow> string \<Rightarrow> backend list \<Rightarrow> string" where
  "admin_answer p v ft rt bs = v @ v @ response_string (set_body (admin_page p ft rt bs) empty_response)"

lemma page_shown:
  assumes "frontend_list_construct st (frontends (am_master a)) = Inr ft" "short_names (am_master a)"
  shows "display_admin_page st usr r a = (case raw_data_list_construct st usr a of
      (Inl e, a1) \<Rightarrow> (Inl e, a1)
    | (Inr rt, a1) \<Rightarrow> (Inr (set_body (admin_page (sa_pages st) ft rt (backends (am_master a))) r), a1))"
  using assms by (simp add: display_admin_page_def short_names_def backend_table admin_page_def Let_def split: prod.split sum.split)

lemma plain_page:
  assumes "frontend_list_construct st (frontends (am_master a)) = Inr ft" "short_names (am_master a)"
  shows "display_admin_page st [] r a = (Inr (set_body (admin_page (sa_pages st) ft [] (backends (am_master a))) r), a)"
  using page_shown [OF assms] by (simp add: raw_data_list_construct_def)

text \<open>The bytes of a request that presses a button.\<close>

definition presses :: "string list \<Rightarrow> string \<Rightarrow> string \<Rightarrow> string \<Rightarrow> bool" where
  "presses sock ver name v \<longleftrightarrow> (\<exists>bd. CHR 0x0D \<notin> set bd \<and> length (button_form bd name v) < 2 ^ 31 \<and> live sock \<and>
     concat sock = request_text ''POST'' ''/admin'' ver [length_header (length (button_form bd name v))] (button_form bd name v)) \<and>
     plain_words [ver] \<and> CHR 0x0D \<notin> set v \<and> name \<in> {''KILL'', ''RESTART'', ''RAW''}"

lemma served:
  assumes "presses sock ver name v"
  obtains bd where "CHR 0x0D \<notin> set bd" "CHR 0x0D \<notin> set v"
    "serve_admin st sock a = (case admin_post st (button_form bd name v) empty_response a of
       (Inl e, a1, s) \<Rightarrow> (Inl e, a1, s) | (Inr r, a1, s) \<Rightarrow> (Inr (Some (ver @ ver @ response_string r)), a1, s))"
proof -
  obtain bd where bd: "CHR 0x0D \<notin> set bd" "length (button_form bd name v) < 2 ^ 31" "live sock"
    "concat sock = request_text ''POST'' ''/admin'' ver [length_header (length (button_form bd name v))] (button_form bd name v)"
    and v: "plain_words [ver]" "CHR 0x0D \<notin> set v"
    using assms by (auto simp: presses_def)
  have "plain_words [''/admin'', ver]" "button_form bd name v \<noteq> []"
    using v(1) by (simp_all add: plain_words_def button_form_def)
  from admin_read_post [OF bd(3,4) this bd(2)] obtain rq where "fst (admin_http_read sock) = Inr (True, rq)"
    "rq_method rq = ''POST''" "rq_path rq = ''/admin''" "rq_version rq = ver" "rq_body rq = button_form bd name v"
    by blast
  then have "serve_admin st sock a = (case admin_post st (button_form bd name v) empty_response a of
       (Inl e, a1, s) \<Rightarrow> (Inl e, a1, s) | (Inr r, a1, s) \<Rightarrow> (Inr (Some (ver @ ver @ response_string r)), a1, s))"
    by (cases "admin_http_read sock") (auto simp: serve_admin_def reply_admin_def admin_handler_def split: prod.split sum.split)
  then show ?thesis
    using that bd(1) v(2) by blast
qed

section \<open>Stopping and restarting a server\<close>

lemma change_first_map:
  assumes "distinct bs" "b \<in> set bs" "P b" "\<And>x. x \<in> set bs \<Longrightarrow> P x \<Longrightarrow> x = b"
  shows "change_first P f bs = map (\<lambda>x. if x = b then f b else x) bs"
  using assms
proof (induction bs)
  case (Cons x bs)
  show ?case
  proof (cases "x = b")
    case True
    then have "b \<notin> set bs"
      using Cons.prems(1) by simp
    then have "map (\<lambda>x. if x = b then f b else x) bs = bs"
      by (intro map_idI) auto
    then show ?thesis
      using True Cons.prems(3) by simp
  next
    case False
    then have P: "\<not> P x" "b \<in> set bs" "distinct bs"
      using Cons.prems(1,2,4) by auto
    have "change_first P f bs = map (\<lambda>x. if x = b then f b else x) bs"
      by (rule Cons.IH [OF P(3,2) Cons.prems(3)]) (rule Cons.prems(4), simp_all)
    then show ?thesis
      using False P(1) by simp
  qed
qed simp

lemma take_first_middle: "\<forall>x \<in> set xs. \<not> P x \<Longrightarrow> P b \<Longrightarrow> take_first P (xs @ b # ys) = Some (b, xs @ ys)"
  by (induction xs) simp_all

lemma mirror_names:
  assumes "mirror m" "b \<in> set (backends m)" "x \<in> set (backends m)" "bk_name x = bk_name b"
  shows "x = b"
  using mirrorD(3) [OF assms(1)] assms(2-4) by blast

lemma mirror_parts:
  assumes m: "mirror m" and al: "alive_backends m = xs @ b # ys"
  shows "b \<in> set (backends m)" "bk_state b = ALIVE" "distinct (backends m)"
    "x \<in> set (xs @ ys @ dead_backends m) \<Longrightarrow> bk_name x \<noteq> bk_name b"
proof -
  show b: "b \<in> set (backends m)"
    using mirrorD(1) [OF m] al by simp
  show "bk_state b = ALIVE"
    using m al by (simp add: mirror_def)
  show "distinct (backends m)"
    using m by (simp add: mirror_def distinct_map)
  have "mset (map bk_name (backends m)) = image_mset bk_name (mset (alive_backends m) + mset (dead_backends m))"
    using m unfolding mirror_def mset_map by metis
  then have "mset (map bk_name (backends m)) = mset (map bk_name (xs @ b # ys @ dead_backends m))"
    by (simp add: al)
  moreover have "distinct (map bk_name (backends m))"
    using m by (simp add: mirror_def)
  ultimately have "distinct (map bk_name (xs @ b # ys @ dead_backends m))"
    by (rule mset_eq_imp_distinct_iff [THEN iffD1])
  then have "bk_name b \<notin> bk_name ` set (xs @ ys @ dead_backends m)"
    by (simp add: image_Un)
  then show "x \<in> set (xs @ ys @ dead_backends m) \<Longrightarrow> bk_name x \<noteq> bk_name b"
    by (metis imageI)
qed

text \<open>The master without the live server \<open>b\<close> between \<open>xs\<close> and \<open>ys\<close>, and what the servers are told.\<close>

definition stopped :: "backend \<Rightarrow> backend list \<Rightarrow> master \<Rightarrow> master" where
  "stopped b rest m = m\<lparr>backends := map (\<lambda>x. if x = b then b\<lparr>bk_state := DEAD\<rparr> else x) (backends m),
     dead_backends := dead_backends m @ [b\<lparr>bk_state := DEAD\<rparr>], alive_backends := rest\<rparr>"

definition news :: "backend \<Rightarrow> backend list \<Rightarrow> string \<Rightarrow> sends" where
  "news b bs com = broadcast_group_addr (map bk_addr (filter (\<lambda>x. bk_group x = bk_group b) bs)) @
     [(bk_addr b, empty_command\<lparr>c_com := com\<rparr>)]"

lemma killed_exactly:
  assumes m: "mirror m" and al: "alive_backends m = xs @ b # ys"
  shows "kill_backend (bk_addr b) m = (True, stopped b (xs @ ys) m, news b (xs @ ys) ''KILL'')"
proof -
  note P = mirror_parts [OF m al]
  have named: "Monitor.named (bk_addr b) x \<longleftrightarrow> bk_name x = bk_name b" for x
    by (auto simp: bk_name_def)
  have c: "change_first (\<lambda>x. Monitor.named (bk_addr b) x \<and> bk_state x = ALIVE) (\<lambda>x. x\<lparr>bk_state := DEAD\<rparr>) (backends m) =
      map (\<lambda>x. if x = b then b\<lparr>bk_state := DEAD\<rparr> else x) (backends m)"
    by (rule change_first_map [OF P(3,1)]) (use P(2) mirror_names [OF m P(1)] named in auto)
  have t: "take_first (Monitor.named (bk_addr b)) (xs @ b # ys) = Some (b, xs @ ys)"
    by (rule take_first_middle) (use P(4) named in auto)
  have "kill_backend (bk_addr b) m = (True, stopped b (xs @ ys) m,
      broadcast_group_addr (get_cluster (bk_addr b) (stopped b (xs @ ys) m)) @ [(bk_addr b, empty_command\<lparr>c_com := ''KILL''\<rparr>)])"
    using c t by (simp add: kill_backend_def Let_def al stopped_def)
  moreover have "get_group_id_addr (bk_addr b) (stopped b (xs @ ys) m) = bk_group b"
  proof -
    have "config (stopped b (xs @ ys) m) = config m"
      by (auto simp: config_def stopped_def bk_key_def)
    from get_group_id_addr_config [OF this] show ?thesis
      by (simp add: group_of_named [OF m P(1)])
  qed
  ultimately show ?thesis
    by (simp add: news_def get_cluster_def stopped_def)
qed

lemma restarted_exactly:
  assumes m: "mirror m" and al: "alive_backends m = xs @ b # ys"
  shows "restart_backend (bk_addr b) (stopped b (xs @ ys) m) =
    (True, m\<lparr>alive_backends := xs @ ys @ [b]\<rparr>, news b (xs @ ys @ [b]) ''RESTART'')"
proof -
  note P = mirror_parts [OF m al]
  let ?d = "b\<lparr>bk_state := DEAD\<rparr>" and ?bs = "map (\<lambda>x. if x = b then b\<lparr>bk_state := DEAD\<rparr> else x) (backends m)"
  have named: "Monitor.named (bk_addr b) x \<longleftrightarrow> bk_name x = bk_name b" for x
    by (auto simp: bk_name_def)
  have b: "?d\<lparr>bk_state := ALIVE\<rparr> = b" "?d \<noteq> b" "bk_name ?d = bk_name b"
    using P(2) by (cases b; simp add: bk_name_def)+
  have names: "map bk_name ?bs = map bk_name (backends m)"
    by (simp add: bk_name_def)
  moreover have "distinct (map bk_name (backends m))"
    using m by (simp only: mirror_def)
  ultimately have "distinct (map bk_name ?bs)"
    by (simp only:)
  then have dist: "distinct ?bs"
    unfolding distinct_map [of bk_name ?bs] by (rule conjunct1)
  have one: "x = ?d" if x: "x \<in> set ?bs" "bk_name x = bk_name b" for x
  proof (rule ccontr)
    assume "x \<noteq> ?d"
    then have "x \<in> set (backends m)" "x \<noteq> b"
      using x(1) by (auto split: if_splits)
    then show False
      using mirror_names [OF m P(1)] x(2) by blast
  qed
  have "change_first (\<lambda>x. Monitor.named (bk_addr b) x \<and> bk_state x = DEAD) (\<lambda>x. x\<lparr>bk_state := ALIVE\<rparr>) ?bs =
      map (\<lambda>x. if x = ?d then ?d\<lparr>bk_state := ALIVE\<rparr> else x) ?bs"
    by (rule change_first_map [OF dist]) (use P(1) one named b(3) in auto)
  also have "\<dots> = backends m"
  proof -
    have "?d \<notin> set (backends m)"
      using mirror_names [OF m P(1)] b(2,3) by blast
    then show ?thesis
      unfolding map_map comp_def b(1) by (intro map_idI) auto
  qed
  finally have c: "change_first (\<lambda>x. Monitor.named (bk_addr b) x \<and> bk_state x = DEAD) (\<lambda>x. x\<lparr>bk_state := ALIVE\<rparr>) ?bs = backends m" .
  have t: "take_first (\<lambda>x. Monitor.named (bk_addr b) x \<and> bk_state x = DEAD) (dead_backends m @ ?d # []) = Some (?d, dead_backends m @ [])"
    by (rule take_first_middle) (use P(4) named b(3) in auto)
  have "restart_backend (bk_addr b) (stopped b (xs @ ys) m) = (True, m\<lparr>alive_backends := xs @ ys @ [b]\<rparr>,
      broadcast_group_addr (get_cluster (bk_addr b) (m\<lparr>alive_backends := xs @ ys @ [b]\<rparr>)) @
        [(bk_addr b, empty_command\<lparr>c_com := ''RESTART''\<rparr>)])"
    using c t b(1) by (simp add: restart_backend_def Let_def stopped_def)
  moreover have "get_group_id_addr (bk_addr b) (m\<lparr>alive_backends := xs @ ys @ [b]\<rparr>) = bk_group b"
    using group_of_named [OF m P(1)] by (simp add: get_group_id_addr_def)
  ultimately show ?thesis
    by (simp add: news_def get_cluster_def)
qed

lemma first_of_group_append:
  "first_of_group g (bs @ cs) = (case first_of_group g bs of None \<Rightarrow> first_of_group g cs | Some x \<Rightarrow> Some x)"
  by (induction bs) simp_all

lemma first_of_group_None: "first_of_group g bs = None \<longleftrightarrow> (\<forall>x \<in> set bs. bk_group x \<noteq> g)"
  by (induction bs) auto

text \<open>
  C23. The buttons of the administration page work.  Pressing the button next to a live server stops exactly this server: the
  answer lists it as dead and everything else as before, the other live servers of its group are told the new list and the server is told to stop.
  Pressing the button of the answer restarts it: all lists are as before, except that the server is now the last one, so it
  is not the primary again as long as another server of its group lives.
\<close>

theorem admin_buttons_work:
  assumes m: "mirror (am_master a)" "alive_backends (am_master a) = xs @ b # ys"
    and b: "address_init (bk_name b) = Inr (bk_addr b)" "x \<in> set (xs @ ys)" "bk_group x = bk_group b"
    and fit: "frontend_list_construct st (frontends (am_master a)) = Inr ft" "short_names (am_master a)"
    and p: "presses sock ver ''KILL'' (bk_name b)" "presses sock' ver' ''RESTART'' (bk_name b)"
  shows "\<exists>a1 a2. serve_admin st sock a = (Inr (Some (admin_answer (sa_pages st) ver ft []
        (map (\<lambda>x. if x = b then b\<lparr>bk_state := DEAD\<rparr> else x) (backends (am_master a))))), a1, news b (xs @ ys) ''KILL'') \<and>
    alive_backends (am_master a1) = xs @ ys \<and>
    serve_admin st sock' a1 = (Inr (Some (admin_answer (sa_pages st) ver' ft [] (backends (am_master a)))), a2,
      news b (xs @ ys @ [b]) ''RESTART'') \<and>
    a2 = a\<lparr>am_master := (am_master a)\<lparr>alive_backends := xs @ ys @ [b]\<rparr>\<rparr> \<and>
    (\<forall>u. get_primary u (am_master a2) = get_primary u (am_master a1) \<and> get_primary u (am_master a2) \<noteq> Inr (Some b))"
proof -
  let ?m = "am_master a" and ?m1 = "stopped b (xs @ ys) (am_master a)" and ?m2 = "(am_master a)\<lparr>alive_backends := xs @ ys @ [b]\<rparr>"
  let ?a1 = "a\<lparr>am_master := ?m1\<rparr>" and ?a2 = "a\<lparr>am_master := ?m2\<rparr>"
  have f1: "frontend_list_construct st (frontends (am_master ?a1)) = Inr ft" "short_names (am_master ?a1)"
    using fit by (auto simp: stopped_def short_names_def list_all_iff bk_name_def)
  have f2: "frontend_list_construct st (frontends (am_master ?a2)) = Inr ft" "short_names (am_master ?a2)"
    using fit by (simp_all add: short_names_def)
  have "serve_admin st sock a = (Inr (Some (admin_answer (sa_pages st) ver ft [] (backends ?m1))), ?a1, news b (xs @ ys) ''KILL'')"
  proof (rule served [OF p(1), of st a])
    fix bd
    assume "CHR 0x0D \<notin> set bd" "CHR 0x0D \<notin> set (bk_name b)"
      and s: "serve_admin st sock a = (case admin_post st (button_form bd ''KILL'' (bk_name b)) empty_response a of
       (Inl e, a1, s) \<Rightarrow> (Inl e, a1, s) | (Inr r, a1, s) \<Rightarrow> (Inr (Some (ver @ ver @ response_string r)), a1, s))"
    then have "admin_post st (button_form bd ''KILL'' (bk_name b)) empty_response a =
        (Inr (set_body (admin_page (sa_pages st) ft [] (backends ?m1)) empty_response), ?a1, news b (xs @ ys) ''KILL'')"
      using button_form_parts [of bd "bk_name b" "''KILL''"] button_names(1) b(1) killed_exactly [OF m] plain_page [OF f1]
      unfolding admin_post_def Let_def by simp
    then show ?thesis
      unfolding s by (simp add: admin_answer_def)
  qed
  moreover have "serve_admin st sock' ?a1 = (Inr (Some (admin_answer (sa_pages st) ver' ft [] (backends ?m2))), ?a2, news b (xs @ ys @ [b]) ''RESTART'')"
  proof (rule served [OF p(2), of st ?a1])
    fix bd
    assume "CHR 0x0D \<notin> set bd" "CHR 0x0D \<notin> set (bk_name b)"
      and s: "serve_admin st sock' ?a1 = (case admin_post st (button_form bd ''RESTART'' (bk_name b)) empty_response ?a1 of
       (Inl e, a1, s) \<Rightarrow> (Inl e, a1, s) | (Inr r, a1, s) \<Rightarrow> (Inr (Some (ver' @ ver' @ response_string r)), a1, s))"
    then have "admin_post st (button_form bd ''RESTART'' (bk_name b)) empty_response ?a1 =
        (Inr (set_body (admin_page (sa_pages st) ft [] (backends ?m2)) empty_response), ?a2, news b (xs @ ys @ [b]) ''RESTART'')"
      using button_form_parts [of bd "bk_name b" "''RESTART''"] button_names(2,3) b(1) restarted_exactly [OF m] plain_page [OF f2]
      unfolding admin_post_def Let_def by simp
    then show ?thesis
      unfolding s by (simp add: admin_answer_def)
  qed
  moreover have "\<forall>u. get_primary u ?m2 = get_primary u ?m1 \<and> get_primary u ?m1 \<noteq> Inr (Some b)"
  proof
    fix u
    have "group_size ?m2 = group_size ?m1"
      by (simp add: stopped_def)
    then have g: "get_group_id u ?m2 = get_group_id u ?m1"
      by (simp only: get_group_id_def)
    have "b \<notin> set (xs @ ys)"
      using mirror_parts(4) [OF m] by auto
    then have "first_of_group g (xs @ ys @ [b]) = first_of_group g (xs @ ys) \<and> first_of_group g (xs @ ys) \<noteq> Some b" for g
    proof -
      have "first_of_group g zs = Some y \<Longrightarrow> y \<in> set zs" for zs y
        by (induction zs) (auto split: if_splits)
      then have "first_of_group g (xs @ ys) \<noteq> Some b"
        using \<open>b \<notin> set (xs @ ys)\<close> by blast
      moreover have "first_of_group g (xs @ ys) = None \<Longrightarrow> bk_group b \<noteq> g"
        using b(2,3) by (auto simp: first_of_group_None)
      ultimately show ?thesis
        using first_of_group_append [of g "xs @ ys" "[b]"] by (auto split: option.splits)
    qed
    then show "get_primary u ?m2 = get_primary u ?m1 \<and> get_primary u ?m1 \<noteq> Inr (Some b)"
      using g by (cases "get_group_id u ?m1") (simp_all add: get_primary_def stopped_def)
  qed
  moreover have "backends ?m1 = map (\<lambda>x. if x = b then b\<lparr>bk_state := DEAD\<rparr> else x) (backends ?m)" "alive_backends ?m1 = xs @ ys"
    by (simp_all add: stopped_def)
  ultimately show ?thesis
    by - (rule exI [of _ ?a1], rule exI [of _ ?a2], simp)
qed

definition example_admin_site :: "(kv_command + kv_ret, node) admin_site" where
  "example_admin_site = \<lparr>sa_pages = (\<lambda>_. Some ''$frontend_table$backend_table$raw_table''),
     sa_connect = (\<lambda>_. Some (node_link example_env)), sa_iter = (\<lambda>kvs. kvs), sa_fronts = (\<lambda>fs. fs)\<rparr>"

definition example_press :: "string \<Rightarrow> string \<Rightarrow> string list" where
  "example_press name v = example_segments (request_text ''POST'' ''/admin'' ''HTTP/1.1''
     [length_header (length (button_form ''XY'' name v))] (button_form ''XY'' name v))"

lemma example_presses:
  assumes "CHR 0x0D \<notin> set v" "name \<in> {''KILL'', ''RESTART'', ''RAW''}" "length v < 1000"
  shows "presses (example_press name v) ''HTTP/1.1'' name v"
proof -
  have "length (button_form ''XY'' name v) < 2 ^ 31"
    using assms(2,3) by (auto simp: button_form_def crlf_def)
  moreover have "live (example_press name v)"
    unfolding example_press_def by (rule example_segments_ok) (simp add: request_text_def)
  moreover have "plain_words [''HTTP/1.1'']" "CHR 0x0D \<notin> set ''XY''"
    by (simp_all add: plain_words_def)
  ultimately show ?thesis
    using assms(1,2) unfolding presses_def example_press_def example_segments_ok(2) by blast
qed

theorem admin_buttons_work_witness:
  "\<exists>a1 a2. serve_admin example_admin_site (example_press ''KILL'' ''10.0.0.2:7002'') \<lparr>am_master = example_running, am_kvs = [], am_store = example_node True 1\<rparr> =
      (Inr (Some (admin_answer (sa_pages example_admin_site) ''HTTP/1.1'' [] []
        [example_backend ALIVE 6 0, example_backend DEAD 5 1, example_backend ALIVE 7 2])), a1,
       news (example_backend ALIVE 5 1) [example_backend ALIVE 6 0, example_backend ALIVE 7 2] ''KILL'') \<and>
    serve_admin example_admin_site (example_press ''RESTART'' ''10.0.0.2:7002'') a1 =
      (Inr (Some (admin_answer (sa_pages example_admin_site) ''HTTP/1.1'' [] [] (backends example_running))), a2,
       news (example_backend ALIVE 5 1) [example_backend ALIVE 6 0, example_backend ALIVE 7 2, example_backend ALIVE 5 1] ''RESTART'') \<and>
    get_primary ''bob'' (am_master a2) = get_primary ''bob'' (am_master a1)"
proof -
  let ?a = "\<lparr>am_master = example_running, am_kvs = [], am_store = example_node True 1\<rparr>" and ?b = "example_backend ALIVE 5 1"
  have a: "mirror (am_master ?a)" "alive_backends (am_master ?a) = [] @ ?b # [example_backend ALIVE 6 0, example_backend ALIVE 7 2]"
    "address_init (bk_name ?b) = Inr (bk_addr ?b)" "example_backend ALIVE 6 0 \<in> set ([] @ [example_backend ALIVE 6 0, example_backend ALIVE 7 2])"
    "bk_group (example_backend ALIVE 6 0) = bk_group ?b"
    "frontend_list_construct example_admin_site (frontends (am_master ?a)) = Inr []" "short_names (am_master ?a)" "bk_name ?b = ''10.0.0.2:7002''"
    using example_mirror(1)
    by (simp_all add: example_running_def bk_name_def example_backend_def example_address_def frontend_list_construct_def example_admin_site_def
        short_names_def)
  have p: "presses (example_press ''KILL'' ''10.0.0.2:7002'') ''HTTP/1.1'' ''KILL'' (bk_name ?b)"
    "presses (example_press ''RESTART'' ''10.0.0.2:7002'') ''HTTP/1.1'' ''RESTART'' (bk_name ?b)"
    unfolding a(8) by (rule example_presses; simp)+
  have m: "map (\<lambda>x. if x = ?b then ?b\<lparr>bk_state := DEAD\<rparr> else x) (backends (am_master ?a)) =
      [example_backend ALIVE 6 0, example_backend DEAD 5 1, example_backend ALIVE 7 2]"
    by (simp add: example_running_def example_backend_def)
  show ?thesis
    using admin_buttons_work [OF a(1-7) p] unfolding m append_Nil append_Cons by auto
qed

section \<open>The data of a user\<close>

lemma raw_data_fetched:
  assumes "u \<noteq> []" "get_primary u (am_master a) = Inr (Some b)" "sa_connect st (bk_addr b) = Some l"
    "kv_gets_all l u (am_store a) = ((code, kvs), s)"
  shows "raw_data_list_construct st u a = (raw_rows 1 (sa_iter st kvs), a\<lparr>am_kvs := kvs, am_store := s\<rparr>)"
  using assms by (simp add: raw_data_list_construct_def get_rawdata_def)

lemma raw_post:
  assumes p: "presses sock ver ''RAW'' u"
    and fit: "frontend_list_construct st (frontends (am_master a)) = Inr ft" "short_names (am_master a)"
  shows "serve_admin st sock a = (case raw_data_list_construct st u a of
      (Inl e, a1) \<Rightarrow> (Inl e, a1, [])
    | (Inr rt, a1) \<Rightarrow> (Inr (Some (admin_answer (sa_pages st) ver ft rt (backends (am_master a)))), a1, []))"
proof (rule served [OF p, of st a])
  fix bd
  assume "CHR 0x0D \<notin> set bd" "CHR 0x0D \<notin> set u"
    and s: "serve_admin st sock a = (case admin_post st (button_form bd ''RAW'' u) empty_response a of
       (Inl e, a1, s) \<Rightarrow> (Inl e, a1, s) | (Inr r, a1, s) \<Rightarrow> (Inr (Some (ver @ ver @ response_string r)), a1, s))"
  then have "admin_post st (button_form bd ''RAW'' u) empty_response a =
      (case display_admin_page st u empty_response a of (res, a1) \<Rightarrow> (res, a1, []))"
    using button_form_parts [of bd u "''RAW''"] button_names(4-6)
    unfolding admin_post_def Let_def by simp
  then show ?thesis
    unfolding s page_shown [OF fit] by (simp add: admin_answer_def split: prod.split sum.split)
qed

text \<open>
  C37. The raw data of one user is shown for another.  The answer to a request for the raw data of a user has one row for every pair that
  the primary of this user holds.  If the group of the user that is asked for next has no live server, then the answer is the same
  page again, byte by byte: what it shows as the data of the second user is the data of the first.
\<close>

theorem raw_data_of_another_user:
  assumes nd: "serving (am_store a)" "name_ok u" "get_primary u (am_master a) = Inr (Some b)"
      "sa_connect st (bk_addr b) = Some (node_link e)"
    and w: "get_primary w (am_master a) = Inr None" "w \<noteq> []"
    and fit: "frontend_list_construct st (frontends (am_master a)) = Inr ft" "short_names (am_master a)"
    and p: "presses sock ver ''RAW'' u" "presses sock' ver ''RAW'' w"
    and shown: "serve_admin st sock a = (Inr (Some t), a1, s)"
  shows "(\<exists>kvs rt. (\<forall>k. (case map_of kvs k of None \<Rightarrow> [] | Some v \<Rightarrow> v) = nval (am_store a) u k) \<and>
      raw_rows 1 (sa_iter st kvs) = Inr rt \<and> t = admin_answer (sa_pages st) ver ft rt (backends (am_master a)) \<and>
      nval (am_store a1) = nval (am_store a)) \<and>
    serve_admin st sock' a1 = (Inr (Some t), a1, [])"
proof -
  obtain code kvs nd' where A: "kv_gets_all (node_link e) u (am_store a) = ((code, kvs), nd')" "serving nd'"
    "nval nd' = nval (am_store a)" "\<forall>k. (case map_of kvs k of None \<Rightarrow> [] | Some v \<Rightarrow> v) = nval (am_store a) u k"
    using node_all [OF nd(1,2)] by blast
  let ?a1 = "a\<lparr>am_kvs := kvs, am_store := nd'\<rparr>"
  have "u \<noteq> []"
    using nd(2) by (simp add: name_ok_def)
  note r = raw_data_fetched [OF this nd(3,4) A(1)]
  then obtain rt where rt: "raw_rows 1 (sa_iter st kvs) = Inr rt" "a1 = ?a1" "t = admin_answer (sa_pages st) ver ft rt (backends (am_master a))"
    using shown raw_post [OF p(1) fit] by (auto split: sum.splits)
  have f: "frontend_list_construct st (frontends (am_master ?a1)) = Inr ft" "short_names (am_master ?a1)"
    using fit by simp_all
  have "raw_data_list_construct st w ?a1 = (Inr rt, ?a1)"
    using w rt(1) by (simp add: raw_data_list_construct_def get_rawdata_def)
  then have "serve_admin st sock' a1 = (Inr (Some t), a1, [])"
    unfolding rt(2,3) raw_post [OF p(2) f] by simp
  then show ?thesis
    using A(3,4) rt by auto
qed

definition example_split :: master where
  "example_split = \<lparr>frontends = [], backends = [example_backend ALIVE 6 0, example_backend ALIVE 5 1, example_backend CRASH (-1) 2],
     alive_backends = [example_backend ALIVE 5 1, example_backend ALIVE 6 0], dead_backends = [example_backend CRASH (-1) 2], group_size = 2\<rparr>"

definition amy_row :: string where
  "amy_row = RAW_TABLE_FORMAT 1 ''k'' ''hello''"

theorem raw_data_of_another_user_witness:
  "\<exists>a a1 t. serve_admin example_admin_site (example_press ''RAW'' ''amy'') a = (Inr (Some t), a1, []) \<and>
    t = admin_answer (sa_pages example_admin_site) ''HTTP/1.1'' [] amy_row (backends example_split) \<and>
    nval (am_store a) ''amy'' ''k'' = ''hello'' \<and>
    serve_admin example_admin_site (example_press ''RAW'' ''dan'') a1 = (Inr (Some t), a1, [])"
proof -
  obtain nd where P: "kv_puts (node_link example_env) ''amy'' ''k'' ''hello'' (example_node True 1) = (kv_code FINISHED, nd)"
    "serving nd" "nval nd = set_val ''amy'' ''k'' ''hello'' (nval (example_node True 1))"
    using kv_node.puts_law [OF example_serving, of "''amy''" "''k''" "''hello''" example_env]
    by (auto simp: data_ok_def token_def log_char_def alpha_def is_digit_def)
  let ?a = "\<lparr>am_master = example_split, am_kvs = [], am_store = nd\<rparr>"
  have "fst (kv_gets_all (node_link example_env) ''amy'' (snd (kv_puts (node_link example_env) ''amy'' ''k'' ''hello'' (example_node True 1)))) =
      (0, [(''k'', ''hello'')])"
    by code_simp
  then obtain nd' where G: "kv_gets_all (node_link example_env) ''amy'' nd = ((0, [(''k'', ''hello'')]), nd')"
    unfolding P(1) by (metis prod.exhaust_sel snd_conv)
  have amy: "get_primary ''amy'' (am_master ?a) = Inr (Some (example_backend ALIVE 5 1))"
    by (simp add: get_primary_def get_group_id_def hashh_def hash_prime_def hash_step_def Let_def char_s32_def example_split_def
        example_backend_def)
  have dan: "get_primary ''dan'' (am_master ?a) = Inr None"
    by (simp add: get_primary_def get_group_id_def hashh_def hash_prime_def hash_step_def Let_def char_s32_def example_split_def
        example_backend_def)
  have l: "sa_connect example_admin_site (bk_addr (example_backend ALIVE 5 1)) = Some (node_link example_env)"
    "sa_iter example_admin_site kvs = kvs" for kvs
    by (simp_all add: example_admin_site_def)
  have f: "frontend_list_construct example_admin_site (frontends (am_master ?a)) = Inr []" "short_names (am_master ?a)"
    by (simp_all add: example_split_def bk_name_def example_backend_def example_address_def frontend_list_construct_def example_admin_site_def
        short_names_def)
  have p: "presses (example_press ''RAW'' ''amy'') ''HTTP/1.1'' ''RAW'' ''amy''" "presses (example_press ''RAW'' ''dan'') ''HTTP/1.1'' ''RAW'' ''dan''"
    by (rule example_presses; simp)+
  have n: "serving (am_store ?a)" "name_ok ''amy''" "''dan'' \<noteq> []" "nval (am_store ?a) ''amy'' ''k'' = ''hello''" "''amy'' \<noteq> []"
    "kv_gets_all (node_link example_env) ''amy'' (am_store ?a) = ((0, [(''k'', ''hello'')]), nd')"
    using P(2,3) G by (simp_all add: name_ok_def)
  have "length amy_row < 1000"
    by code_simp
  then have "raw_rows 1 [(''k'', ''hello'')] = Inr amy_row"
    by (simp add: into_buffer_def amy_row_def)
  then have s: "serve_admin example_admin_site (example_press ''RAW'' ''amy'') ?a =
      (Inr (Some (admin_answer (sa_pages example_admin_site) ''HTTP/1.1'' [] amy_row (backends example_split))),
        ?a\<lparr>am_kvs := [(''k'', ''hello'')], am_store := nd'\<rparr>, [])"
    using raw_post [OF p(1) f] unfolding raw_data_fetched [OF n(5) amy l(1) n(6)] l(2) by simp
  show ?thesis
    using raw_data_of_another_user [OF n(1,2) amy l(1) dan n(3) f p s] s n(4) by blast
qed

end
