(* ===== verification/Sync_Correct.thy ===== *)
theory Sync_Correct
  imports Replication
begin

text \<open>
  A secondary that comes back: the conversation of both sides, from the header of a file to the values that the secondary shows afterwards.
\<close>

section \<open>Files as messages\<close>

lemma transport_match:
  assumes "path \<noteq> []" "\<forall>c \<in> set path. path_char c" "type \<noteq> []" "\<forall>c \<in> set type. alpha c"
  shows "regex_search kFileTransportHeader (transport_header path type n @ body) = Some ([path, type, nat_str n], body)"
proof (rule search_first)
  have eq: "transport_header path type n @ body =
      ''KvStoreSync'' @ CHR '' '' # ''Filename:'' @ CHR '' '' # path @ CHR '' '' # ''Type:'' @ CHR '' '' # type @
      CHR '' '' # ''size:'' @ CHR '' '' # nat_str n @ CHR 0x0D # nl # body"
    by (simp add: transport_header_def)
  have cr: "first_match (Lit [CHR 0x0D, nl]) (CHR 0x0D # nl # body) [] body"
    by (simp add: first_match_def)
  show "first_match kFileTransportHeader (transport_header path type n @ body) [path, type, nat_str n] body"
    unfolding eq kFileTransportHeader_def seqs.simps
    by (intro first_Lit_Seq first_Cls_Seq first_Grp_Seq cr)
      (use assms in \<open>simp_all add: nat_str_digits [unfolded is_digit_def] is_space_def path_char_def alpha_def is_digit_def\<close>)
qed

lemma transport_extract:
  assumes "path \<noteq> []" "\<forall>c \<in> set path. path_char c" "type \<noteq> []" "\<forall>c \<in> set type. alpha c" "n < 2 ^ 31"
  shows "MatchHeaderAndExtractContent (transport_header path type n @ body) = Inr (Some (path, type, int n, body))"
  using transport_match [OF assms(1-4), of n body] assms(5) by (simp add: MatchHeaderAndExtractContent_def)

section \<open>The primary\<close>

definition log_file :: "string \<Rightarrow> string" where
  "log_file t = transport_header ''logging'' kFile (length t) @ t"

lemma primary_sends_log:
  assumes "kLogFp c = prefix @ ''logging''" "read_file (kLogFp c) fs = Some t"
  shows "PrimarySyncSecondary True prefix fs ents c \<lparr>inbox = [kOkResp, kSyncDone], outbox = [], writable = Suc w\<rparr> =
    Inr (FINISHED, \<lparr>inbox = [], outbox = [log_file t], writable = w\<rparr>)"
proof -
  have "exist_file (kLogFp c) fs"
    using assms(2) by (simp add: exist_file_def read_file_def)
  moreover have "substr_from (prefix @ ''logging'') (length prefix) = Inr ''logging''"
    by (simp add: substr_from_def)
  moreover have "kOkResp \<noteq> kRequireFullResp" "kSyncDone = kSyncDone"
    by (simp_all add: kOkResp_def kRequireFullResp_def)
  ultimately show ?thesis
    using assms by (simp add: PrimarySyncSecondary_def PrimarySendLogging_def ReadFileAndWriteTo_def log_file_def send_msg_def recv_msg_def
        await_done_def)
qed

section \<open>The secondary\<close>

text \<open>Both nodes have the same values in their chunks, and the same users.\<close>

definition same_disks :: "node \<Rightarrow> node \<Rightarrow> bool" where
  "same_disks p s \<longleftrightarrow> (\<forall>u. name_ok u \<longrightarrow> knows s u = knows p u \<and>
     (\<forall>k. dval (nd_prefix s) (nd_fs s) u k = dval (nd_prefix p) (nd_fs p) u k))"

text \<open>What is left of the secondary \<open>s0\<close> when its process starts again.\<close>

definition rejoins :: "node \<Rightarrow> node \<Rightarrow> bool" where
  "rejoins s0 s \<longleftrightarrow> nd_prefix s = nd_prefix s0 \<and> nd_fs s = nd_fs s0 \<and> kLogFp (nd_cache s) = kLogFp (nd_cache s0) \<and>
     \<not> killed s \<and> \<not> isPrimary s \<and> secondary s \<noteq> []"

text \<open>The log of the primary in place of its own log makes the secondary show the values of the primary.\<close>

lemma replayed_log:
  assumes p: "node_ok p" "logged_node p n ops" "n + length ops < 2 ^ 31"
    and s0: "node_ok s0" "same_disks p s0" and s: "rejoins s0 s"
    and t: "read_file (kLogFp (nd_cache p)) (nd_fs p) = Some t"
  shows "\<exists>s'. OverwriteLoggingAndReplay t (sec_of s) = Inr (FINISHED, sec_of s') \<and> s' = set_sec (sec_of s') s \<and>
    live_node s' \<and> nval s' = nval p \<and> member s' = member p \<and> max_sequence s' = max_sequence p \<and> logged_node s' n ops"
proof -
  let ?ps = "nd_prefix s0" and ?c = "nd_cache p" and ?log = "kLogFp (nd_cache s0)"
  note D = state_okD [OF node_state(1) [OF s0(1)]] and P = state_okD [OF node_state(1) [OF p(1)]]
  define fs' where "fs' = snd (write_file ?log t (nd_fs s0))"
  have w: "write_file ?log t (nd_fs s0) = (True, fs')"
    using node_state(2) [OF s0(1)] by (simp add: write_file_def fs'_def)
  have same: "same_user ?ps u (nd_fs s0) fs'" if "name_ok u" for u
    unfolding fs'_def by (rule same_user_write) (simp add: D(1) log_apart [OF that])
  have disk: "dval ?ps fs' u k = dval (nd_prefix p) (nd_fs p) u k" "disk_ok ?ps fs' u = knows p u" if "name_ok u" for u k
    using same_user_vals(1) [OF same [OF that] that] same_user_ok [OF same [OF that] that] s0(2) that
    by (auto simp: same_disks_def knows_def)
  have log: "logged_node p n ops" "durable (nd_prefix p) (nd_fs p) ?c n ops" "t = checkpoint_line (int n) @ log_text n ops"
    using p(2) t by (auto simp: logged_node_def durable_def)
  have "read_file ?log fs' = Some t"
    using node_state(2) [OF s0(1)] by (simp add: fs'_def)
  moreover have vals: "cval ?ps fs' (?c\<lparr>kLogFp := ?log\<rparr>) u k = cval (nd_prefix p) (nd_fs p) ?c u k" if "name_ok u" for u k
    using disk(1) [OF that] by (simp add: cval_def upd_def split: option.split)
  ultimately have dur: "durable ?ps fs' (?c\<lparr>kLogFp := ?log\<rparr>) n ops"
    using log(2,3) disk(1) by (simp add: durable_def split: option.split)
  have k: "kLogFp (nd_cache s) = kLogFp (?c\<lparr>kLogFp := ?log\<rparr>)"
    using s by (simp add: rejoins_def)
  obtain c' where R: "ReplayLoggings fs' (max_sequence s) (nd_cache s) = Inr (FINISHED, sequence_id ?c, c')"
    "durable ?ps fs' c' n ops" "kLogFp c' = ?log"
    "updates_cache c' = updates_cache
      (fold apply_op ops ((nd_cache s)\<lparr>sequence_id := int n, updates_cache := [], read_cache := []\<rparr>))"
    "\<And>u k. name_ok u \<Longrightarrow> cval ?ps fs' c' u k = cval ?ps fs' (?c\<lparr>kLogFp := ?log\<rparr>) u k"
    "\<And>u. name_ok u \<Longrightarrow> coherent ?ps fs' c' u"
    using durable_recovers [OF dur p(3) k, of "max_sequence s"] by auto
  define s' where "s' = set_sec (fs', sequence_id ?c, c') s"
  have sel: "nd_prefix s' = ?ps" "nd_fs s' = fs'" "nd_cache s' = c'" "max_sequence s' = sequence_id ?c" "\<not> killed s'"
    using s by (simp_all add: s'_def set_sec_def rejoins_def)
  have seq: "sequence_id c' = sequence_id ?c"
    using R(2) dur by (simp add: durable_def)
  have wf: "cache_wf ?ps fs' c'"
  proof -
    have "\<forall>op \<in> set ops. op_ok op \<and> name_ok (op_user op) \<and> disk_ok ?ps fs' (op_user op)"
      using log(1) dur disk(2) by (simp add: logged_node_def durable_def)
    then have "cache_wf ?ps fs' (fold apply_op ops ((nd_cache s)\<lparr>sequence_id := int n, updates_cache := [], read_cache := []\<rparr>))"
      by (rule cache_wf_fold) (simp add: cache_wf_def)
    then show ?thesis
      using R(4) cache_wf_same [OF same_user_refl] by blast
  qed
  have "user_ok ?ps fs' u" if "name_ok u" for u
    using same_user_user_ok [OF same [OF that] that] D(5) [OF that] by simp
  moreover have "base_ok ?ps fs'"
    using D(4) by (simp add: base_ok_def fs'_def)
  ultimately have "node_ok s'"
    using R(3,6) wf seq P(2) D(1) sel by (simp add: node_ok_def state_ok_def)
  moreover have "nval s' = nval p"
    using R(5) vals sel by (simp add: nval_def fun_eq_iff)
  moreover have "knows s' u = knows p u" if "name_ok u" for u
    using disk(2) [OF that] sel by (simp add: knows_def)
  then have "member s' = member p" "logged_node s' n ops"
    using R(2) sel log(1) by (auto simp: member_def logged_node_def fun_eq_iff)
  moreover have "OverwriteLoggingAndReplay t (sec_of s) = Inr (FINISHED, sec_of s')" "s' = set_sec (sec_of s') s"
    using w R(1) s sel by (simp_all add: OverwriteLoggingAndReplay_def sec_of_def OverwriteFile_def replay_here_def rejoins_def s'_def
        set_sec_def)
  moreover have "max_sequence s' = max_sequence p"
    using sel(4) node_state(3) [OF p(1)] by simp
  ultimately show ?thesis
    using sel(5) by (intro exI [of _ s']) (simp add: live_node_def)
qed

lemma no_full_sync:
  assumes "n \<le> m" "m < 2 ^ 31" "read_file (kLogFp c) fs = Some (checkpoint_line (int m) @ r)"
  shows "NeedFullSync (checkpoint_line (int n) @ r') fs c = Inr False"
proof -
  have "exist_file (kLogFp c) fs"
    using assms(3) by (simp add: exist_file_def read_file_def)
  then show ?thesis
    using assms extract_sequence [of m r] extract_sequence [of n r'] by (simp add: NeedFullSync_def)
qed

section \<open>The conversation\<close>


text \<open>The primary has taken an update that the secondary has not.\<close>

lemma example_ahead:
  "\<exists>p op t. live_node p \<and> isPrimary p \<and> logged_node p 0 [op] \<and> same_disks p (example_node False 2) \<and>
    nval p ''amy'' ''k'' = ''v'' \<and> max_sequence p = 1 \<and> read_file (kLogFp (nd_cache p)) (nd_fs p) = Some t \<and> length t < 1000"
proof -
  let ?nd = "example_node True 1" and ?op = "LPut ''amy'' ''k'' ''v''"
  have "member ?nd ''amy''"
    by simp
  then have nd: "node_ok ?nd" "knows ?nd ''amy''" "\<not> killed ?nd"
    using example_node_ok(1) [of True 1] by (simp_all add: live_node_def member_def del: example_node_ok)
  note N = node_state [OF nd(1)] and S = state_okD [OF node_state(1) [OF nd(1)]]
  obtain fs' c' where C: "committed ?op (nd_fs ?nd) (nd_cache ?nd) = (fs', c')"
    by fastforce
  let ?p = "set_sec (fs', max_sequence ?nd + 1, c') ?nd"
  have r: "run_puts (puts_cmd ''amy'' ''k'' ''v'') ?nd = (FINISHED, ?p)"
    using Puts_commits [OF N(2,4)] N(3) C by (simp add: run_puts_def Let_def)
  have "data_ok ''amy'' ''k'' ''v''"
    by (simp add: data_ok_def token_def log_char_def alpha_def is_digit_def)
  from run_puts_spec [OF nd(1,2) this] r have u: "updates ?nd ?p ''amy'' ''k'' ''v''"
    by simp
  then obtain op where "logged_node ?p 0 ([] @ [op])"
    using example_node_ok(4) [of True 1] unfolding updates_def by blast
  moreover have "live_node ?p" "isPrimary ?p" "nval ?p ''amy'' ''k'' = ''v''" "max_sequence ?p = 1"
    using u nd(3) N(3) by (simp_all add: updates_def live_node_def same_role_def) (simp_all add: example_node_def set_sec_def)
  moreover have "same_disks ?p (example_node False 2)"
  proof -
    have "same_user (nd_prefix ?nd) w (nd_fs ?nd) fs'" if "name_ok w" for w
      using committed_facts(5) [OF C N(2)] log_apart [OF that] S(1) by simp
    from same_user_vals(1) [OF this] have "dval (nd_prefix ?nd) fs' w k = dval (nd_prefix ?nd) (nd_fs ?nd) w k" if "name_ok w" for w k
      using that by blast
    moreover have "knows ?p w = knows ?nd w" if "name_ok w" for w
      using u nd(2) that by (auto simp: updates_def)
    moreover have "nd_prefix (example_node False 2) = nd_prefix ?nd" "nd_fs (example_node False 2) = nd_fs ?nd"
      "knows (example_node False 2) w = knows ?nd w" for w
      by (simp_all add: example_node_def knows_def)
    ultimately show ?thesis
      by (simp add: same_disks_def set_sec_def)
  qed
  moreover have "read_file (kLogFp (nd_cache ?nd)) (nd_fs ?nd) = Some (checkpoint_line 0)" "sequence_id (nd_cache ?nd) = 0"
    by (simp_all add: example_node_def example_files new_cache_def)
  from committed_facts(4) [OF C N(2) this(1)] this(2) committed_facts(2) [OF C N(2)]
  have "read_file (kLogFp (nd_cache ?p)) (nd_fs ?p) = Some (checkpoint_line 0 @ entry 1 ?op)"
    by (simp add: set_sec_def)
  moreover have "length (checkpoint_line 0 @ entry 1 ?op) < 1000"
    by code_simp
  ultimately show ?thesis
    by fastforce
qed


section \<open>Names that the header does not know\<close>

text \<open>
  The header of a file has letters, digits and a few marks.  The folder of a user with another character in the name, which the sign-up allows,
  ends the full synchronisation, after the secondary has removed its own files.
\<close>

lemma odd_user_stops_full_sync:
  "name_ok ''a!b'' \<and> full_sync_loop prefix (transport_header ''a!b'' kDir 0 # ms) fs = Inr (SYNC_ERROR, False, fs, ms) \<and>
   full_sync_loop prefix [transport_header ''a!b'' kDir 0, kSyncDone] fs = Inr (SYNC_ERROR, False, fs, [kSyncDone])"
proof -
  have "MatchHeaderAndExtractContent (transport_header ''a!b'' kDir 0) = Inr None"
    "transport_header ''a!b'' kDir 0 \<noteq> kSyncDone" "transport_header ''a!b'' kDir 0 \<noteq> kSyncError"
    by code_simp+
  then show ?thesis
    by (simp add: name_ok_def)
qed

end
