(* ===== verification/Js_Base64.thy ===== *)
theory Js_Base64
  imports Prelude "HOL-Library.Word"
begin

unbundle bit_operations_syntax

text \<open>
  The base64 module of \<open>frontend/html/js/nicepage.js\<close> (module 333).  JavaScript's bitwise operators
  work on 32-bit integers, here words; arrays of bytes are lists of \<open>8 word\<close>, strings are lists of
  characters.  \<open>undefined\<close> in a bitwise operation is 0, which is what the table gives for a
  character outside the alphabet.
\<close>

section \<open>Definitions\<close>

definition shr :: "32 word \<Rightarrow> nat \<Rightarrow> 32 word" where
  "shr x k = signed_drop_bit k x"

definition b64_alphabet :: string where
  "b64_alphabet = ''ABCDEFGHIJKLMNOPQRSTUVWXYZabcdefghijklmnopqrstuvwxyz0123456789+/''"

text \<open>\<open>c\<close>: the character of a number; \<open>h\<close>: the number of a character, also in the variant for URLs.\<close>

definition b64_char :: "32 word \<Rightarrow> char" where
  "b64_char k = b64_alphabet ! unat k"

fun index_of :: "char \<Rightarrow> string \<Rightarrow> nat option" where
  "index_of d [] = None"
| "index_of d (c # cs) = (if c = d then Some 0 else map_option Suc (index_of d cs))"

definition b64_value :: "char \<Rightarrow> 32 word" where
  "b64_value d =
     (if d = CHR ''-'' then 62 else if d = CHR ''_'' then 63
      else case index_of d b64_alphabet of None \<Rightarrow> 0 | Some k \<Rightarrow> word_of_nat k)"

definition code :: "string \<Rightarrow> nat \<Rightarrow> 32 word" where
  "code t i = (if i < length t then b64_value (t ! i) else 0)"

definition byte :: "8 word list \<Rightarrow> nat \<Rightarrow> 32 word" where
  "byte t i = (if i < length t then ucast (t ! i) else 0)"

text \<open>The length up to the padding, and the length of the padding.\<close>

definition get_lens :: "string \<Rightarrow> (nat \<times> nat) option" where
  "get_lens t =
     (let e = length t in
      if e mod 4 > 0 then None
      else let i = (case index_of (CHR ''='') t of None \<Rightarrow> e | Some i \<Rightarrow> i)
           in Some (i, if i = e then 0 else 4 - i mod 4))"

definition byte_length :: "nat \<Rightarrow> nat \<Rightarrow> int" where
  "byte_length e i = 3 * (int e + int i) div 4 - int i"

text \<open>
  The array has its final length from the start and is zero; writing past its end has no effect.
  \<open>new Uint8Array\<close> throws for a negative length.
\<close>

definition put :: "8 word list \<Rightarrow> nat \<Rightarrow> 32 word list \<Rightarrow> 8 word list" where
  "put u l vs = fst (fold (\<lambda>v (u, l). (u[l := ucast v], Suc l)) vs (u, l))"

function decode_loop :: "string \<Rightarrow> nat \<Rightarrow> nat \<Rightarrow> nat \<Rightarrow> 8 word list \<Rightarrow> 8 word list \<times> nat \<times> nat" where
  "decode_loop t f c l u =
     (if c < f then
        let e = push_bit 18 (code t c) OR push_bit 12 (code t (c + 1)) OR push_bit 6 (code t (c + 2)) OR
                code t (c + 3)
        in decode_loop t f (c + 4) (l + 3) (put u l [shr e 16 AND 255, shr e 8 AND 255, 255 AND e])
      else (u, c, l))"
  by auto
termination by (relation "measure (\<lambda>(t, f, c, l, u). f - c)") auto

declare decode_loop.simps [simp del]

definition toByteArray :: "string \<Rightarrow> (8 word list) option" where
  "toByteArray t =
     (case get_lens t of
        None \<Rightarrow> None
      | Some (o', s) \<Rightarrow>
          if byte_length o' s < 0 then None
          else
            let u = replicate (nat (byte_length o' s)) 0;
                f = (if s > 0 then o' - 4 else o')
            in case decode_loop t f 0 0 u of (u, c, l) \<Rightarrow>
              if s = 2 then
                let e = push_bit 2 (code t c) OR shr (code t (c + 1)) 4
                in Some (put u l [255 AND e])
              else if s = 1 then
                let e = push_bit 10 (code t c) OR push_bit 4 (code t (c + 1)) OR shr (code t (c + 2)) 2
                in Some (put u l [shr e 8 AND 255, 255 AND e])
              else Some u)"

definition b64_group :: "32 word \<Rightarrow> string" where
  "b64_group t = map b64_char [shr t 18 AND 63, shr t 12 AND 63, shr t 6 AND 63, 63 AND t]"

function encode_chunk :: "8 word list \<Rightarrow> nat \<Rightarrow> nat \<Rightarrow> string" where
  "encode_chunk t a i =
     (if a < i then
        b64_group ((push_bit 16 (byte t a) AND 16711680) + (push_bit 8 (byte t (a + 1)) AND 65280) +
                   (255 AND byte t (a + 2)))
        @ encode_chunk t (a + 3) i
      else [])"
  by auto
termination by (relation "measure (\<lambda>(t, a, i). i - a)") auto

declare encode_chunk.simps [simp del]

function encode_chunks :: "8 word list \<Rightarrow> nat \<Rightarrow> nat \<Rightarrow> string" where
  "encode_chunks t s u =
     (if s < u then encode_chunk t s (if s + 16383 > u then u else s + 16383) @ encode_chunks t (s + 16383) u
      else [])"
  by auto
termination by (relation "measure (\<lambda>(t, s, u). u - s)") auto

declare encode_chunks.simps [simp del]

definition fromByteArray :: "8 word list \<Rightarrow> string" where
  "fromByteArray t =
     (let i = length t; n = i mod 3 in
      encode_chunks t 0 (i - n) @
      (if n = 1 then
         let e = byte t (i - 1) in [b64_char (shr e 2), b64_char (push_bit 4 e AND 63)] @ ''==''
       else if n = 2 then
         let e = push_bit 8 (byte t (i - 2)) + byte t (i - 1)
         in [b64_char (shr e 10), b64_char (shr e 4 AND 63), b64_char (push_bit 2 e AND 63)] @ ''=''
       else []))"

section \<open>One group\<close>

lemma masks:
  "(63 :: 32 word) = mask 6" "(255 :: 32 word) = mask 8"
  "(65280 :: 32 word) = push_bit 8 (mask 8)" "(16711680 :: 32 word) = push_bit 16 (mask 8)"
  by (simp_all add: mask_eq_exp_minus_1 push_bit_eq_mult)

definition pack :: "8 word \<Rightarrow> 8 word \<Rightarrow> 8 word \<Rightarrow> 32 word" where
  "pack x y z = (push_bit 16 (ucast x) AND 16711680) + (push_bit 8 (ucast y) AND 65280) + (255 AND ucast z)"

lemma bit_pack:
  "bit (pack x y z) n \<longleftrightarrow> 16 \<le> n \<and> bit x (n - 16) \<or> 8 \<le> n \<and> n < 16 \<and> bit y (n - 8) \<or> n < 8 \<and> bit z n"
proof -
  have x8: "bit w m \<Longrightarrow> m < 8" for w :: "8 word" and m
    using bit_imp_le_length [of w m] by simp
  have a: "(push_bit 16 (ucast x) AND 16711680 :: 32 word) = push_bit 16 (ucast x)"
    by (rule bit_word_eqI) (auto simp: masks bit_simps dest: x8)
  have b: "(push_bit 8 (ucast y) AND 65280 :: 32 word) = push_bit 8 (ucast y)"
    by (rule bit_word_eqI) (auto simp: masks bit_simps dest: x8)
  have c: "(255 AND ucast z :: 32 word) = ucast z"
    by (rule bit_word_eqI) (auto simp: masks bit_simps dest: x8)
  have "pack x y z = push_bit 16 (ucast x) OR push_bit 8 (ucast y) OR ucast z"
    unfolding pack_def a b c
    by (subst disjunctive_add, (auto simp: bit_simps dest: x8)[1])+ (simp add: ac_simps)
  then show ?thesis
    by (auto simp: bit_simps dest: x8)
qed

lemma bit_shr: "bit (shr w k) n \<longleftrightarrow> bit w (if 32 - k \<le> n \<and> n < 32 then 31 else k + n)"
  unfolding shr_def by (simp add: bit_signed_drop_bit_iff)

lemma unpack:
  fixes x y z :: "8 word"
  defines "N \<equiv> pack x y z"
  shows "push_bit 18 (shr N 18 AND 63) OR push_bit 12 (shr N 12 AND 63) OR push_bit 6 (shr N 6 AND 63) OR
      (63 AND N) = N"
    "ucast (shr N 16 AND 255) = x" "ucast (shr N 8 AND 255) = y" "ucast (255 AND N) = z"
proof -
  have top: "\<not> bit N n" if "24 \<le> n" for n
    using that bit_imp_le_length [of x "n - 16"] by (auto simp: N_def bit_pack)
  show "push_bit 18 (shr N 18 AND 63) OR push_bit 12 (shr N 12 AND 63) OR push_bit 6 (shr N 6 AND 63) OR
      (63 AND N) = N"
  proof (rule bit_word_eqI)
    fix n assume "n < LENGTH(32)"
    then have n: "n < 32" by simp
    have piece: "bit (push_bit j (shr N j AND 63)) n \<longleftrightarrow> j \<le> n \<and> n < j + 6 \<and> bit N n" if "j \<le> 18" for j
      using n that by (auto simp: masks bit_simps bit_shr)
    have last: "bit (63 AND N) n \<longleftrightarrow> n < 6 \<and> bit N n"
      using n by (auto simp: masks bit_simps)
    show "bit (push_bit 18 (shr N 18 AND 63) OR push_bit 12 (shr N 12 AND 63) OR push_bit 6 (shr N 6 AND 63) OR
      (63 AND N)) n = bit N n"
      using top [of n] by (simp only: bit_or_iff piece last) linarith
  qed
  show "ucast (shr N 16 AND 255) = x" "ucast (shr N 8 AND 255) = y" "ucast (255 AND N) = z"
    by (rule bit_word_eqI; auto simp: masks bit_simps bit_shr N_def bit_pack dest: bit_imp_le_length)+
qed

lemma index_of_nth: "distinct xs \<Longrightarrow> k < length xs \<Longrightarrow> index_of (xs ! k) xs = Some k"
proof (induction xs arbitrary: k)
  case (Cons x xs)
  then show ?case by (cases k) auto
qed simp

lemma alphabet: "distinct b64_alphabet" "length b64_alphabet = 64"
  "CHR ''-'' \<notin> set b64_alphabet" "CHR ''_'' \<notin> set b64_alphabet" "CHR ''='' \<notin> set b64_alphabet"
  by (simp_all add: b64_alphabet_def)

lemma unat_and_63: "unat (w AND 63 :: 32 word) < 64"
proof -
  have "w AND 63 \<le> 63" by (rule word_and_le1)
  then show ?thesis by (simp add: word_le_nat_alt)
qed

lemma b64_char_mem: "unat w < 64 \<Longrightarrow> b64_char w \<in> set b64_alphabet"
  by (simp add: b64_char_def alphabet(2))

lemma b64_value_char: "unat w < 64 \<Longrightarrow> b64_value (b64_char w) = w"
proof -
  assume w: "unat w < 64"
  have "b64_char w \<noteq> CHR ''-''" "b64_char w \<noteq> CHR ''_''"
    using b64_char_mem [OF w] alphabet(3,4) by auto
  moreover have "index_of (b64_char w) b64_alphabet = Some (unat w)"
    unfolding b64_char_def by (rule index_of_nth) (use w alphabet in simp_all)
  ultimately show ?thesis by (simp add: b64_value_def)
qed

lemma small: "unat (w AND 63 :: 32 word) < 64" "unat (63 AND w :: 32 word) < 64"
  using unat_and_63 by (simp_all add: and.commute)

text \<open>The one or two bytes that are left.\<close>

lemma byte_high: "\<not> bit (x :: 8 word) n" if "8 \<le> n"
  using that bit_imp_le_length [of x n] by auto

lemma byte_low: "bit (x :: 8 word) n \<Longrightarrow> n < 8"
  using byte_high [of n x] by (meson not_less)

lemma unpack1:
  fixes x :: "8 word"
  defines "e \<equiv> ucast x :: 32 word"
  shows "unat (shr e 2) < 64"
    "ucast (255 AND (push_bit 2 (shr e 2) OR shr (push_bit 4 e AND 63) 4)) = x"
proof -
  have be: "bit e n \<longleftrightarrow> bit x n" for n
    by (auto simp: e_def bit_simps dest: byte_low)
  have "shr e 2 = shr e 2 AND 63"
    by (rule bit_word_eqI) (auto simp: masks bit_simps bit_shr be dest: byte_low)
  then show "unat (shr e 2) < 64"
    using unat_and_63 by metis
  show "ucast (255 AND (push_bit 2 (shr e 2) OR shr (push_bit 4 e AND 63) 4)) = x"
  proof (rule bit_word_eqI)
    fix n assume "n < LENGTH(8)"
    then have n: "n < 8" by simp
    have "2 \<le> n \<Longrightarrow> Suc (Suc (n - 2)) = n" by simp
    then have a: "bit (push_bit 2 (shr e 2)) n \<longleftrightarrow> 2 \<le> n \<and> bit x n"
      using n by (auto simp: bit_simps bit_shr be)
    have b: "bit (shr (push_bit 4 e AND 63) 4) n \<longleftrightarrow> n < 2 \<and> bit x n"
      using n by (auto simp: masks bit_simps bit_shr be)
    have "bit (ucast (255 AND (push_bit 2 (shr e 2) OR shr (push_bit 4 e AND 63) 4)) :: 8 word) n \<longleftrightarrow>
        bit (push_bit 2 (shr e 2)) n \<or> bit (shr (push_bit 4 e AND 63) 4) n"
      using n by (simp add: masks bit_simps)
    then show "bit (ucast (255 AND (push_bit 2 (shr e 2) OR shr (push_bit 4 e AND 63) 4)) :: 8 word) n = bit x n"
      using a b by auto
  qed
qed

lemma unpack2:
  fixes x y :: "8 word"
  defines "e \<equiv> push_bit 8 (ucast x) + ucast y :: 32 word"
  defines "d \<equiv> push_bit 10 (shr e 10) OR push_bit 4 (shr e 4 AND 63) OR shr (push_bit 2 e AND 63) 2"
  shows "unat (shr e 10) < 64" "ucast (shr d 8 AND 255) = x" "ucast (255 AND d) = y"
proof -
  have "e = push_bit 8 (ucast x) OR ucast y"
    unfolding e_def by (rule disjunctive_add) (auto simp: bit_simps byte_high)
  then have be: "bit e n \<longleftrightarrow> 8 \<le> n \<and> bit x (n - 8) \<or> n < 8 \<and> bit y n" for n
    by (auto simp: bit_simps dest: byte_low)
  have "shr e 10 = shr e 10 AND 63"
    by (rule bit_word_eqI) (auto simp: masks bit_simps bit_shr be dest: byte_low)
  then show "unat (shr e 10) < 64"
    using unat_and_63 by metis
  have d: "bit d n \<longleftrightarrow> bit e n" if n: "n < 16" for n
  proof -
    have "bit (push_bit 10 (shr e 10)) n \<longleftrightarrow> 10 \<le> n \<and> bit e n"
      "bit (push_bit 4 (shr e 4 AND 63)) n \<longleftrightarrow> 4 \<le> n \<and> n < 10 \<and> bit e n"
      "bit (shr (push_bit 2 e AND 63) 2) n \<longleftrightarrow> n < 4 \<and> bit e n"
      using n by (auto simp: masks bit_simps bit_shr)
    then show ?thesis unfolding d_def by (auto simp: bit_or_iff)
  qed
  show "ucast (shr d 8 AND 255) = x"
    by (rule bit_word_eqI) (auto simp: masks bit_simps bit_shr d be)
  show "ucast (255 AND d) = y"
    by (rule bit_word_eqI) (auto simp: masks bit_simps d be)
qed

section \<open>The reference encoding\<close>

text \<open>The groups of three bytes, one after the other; the rest is padded.\<close>

fun b64_groups :: "8 word list \<Rightarrow> string" where
  "b64_groups (x # y # z # r) = b64_group (pack x y z) @ b64_groups r"
| "b64_groups _ = []"

definition b64_tail :: "8 word list \<Rightarrow> string" where
  "b64_tail t =
     (case t of
        [x] \<Rightarrow> (let e = ucast x in [b64_char (shr e 2), b64_char (push_bit 4 e AND 63)] @ ''=='')
      | [x, y] \<Rightarrow>
          (let e = push_bit 8 (ucast x) + ucast y
           in [b64_char (shr e 10), b64_char (shr e 4 AND 63), b64_char (push_bit 2 e AND 63)] @ ''='')
      | _ \<Rightarrow> [])"

lemma b64_groups_append: "length a mod 3 = 0 \<Longrightarrow> b64_groups (a @ b) = b64_groups a @ b64_groups b"
  by (induction a rule: b64_groups.induct) (auto simp: mod_Suc split: if_splits)

lemma length_b64_groups: "length (b64_groups a) = 4 * (length a div 3)"
proof (induction a rule: b64_groups.induct)
  case (1 x y z r)
  have "length (x # y # z # r) div 3 = Suc (length r div 3)"
    by simp
  then show ?case using 1 by (simp only: b64_groups.simps length_append) (simp add: b64_group_def)
qed simp_all

lemma encode_chunk_groups:
  "length b mod 3 = 0 \<Longrightarrow> encode_chunk (a @ b @ c) (length a) (length a + length b) = b64_groups b"
proof (induction b arbitrary: a rule: b64_groups.induct)
  case (1 x y z r)
  have "encode_chunk ((a @ [x, y, z]) @ r @ c) (length (a @ [x, y, z])) (length (a @ [x, y, z]) + length r) = b64_groups r"
    by (rule 1(1)) (use 1(2) in \<open>simp add: mod_Suc split: if_splits\<close>)
  then show ?case
    by (subst encode_chunk.simps) (simp add: byte_def nth_append pack_def add.commute numeral_3_eq_3)
qed (simp_all add: encode_chunk.simps)

lemma encode_chunks_groups:
  "length b mod 3 = 0 \<Longrightarrow> encode_chunks (a @ b @ c) (length a) (length a + length b) = b64_groups b"
proof (induction "length b" arbitrary: a b rule: less_induct)
  case less
  show ?case
  proof (cases "length b \<le> 16383")
    case True
    then show ?thesis
      using encode_chunk_groups [OF less(2), of a c]
      by (subst encode_chunks.simps) (cases "length b = 16383"; simp add: encode_chunks.simps)
  next
    case False
    define b1 b2 where "b1 = take 16383 b" and "b2 = drop 16383 b"
    have b: "b = b1 @ b2" "length b1 = 16383"
      using False by (simp_all add: b1_def b2_def)
    have m: "length b1 mod 3 = 0" "length b2 mod 3 = 0"
      using less(2) False unfolding b1_def b2_def length_take length_drop by presburger+
    have ne: "b \<noteq> []" using False by auto
    have len: "length b = 16383 + length b2" using b(2) by (simp add: b(1))
    have t: "a @ b @ c = (a @ b1) @ b2 @ c" "a @ b @ c = a @ b1 @ (b2 @ c)"
      by (simp_all add: b(1))
    have "encode_chunks ((a @ b1) @ b2 @ c) (length (a @ b1)) (length (a @ b1) + length b2) = b64_groups b2"
      by (rule less(1)) (use len m in simp_all)
    then have rest: "encode_chunks (a @ b @ c) (length a + 16383) (length a + length b) = b64_groups b2"
      by (simp only: t(1) length_append b(2) len add.assoc)
    have first: "encode_chunk (a @ b @ c) (length a) (length a + 16383) = b64_groups b1"
      using encode_chunk_groups [OF m(1), of a "b2 @ c"] by (simp only: t(2) b(2))
    have "encode_chunks (a @ b @ c) (length a) (length a + length b) =
        encode_chunk (a @ b @ c) (length a) (length a + 16383) @
        encode_chunks (a @ b @ c) (length a + 16383) (length a + length b)"
      using False ne by (subst encode_chunks.simps) simp
    also have "\<dots> = b64_groups b1 @ b64_groups b2" by (simp only: first rest)
    also have "\<dots> = b64_groups b" using b64_groups_append [OF m(1), of b2] by (simp only: b(1))
    finally show ?thesis .
  qed
qed

lemma split3: obtains b c where "t = b @ c" "length b mod 3 = 0" "length c < 3" "length c = length t mod 3"
proof (rule that)
  let ?n = "length t - length t mod 3"
  show "t = take ?n t @ drop ?n t" by simp
  show "length (take ?n t) mod 3 = 0" by (simp only: length_take) presburger
  show "length (drop ?n t) < 3" "length (drop ?n t) = length t mod 3" by simp_all
qed

lemma fromByteArray_append:
  assumes b: "length b mod 3 = 0" and c: "length c < 3"
  shows "fromByteArray (b @ c) = b64_groups b @ b64_tail c"
proof -
  have n: "length (b @ c) mod 3 = length c"
  proof -
    obtain k where "length b = 3 * k" using mod_0_imp_dvd [OF b] unfolding dvd_def by blast
    then show ?thesis using c by simp
  qed
  have e: "encode_chunks (b @ c) 0 (length b) = b64_groups b"
    using encode_chunks_groups [OF b, of "[]" c] by simp
  consider "c = []" | x where "c = [x]" | x y where "c = [x, y]"
    using c by (cases c; cases "tl c") auto
  then show ?thesis
    using n e by cases (simp_all add: fromByteArray_def Let_def b64_tail_def byte_def nth_append)
qed

section \<open>Decoding the encoding\<close>

lemma put_append: "length vs \<le> k \<Longrightarrow> put (d @ replicate k 0) (length d) vs = d @ map ucast vs @ replicate (k - length vs) 0"
proof (induction vs arbitrary: d k)
  case (Cons v vs)
  then obtain k' where k: "k = Suc k'" by (cases k) auto
  have "put (d @ replicate k 0) (length d) (v # vs) = put ((d @ [ucast v]) @ replicate k' 0) (length (d @ [ucast v])) vs"
    by (simp add: put_def k)
  also have "\<dots> = (d @ [ucast v]) @ map ucast vs @ replicate (k' - length vs) 0"
    by (rule Cons.IH) (use Cons.prems k in simp)
  finally show ?case by (simp add: k)
qed (simp add: put_def)

lemma code_append: "code (p @ w) (length p + i) = code w i"
  by (simp add: code_def nth_append)

lemma code_group:
  fixes N :: "32 word"
  shows "code (b64_group N @ r) 0 = shr N 18 AND 63" "code (b64_group N @ r) (Suc 0) = shr N 12 AND 63"
    "code (b64_group N @ r) 2 = shr N 6 AND 63" "code (b64_group N @ r) 3 = 63 AND N"
  by (simp_all add: code_def b64_group_def b64_value_char small numeral_2_eq_2 numeral_3_eq_3)

lemma decode_groups:
  assumes "length b mod 3 = 0" "length b \<le> k" "f \<le> length p + length (b64_groups b)"
    "b64_groups b \<noteq> [] \<longrightarrow> length p + length (b64_groups b) < f + 4"
  shows "decode_loop (p @ b64_groups b @ r) f (length p) (length d) (d @ replicate k 0) =
    (d @ b @ replicate (k - length b) 0, length p + length (b64_groups b), length d + length b)"
  using assms
proof (induction b arbitrary: p d k rule: b64_groups.induct)
  case (1 x y z b)
  let ?N = "pack x y z"
  have g: "length (b64_group ?N) = 4" by (simp add: b64_group_def)
  then have gne: "b64_group ?N \<noteq> []" by auto
  let ?w = "b64_group ?N @ b64_groups b @ r"
  have c: "code (p @ ?w) (length p) = shr ?N 18 AND 63" "code (p @ ?w) (length p + 1) = shr ?N 12 AND 63"
    "code (p @ ?w) (length p + 2) = shr ?N 6 AND 63" "code (p @ ?w) (length p + 3) = 63 AND ?N"
    using code_append [of p ?w 0] code_append [of p ?w "Suc 0"] code_append [of p ?w 2] code_append [of p ?w 3]
    by (simp_all add: code_group)
  have put: "put (d @ replicate k 0) (length d) [shr ?N 16 AND 255, shr ?N 8 AND 255, 255 AND ?N] =
      (d @ [x, y, z]) @ replicate (k - 3) 0"
    using 1(3) by (subst put_append) (simp_all add: unpack)
  have "decode_loop ((p @ b64_group ?N) @ b64_groups b @ r) f
      (length (p @ b64_group ?N)) (length (d @ [x, y, z])) ((d @ [x, y, z]) @ replicate (k - 3) 0) =
    ((d @ [x, y, z]) @ b @ replicate (k - 3 - length b) 0, length (p @ b64_group ?N) + length (b64_groups b),
     length (d @ [x, y, z]) + length b)"
    by (rule 1(1)) (use 1(2-5) gne in \<open>simp_all add: mod_Suc split: if_splits\<close>)
  then have IH: "decode_loop (p @ ?w) f (length p + 4) (length d + 3)
      ((d @ [x, y, z]) @ replicate (k - 3) 0) =
    (d @ (x # y # z # b) @ replicate (k - length (x # y # z # b)) 0,
     length p + length (b64_group ?N @ b64_groups b), length d + length (x # y # z # b))"
    using g by (simp add: numeral_3_eq_3 add.assoc)
  have "decode_loop (p @ ?w) f (length p) (length d) (d @ replicate k 0) =
    decode_loop (p @ ?w) f (length p + 4) (length d + 3)
      ((d @ [x, y, z]) @ replicate (k - 3) 0)"
  proof -
    have lt: "length p < f" using 1(5) g gne by simp
    show ?thesis
      by (subst decode_loop.simps) (simp only: lt if_True Let_def c unpack(1) put)
  qed
  also note IH
  finally show ?case by (simp only: b64_groups.simps append_assoc)
qed (simp_all add: decode_loop.simps)

lemma b64_group_mem: "set (b64_group N) \<subseteq> set b64_alphabet"
  by (auto simp: b64_group_def intro!: b64_char_mem small)

lemma b64_groups_mem: "set (b64_groups b) \<subseteq> set b64_alphabet"
  using b64_group_mem by (induction b rule: b64_groups.induct) auto

lemma index_of_skip: "d \<notin> set a \<Longrightarrow> index_of d (a @ d # r) = Some (length a)"
  by (induction a) auto

lemma index_of_None: "d \<notin> set a \<Longrightarrow> index_of d a = None"
  by (induction a) auto

lemma toByteArray_encoding:
  assumes b: "length b mod 3 = 0" and c: "length c < 3"
  shows "toByteArray (b64_groups b @ b64_tail c) = Some (b @ c)"
proof -
  let ?g = "b64_groups b"
  obtain k where k: "length b = 3 * k" using mod_0_imp_dvd [OF b] unfolding dvd_def by blast
  have g: "length ?g = 4 * k" using k by (simp add: length_b64_groups)
  have no: "CHR ''='' \<notin> set ?g"
    using b64_groups_mem [of b] alphabet(5) by blast
  have ne: "b64_char w \<noteq> CHR ''=''" if "unat w < 64" for w
    using b64_char_mem [OF that] alphabet(5) by auto
  have run: "decode_loop (?g @ b64_tail c) f 0 0 (replicate (length b + length c) 0) =
      (b @ replicate (length c) 0, length ?g, length b)"
    if "f \<le> length ?g" "?g \<noteq> [] \<longrightarrow> length ?g < f + 4" for f
    using decode_groups [OF b, of "length b + length c" f "[]" "b64_tail c" "[]"] that by simp
  have r4: "Suc (Suc (4 * k)) mod 4 = 2" "Suc (Suc (Suc (4 * k))) mod 4 = 3"
    "(4 * k + 2) mod 4 = 2" "(4 * k + 3) mod 4 = 3" by presburger+
  consider "c = []" | x where "c = [x]" | x y where "c = [x, y]"
    using c by (cases c; cases "tl c") auto
  then show ?thesis
  proof cases
    case 1
    have "get_lens (?g @ b64_tail c) = Some (length ?g, 0)"
      using 1 no g by (simp add: get_lens_def b64_tail_def index_of_None)
    moreover have "byte_length (length ?g) 0 = int (length b)"
      using g k by (simp add: byte_length_def)
    ultimately show ?thesis
      using 1 run [of "length ?g"] by (simp add: toByteArray_def)
  next
    case (2 x)
    let ?e = "ucast x :: 32 word"
    let ?w = "[b64_char (shr ?e 2), b64_char (push_bit 4 ?e AND 63), CHR ''='', CHR ''='']"
    have t: "b64_tail c = ?w" "b64_tail [x] = ?w" using 2 by (simp_all add: b64_tail_def Let_def)
    have "index_of (CHR ''='') (?g @ ?w) = Some (length ?g + 2)"
      using index_of_skip [of "CHR ''=''" "?g @ take 2 ?w" "''=''"] no ne [OF unpack1(1) [of x]] ne [OF small(1)] ne [OF small(1), THEN not_sym]
      by simp
    then have "get_lens (?g @ b64_tail c) = Some (length ?g + 2, 2)"
      using g r4 by (simp add: get_lens_def t)
    moreover have "code (?g @ ?w) (length ?g) = shr ?e 2" "code (?g @ ?w) (length ?g + 1) = push_bit 4 ?e AND 63"
      using b64_value_char [OF unpack1(1)] b64_value_char [OF small(1)]
      by (simp_all add: code_def nth_append)
    moreover have "put (b @ replicate 1 0) (length b) [255 AND (push_bit 2 (shr ?e 2) OR shr (push_bit 4 ?e AND 63) 4)] = b @ [x]"
      by (subst put_append) (simp_all add: unpack1(2))
    moreover have "nat (byte_length (length ?g + 2) 2) = length b + 1" "\<not> byte_length (length ?g + 2) 2 < 0"
      using g k by (simp_all add: byte_length_def)
    moreover have "decode_loop (?g @ ?w) (length ?g + 2 - 4) 0 0 (replicate (length b + 1) 0) =
        (b @ replicate 1 0, length ?g, length b)"
      using run [of "length ?g + 2 - 4"] g 2 by (cases k) (simp_all add: t)
    ultimately show ?thesis
      by (simp only: toByteArray_def t 2) simp
  next
    case (3 x y)
    let ?e = "push_bit 8 (ucast x) + ucast y :: 32 word"
    let ?w = "[b64_char (shr ?e 10), b64_char (shr ?e 4 AND 63), b64_char (push_bit 2 ?e AND 63), CHR ''='']"
    have t: "b64_tail c = ?w" "b64_tail [x, y] = ?w" using 3 by (simp_all add: b64_tail_def Let_def)
    have "index_of (CHR ''='') (?g @ ?w) = Some (length ?g + 3)"
      using index_of_skip [of "CHR ''=''" "?g @ take 3 ?w" "[]"] no ne [OF unpack2(1) [of x y]] ne [OF small(1)] ne [OF small(1), THEN not_sym]
      by simp
    then have "get_lens (?g @ b64_tail c) = Some (length ?g + 3, 1)"
      using g r4 by (simp add: get_lens_def t)
    moreover have "code (?g @ ?w) (length ?g) = shr ?e 10" "code (?g @ ?w) (length ?g + 1) = shr ?e 4 AND 63"
      "code (?g @ ?w) (length ?g + 2) = push_bit 2 ?e AND 63"
      using b64_value_char [OF unpack2(1)] b64_value_char [OF small(1)]
      by (simp_all add: code_def nth_append)
    moreover have "put (b @ replicate 2 0) (length b)
        [shr (push_bit 10 (shr ?e 10) OR push_bit 4 (shr ?e 4 AND 63) OR shr (push_bit 2 ?e AND 63) 2) 8 AND 255,
         255 AND (push_bit 10 (shr ?e 10) OR push_bit 4 (shr ?e 4 AND 63) OR shr (push_bit 2 ?e AND 63) 2)] = b @ [x, y]"
      by (subst put_append, simp, simp only: list.map unpack2(2,3)) simp
    moreover have "nat (byte_length (length ?g + 3) 1) = length b + 2" "\<not> byte_length (length ?g + 3) 1 < 0"
      using g k by (simp_all add: byte_length_def)
    moreover have "decode_loop (?g @ ?w) (length ?g + 3 - 4) 0 0 (replicate (length b + 2) 0) =
        (b @ replicate 2 0, length ?g, length b)"
      using run [of "length ?g + 3 - 4"] g 3 by (cases k) (simp_all add: t numeral_2_eq_2)
    ultimately show ?thesis
      by (simp only: toByteArray_def t 3) simp
  qed
qed

section \<open>The property\<close>

text \<open>
  C11. Decoding inverts encoding for every array of bytes, whatever its length and however many chunks
  of 16383 bytes the encoder works through; the text has four characters for every
  three bytes begun.
\<close>

theorem base64_roundtrip:
  "toByteArray (fromByteArray t) = Some t \<and> length (fromByteArray t) = 4 * ((length t + 2) div 3)"
proof -
  obtain b c where t: "t = b @ c" "length b mod 3 = 0" "length c < 3"
    by (rule split3)
  obtain k where k: "length b = 3 * k" using mod_0_imp_dvd [OF t(2)] unfolding dvd_def by blast
  consider "c = []" | x where "c = [x]" | x y where "c = [x, y]"
    using t(3) by (cases c; cases "tl c") auto
  then have "length (b64_tail c) = 4 * ((length c + 2) div 3)"
    by cases (simp_all add: b64_tail_def Let_def)
  moreover have "(length t + 2) div 3 = k + (length c + 2) div 3"
    using k by (simp add: t(1))
  ultimately have "length (fromByteArray t) = 4 * ((length t + 2) div 3)"
    using k by (simp add: t(1) fromByteArray_append [OF t(2,3)] length_b64_groups)
  then show ?thesis
    using toByteArray_encoding [OF t(2,3)] fromByteArray_append [OF t(2,3)] by (simp add: t(1))
qed

end
