(* ===== verification/Js_Background.thy ===== *)
theory Js_Background
  imports Prelude
begin

text \<open>
  The css-background-parser of \<open>frontend/html/js/nicepage.js\<close>: the list of layers of an element's
  background is read from the element's style and printed again.  Strings are lists of
  characters, \<open>undefined\<close> is \<open>None\<close>.
\<close>

section \<open>String functions\<close>

definition js_space :: "char \<Rightarrow> bool" where
  "js_space c \<longleftrightarrow> (of_char c :: nat) \<in> {9, 10, 11, 12, 13, 32, 160}"

definition trim :: "string \<Rightarrow> string" where
  "trim s = rev (dropWhile js_space (rev (dropWhile js_space s)))"

fun split_on :: "char \<Rightarrow> string \<Rightarrow> string list" where
  "split_on d [] = [[]]"
| "split_on d (c # cs) =
     (case split_on d cs of
        [] \<Rightarrow> []
      | p # ps \<Rightarrow> if c = d then [] # p # ps else (c # p) # ps)"

fun join :: "string \<Rightarrow> string list \<Rightarrow> string" where
  "join sep [] = []"
| "join sep [s] = s"
| "join sep (s # t # ss) = s @ sep @ join sep (t # ss)"

section \<open>Layers\<close>

definition is_delim :: "char \<Rightarrow> bool" where
  "is_delim c \<longleftrightarrow> c = CHR '','' \<or> c = CHR ''('' \<or> c = CHR '')''"

fun find_delim :: "string \<Rightarrow> (nat \<times> char) option" where
  "find_delim [] = None"
| "find_delim (c # cs) =
     (if is_delim c then Some (0, c) else map_option (\<lambda>(i, d). (Suc i, d)) (find_delim cs))"

text \<open>
  The state is the rest of the text, the depth of parentheses, the text of the layer read so far and
  the layers read.  A comma at depth 0 ends the layer \<^emph>\<open>before\<close> the text in front of the comma is
  added to it.
\<close>

function layers_loop :: "string \<Rightarrow> int \<Rightarrow> string \<Rightarrow> string list \<Rightarrow> string list \<times> string \<times> string" where
  "layers_loop t n out e =
     (case find_delim t of
        None \<Rightarrow> (e, out, t)
      | Some (i, d) \<Rightarrow>
          let u = (d = CHR '','' \<and> n = 0);
              e' = (if u then e @ [trim out] else e);
              out' = (if u then [] else out);
              n' = (if d = CHR ''('' then n + 1 else if d = CHR '')'' then n - 1 else n)
          in layers_loop (drop (i + 1) t) n' (out' @ take (if u then i else i + 1) t) e')"
  by pat_completeness auto
termination
proof (relation "measure (\<lambda>(t, n, out, e). length t)")
  fix t n out e x i d u e' out' n'
  assume "find_delim t = Some x" "(i, d) = x"
  then have "t \<noteq> []" by auto
  then show "((drop (i + 1) t, n', out' @ take (if u then i else i + 1) t, e'), t, n, out, e)
    \<in> measure (\<lambda>(t, n, out, e). length t)" for n' :: int and out' :: string and u and e' :: "string list"
    by simp
qed simp

declare layers_loop.simps [simp del]

definition css_layers :: "string option \<Rightarrow> string list" where
  "css_layers t =
     (case t of
        None \<Rightarrow> []
      | Some t \<Rightarrow>
          case layers_loop t 0 [] [] of (e, out, rest) \<Rightarrow>
            filter (\<lambda>l. l \<noteq> ''none'') (if out \<noteq> [] \<or> rest \<noteq> [] then e @ [trim (out @ rest)] else e))"

definition css_values :: "string option \<Rightarrow> string list" where
  "css_values t = map trim (split_on (CHR '','') (case t of None \<Rightarrow> [] | Some t \<Rightarrow> t))"

section \<open>Backgrounds\<close>

record background =
  bg_color :: string
  bg_image :: string
  bg_attachment :: string
  bg_clip :: string
  bg_origin :: string
  bg_position :: string
  bg_repeat :: string
  bg_size :: string

definition default_props :: "string list" where
  "default_props = [''image'', ''repeat'', ''attachment'', ''position'', ''size'', ''origin'', ''clip'']"

definition background_string :: "string list \<Rightarrow> background \<Rightarrow> string" where
  "background_string props b =
     (let size = (if ''size'' \<in> set props \<and> bg_size b \<noteq> [] then '' / '' @ bg_size b else []);
          pick = (\<lambda>p v. if p \<in> set props then v else []);
          list = [pick ''image'' (bg_image b), pick ''repeat'' (bg_repeat b),
                  pick ''attachment'' (bg_attachment b), pick ''position'' (bg_position b @ size),
                  pick ''origin'' (bg_origin b), pick ''clip'' (bg_clip b)]
      in join '' '' (filter (\<lambda>t. t \<noteq> []) (if bg_color b \<noteq> [] then bg_color b # list else list)))"

definition backgrounds_string :: "string list \<Rightarrow> background list \<Rightarrow> string" where
  "backgrounds_string props bs = join '', '' (filter (\<lambda>t. t \<noteq> []) (map (background_string props) bs))"

record style =
  st_image :: "string option"
  st_color :: "string option"
  st_attachment :: "string option"
  st_clip :: "string option"
  st_origin :: "string option"
  st_position :: "string option"
  st_repeat :: "string option"
  st_size :: "string option"

definition nth_mod :: "string list \<Rightarrow> nat \<Rightarrow> string" where
  "nth_mod xs p = xs ! (p mod length xs)"

text \<open>The colour belongs to the last layer only; an undefined colour prints like an empty one.\<close>

definition parse_style :: "style option \<Rightarrow> background list" where
  "parse_style st =
     (case st of
        None \<Rightarrow> []
      | Some t \<Rightarrow>
          let n = css_layers (st_image t); m = length n in
          map (\<lambda>p. \<lparr>bg_color = (if p = m - 1 then (case st_color t of None \<Rightarrow> [] | Some c \<Rightarrow> c) else []),
                    bg_image = n ! p,
                    bg_attachment = nth_mod (css_values (st_attachment t)) p,
                    bg_clip = nth_mod (css_values (st_clip t)) p,
                    bg_origin = nth_mod (css_values (st_origin t)) p,
                    bg_position = nth_mod (css_values (st_position t)) p,
                    bg_repeat = nth_mod (css_values (st_repeat t)) p,
                    bg_size = nth_mod (css_values (st_size t)) p\<rparr>) [0..<m])"

section \<open>Reading layers\<close>

lemma find_delim_skip: "\<forall>c \<in> set w. \<not> is_delim c \<Longrightarrow> is_delim d \<Longrightarrow> find_delim (w @ d # r) = Some (length w, d)"
  by (induction w) auto

lemma find_delim_None: "\<forall>c \<in> set w. \<not> is_delim c \<Longrightarrow> find_delim w = None"
  by (induction w) auto

text \<open>A layer: parentheses match, commas stand between parentheses, and nothing follows the last one.\<close>

fun nested :: "nat \<Rightarrow> string \<Rightarrow> bool" where
  "nested n [] = (n = 0)"
| "nested n (c # cs) =
     (if c = CHR ''('' then nested (n + 1) cs
      else if c = CHR '')'' then 0 < n \<and> nested (n - 1) cs
      else if c = CHR '','' then 0 < n \<and> nested n cs
      else nested n cs)"

definition is_layer :: "string \<Rightarrow> bool" where
  "is_layer l \<longleftrightarrow> l \<noteq> [] \<and> nested 0 l \<and> last l = CHR '')'' \<and> \<not> js_space (hd l)"

lemma nested_skip: "\<forall>c \<in> set w. \<not> is_delim c \<Longrightarrow> nested n (w @ r) = nested n r"
  by (induction w) (auto simp: is_delim_def)

lemma layers_loop_layer:
  assumes "nested n l" "l = [] \<or> last l = CHR '')''"
  shows "layers_loop (l @ rest) (int n) out e = layers_loop rest 0 (out @ l) e"
  using assms
proof (induction "length l" arbitrary: l n out rule: less_induct)
  case less
  show ?case
  proof (cases "l = []")
    case True
    then show ?thesis using less.prems by simp
  next
    case False
    define w where "w = takeWhile (\<lambda>c. \<not> is_delim c) l"
    have w: "\<forall>c \<in> set w. \<not> is_delim c" by (auto simp: w_def dest: set_takeWhileD)
    have "is_delim (last l)" using less.prems(2) False by (simp add: is_delim_def)
    then have "w \<noteq> l" using w False by (metis last_in_set)
    then obtain d r where l: "l = w @ d # r" and d: "is_delim d"
      using takeWhile_eq_all_conv [of _ l] by (metis dropWhile_eq_Cons_conv dropWhile_eq_Nil_conv takeWhile_dropWhile_id w_def neq_Nil_conv)
    define n' where "n' = (if d = CHR ''('' then n + 1 else if d = CHR '')'' then n - 1 else n)"
    have nest: "nested n (d # r)" using less.prems(1) nested_skip [OF w] by (simp add: l)
    then have n: "nested n' r" "\<not> (d = CHR '','' \<and> n = 0)" "d = CHR '')'' \<longrightarrow> 0 < n"
      using d by (auto simp: n'_def is_delim_def split: if_splits)
    have "layers_loop (l @ rest) (int n) out e = layers_loop (r @ rest) (int n') (out @ w @ [d]) e"
      using find_delim_skip [OF w d, of "r @ rest"] n(2,3)
      by (subst layers_loop.simps) (auto simp: l n'_def Let_def of_nat_diff add.commute)
    also have "\<dots> = layers_loop rest 0 ((out @ w @ [d]) @ r) e"
      by (rule less.hyps) (use n less.prems(2) in \<open>auto simp: l split: if_splits\<close>)
    finally show ?thesis by (simp add: l)
  qed
qed

lemma layers_loop_comma: "layers_loop (CHR '','' # r) 0 out e = layers_loop r 0 [] (e @ [trim out])"
  by (subst layers_loop.simps) (simp add: is_delim_def)

lemma layers_loop_join:
  assumes "rs \<noteq> []" "\<forall>r \<in> set rs. nested 0 r \<and> last r = CHR '')''"
  shows "layers_loop (join '','' rs) 0 [] e = (e @ map trim (butlast rs), last rs, [])"
  using assms
proof (induction rs arbitrary: e)
  case (Cons r rs)
  have one: "layers_loop (r @ rest) 0 [] e = layers_loop rest 0 r e" for rest
    using layers_loop_layer [of 0 r rest "[]" e] Cons.prems by simp
  show ?case
  proof (cases rs)
    case Nil
    then show ?thesis using one [of "[]"] by (simp add: layers_loop.simps [of "[]"])
  next
    case (Cons r' rs')
    then show ?thesis
      using one [of "'','' @ join '','' rs"] Cons.IH [of "e @ [trim r]"] Cons.prems by (simp add: layers_loop_comma)
  qed
qed simp

lemma dropWhile_stop: "xs \<noteq> [] \<Longrightarrow> \<not> P (hd xs) \<Longrightarrow> dropWhile P xs = xs"
  by (cases xs) simp_all

lemma trim_layer:
  assumes "is_layer l"
  shows "trim l = l" "trim (CHR '' '' # l) = l"
proof -
  have l: "l \<noteq> []" "\<not> js_space (hd l)" "\<not> js_space (last l)"
    using assms by (auto simp: is_layer_def js_space_def)
  have "dropWhile js_space l = l" "dropWhile js_space (rev l) = rev l"
    by (rule dropWhile_stop; use l in \<open>simp add: hd_rev\<close>)+
  then show "trim l = l" "trim (CHR '' '' # l) = l"
    by (simp_all add: trim_def js_space_def)
qed

lemma join_Cons_char: "join sep ((c # a) # xs) = c # join sep (a # xs)"
  by (cases xs) simp_all

lemma join_space: "join '', '' (l # ls) = join '','' (l # map (\<lambda>x. CHR '' '' # x) ls)"
  by (induction ls arbitrary: l) (simp_all add: join_Cons_char)

lemma css_layers_join:
  assumes "ls \<noteq> []" "\<forall>l \<in> set ls. is_layer l"
  shows "css_layers (Some (join '', '' ls)) = ls"
proof -
  obtain l ls' where ls: "ls = l # ls'" using assms(1) by (cases ls) auto
  let ?rs = "l # map (\<lambda>x. CHR '' '' # x) ls'"
  have "\<forall>r \<in> set ?rs. nested 0 r \<and> last r = CHR '')''"
    using assms(2) by (auto simp: ls is_layer_def)
  then have loop: "layers_loop (join '', '' ls) 0 [] [] = (map trim (butlast ?rs), last ?rs, [])"
    unfolding ls join_space using layers_loop_join [of ?rs "[]"] by simp
  have "last ?rs \<noteq> []" using assms(2) by (auto simp: ls is_layer_def last_map)
  then have "css_layers (Some (join '', '' ls)) = filter (\<lambda>l. l \<noteq> ''none'') (map trim (butlast ?rs) @ [trim (last ?rs)])"
    by (simp only: css_layers_def option.case loop prod.case) simp
  also have "map trim (butlast ?rs) @ [trim (last ?rs)] = map trim ?rs"
    by (metis append_butlast_last_id list.distinct(1) list.map(2) map_append list.map(1))
  also have "map trim ?rs = ls"
    using assms(2) by (simp add: ls trim_layer o_def cong: map_cong)
  also have "filter (\<lambda>l. l \<noteq> ''none'') ls = ls"
    using assms(2) by (intro filter_True) (auto simp: is_layer_def)
  finally show ?thesis .
qed

section \<open>Properties\<close>

text \<open>
  C13. Reading a background and printing it again gives back its images: for every list of layers
  that are functional values (gradients, urls, nested functions with commas between their
  parentheses) the parser finds exactly these layers, and the printed list of images is the text it
  started from, whatever the other properties of the style are.
\<close>

theorem background_images_roundtrip:
  assumes "ls \<noteq> []" "\<forall>l \<in> set ls. is_layer l"
    "st_image st = Some (join '', '' ls)" "st_color st = None"
  shows "map bg_image (parse_style (Some st)) = ls \<and>
    backgrounds_string [''image''] (parse_style (Some st)) = join '', '' ls"
proof -
  have im: "map bg_image (parse_style (Some st)) = ls"
    using css_layers_join [OF assms(1,2)] assms(3)
    by (simp add: parse_style_def Let_def o_def map_nth)
  have col: "\<forall>b \<in> set (parse_style (Some st)). bg_color b = []"
    using assms(4) by (auto simp: parse_style_def Let_def)
  have "background_string [''image''] b = bg_image b" if "b \<in> set (parse_style (Some st))" for b
    using that col by (cases "bg_image b = []") (auto simp: background_string_def)
  then have "map (background_string [''image'']) (parse_style (Some st)) = ls"
    using im by (metis map_cong)
  moreover have "filter (\<lambda>t. t \<noteq> []) ls = ls"
    using assms(2) by (intro filter_True) (auto simp: is_layer_def)
  ultimately show ?thesis using im by (simp add: backgrounds_string_def)
qed

definition example_style :: style where
  "example_style = \<lparr>st_image = Some (join '', '' [''url(a.png)'', ''linear-gradient(rgba(0,0,0,1), red)'']),
     st_color = None, st_attachment = None, st_clip = None, st_origin = None, st_position = Some ''0px 0px'',
     st_repeat = Some ''no-repeat'', st_size = None\<rparr>"

theorem background_images_roundtrip_witness:
  "map bg_image (parse_style (Some example_style)) = [''url(a.png)'', ''linear-gradient(rgba(0,0,0,1), red)'']"
  using background_images_roundtrip [of "[''url(a.png)'', ''linear-gradient(rgba(0,0,0,1), red)'']" example_style]
  by (simp add: example_style_def is_layer_def js_space_def)

text \<open>
  A keyword in front of a comma is attached to the layer that follows it: for texts \<open>w\<close> and \<open>r\<close>
  without commas and parentheses, \<open>w,r\<close> is read as an empty layer and the layer \<open>wr\<close>, so \<open>none,none\<close>
  becomes an empty layer and \<open>nonenone\<close>, and neither \<open>none\<close> is filtered out.
\<close>

lemma keyword_layers_are_glued:
  assumes "\<forall>c \<in> set (w @ r). \<not> is_delim c" "w \<noteq> []" "trim (w @ r) \<noteq> ''none''"
  shows "css_layers (Some (w @ '','' @ r)) = [[], trim (w @ r)]"
proof -
  have "find_delim (w @ '','' @ r) = Some (length w, CHR '','')"
    using find_delim_skip [of w "CHR '',''" r] assms(1) by (simp add: is_delim_def)
  moreover have "find_delim r = None"
    using find_delim_None [of r] assms(1) by simp
  ultimately have "layers_loop (w @ '','' @ r) 0 [] [] = ([trim []], w, r)"
    by (simp add: layers_loop.simps [of "w @ CHR '','' # r"] layers_loop.simps [of r])
  then show ?thesis
    using assms(2,3) by (simp add: css_layers_def trim_def)
qed

end
