(* ===== verification/Js_Cookie.thy ===== *)
theory Js_Cookie
  imports Js_Background "HOL-Library.AList"
begin

text \<open>
  The cookie library of \<open>frontend/html/js/nicepage.js\<close> (js-cookie).  Texts consist of characters
  below 256; \<open>encodeURIComponent\<close> and \<open>decodeURIComponent\<close> are written out for them, and a sequence
  of bytes that stands for another character counts as an error.  The browser's
  \<open>document.cookie\<close> is the text of the stored cookies, \<open>name=value\<close> separated by a semicolon and a
  space; an assignment to it is the assigned line.
\<close>

section \<open>URI encoding\<close>

definition char_between :: "nat \<Rightarrow> nat \<Rightarrow> char \<Rightarrow> bool" where
  "char_between lo hi c \<longleftrightarrow> lo \<le> of_char c \<and> of_char c \<le> hi"

text \<open>Letters, digits and eleven marks; 39 is the apostrophe.\<close>

definition unreserved :: "char \<Rightarrow> bool" where
  "unreserved c \<longleftrightarrow>
     list_ex (\<lambda>(lo, hi). char_between lo hi c)
       [(48, 57), (97, 122), (65, 90), (39, 42), (45, 46), (33, 33), (95, 95), (126, 126)]"

definition hex_digit :: "nat \<Rightarrow> char" where
  "hex_digit n = ''0123456789ABCDEF'' ! n"

definition percent :: "nat \<Rightarrow> string" where
  "percent b = [CHR ''%'', hex_digit (b div 16), hex_digit (b mod 16)]"

definition utf8 :: "char \<Rightarrow> nat list" where
  "utf8 c = (let n = of_char c in if n < 128 then [n] else [192 + n div 64, 128 + n mod 64])"

definition encodeURIComponent :: "string \<Rightarrow> string" where
  "encodeURIComponent s = concat (map (\<lambda>c. if unreserved c then [c] else concat (map percent (utf8 c))) s)"

definition hex_value :: "char \<Rightarrow> nat option" where
  "hex_value c =
     (let n = of_char c in
      if 48 \<le> n \<and> n \<le> 57 then Some (n - 48)
      else if 65 \<le> n \<and> n \<le> 70 then Some (n - 55)
      else if 97 \<le> n \<and> n \<le> 102 then Some (n - 87) else None)"

definition pair_value :: "char \<times> char \<Rightarrow> nat option" where
  "pair_value p = (case (hex_value (fst p), hex_value (snd p)) of (Some a, Some b) \<Rightarrow> Some (16 * a + b) | _ \<Rightarrow> None)"

fun utf8_decode :: "nat list \<Rightarrow> string option" where
  "utf8_decode [] = Some []"
| "utf8_decode [b] = (if b < 128 then Some [char_of b] else None)"
| "utf8_decode (b # d # bs) =
     (if b < 128 then map_option ((#) (char_of b)) (utf8_decode (d # bs))
      else if 194 \<le> b \<and> b < 196 \<and> 128 \<le> d \<and> d < 192
        then map_option ((#) (char_of (64 * (b - 192) + (d - 128)))) (utf8_decode bs)
      else None)"

definition decodeURIComponent :: "(char \<times> char) list \<Rightarrow> string option" where
  "decodeURIComponent ps =
     (if list_all (\<lambda>p. pair_value p \<noteq> None) ps then utf8_decode (map (the \<circ> pair_value) ps) else None)"

section \<open>The library\<close>

text \<open>\<open>s.replace(/%(..|..)/g, decodeURIComponent)\<close>.\<close>

fun unescape_some :: "string list \<Rightarrow> string \<Rightarrow> string option" where
  "unescape_some L (c # h # l # r) =
     (if c = CHR ''%'' \<and> [h, l] \<in> set L
      then (case decodeURIComponent [(h, l)] of
              None \<Rightarrow> None | Some t \<Rightarrow> map_option ((@) t) (unescape_some L r))
      else map_option ((#) c) (unescape_some L (h # l # r)))"
| "unescape_some L r = Some r"

text \<open>\<open>e(t)\<close>: every maximal run of escapes, a percent sign and two characters of \<open>0-9A-Z\<close> each, is decoded.\<close>

definition escape_char :: "char \<Rightarrow> bool" where
  "escape_char c \<longleftrightarrow> char_between 48 57 c \<or> char_between 65 90 c"

definition flush :: "(char \<times> char) list \<Rightarrow> string option \<Rightarrow> string option" where
  "flush acc rest = (case (decodeURIComponent acc, rest) of (Some t, Some r) \<Rightarrow> Some (t @ r) | _ \<Rightarrow> None)"

fun decode_runs :: "(char \<times> char) list \<Rightarrow> string \<Rightarrow> string option" where
  "decode_runs acc [] = flush acc (Some [])"
| "decode_runs acc (c # cs) =
     (case cs of
        h # l # r \<Rightarrow>
          if c = CHR ''%'' \<and> escape_char h \<and> escape_char l then decode_runs (acc @ [(h, l)]) r
          else flush acc (map_option ((#) c) (decode_runs [] cs))
      | _ \<Rightarrow> flush acc (map_option ((#) c) (decode_runs [] cs)))"

definition decode :: "string \<Rightarrow> string option" where
  "decode t = decode_runs [] t"

datatype attr = Text string | Number int | Date int | Flag bool

type_synonym attrs = "(string \<times> attr) list"

definition merge :: "attrs list \<Rightarrow> attrs" where
  "merge as = fold (\<lambda>a e. fold (\<lambda>(k, v) e. AList.update k v e) a e) as []"

text \<open>A value is a text, or an object or array given by its JSON text.\<close>

datatype cookie_value = Plain string | Json string

record converter =
  conv_write :: "(string \<Rightarrow> string \<Rightarrow> string) option"
  conv_read :: "string \<Rightarrow> string \<Rightarrow> string"

definition no_converter :: converter where
  "no_converter = \<lparr>conv_write = None, conv_read = (\<lambda>_ _. [])\<rparr>"

definition value_escapes :: "string list" where
  "value_escapes = [''23'', ''24'', ''26'', ''2B'', ''3A'', ''3C'', ''3E'', ''3D'', ''2F'', ''3F'', ''40'', ''5B'',
     ''5D'', ''5E'', ''60'', ''7B'', ''7D'', ''7C'']"

definition name_escapes :: "string list" where
  "name_escapes = [''23'', ''24'', ''26'', ''2B'', ''5E'', ''60'', ''7C'']"

definition escape_parens :: "string \<Rightarrow> string" where
  "escape_parens s = concat (map (\<lambda>c. if c = CHR ''('' then ''%28'' else if c = CHR '')'' then ''%29'' else [c]) s)"

definition encode_value :: "converter \<Rightarrow> string \<Rightarrow> cookie_value \<Rightarrow> string option" where
  "encode_value cv name v =
     (let s = (case v of Plain s \<Rightarrow> s | Json s \<Rightarrow> s) in
      case conv_write cv of
        Some w \<Rightarrow> Some (w s name)
      | None \<Rightarrow> unescape_some value_escapes (encodeURIComponent s))"

definition encode_name :: "string \<Rightarrow> string option" where
  "encode_name name = map_option escape_parens (unescape_some name_escapes (encodeURIComponent name))"

text \<open>\<open>now\<close> is the clock, \<open>utc\<close> prints a date; a method that the value does not have is an error (\<open>None\<close>).\<close>

definition expires_text :: "int \<Rightarrow> (int \<Rightarrow> string) \<Rightarrow> attrs \<Rightarrow> attrs option" where
  "expires_text now utc a =
     (case map_of a ''expires'' of
        None \<Rightarrow> Some (AList.update ''expires'' (Text []) a)
      | Some (Number d) \<Rightarrow> Some (AList.update ''expires'' (Text (utc (now + 86400000 * d))) a)
      | Some (Date d) \<Rightarrow> Some (AList.update ''expires'' (Text (utc d)) a)
      | Some (Text s) \<Rightarrow> if s = [] then Some (AList.update ''expires'' (Text []) a) else None
      | Some (Flag b) \<Rightarrow> if b then None else Some (AList.update ''expires'' (Text []) a))"

fun attrs_text :: "attrs \<Rightarrow> string option" where
  "attrs_text [] = Some []"
| "attrs_text ((k, v) # as) =
     (case v of
        Text s \<Rightarrow>
          if s = [] then attrs_text as
          else map_option (\<lambda>r. ''; '' @ k @ ''='' @ hd (split_on (CHR '';'') s) @ r) (attrs_text as)
      | Flag b \<Rightarrow> if b then map_option (\<lambda>r. ''; '' @ k @ r) (attrs_text as) else attrs_text as
      | Number n \<Rightarrow> if n = 0 then attrs_text as else None
      | Date _ \<Rightarrow> None)"

text \<open>\<open>set(name, value, attributes)\<close>: the line that is assigned to \<open>document.cookie\<close>.\<close>

definition set_cookie ::
  "converter \<Rightarrow> int \<Rightarrow> (int \<Rightarrow> string) \<Rightarrow> attrs \<Rightarrow> string \<Rightarrow> cookie_value \<Rightarrow> attrs \<Rightarrow> string option" where
  "set_cookie cv now utc defaults name v as =
     (case expires_text now utc (merge [[(''path'', Text ''/'')], defaults, as]) of
        None \<Rightarrow> None
      | Some a \<Rightarrow>
          (case (encode_value cv name v, encode_name name, attrs_text a) of
             (Some o', Some e, Some u) \<Rightarrow> Some (e @ ''='' @ o' @ u)
           | _ \<Rightarrow> None))"

definition remove_cookie :: "converter \<Rightarrow> int \<Rightarrow> (int \<Rightarrow> string) \<Rightarrow> attrs \<Rightarrow> string \<Rightarrow> attrs \<Rightarrow> string option" where
  "remove_cookie cv now utc defaults name as =
     set_cookie cv now utc defaults name (Plain []) (merge [as, [(''expires'', Number (-1))]])"

text \<open>\<open>document.cookie.split("; ")\<close>.\<close>

fun split_semi :: "string \<Rightarrow> string list" where
  "split_semi [] = [[]]"
| "split_semi (c # cs) =
     (if c = CHR '';'' \<and> cs \<noteq> [] \<and> hd cs = CHR '' '' then [] # split_semi (tl cs)
      else case split_semi cs of [] \<Rightarrow> [] | p # ps \<Rightarrow> (c # p) # ps)"

definition or_else :: "string \<Rightarrow> string option \<Rightarrow> string option" where
  "or_else s d = (if s \<noteq> [] then Some s else d)"

definition read_part :: "converter \<Rightarrow> bool \<Rightarrow> string \<Rightarrow> (string \<times> string) option" where
  "read_part cv json p =
     (let u = split_on (CHR ''='') p; l = join ''='' (tl u);
          l = (if \<not> json \<and> l \<noteq> [] \<and> hd l = CHR 0x22 then butlast (tl l) else l)
      in case decode (hd u) of
           None \<Rightarrow> None
         | Some f \<Rightarrow> map_option (Pair f) (or_else (conv_read cv l f) (decode l)))"

text \<open>
  A part that cannot be decoded is skipped; with a name the search stops at the first part of this
  name.  The empty name counts as none.
\<close>

fun read_parts :: "converter \<Rightarrow> bool \<Rightarrow> string \<Rightarrow> string list \<Rightarrow> (string \<times> string) list \<Rightarrow> (string \<times> string) list" where
  "read_parts cv json t [] acc = acc"
| "read_parts cv json t (p # ps) acc =
     (case read_part cv json p of
        None \<Rightarrow> read_parts cv json t ps acc
      | Some (f, l) \<Rightarrow>
          if t \<noteq> [] \<and> t = f then AList.update f l acc
          else read_parts cv json t ps (AList.update f l acc))"

definition read_cookies :: "converter \<Rightarrow> bool \<Rightarrow> string \<Rightarrow> string \<Rightarrow> (string \<times> string) list" where
  "read_cookies cv json t cookie =
     read_parts cv json t (if cookie = [] then [] else split_semi cookie) []"

definition get_cookie :: "converter \<Rightarrow> string \<Rightarrow> string \<Rightarrow> string option" where
  "get_cookie cv t cookie = map_of (read_cookies cv False t cookie) t"

section \<open>Encoding and decoding\<close>

lemma hex_digit_value: "n < 16 \<Longrightarrow> hex_value (hex_digit n) = Some n \<and> escape_char (hex_digit n) \<and> hex_digit n \<noteq> CHR ''%''"
proof -
  assume "n < 16"
  then have "n \<in> set [0..<16]" by simp
  moreover have "\<forall>n \<in> set [0..<16]. hex_value (hex_digit n) = Some n \<and> escape_char (hex_digit n) \<and> hex_digit n \<noteq> CHR ''%''"
    by (simp add: upt_rec hex_digit_def hex_value_def escape_char_def char_between_def)
  ultimately show ?thesis by blast
qed

definition groups :: "nat \<Rightarrow> char \<times> char" where
  "groups b = (hex_digit (b div 16), hex_digit (b mod 16))"

lemma pair_value_groups: "b < 256 \<Longrightarrow> pair_value (groups b) = Some b"
  using hex_digit_value [of "b div 16"] hex_digit_value [of "b mod 16"]
  by (simp add: groups_def pair_value_def)

lemma utf8_less: "b \<in> set (utf8 c) \<Longrightarrow> b < 256"
proof -
  assume "b \<in> set (utf8 c)"
  moreover have "(of_char c :: nat) div 64 < 4" using nat_of_char_less_256 [of c] by linarith
  ultimately show ?thesis by (auto simp: utf8_def Let_def split: if_splits)
qed

lemma utf8_decode_append: "utf8_decode (utf8 c @ bs) = map_option ((#) c) (utf8_decode bs)"
proof -
  have n: "(of_char c :: nat) < 256" by (rule nat_of_char_less_256)
  show ?thesis
  proof (cases "(of_char c :: nat) < 128")
    case True
    then show ?thesis by (cases bs) (simp_all add: utf8_def)
  next
    case False
    have "2 \<le> (of_char c :: nat) div 64" "(of_char c :: nat) div 64 < 4" using n False by linarith+
    then have "(of_char c :: nat) div 64 \<in> {2, 3}" by auto
    moreover have "64 * ((of_char c :: nat) div 64) + of_char c mod 64 = of_char c" by simp
    ultimately show ?thesis using False by (auto simp: utf8_def Let_def)
  qed
qed

lemma decode_escaped_bytes:
  "decodeURIComponent (concat (map (\<lambda>c. map groups (utf8 c)) s)) = Some s"
proof -
  let ?ps = "concat (map (\<lambda>c. map groups (utf8 c)) s)"
  have val: "pair_value p \<noteq> None" if "p \<in> set ?ps" for p
    using that pair_value_groups utf8_less by fastforce
  have "map (the \<circ> pair_value) ?ps = concat (map utf8 s)"
  proof (induction s)
    case (Cons c s)
    have "map (the \<circ> pair_value) (map groups (utf8 c)) = utf8 c"
      using pair_value_groups utf8_less [of _ c] by (simp add: map_idI)
    then show ?case using Cons by (simp only: list.map concat.simps map_append)
  qed simp
  moreover have "utf8_decode (concat (map utf8 s)) = Some s"
    by (induction s) (simp_all add: utf8_decode_append)
  ultimately show ?thesis
    using val by (simp add: decodeURIComponent_def list_all_iff)
qed

text \<open>A block is one way to write a character: itself, or the escapes of its bytes.\<close>

definition escapes :: "char \<Rightarrow> string" where
  "escapes c = concat (map percent (utf8 c))"

definition block :: "char \<Rightarrow> string \<Rightarrow> bool" where
  "block c w \<longleftrightarrow> w = [c] \<and> c \<noteq> CHR ''%'' \<or> w = escapes c"

lemma decode_runs_percent: "b < 256 \<Longrightarrow> decode_runs acc (percent b @ r) = decode_runs (acc @ [groups b]) r"
  using hex_digit_value [of "b div 16"] hex_digit_value [of "b mod 16"]
  by (simp add: percent_def groups_def)

lemma decode_runs_escapes: "decode_runs acc (escapes c @ r) = decode_runs (acc @ map groups (utf8 c)) r"
proof -
  have "\<forall>b \<in> set bs. b < 256 \<Longrightarrow> decode_runs acc (concat (map percent bs) @ r) = decode_runs (acc @ map groups bs) r" for bs acc
    by (induction bs arbitrary: acc) (simp_all add: decode_runs_percent)
  then show ?thesis using utf8_less by (simp add: escapes_def)
qed

lemma decode_runs_raw: "c \<noteq> CHR ''%'' \<Longrightarrow> decode_runs acc (c # r) = flush acc (map_option ((#) c) (decode_runs [] r))"
  by (auto split: list.splits)

lemma decode_runs_blocks:
  "list_all2 block s ws \<Longrightarrow>
   decode_runs (concat (map (\<lambda>c. map groups (utf8 c)) p)) (concat ws) = Some (p @ s)"
proof (induction s ws arbitrary: p rule: list_all2_induct)
  case (Cons c s w ws)
  show ?case
  proof (cases "w = escapes c")
    case True
    then show ?thesis
      using Cons.IH [of "p @ [c]"] by (simp add: decode_runs_escapes)
  next
    case False
    then have "w = [c]" "c \<noteq> CHR ''%''" using Cons.hyps by (auto simp: block_def)
    then show ?thesis
      using Cons.IH [of "[]"] by (simp del: decode_runs.simps add: decode_runs_raw flush_def decode_escaped_bytes)
  qed
qed (simp add: flush_def decode_escaped_bytes)

lemma decode_blocks: "list_all2 block s ws \<Longrightarrow> decode (concat ws) = Some s"
  using decode_runs_blocks [of s ws "[]"] by (simp add: decode_def)

lemma unescape_raw: "c \<noteq> CHR ''%'' \<Longrightarrow> unescape_some L (c # r) = map_option ((#) c) (unescape_some L r)"
  by (cases "(L, c # r)" rule: unescape_some.cases) auto

lemma unescape_percent:
  assumes "b < 256"
  shows "unescape_some L (percent b @ r) =
    (if tl (percent b) \<in> set L
     then (case utf8_decode [b] of None \<Rightarrow> None | Some t \<Rightarrow> map_option ((@) t) (unescape_some L r))
     else map_option ((@) (percent b)) (unescape_some L r))"
proof -
  let ?h = "hex_digit (b div 16)" and ?l = "hex_digit (b mod 16)"
  have h: "?h \<noteq> CHR ''%''" "?l \<noteq> CHR ''%''"
    using hex_digit_value [of "b div 16"] hex_digit_value [of "b mod 16"] assms by simp_all
  have "decodeURIComponent [(?h, ?l)] = utf8_decode [b]"
    using pair_value_groups [OF assms] by (simp add: decodeURIComponent_def groups_def)
  then show ?thesis
    using unescape_raw [OF h(1), of L "?l # r"] unescape_raw [OF h(2), of L r]
    by (auto simp: percent_def option.map_comp o_def intro!: option.map_cong)
qed

definition plain_escapes :: "string list \<Rightarrow> bool" where
  "plain_escapes L \<longleftrightarrow> (\<forall>e \<in> set L. \<exists>b. pair_value (hd e, last e) = Some b \<and> b < 128 \<and> b \<noteq> 37)"

lemma plain_lists: "plain_escapes value_escapes" "plain_escapes name_escapes"
  by (simp_all add: plain_escapes_def value_escapes_def name_escapes_def pair_value_def hex_value_def)

lemma plain_escapesD: "plain_escapes L \<Longrightarrow> b < 256 \<Longrightarrow> tl (percent b) \<in> set L \<Longrightarrow> b < 128 \<and> b \<noteq> 37"
  using pair_value_groups [of b] by (force simp: plain_escapes_def percent_def groups_def)

lemma unreserved_not_percent: "unreserved c \<Longrightarrow> c \<noteq> CHR ''%''"
  by (auto simp: unreserved_def char_between_def)

text \<open>What is left of a character after the selected escapes are undone.\<close>

definition written :: "string list \<Rightarrow> char \<Rightarrow> string" where
  "written L c =
     (if unreserved c \<or> (of_char c :: nat) < 128 \<and> tl (percent (of_char c)) \<in> set L then [c] else escapes c)"

lemma unescape_block:
  assumes "plain_escapes L" "\<forall>b \<in> set bs. b < 256 \<and> tl (percent b) \<notin> set L"
  shows "unescape_some L (concat (map percent bs) @ r) = map_option ((@) (concat (map percent bs))) (unescape_some L r)"
  using assms(2)
proof (induction bs)
  case Nil
  then show ?case by (cases "unescape_some L r") simp_all
next
  case (Cons b bs)
  then show ?case
    by (auto simp: unescape_percent option.map_comp o_def intro!: option.map_cong)
qed

lemma unescape_char:
  assumes L: "plain_escapes L"
  shows "unescape_some L ((if unreserved c then [c] else escapes c) @ r) = map_option ((@) (written L c)) (unescape_some L r)"
proof (cases "unreserved c")
  case True
  then show ?thesis
    using unreserved_not_percent [OF True] by (simp add: unescape_raw written_def) (auto intro!: option.map_cong)
next
  case False
  show ?thesis
  proof (cases "(of_char c :: nat) < 128 \<and> tl (percent (of_char c)) \<in> set L")
    case True
    then show ?thesis
      using False unescape_percent [of "of_char c" L r] by (simp add: escapes_def utf8_def written_def)
  next
    case no: False
    have "tl (percent b) \<notin> set L" if "b \<in> set (utf8 c)" for b
    proof
      assume b: "tl (percent b) \<in> set L"
      have "b < 128" using plain_escapesD [OF L utf8_less [OF that] b] by simp
      then show False using that no b by (auto simp: utf8_def Let_def split: if_splits)
    qed
    then show ?thesis
      using False no unescape_block [OF L, of "utf8 c" r] utf8_less by (auto simp: escapes_def written_def)
  qed
qed

lemma unescape_encode:
  assumes "plain_escapes L"
  shows "unescape_some L (encodeURIComponent s) = Some (concat (map (written L) s))"
proof (induction s)
  case (Cons c s)
  have "encodeURIComponent (c # s) = (if unreserved c then [c] else escapes c) @ encodeURIComponent s"
    by (simp add: encodeURIComponent_def escapes_def)
  then show ?case using Cons unescape_char [OF assms] by simp
qed (simp add: encodeURIComponent_def)

lemma written_block: "plain_escapes L \<Longrightarrow> block c (written L c)"
  using unreserved_not_percent [of c] plain_escapesD [of L "of_char c"]
  by (auto simp: written_def block_def)

lemma percent_chars: "b < 256 \<Longrightarrow> set (percent b) \<subseteq> {CHR ''%''} \<union> Collect escape_char"
  using hex_digit_value [of "b div 16"] hex_digit_value [of "b mod 16"] by (simp add: percent_def)

lemma escapes_chars: "set (escapes c) \<subseteq> {CHR ''%''} \<union> Collect escape_char"
proof -
  have "set (percent b) \<subseteq> {CHR ''%''} \<union> Collect escape_char" if "b \<in> set (utf8 c)" for b
    using percent_chars [OF utf8_less [OF that]] .
  then show ?thesis unfolding escapes_def by fastforce
qed

lemma escapes_plain: "CHR '';'' \<notin> set (escapes c)" "CHR ''='' \<notin> set (escapes c)"
  "CHR ''('' \<notin> set (escapes c)" "CHR '')'' \<notin> set (escapes c)"
  using escapes_chars [of c] by (auto simp: escape_char_def char_between_def)

lemma written_plain: "CHR '';'' \<notin> set (written value_escapes c)"
  "CHR '';'' \<notin> set (written name_escapes c)" "CHR ''='' \<notin> set (written name_escapes c)"
  using escapes_plain [of c]
  by (auto simp: written_def unreserved_def char_between_def value_escapes_def name_escapes_def percent_def hex_digit_def)

definition written_name :: "char \<Rightarrow> string" where
  "written_name c = (if c = CHR ''('' \<or> c = CHR '')'' then escapes c else written name_escapes c)"

lemma escape_parens_append [simp]: "escape_parens (a @ b) = escape_parens a @ escape_parens b"
  by (simp add: escape_parens_def)

lemma escape_parens_id: "CHR ''('' \<notin> set s \<Longrightarrow> CHR '')'' \<notin> set s \<Longrightarrow> escape_parens s = s"
  by (induction s) (auto simp: escape_parens_def)

lemma escape_parens_written: "escape_parens (written name_escapes c) = written_name c"
proof (cases "c = CHR ''('' \<or> c = CHR '')''")
  case True
  then show ?thesis
    by (auto simp: written_def written_name_def unreserved_def escape_parens_def escapes_def utf8_def percent_def hex_digit_def)
next
  case False
  then have "CHR ''('' \<notin> set (written name_escapes c)" "CHR '')'' \<notin> set (written name_escapes c)"
    using escapes_plain [of c] by (auto simp: written_def)
  then show ?thesis using False by (simp add: written_name_def escape_parens_id)
qed

lemma encode_name_eq: "encode_name k = Some (concat (map written_name k))"
proof -
  have "escape_parens (concat (map (written name_escapes) k)) = concat (map written_name k)"
    by (induction k) (simp_all add: escape_parens_written, simp add: escape_parens_def)
  then show ?thesis by (simp add: encode_name_def unescape_encode plain_lists)
qed

lemma encode_value_eq: "encode_value no_converter k (Plain v) = Some (concat (map (written value_escapes) v))"
  by (simp add: encode_value_def no_converter_def unescape_encode plain_lists)

lemma decode_name: "decode (concat (map written_name k)) = Some k"
proof (rule decode_blocks)
  show "list_all2 block k (map written_name k)"
    using written_block [OF plain_lists(2)]
    by (simp add: list_all2_map2 list.rel_refl written_name_def block_def)
qed

lemma decode_value: "decode (concat (map (written value_escapes) v)) = Some v"
proof (rule decode_blocks)
  show "list_all2 block v (map (written value_escapes) v)"
    using written_block [OF plain_lists(1)] by (simp add: list_all2_map2 list.rel_refl)
qed

section \<open>Reading what was written\<close>

text \<open>What a browser keeps of an assigned line: the part in front of the first semicolon.\<close>

definition stored :: "string \<Rightarrow> string" where
  "stored line = takeWhile (\<lambda>c. c \<noteq> CHR '';'') line"

definition pair_text :: "string \<Rightarrow> string \<Rightarrow> string" where
  "pair_text k v = concat (map written_name k) @ ''='' @ concat (map (written value_escapes) v)"

lemma attrs_text_start: "attrs_text as = Some u \<Longrightarrow> u = [] \<or> hd u = CHR '';''"
proof (induction as arbitrary: u)
  case (Cons x as)
  obtain k v where "x = (k, v)" by (cases x)
  then show ?case using Cons by (cases v) (auto split: if_splits)
qed simp

lemma pair_text_plain: "CHR '';'' \<notin> set (pair_text k v)"
proof -
  have "CHR '';'' \<notin> set (written_name c)" for c
    using written_plain(2) [of c] escapes_plain(1) [of c] by (simp add: written_name_def)
  then show ?thesis using written_plain(1) by (auto simp: pair_text_def)
qed

lemma set_cookie_stored:
  assumes "set_cookie no_converter now utc d k (Plain v) a = Some l"
  shows "stored l = pair_text k v"
proof -
  obtain a' u where u: "attrs_text a' = Some u" and l: "l = pair_text k v @ u"
    using assms by (auto simp: set_cookie_def encode_value_eq encode_name_eq pair_text_def split: option.splits)
  have "takeWhile (\<lambda>c. c \<noteq> CHR '';'') (pair_text k v @ u) = pair_text k v @ takeWhile (\<lambda>c. c \<noteq> CHR '';'') u"
    using pair_text_plain [of k v] by (intro takeWhile_append2) auto
  then show ?thesis
    using attrs_text_start [OF u] by (cases u) (auto simp: stored_def l)
qed

lemma split_on_neq: "split_on d s \<noteq> []"
  by (induction s) (auto split: list.splits)

lemma split_on_skip: "d \<notin> set a \<Longrightarrow> split_on d (a @ d # r) = a # split_on d r"
proof (induction a)
  case Nil
  then show ?case using split_on_neq [of d r] by (auto split: list.splits)
qed auto

lemma join_split_on: "join [d] (split_on d s) = s"
proof (induction s)
  case (Cons c s)
  obtain p ps where p: "split_on d s = p # ps"
    using split_on_neq [of d s] by (cases "split_on d s") auto
  then show ?case using Cons by (simp add: join_Cons_char)
qed simp

lemma split_semi_skip: "CHR '';'' \<notin> set a \<Longrightarrow> split_semi (a @ ''; '' @ r) = a # split_semi r"
  by (induction a) auto

lemma split_semi_last: "CHR '';'' \<notin> set a \<Longrightarrow> split_semi a = [a]"
  by (induction a) auto

lemma split_semi_join:
  "ps \<noteq> [] \<Longrightarrow> \<forall>p \<in> set ps. CHR '';'' \<notin> set p \<Longrightarrow> split_semi (join ''; '' ps) = ps"
proof (induction ps rule: induct_list012)
  case (3 p q ps)
  then show ?case using split_semi_skip [of p] by simp
qed (simp_all add: split_semi_last)

lemma read_part_pair: "read_part no_converter False (pair_text k v) = Some (k, v)"
proof -
  let ?v = "concat (map (written value_escapes) v)"
  have "CHR ''='' \<notin> set (written_name c)" for c
    using written_plain(3) [of c] escapes_plain(2) [of c] by (simp add: written_name_def)
  then have "split_on (CHR ''='') (pair_text k v) = concat (map written_name k) # split_on (CHR ''='') ?v"
    using split_on_skip [of "CHR ''=''" "concat (map written_name k)" ?v] by (auto simp: pair_text_def)
  moreover have "\<not> (?v \<noteq> [] \<and> hd ?v = CHR 0x22)"
  proof (cases v)
    case (Cons c v')
    have "written value_escapes c \<noteq> []" "hd (written value_escapes c) \<noteq> CHR 0x22"
      using nat_of_char_less_256 [of c]
      by (auto simp: written_def escapes_def percent_def utf8_def Let_def unreserved_def char_between_def
          value_escapes_def hex_digit_def)
    then show ?thesis by (simp add: Cons hd_append)
  qed simp
  moreover define V where "V = ?v"
  moreover have "decode V = Some v" by (simp add: V_def decode_value)
  ultimately show ?thesis
    by (auto simp: read_part_def Let_def join_split_on decode_name no_converter_def or_else_def)
qed

lemma read_parts_pairs:
  "(k, v) \<in> set kvs \<Longrightarrow> distinct (map fst kvs) \<Longrightarrow> k \<noteq> [] \<Longrightarrow>
   map_of (read_parts no_converter False k (map (\<lambda>(k, v). pair_text k v) kvs) acc) k = Some v"
proof (induction kvs arbitrary: acc)
  case (Cons x kvs)
  obtain k' v' where x: "x = (k', v')" by (cases x)
  show ?case
  proof (cases "k' = k")
    case True
    then have "v' = v" using Cons.prems(1,2) x by (force simp: image_iff)
    then show ?thesis using True Cons.prems(3) by (simp add: x read_part_pair update_conv')
  next
    case False
    then show ?thesis using Cons x by (simp add: read_part_pair)
  qed
qed simp

section \<open>The property\<close>



end
