(* ===== verification/Js_Modules.thy ===== *)
theory Js_Modules
  imports Prelude "HOL-Library.AList"
begin

text \<open>
  The module loader at the start of \<open>frontend/html/js/nicepage.js\<close>.  A module is a function that
  may require other modules, read and write objects, replace its own exports, and throw; it is
  represented by the tree of its actions.  Objects live on a heap, so that two modules that
  require each other see the same, possibly unfinished, exports.
\<close>

section \<open>Modules\<close>

datatype 'v action =
    Return
  | Throw
  | Require nat "nat \<Rightarrow> 'v action"
  | New "nat \<Rightarrow> 'v action"
  | Get nat string "'v option \<Rightarrow> 'v action"
  | Put nat string 'v "'v action"
  | Replace nat "'v action"

record module =
  mod_loaded :: bool
  mod_exports :: nat

record 'v loader =
  cache :: "(nat, module) cmap"
  objects :: "((string, 'v) cmap) list"

definition alloc :: "'v loader \<Rightarrow> 'v loader \<times> nat" where
  "alloc st = (st\<lparr>objects := objects st @ [[]]\<rparr>, length (objects st))"

definition lookup_object :: "'v loader \<Rightarrow> nat \<Rightarrow> (string, 'v) cmap" where
  "lookup_object st r = (if r < length (objects st) then objects st ! r else [])"

definition set_exports :: "nat \<Rightarrow> nat \<Rightarrow> 'v loader \<Rightarrow> 'v loader" where
  "set_exports m r st =
     (case map_of (cache st) m of
        None \<Rightarrow> st
      | Some o' \<Rightarrow> st\<lparr>cache := AList.update m (o'\<lparr>mod_exports := r\<rparr>) (cache st)\<rparr>)"

text \<open>
  The result of a step is the state and whether it returned; \<open>None\<close> means that the fuel of the
  loader is used up.
\<close>

primrec run_action ::
  "(nat \<Rightarrow> 'v loader \<Rightarrow> ('v loader \<times> nat option) option) \<Rightarrow> nat \<Rightarrow> 'v action \<Rightarrow> 'v loader \<Rightarrow>
   ('v loader \<times> bool) option" where
  "run_action ld m Return st = Some (st, True)"
| "run_action ld m Throw st = Some (st, False)"
| "run_action ld m (Require n k) st =
     (case ld n st of
        None \<Rightarrow> None
      | Some (st', None) \<Rightarrow> Some (st', False)
      | Some (st', Some r) \<Rightarrow> run_action ld m (k r) st')"
| "run_action ld m (New k) st = (case alloc st of (st', r) \<Rightarrow> run_action ld m (k r) st')"
| "run_action ld m (Get r key k) st = run_action ld m (k (map_of (lookup_object st r) key)) st"
| "run_action ld m (Put r key v k) st =
     run_action ld m k (st\<lparr>objects := (objects st)[r := AList.update key v (lookup_object st r)]\<rparr>)"
| "run_action ld m (Replace r k) st = run_action ld m k (set_exports m r st)"

text \<open>
  \<open>e(n)\<close>: a module in the cache is not run again.  The entry is made before the module runs and
  stays when it throws; calling an unknown module throws as well.
\<close>

primrec load_module ::
  "(nat \<Rightarrow> (nat \<Rightarrow> 'v action) option) \<Rightarrow> nat \<Rightarrow> nat \<Rightarrow> 'v loader \<Rightarrow> ('v loader \<times> nat option) option" where
  "load_module t 0 n st =
     (case map_of (cache st) n of Some o' \<Rightarrow> Some (st, Some (mod_exports o')) | None \<Rightarrow> None)"
| "load_module t (Suc f) n st =
     (case map_of (cache st) n of
        Some o' \<Rightarrow> Some (st, Some (mod_exports o'))
      | None \<Rightarrow>
          (case alloc st of (st1, r) \<Rightarrow>
             let st2 = st1\<lparr>cache := AList.update n \<lparr>mod_loaded = False, mod_exports = r\<rparr> (cache st1)\<rparr> in
             case t n of
               None \<Rightarrow> Some (st2, None)
             | Some body \<Rightarrow>
                 (case run_action (load_module t f) n (body r) st2 of
                    None \<Rightarrow> None
                  | Some (st3, False) \<Rightarrow> Some (st3, None)
                  | Some (st3, True) \<Rightarrow>
                      (case map_of (cache st3) n of
                         None \<Rightarrow> None
                       | Some o' \<Rightarrow>
                           Some (st3\<lparr>cache := AList.update n (o'\<lparr>mod_loaded := True\<rparr>) (cache st3)\<rparr>,
                                 Some (mod_exports o'))))))"

text \<open>\<open>e(e.s = 9114)\<close>: the start, with an empty cache.\<close>

definition start_bundle :: "(nat \<Rightarrow> (nat \<Rightarrow> 'v action) option) \<Rightarrow> nat \<Rightarrow> ('v loader \<times> nat option) option" where
  "start_bundle t f = load_module t f 9114 \<lparr>cache = [], objects = []\<rparr>"

section \<open>The cache only grows\<close>

definition cached :: "'v loader \<Rightarrow> nat set" where
  "cached st = dom (map_of (cache st))"

lemma cached_simps [simp]:
  "cached (st\<lparr>objects := x\<rparr>) = cached st"
  "cached (set_exports m r st) = cached st"
  by (auto simp: cached_def set_exports_def dom_def update_conv' split: option.splits)

lemma cached_update [simp]: "cached (st\<lparr>cache := AList.update n o' (cache s)\<rparr>) = insert n (cached s)"
  by (auto simp: cached_def dom_def update_conv')

lemma cached_alloc [simp]: "alloc st = (st', r) \<Longrightarrow> cached st' = cached st"
  by (auto simp: alloc_def)

definition grows :: "(nat \<Rightarrow> 'v loader \<Rightarrow> ('v loader \<times> 'a) option) \<Rightarrow> bool" where
  "grows ld \<longleftrightarrow> (\<forall>n st st' x. ld n st = Some (st', x) \<longrightarrow> cached st \<subseteq> cached st')"

lemma run_action_grows:
  assumes "grows ld"
  shows "run_action ld m a st = Some (st', b) \<Longrightarrow> cached st \<subseteq> cached st'"
proof (induction a arbitrary: st)
  case (Require n k)
  then obtain st1 x where l: "ld n st = Some (st1, x)" by (auto split: option.splits)
  then have "cached st \<subseteq> cached st1" using assms by (auto simp: grows_def)
  moreover have "cached st1 \<subseteq> cached st'"
    using Require.IH [OF rangeI] Require.prems l by (cases x) auto
  ultimately show ?case by blast
next
  case (New k)
  obtain st1 r where a: "alloc st = (st1, r)" by (cases "alloc st")
  then show ?case using New.IH [OF rangeI, of r st1] New.prems by simp
next
  case (Get r key k)
  then show ?case by auto
next
  case (Put r key v k)
  then show ?case using Put.IH by fastforce
next
  case (Replace r k)
  then show ?case using Replace.IH by fastforce
qed simp_all

lemma load_cached: "map_of (cache st) n = Some o' \<Longrightarrow> load_module t f n st = Some (st, Some (mod_exports o'))"
  by (cases f) simp_all

lemma load_grows:
  "grows (load_module t f) \<and> (\<forall>n st st' r. load_module t f n st = Some (st', r) \<longrightarrow> n \<in> cached st')"
proof (induction f)
  case 0
  then show ?case by (auto simp: grows_def cached_def split: option.splits)
next
  case (Suc f)
  have "cached st \<subseteq> cached st' \<and> n \<in> cached st'" if l: "load_module t (Suc f) n st = Some (st', r)" for n st st' r
  proof (cases "map_of (cache st) n")
    case (Some o')
    then show ?thesis using l by (auto simp: cached_def)
  next
    case None
    obtain st1 r1 where a: "alloc st = (st1, r1)" by (cases "alloc st")
    define st2 where "st2 = st1\<lparr>cache := AList.update n \<lparr>mod_loaded = False, mod_exports = r1\<rparr> (cache st1)\<rparr>"
    have c2: "cached st2 = insert n (cached st)" using cached_alloc [OF a] by (simp add: st2_def)
    show ?thesis
    proof (cases "t n")
      case None': None
      then show ?thesis using l None a c2 by (auto simp: st2_def Let_def)
    next
      case (Some body)
      then obtain st3 b where r: "run_action (load_module t f) n (body r1) st2 = Some (st3, b)"
        using l None a by (auto simp: st2_def Let_def split: option.splits)
      have "cached st2 \<subseteq> cached st3" using run_action_grows [OF _ r] Suc by blast
      moreover have "cached st3 \<subseteq> cached st'"
        using l None a Some r by (cases b) (auto simp: Let_def simp flip: st2_def split: option.splits)
      ultimately show ?thesis using c2 by auto
    qed
  qed
  then show ?case unfolding grows_def by blast
qed

section \<open>Termination\<close>

lemma run_action_total:
  assumes "grows ld" "\<And>n st'. cached st \<subseteq> cached st' \<Longrightarrow> ld n st' \<noteq> None"
  shows "run_action ld m a st \<noteq> None"
  using assms(2)
proof (induction a arbitrary: st)
  case (Require n k)
  obtain st1 x where l: "ld n st = Some (st1, x)" using Require.prems [of st n] by auto
  then have "cached st \<subseteq> cached st1" using assms(1) by (auto simp: grows_def)
  then have "\<And>r. run_action ld m (k r) st1 \<noteq> None"
    using Require.IH [OF rangeI] Require.prems by blast
  then show ?case using l by (cases x) auto
next
  case (New k)
  obtain st1 r where a: "alloc st = (st1, r)" by (cases "alloc st")
  then show ?case using New.IH [OF rangeI, of st1 r] New.prems cached_alloc [OF a] by simp
next
  case (Get r key k)
  then show ?case using Get.IH [OF rangeI] by simp
next
  case (Put r key v k)
  have "run_action ld m k (st\<lparr>objects := (objects st)[r := AList.update key v (lookup_object st r)]\<rparr>) \<noteq> None"
    by (rule Put.IH) (use Put.prems in simp)
  then show ?case by simp
next
  case (Replace r k)
  have "run_action ld m k (set_exports m r st) \<noteq> None"
    by (rule Replace.IH) (use Replace.prems in simp)
  then show ?case by simp
qed simp_all

lemma load_total:
  assumes "finite (dom t)"
  shows "card (dom t - cached st) < f \<Longrightarrow> load_module t f n st \<noteq> None"
proof (induction f arbitrary: n st)
  case (Suc f)
  show ?case
  proof (cases "map_of (cache st) n")
    case (Some o')
    then show ?thesis by simp
  next
    case None
    obtain st1 r1 where a: "alloc st = (st1, r1)" by (cases "alloc st")
    define st2 where "st2 = st1\<lparr>cache := AList.update n \<lparr>mod_loaded = False, mod_exports = r1\<rparr> (cache st1)\<rparr>"
    have c2: "cached st2 = insert n (cached st)" using cached_alloc [OF a] by (simp add: st2_def)
    show ?thesis
    proof (cases "t n")
      case None': None
      then show ?thesis using None a by (simp add: Let_def)
    next
      case (Some body)
      have "n \<in> dom t - cached st" using None Some by (auto simp: cached_def)
      then have less: "card (dom t - cached st2) < card (dom t - cached st)"
        using assms c2 by (intro psubset_card_mono) auto
      have "run_action (load_module t f) n (body r1) st2 \<noteq> None"
      proof (rule run_action_total)
        show "grows (load_module t f)" using load_grows by blast
        show "load_module t f n' st' \<noteq> None" if "cached st2 \<subseteq> cached st'" for n' st'
        proof (rule Suc.IH)
          have "card (dom t - cached st') \<le> card (dom t - cached st2)"
            using assms that by (intro card_mono) auto
          then show "card (dom t - cached st') < f" using less Suc.prems by linarith
        qed
      qed
      then obtain st3 b where r: "run_action (load_module t f) n (body r1) st2 = Some (st3, b)" by auto
      have "n \<in> cached st3" using run_action_grows [OF _ r] load_grows c2 by blast
      then show ?thesis using None a Some r by (cases b) (auto simp: Let_def cached_def simp flip: st2_def)
    qed
  qed
qed simp

lemma run_action_mono:
  assumes "\<And>n st x. ld n st = Some x \<Longrightarrow> ld' n st = Some x"
  shows "run_action ld m a st = Some x \<Longrightarrow> run_action ld' m a st = Some x"
proof (induction a arbitrary: st)
  case (Require n k)
  then obtain st1 y where l: "ld n st = Some (st1, y)" by (auto split: option.splits)
  then show ?case using Require assms [OF l] by (cases y) auto
qed (auto split: prod.splits)

lemma load_mono: "load_module t f n st = Some x \<Longrightarrow> load_module t (Suc f) n st = Some x"
proof (induction f arbitrary: n st x)
  case 0
  then show ?case by (auto split: option.splits)
next
  case (Suc f)
  have mono: "run_action (load_module t f) m a s = Some y \<Longrightarrow> run_action (load_module t (Suc f)) m a s = Some y" for m a s y
    using run_action_mono Suc.IH by blast
  show ?case
  proof (cases "map_of (cache st) n")
    case (Some o')
    then show ?thesis using Suc.prems by simp
  next
    case None
    obtain st1 r1 where a: "alloc st = (st1, r1)" by (cases "alloc st")
    show ?thesis
    proof (cases "t n")
      case None': None
      then show ?thesis using Suc.prems None a by (simp add: Let_def)
    next
      case (Some body)
      let ?st2 = "st1\<lparr>cache := AList.update n \<lparr>mod_loaded = False, mod_exports = r1\<rparr> (cache st1)\<rparr>"
      obtain y where "run_action (load_module t f) n (body r1) ?st2 = Some y"
        using Suc.prems None a Some by (auto simp: Let_def split: option.splits)
      then show ?thesis
        using Suc.prems None a Some mono [of n "body r1" ?st2 y]
        by (simp only: load_module.simps(2) Let_def option.case prod.case)
    qed
  qed
qed

lemma load_mono_le: "f \<le> f' \<Longrightarrow> load_module t f n st = Some x \<Longrightarrow> load_module t f' n st = Some x"
  by (induction f' rule: dec_induct) (auto simp del: load_module.simps intro: load_mono)

section \<open>Properties\<close>

text \<open>
  C16. Loading the bundle always ends, even when modules require each other in a circle: with as much
  fuel as there are modules, and one more, the loader returns or throws, and with more fuel it
  does exactly the same.
\<close>

theorem loader_terminates:
  fixes t :: "nat \<Rightarrow> (nat \<Rightarrow> 'v action) option"
  assumes "finite (dom t)" "card (dom t) < f"
  shows "\<exists>x. start_bundle t f = Some x \<and> start_bundle t (f + k) = Some x"
proof -
  let ?st = "\<lparr>cache = [], objects = []\<rparr> :: 'v loader"
  have "card (dom t - cached ?st) < f" using assms(2) by (simp add: cached_def)
  then obtain x where "load_module t f 9114 ?st = Some x"
    using load_total [OF assms(1), of ?st f 9114] by auto
  then show ?thesis
    using load_mono_le [of f "f + k" t 9114 ?st] by (simp add: start_bundle_def)
qed

text \<open>Two modules that require each other; each writes to its own exports.\<close>

definition example_modules :: "nat \<Rightarrow> (nat \<Rightarrow> int action) option" where
  "example_modules n =
     (if n = 9114 then Some (\<lambda>r. Put r ''a'' 1 (Require 141 (\<lambda>q. Get q ''b'' (\<lambda>v. Put r ''b'' (the v) Return))))
      else if n = 141 then Some (\<lambda>r. Require 9114 (\<lambda>q. Get q ''a'' (\<lambda>v. Put r ''b'' (the v + 1) Return)))
      else None)"

lemma dom_example: "dom example_modules = {141, 9114}"
  by (auto simp: example_modules_def dom_def)

theorem loader_terminates_witness:
  "\<exists>x. start_bundle example_modules 3 = Some x \<and> start_bundle example_modules (3 + 4) = Some x"
  by (rule loader_terminates) (simp_all add: dom_example)


end
