(* ===== verification/Js_Ieee754.thy ===== *)
theory Js_Ieee754
  imports Complex_Main Prelude
begin

text \<open>
  Reading a floating-point number from the bytes of a buffer: \<open>read\<close> of the ieee754 module in
  \<open>frontend/html/js/nicepage.js\<close>.  The buffer reads with 23 bits of mantissa in 4 bytes and with 52
  bits in 8 bytes; the numbers that occur are exact in a double, so they are written as rational
  numbers.  The bytes that are read must lie in the buffer, which its methods check before they
  call \<open>read\<close>.
\<close>

section \<open>Definitions\<close>

text \<open>A number: not a number, an infinity or a finite number with its sign (zero has one, too).\<close>

datatype number = NaN | Infinity bool | Finite bool rat

definition pow2 :: "int \<Rightarrow> rat" where
  "pow2 k = (if 0 \<le> k then 2 ^ nat k else 1 / 2 ^ nat (- k))"

text \<open>
  The loop that shifts bytes into \<open>a\<close> until \<open>c\<close> bits are no longer missing; \<open>h\<close> is the position and
  \<open>d\<close> the direction.
\<close>

function shift_in :: "nat list \<Rightarrow> int \<Rightarrow> nat \<Rightarrow> int \<Rightarrow> int \<Rightarrow> nat \<times> int \<times> int" where
  "shift_in t d a h c =
     (if c > 0 then shift_in t d (256 * a + t ! nat h) (h + d) (c - 8) else (a, h, c))"
  by auto
termination by (relation "measure (\<lambda>(t, d, a, h, c). nat c)") auto

declare shift_in.simps [simp del]

definition read_number :: "nat list \<Rightarrow> nat \<Rightarrow> bool \<Rightarrow> nat \<Rightarrow> nat \<Rightarrow> number" where
  "read_number t e isLE mLen nBytes =
     (let u = 8 * nBytes - mLen - 1;
          l = 2 ^ u - 1;
          f = l div 2;
          h = int e + (if isLE then int nBytes - 1 else 0);
          d = (if isLE then -1 else 1);
          p = t ! nat h
      in case shift_in t d (p mod 2 ^ 7) (h + d) (-7 + int u) of
           (a, h, c) \<Rightarrow>
      case shift_in t d (a mod 2 ^ nat (- c)) h (c + int mLen) of
           (s, h, c') \<Rightarrow>
      let a = a div 2 ^ nat (- c);
          neg = (p div 2 ^ 7 \<noteq> 0)
      in if a = 0 then Finite neg (of_nat s * pow2 (1 - int f - int mLen))
         else if a = l then (if s \<noteq> 0 then NaN else Infinity neg)
         else Finite neg (of_nat (s + 2 ^ mLen) * pow2 (int a - int f - int mLen)))"

section \<open>The reference\<close>

text \<open>The number that sign, exponent and mantissa stand for in a format with \<open>w\<close> bits of exponent and \<open>n\<close> of mantissa.\<close>

definition ieee_value :: "nat \<Rightarrow> nat \<Rightarrow> bool \<Rightarrow> nat \<Rightarrow> nat \<Rightarrow> number" where
  "ieee_value w n neg ex m =
     (let bias = 2 ^ (w - 1) - 1 in
      if ex = 2 ^ w - 1 then (if m = 0 then Infinity neg else NaN)
      else if ex = 0 then Finite neg (of_nat m * pow2 (1 - bias - int n))
      else Finite neg (of_nat (2 ^ n + m) * pow2 (int ex - bias - int n)))"

text \<open>The value of bytes, the most significant one first.\<close>

definition be_val :: "nat list \<Rightarrow> nat" where
  "be_val bs = foldl (\<lambda>a b. 256 * a + b) 0 bs"

lemma foldl_be: "foldl (\<lambda>a b. 256 * a + b) a bs = a * 256 ^ length bs + be_val bs"
proof -
  let ?f = "\<lambda>a b. 256 * a + b :: nat"
  have "foldl ?f a bs = a * 256 ^ length bs + foldl ?f 0 bs"
  proof (induction bs rule: rev_induct)
    case (snoc b bs)
    have "foldl ?f a (bs @ [b]) = 256 * (a * 256 ^ length bs + foldl ?f 0 bs) + b"
      by (simp only: foldl_append foldl.simps snoc)
    then show ?case by (simp add: algebra_simps)
  qed simp
  then show ?thesis by (simp add: be_val_def)
qed

lemma be_val_append: "be_val (a @ b) = be_val a * 256 ^ length b + be_val b"
  using foldl_be [of "be_val a" b] by (simp add: be_val_def)

lemma be_val_Cons: "be_val (b # bs) = b * 256 ^ length bs + be_val bs"
  using be_val_append [of "[b]" bs] by (simp add: be_val_def)

lemma be_val_less: "\<forall>b \<in> set bs. b < 256 \<Longrightarrow> be_val bs < 256 ^ length bs"
proof (induction bs rule: rev_induct)
  case (snoc b bs)
  then have "be_val bs + 1 \<le> 256 ^ length bs" by simp
  then have "(be_val bs + 1) * 256 \<le> 256 ^ length bs * 256" by (rule mult_le_mono1)
  then show ?case using snoc.prems by (simp add: be_val_append [of bs "[b]"]) (simp add: be_val_def)
qed (simp add: be_val_def)

text \<open>The bytes that are read, in the order they are read.\<close>

definition read_order :: "nat list \<Rightarrow> nat \<Rightarrow> bool \<Rightarrow> nat \<Rightarrow> nat list" where
  "read_order t e isLE n = (let w = take n (drop e t) in if isLE then rev w else w)"

lemma shift_in_bytes:
  assumes "\<And>i. i < k \<Longrightarrow> t ! nat (h + d * int i) = B ! (j + i)" "j + k \<le> length B"
    "c \<le> 8 * int k" "8 * int k < c + 8"
  shows "shift_in t d a h c = (a * 256 ^ k + be_val (take k (drop j B)), h + d * int k, c - 8 * int k)"
  using assms
proof (induction k arbitrary: a h c j)
  case 0
  then show ?case by (subst shift_in.simps) (simp add: be_val_def)
next
  case (Suc k)
  have "shift_in t d a h c = shift_in t d (256 * a + t ! nat h) (h + d) (c - 8)"
    using Suc.prems(4) by (subst shift_in.simps) simp
  also have "t ! nat h = B ! j" using Suc.prems(1) [of 0] by simp
  also have "shift_in t d (256 * a + B ! j) (h + d) (c - 8) =
      ((256 * a + B ! j) * 256 ^ k + be_val (take k (drop (Suc j) B)), h + d + d * int k, c - 8 - 8 * int k)"
  proof (rule Suc.IH)
    show "t ! nat (h + d + d * int i) = B ! (Suc j + i)" if "i < k" for i
      using Suc.prems(1) [of "Suc i"] that by (simp add: algebra_simps)
  qed (use Suc.prems in auto)
  also have "(256 * a + B ! j) * 256 ^ k + be_val (take k (drop (Suc j) B)) = a * 256 ^ Suc k + be_val (take (Suc k) (drop j B))"
  proof -
    have "drop j B = B ! j # drop (Suc j) B" using Suc.prems(2) by (simp add: Cons_nth_drop_Suc)
    moreover have "length (take k (drop (Suc j) B)) = k" using Suc.prems(2) by simp
    ultimately show ?thesis by (simp add: be_val_Cons algebra_simps)
  qed
  finally show ?case by (simp add: algebra_simps)
qed

lemma length_read_order: "e + k \<le> length t \<Longrightarrow> length (read_order t e isLE k) = k"
  by (simp add: read_order_def Let_def)

lemma read_order_nth:
  assumes "e + k \<le> length t" "i < k"
  shows "t ! nat (int e + (if isLE then int k - 1 else 0) + (if isLE then -1 else 1) * int i) = read_order t e isLE k ! i"
proof (cases isLE)
  case True
  have "nat (int e + int k - 1 - int i) = e + (k - Suc i)" using assms(2) by linarith
  moreover have "rev (take k (drop e t)) ! i = t ! (e + (k - Suc i))"
    using assms by (simp add: rev_nth)
  ultimately show ?thesis using True by (simp add: read_order_def algebra_simps)
next
  case False
  have "nat (int e + int i) = e + i" by linarith
  then show ?thesis using False assms by (simp add: read_order_def)
qed

text \<open>Splitting a number into its three fields.\<close>

lemma fields:
  fixes q ex m :: nat
  assumes "ex < 2 ^ u" "m < 2 ^ n" "N = q * 2 ^ (u + n) + ex * 2 ^ n + m"
  shows "N div 2 ^ n mod 2 ^ u = ex" "N mod 2 ^ n = m" "2 ^ (u + n) \<le> N \<longleftrightarrow> q \<noteq> 0"
proof -
  have N: "N = (q * 2 ^ u + ex) * 2 ^ n + m"
    using assms(3) by (simp add: power_add algebra_simps)
  show "N div 2 ^ n mod 2 ^ u = ex" "N mod 2 ^ n = m"
    using assms(1,2) by (simp_all add: N)
  have "ex * 2 ^ n + m < 2 ^ (u + n)"
  proof -
    have "(ex + 1) * 2 ^ n \<le> 2 ^ u * 2 ^ n" using assms(1) by (intro mult_le_mono1) simp
    then show ?thesis using assms(2) by (simp add: power_add)
  qed
  then show "2 ^ (u + n) \<le> N \<longleftrightarrow> q \<noteq> 0"
    using assms(3) by (cases q) auto
qed

lemma be_val_split:
  assumes "length B = 1 + k1 + k2"
  shows "be_val B = (B ! 0 * 256 ^ k1 + be_val (take k1 (drop 1 B))) * 256 ^ k2 + be_val (drop (1 + k1) B)"
proof -
  have "B = (B ! 0 # take k1 (drop 1 B)) @ drop (1 + k1) B"
    using assms by (cases B) auto
  then have "be_val B = be_val ((B ! 0 # take k1 (drop 1 B)) @ drop (1 + k1) B)"
    by simp
  also have "\<dots> = (B ! 0 * 256 ^ k1 + be_val (take k1 (drop 1 B))) * 256 ^ k2 + be_val (drop (1 + k1) B)"
    unfolding be_val_append be_val_Cons using assms by simp
  finally show ?thesis .
qed

lemma pow_256: "(256 :: nat) ^ j = 2 ^ (8 * j)"
  by (simp add: power_mult)

lemma less_block: "(a :: nat) < 2 ^ j \<Longrightarrow> b < c \<Longrightarrow> a * c + b < 2 ^ j * c"
proof -
  assume "a < 2 ^ j" "b < c"
  then have "(a + 1) * c \<le> 2 ^ j * c" by (intro mult_le_mono1) simp
  then have "a * c + c \<le> 2 ^ j * c" by (simp only: add_mult_distrib mult_1)
  then show ?thesis using \<open>b < c\<close> by linarith
qed

text \<open>The two masks cut the bits after the sign into exponent and mantissa.\<close>

lemma cut:
  fixes q a0 X Y :: nat
  assumes r: "u + r = 8 * k1 + 7" and n: "n = r + 8 * k2"
    and a0: "a0 < 2 ^ 7" and X: "X < 256 ^ k1" and Y: "Y < 256 ^ k2"
  defines "a1 \<equiv> a0 * 256 ^ k1 + X"
  shows "((q * 2 ^ 7 + a0) * 256 ^ k1 + X) * 256 ^ k2 + Y =
      q * 2 ^ (u + n) + (a1 div 2 ^ r) * 2 ^ n + (a1 mod 2 ^ r * 256 ^ k2 + Y)"
    "a1 div 2 ^ r < 2 ^ u" "a1 mod 2 ^ r * 256 ^ k2 + Y < 2 ^ n"
proof -
  have "((q * 2 ^ 7 + a0) * 256 ^ k1 + X) * 256 ^ k2 + Y = q * (2 ^ 7 * 256 ^ k1 * 256 ^ k2) + a1 * 256 ^ k2 + Y"
    by (simp add: a1_def algebra_simps)
  also have "a1 = a1 div 2 ^ r * 2 ^ r + a1 mod 2 ^ r" by (simp only: div_mult_mod_eq)
  also have "(2 :: nat) ^ 7 * 256 ^ k1 * 256 ^ k2 = 2 ^ (u + n)"
  proof -
    have "u + n = 7 + 8 * k1 + 8 * k2" using r n by linarith
    then show ?thesis by (simp only: pow_256 power_add)
  qed
  also have "q * 2 ^ (u + n) + (a1 div 2 ^ r * 2 ^ r + a1 mod 2 ^ r) * 256 ^ k2 + Y =
      q * 2 ^ (u + n) + (a1 div 2 ^ r) * 2 ^ n + (a1 mod 2 ^ r * 256 ^ k2 + Y)"
  proof -
    have "q * w + (ex * 2 ^ r + s0) * 256 ^ k2 + Y = q * w + ex * 2 ^ n + (s0 * 256 ^ k2 + Y)" for w ex s0 :: nat
      by (simp only: n pow_256 power_add) (simp add: algebra_simps)
    then show ?thesis .
  qed
  finally show "((q * 2 ^ 7 + a0) * 256 ^ k1 + X) * 256 ^ k2 + Y =
      q * 2 ^ (u + n) + (a1 div 2 ^ r) * 2 ^ n + (a1 mod 2 ^ r * 256 ^ k2 + Y)" .
  have "a1 < 2 ^ 7 * 256 ^ k1" unfolding a1_def by (rule less_block [OF a0 X])
  also have "2 ^ 7 * 256 ^ k1 = (2 :: nat) ^ u * 2 ^ r"
    by (simp only: pow_256 power_add [symmetric]) (metis r add.commute)
  finally show "a1 div 2 ^ r < 2 ^ u" by (rule less_mult_imp_div_less)
  have "a1 mod 2 ^ r * 256 ^ k2 + Y < 2 ^ r * 256 ^ k2" by (rule less_block) (use Y in simp_all)
  then show "a1 mod 2 ^ r * 256 ^ k2 + Y < 2 ^ n" by (simp only: n pow_256 power_add)
qed

text \<open>What \<open>read\<close> does with the bytes in the order it reads them.\<close>

lemma read_number_bytes:
  fixes isLE :: bool
  assumes k: "k = 1 + k1 + k2" "u + n + 1 = 8 * k" and r: "u + r = 8 * k1 + 7" "r \<le> 7"
    and t: "e + k \<le> length t"
  defines "B \<equiv> read_order t e isLE k"
  defines "a1 \<equiv> B ! 0 mod 2 ^ 7 * 256 ^ k1 + be_val (take k1 (drop 1 B))"
  defines "m \<equiv> a1 mod 2 ^ r * 256 ^ k2 + be_val (drop (1 + k1) B)"
  shows "read_number t e isLE n k =
    (if a1 div 2 ^ r = 0 then Finite (B ! 0 div 2 ^ 7 \<noteq> 0) (of_nat m * pow2 (1 - int ((2 ^ u - 1) div 2) - int n))
     else if a1 div 2 ^ r = 2 ^ u - 1 then (if m \<noteq> 0 then NaN else Infinity (B ! 0 div 2 ^ 7 \<noteq> 0))
     else Finite (B ! 0 div 2 ^ 7 \<noteq> 0)
            (of_nat (m + 2 ^ n) * pow2 (int (a1 div 2 ^ r) - int ((2 ^ u - 1) div 2) - int n)))"
proof -
  define h0 d where "h0 = int e + (if isLE then int k - 1 else 0)" and "d = (if isLE then -1 else 1 :: int)"
  have B: "length B = k" using length_read_order [OF t] by (simp add: B_def)
  have nth: "t ! nat (h0 + d * int i) = B ! i" if "i < k" for i
    using read_order_nth [OF t that, of isLE] by (simp add: h0_def d_def B_def)
  have p0: "t ! nat h0 = B ! 0" using nth [of 0] k by simp
  have n: "n = r + 8 * k2" using k r by linarith
  have "shift_in t d (B ! 0 mod 2 ^ 7) (h0 + d) (-7 + int u) =
      (B ! 0 mod 2 ^ 7 * 256 ^ k1 + be_val (take k1 (drop 1 B)), h0 + d + d * int k1, -7 + int u - 8 * int k1)"
  proof (rule shift_in_bytes)
    show "t ! nat (h0 + d + d * int i) = B ! (1 + i)" if "i < k1" for i
      using nth [of "1 + i"] that k by (simp add: algebra_simps)
  qed (use k B r in auto)
  then have s1: "shift_in t d (B ! 0 mod 2 ^ 7) (h0 + d) (-7 + int u) = (a1, h0 + d + d * int k1, - int r)"
    using r by (simp add: a1_def)
  have "shift_in t d (a1 mod 2 ^ r) (h0 + d + d * int k1) (- int r + int n) =
      (a1 mod 2 ^ r * 256 ^ k2 + be_val (take k2 (drop (1 + k1) B)), h0 + d + d * int k1 + d * int k2, - int r + int n - 8 * int k2)"
  proof (rule shift_in_bytes)
    show "t ! nat (h0 + d + d * int k1 + d * int i) = B ! (1 + k1 + i)" if "i < k2" for i
      using nth [of "1 + k1 + i"] that k by (simp add: algebra_simps)
  qed (use k B n in auto)
  then have s2: "shift_in t d (a1 mod 2 ^ r) (h0 + d + d * int k1) (- int r + int n) =
      (m, h0 + d + d * int k1 + d * int k2, 0)"
    using k B n by (simp add: m_def)
  have u: "8 * k - n - 1 = u" using k by linarith
  show ?thesis
    unfolding read_number_def u Let_def h0_def [symmetric] d_def [symmetric] p0
      s1 prod.case minus_minus nat_int s2 ..
qed

section \<open>The property\<close>

text \<open>
  C12. \<open>read\<close> computes the number of the IEEE-754 format: in either byte order, with any split of the bits
  into one sign bit, at least 7 bits of exponent and the mantissa, the result is the number that
  the three fields of the bytes stand for, subnormal numbers, zeros, infinities and NaN included.
\<close>

theorem read_is_ieee:
  fixes isLE :: bool
  assumes "u + n + 1 = 8 * k" "7 \<le> u" "e + k \<le> length t" "\<forall>b \<in> set t. b < 256"
  defines "N \<equiv> be_val (read_order t e isLE k)"
  shows "read_number t e isLE n k =
    ieee_value u n (2 ^ (u + n) \<le> N) (N div 2 ^ n mod 2 ^ u) (N mod 2 ^ n)"
proof -
  define B k1 k2 r where "B = read_order t e isLE k" and "k1 = u div 8" and "k2 = k - 1 - k1" and "r = 8 * k1 + 7 - u"
  have u8: "u < 8 * k1 + 8" "8 * k1 \<le> u" unfolding k1_def by presburger+
  have k: "k = 1 + k1 + k2" using assms(1) u8 unfolding k2_def by linarith
  have r: "u + r = 8 * k1 + 7" "r \<le> 7" using u8 unfolding r_def by linarith+
  have n: "n = r + 8 * k2" using assms(1) k r by linarith
  have B: "length B = k" using length_read_order [OF assms(3)] by (simp add: B_def)
  have small: "\<forall>b \<in> set B. b < 256"
    using assms(4) by (auto simp: B_def read_order_def Let_def dest!: in_set_takeD in_set_dropD)
  let ?X = "be_val (take k1 (drop 1 B))" and ?Y = "be_val (drop (1 + k1) B)"
  have X: "?X < 256 ^ k1"
    using be_val_less [of "take k1 (drop 1 B)"] small B k by (auto dest!: in_set_takeD in_set_dropD)
  have Y: "?Y < 256 ^ k2"
    using be_val_less [of "drop (1 + k1) B"] small B k by (auto dest!: in_set_dropD)
  define a1 where "a1 = B ! 0 mod 2 ^ 7 * 256 ^ k1 + ?X"
  have a0: "B ! 0 mod 2 ^ 7 < 2 ^ 7" by simp
  note cut = cut [OF r(1) n a0 X Y, folded a1_def]
  have N: "N = B ! 0 div 2 ^ 7 * 2 ^ (u + n) + a1 div 2 ^ r * 2 ^ n + (a1 mod 2 ^ r * 256 ^ k2 + ?Y)"
  proof -
    have "N = (B ! 0 * 256 ^ k1 + ?X) * 256 ^ k2 + ?Y"
      using be_val_split [of B k1 k2] B k unfolding N_def B_def [symmetric] by simp
    also have "B ! 0 = B ! 0 div 2 ^ 7 * 2 ^ 7 + B ! 0 mod 2 ^ 7" by (simp only: div_mult_mod_eq)
    finally show ?thesis unfolding cut(1) .
  qed
  note run = read_number_bytes [OF k assms(1) r assms(3), of isLE, folded B_def, folded a1_def]
  have "(2 ^ u - 1) div 2 = (2 :: nat) ^ (u - 1) - 1" using assms(2) by (cases u) auto
  then have bias: "int ((2 ^ u - 1) div 2) = 2 ^ (u - 1) - 1" by (simp add: of_nat_diff)
  have "(2 :: nat) ^ 1 \<le> 2 ^ u" using assms(2) by (intro power_increasing) simp_all
  then have "(2 :: nat) ^ u - 1 \<noteq> 0" by simp
  then show ?thesis
    unfolding run ieee_value_def fields [OF cut(2) cut(3) N, simplified] bias by (auto simp: add.commute)
qed

theorem read_is_ieee_witness:
  "read_number [0, 0, 0, 0, 0, 0, 240, 191] 0 True 52 8 = Finite True 1 \<and>
    read_number [0, 0, 0, 1] 0 False 23 4 = Finite False (1 / 2 ^ 149)"
proof -
  have "read_number [0, 0, 0, 0, 0, 0, 240, 191] 0 True 52 8 = Finite True 1"
    using read_is_ieee [of 11 52 8 0 "[0, 0, 0, 0, 0, 0, 240, 191]" True]
    by (simp add: ieee_value_def read_order_def be_val_def pow2_def)
  moreover have "read_number [0, 0, 0, 1] 0 False 23 4 = Finite False (1 / 2 ^ 149)"
    using read_is_ieee [of 8 23 4 0 "[0, 0, 0, 1]" False]
    by (simp add: ieee_value_def read_order_def be_val_def pow2_def)
  ultimately show ?thesis by simp
qed

end
