(* ===== verification/Js_Scrollspy.thy ===== *)
theory Js_Scrollspy
  imports Complex_Main Prelude
begin

text \<open>
  The scroll spy of \<open>frontend/html/js/nicepage.js\<close> (Gumshoe): while the page is scrolled, the
  navigation item of the section in view carries a class.  Elements of the page are numbers; what
  the page says about them (the enclosing list item, the list items around it, positions) is a
  record of the environment, and the classes that the library sets are a set of pairs.
\<close>

section \<open>Definitions\<close>

record item =
  it_nav :: nat
  it_content :: nat

record spy_settings =
  nav_class :: string
  content_class :: string
  nested_class :: string
  is_nested :: bool
  spy_offset :: rat

definition default_settings :: spy_settings where
  "default_settings = \<lparr>nav_class = ''active'', content_class = ''active'', nested_class = ''active'',
     is_nested = False, spy_offset = 0\<rparr>"

text \<open>The page: \<open>closest("li")\<close> of a link, the list items around a list item from the inside out.\<close>

record page =
  li_of :: "nat \<Rightarrow> nat option"
  outer_lis :: "nat \<Rightarrow> nat list"

text \<open>One view of the page: positions of the sections relative to the window, and sizes.\<close>

record view =
  top_of :: "nat \<Rightarrow> rat"
  bottom_of :: "nat \<Rightarrow> rat"
  inner_height :: rat
  page_y_offset :: rat
  scroll_height :: rat
  prevented :: bool

datatype spy_event = Activate nat | Deactivate nat

record spy =
  current :: "item option"
  classes :: "(nat \<times> string) set"
  events :: "spy_event list"

text \<open>\<open>parseInt\<close> of a number truncates towards 0.\<close>

definition truncate :: "rat \<Rightarrow> int" where
  "truncate x = (if x < 0 then - \<lfloor>- x\<rfloor> else \<lfloor>x\<rfloor>)"

definition in_view :: "view \<Rightarrow> spy_settings \<Rightarrow> nat \<Rightarrow> bool \<Rightarrow> bool" where
  "in_view v st c bottom =
     (if bottom then of_int (truncate (bottom_of v c)) < inner_height v
      else of_int (truncate (top_of v c)) \<le> spy_offset st)"

definition at_bottom :: "view \<Rightarrow> bool" where
  "at_bottom v \<longleftrightarrow> inner_height v + page_y_offset v \<ge> scroll_height v"

definition use_last :: "view \<Rightarrow> spy_settings \<Rightarrow> item \<Rightarrow> bool" where
  "use_last v st it \<longleftrightarrow> at_bottom v \<and> in_view v st (it_content it) True"

text \<open>The loop from the last item to the first.\<close>

fun last_in_view :: "view \<Rightarrow> spy_settings \<Rightarrow> item list \<Rightarrow> nat \<Rightarrow> item option" where
  "last_in_view v st its 0 = None"
| "last_in_view v st its (Suc i) =
     (if in_view v st (it_content (its ! i)) False then Some (its ! i) else last_in_view v st its i)"

definition get_active :: "view \<Rightarrow> spy_settings \<Rightarrow> item list \<Rightarrow> item option" where
  "get_active v st its =
     (if its = [] then None
      else if use_last v st (last its) then Some (last its)
      else last_in_view v st its (length its))"

definition remove_nested :: "page \<Rightarrow> spy_settings \<Rightarrow> nat \<Rightarrow> (nat \<times> string) set \<Rightarrow> (nat \<times> string) set" where
  "remove_nested pg st li cl =
     (if is_nested st then fold (\<lambda>o' cl. cl - {(o', nested_class st)}) (outer_lis pg li) cl else cl)"

definition add_nested :: "page \<Rightarrow> spy_settings \<Rightarrow> nat \<Rightarrow> (nat \<times> string) set \<Rightarrow> (nat \<times> string) set" where
  "add_nested pg st li cl =
     (if is_nested st then fold (\<lambda>o' cl. insert (o', nested_class st) cl) (outer_lis pg li) cl else cl)"

definition deactivate :: "page \<Rightarrow> spy_settings \<Rightarrow> item option \<Rightarrow> spy \<Rightarrow> spy" where
  "deactivate pg st it s =
     (case it of
        None \<Rightarrow> s
      | Some i \<Rightarrow>
          (case li_of pg (it_nav i) of
             None \<Rightarrow> s
           | Some li \<Rightarrow>
               s\<lparr>classes := remove_nested pg st li (classes s - {(li, nav_class st)} - {(it_content i, content_class st)}),
                 events := events s @ [Deactivate li]\<rparr>))"

definition activate :: "page \<Rightarrow> spy_settings \<Rightarrow> item \<Rightarrow> spy \<Rightarrow> spy" where
  "activate pg st i s =
     (case li_of pg (it_nav i) of
        None \<Rightarrow> s
      | Some li \<Rightarrow>
          s\<lparr>classes := add_nested pg st li (insert (it_content i, content_class st) (insert (li, nav_class st) (classes s))),
            events := events s @ [Activate li]\<rparr>)"

definition detect :: "page \<Rightarrow> spy_settings \<Rightarrow> item list \<Rightarrow> view \<Rightarrow> spy \<Rightarrow> spy" where
  "detect pg st its v s =
     (if prevented v then s
      else case get_active v st its of
        Some t \<Rightarrow>
          if current s = None \<or> map_option it_content (current s) \<noteq> Some (it_content t)
          then (activate pg st t (deactivate pg st (current s) s))\<lparr>current := Some t\<rparr>
          else s
      | None \<Rightarrow> (deactivate pg st (current s) s)\<lparr>current := None\<rparr>)"

definition destroy :: "page \<Rightarrow> spy_settings \<Rightarrow> spy \<Rightarrow> spy" where
  "destroy pg st s = (deactivate pg st (current s) s)\<lparr>current := None\<rparr>"

definition spy_start :: spy where
  "spy_start = \<lparr>current = None, classes = {}, events = []\<rparr>"

section \<open>The classes follow the current item\<close>

definition item_classes :: "page \<Rightarrow> spy_settings \<Rightarrow> item option \<Rightarrow> (nat \<times> string) set" where
  "item_classes pg st it =
     (case it of
        None \<Rightarrow> {}
      | Some i \<Rightarrow>
          (case li_of pg (it_nav i) of
             None \<Rightarrow> {}
           | Some li \<Rightarrow> {(li, nav_class st), (it_content i, content_class st)} \<union>
               (if is_nested st then (\<lambda>o'. (o', nested_class st)) ` set (outer_lis pg li) else {})))"

lemma fold_remove: "fold (\<lambda>o' cl. cl - {(o', c)}) os cl = cl - (\<lambda>o'. (o', c)) ` set os"
  by (induction os arbitrary: cl) auto

lemma fold_add: "fold (\<lambda>o' cl. insert (o', c) cl) os cl = cl \<union> (\<lambda>o'. (o', c)) ` set os"
  by (induction os arbitrary: cl) auto

lemma classes_deactivate: "classes (deactivate pg st it s) = classes s - item_classes pg st it"
  by (auto simp: deactivate_def item_classes_def remove_nested_def fold_remove split: option.splits)

lemma classes_activate: "classes (activate pg st i s) = classes s \<union> item_classes pg st (Some i)"
  by (auto simp: activate_def item_classes_def add_nested_def fold_add split: option.splits)

definition spy_ok :: "page \<Rightarrow> spy_settings \<Rightarrow> spy \<Rightarrow> bool" where
  "spy_ok pg st s \<longleftrightarrow> classes s = item_classes pg st (current s)"

inductive spy_run :: "page \<Rightarrow> spy_settings \<Rightarrow> item list \<Rightarrow> spy \<Rightarrow> bool" for pg st its where
  spy_begin: "spy_run pg st its spy_start"
| spy_detect: "spy_run pg st its s \<Longrightarrow> spy_run pg st its (detect pg st its v s)"
| spy_destroy: "spy_run pg st its s \<Longrightarrow> spy_run pg st its (destroy pg st s)"

inductive_simps spy_run_start [simp]: "spy_run pg st its spy_start"

lemma spy_ok_none: "item_classes pg st None = {}"
  by (simp add: item_classes_def)

lemma spy_ok_detect: "spy_ok pg st s \<Longrightarrow> spy_ok pg st (detect pg st its v s)"
  by (simp add: spy_ok_def detect_def classes_deactivate classes_activate spy_ok_none split: option.split)

lemma spy_run_ok: "spy_run pg st its s \<Longrightarrow> spy_ok pg st s"
  by (induction rule: spy_run.induct)
    (simp_all add: spy_ok_detect, simp_all add: spy_ok_def spy_start_def destroy_def classes_deactivate spy_ok_none)

lemma last_in_view_Some:
  "last_in_view v st its n = Some t \<Longrightarrow>
   \<exists>i < n. t = its ! i \<and> in_view v st (it_content t) False \<and> (\<forall>j. i < j \<longrightarrow> j < n \<longrightarrow> \<not> in_view v st (it_content (its ! j)) False)"
proof (induction n)
  case (Suc n)
  then show ?case
    by (cases "in_view v st (it_content (its ! n)) False") (auto simp: less_Suc_eq)
qed simp

lemma last_in_view_None:
  "last_in_view v st its n = None \<longleftrightarrow> (\<forall>i < n. \<not> in_view v st (it_content (its ! i)) False)"
  by (induction n) (auto simp: less_Suc_eq)

section \<open>Properties\<close>

text \<open>
  C15. However the page is scrolled, and also when the spy is destroyed in between, the classes set by the
  library are exactly those of the current item: its list item and its section, and with nested
  navigation the list items around it; nothing is left over from items that were current before.
\<close>

theorem spy_classes_follow_current:
  assumes "spy_run pg st its s"
  shows "classes s = item_classes pg st (current s) \<and> classes (destroy pg st s) = {}"
  using spy_run_ok [OF assms] by (simp add: spy_ok_def destroy_def classes_deactivate)

definition example_page :: page where
  "example_page = \<lparr>li_of = (\<lambda>n. Some (n + 10)), outer_lis = (\<lambda>n. [20])\<rparr>"

definition example_items :: "item list" where
  "example_items = [\<lparr>it_nav = 1, it_content = 101\<rparr>, \<lparr>it_nav = 2, it_content = 102\<rparr>]"

definition example_view :: "rat \<Rightarrow> view" where
  "example_view y = \<lparr>top_of = (\<lambda>c. (if c = 101 then 0 else 500) - y), bottom_of = (\<lambda>c. (if c = 101 then 500 else 1000) - y),
     inner_height = 300, page_y_offset = y, scroll_height = 2000, prevented = False\<rparr>"

definition example_spy :: spy where
  "example_spy = detect example_page (default_settings\<lparr>is_nested := True\<rparr>) example_items (example_view 600)
     (detect example_page (default_settings\<lparr>is_nested := True\<rparr>) example_items (example_view 0) spy_start)"

theorem spy_classes_follow_current_witness:
  "classes example_spy = {(12, ''active''), (102, ''active''), (20, ''active'')}"
proof -
  let ?st = "default_settings\<lparr>is_nested := True\<rparr>"
  have "spy_run example_page ?st example_items example_spy"
    unfolding example_spy_def by (intro spy_run.intros)
  moreover have "current example_spy = Some \<lparr>it_nav = 2, it_content = 102\<rparr>"
    by (simp add: example_spy_def detect_def get_active_def use_last_def at_bottom_def in_view_def example_view_def
        example_items_def spy_start_def default_settings_def truncate_def activate_def deactivate_def example_page_def)
  ultimately show ?thesis
    using spy_classes_follow_current [of example_page ?st example_items example_spy]
    by (auto simp: item_classes_def example_page_def default_settings_def)
qed

text \<open>
  The current item after a scroll is determined by the view alone: it is the last item when the
  page is scrolled to its end and the end of that item is inside the window, otherwise the last
  item whose section begins at or above the offset, and none if there is no such item.
\<close>

lemma detect_picks:
  assumes "\<not> prevented v" "distinct (map it_content its)" "set_option (current s) \<subseteq> set its"
  shows "(its \<noteq> [] \<and> use_last v st (last its) \<longrightarrow> current (detect pg st its v s) = Some (last its)) \<and>
    (its = [] \<or> \<not> use_last v st (last its) \<longrightarrow>
      (case current (detect pg st its v s) of
         None \<Rightarrow> list_all (\<lambda>t. \<not> in_view v st (it_content t) False) its
       | Some t \<Rightarrow> \<exists>xs ys. its = xs @ t # ys \<and> in_view v st (it_content t) False \<and>
           list_all (\<lambda>t. \<not> in_view v st (it_content t) False) ys))"
proof -
  have same: "x = t" if "x \<in> set its" "t \<in> set its" "it_content x = it_content t" for x t
    using assms(2) that by (auto simp: distinct_map inj_on_def)
  have mem: "get_active v st its = Some t \<Longrightarrow> t \<in> set its" for t
    using last_in_view_Some [of v st its "length its" t] by (auto simp: get_active_def split: if_splits)
  have cur: "current (detect pg st its v s) = get_active v st its"
  proof (cases "get_active v st its")
    case (Some t)
    then show ?thesis
      using assms(1,3) mem [OF Some] same by (cases "current s") (auto simp: detect_def)
  qed (use assms(1) in \<open>simp add: detect_def\<close>)
  have "case last_in_view v st its (length its) of
      None \<Rightarrow> list_all (\<lambda>t. \<not> in_view v st (it_content t) False) its
    | Some t \<Rightarrow> \<exists>xs ys. its = xs @ t # ys \<and> in_view v st (it_content t) False \<and>
        list_all (\<lambda>t. \<not> in_view v st (it_content t) False) ys"
  proof (cases "last_in_view v st its (length its)")
    case None
    then have "list_all (\<lambda>t. \<not> in_view v st (it_content t) False) its"
      by (simp add: last_in_view_None list_all_length)
    then show ?thesis using None by simp
  next
    case (Some t)
    then obtain i where i: "i < length its" "t = its ! i" "in_view v st (it_content t) False"
      "\<forall>j. i < j \<longrightarrow> j < length its \<longrightarrow> \<not> in_view v st (it_content (its ! j)) False"
      using last_in_view_Some by blast
    then have "its = take i its @ t # drop (Suc i) its" by (simp add: id_take_nth_drop)
    moreover have "list_all (\<lambda>t. \<not> in_view v st (it_content t) False) (drop (Suc i) its)"
      using i(1,4) by (simp add: list_all_length)
    ultimately show ?thesis using Some i(3) by auto
  qed
  then show ?thesis
    unfolding cur by (auto simp: get_active_def)
qed

end
