(* ===== verification/Js_Waypoints.thy ===== *)
theory Js_Waypoints
  imports Complex_Main Prelude "HOL-Library.AList"
begin

text \<open>
  Waypoints of \<open>frontend/html/js/nicepage.js\<close>: a context remembers its scroll position and the points
  at which callbacks fire; when the page is scrolled, the waypoints that were crossed are queued in
  their groups and the groups call them in the order of the movement.  A context has one table of
  waypoints for each axis, in the order of their insertion; a call of a callback is recorded as the
  key of its waypoint and the direction.
\<close>

section \<open>State\<close>

datatype direction = Up | Down | Left | Right

record waypoint =
  wp_key :: nat
  trigger_point :: "int option"
  wp_enabled :: bool
  wp_continuous :: bool
  wp_group :: nat

type_synonym queue = "waypoint list"

record queues =
  q_up :: queue
  q_down :: queue
  q_left :: queue
  q_right :: queue

record scroll_context =
  scroll_x :: rat
  scroll_y :: rat
  horizontal :: "waypoint list"
  vertical :: "waypoint list"

text \<open>The groups by their identifier; an axis is part of the identifier.\<close>

type_synonym groups = "(nat, queues) cmap"

definition empty_queues :: queues where
  "empty_queues = \<lparr>q_up = [], q_down = [], q_left = [], q_right = []\<rparr>"

definition queues_of :: "nat \<Rightarrow> groups \<Rightarrow> queues" where
  "queues_of g gs = (case map_of gs g of None \<Rightarrow> empty_queues | Some q \<Rightarrow> q)"

section \<open>Operations\<close>

definition queue_trigger :: "waypoint \<Rightarrow> direction \<Rightarrow> groups \<Rightarrow> groups" where
  "queue_trigger w d gs =
     (let q = queues_of (wp_group w) gs in
      AList.update (wp_group w)
        (case d of
           Up \<Rightarrow> q\<lparr>q_up := q_up q @ [w]\<rparr>
         | Down \<Rightarrow> q\<lparr>q_down := q_down q @ [w]\<rparr>
         | Left \<Rightarrow> q\<lparr>q_left := q_left q @ [w]\<rparr>
         | Right \<Rightarrow> q\<lparr>q_right := q_right q @ [w]\<rparr>) gs)"

definition point :: "waypoint \<Rightarrow> int" where
  "point w = (case trigger_point w of None \<Rightarrow> 0 | Some p \<Rightarrow> p)"

text \<open>
  The queue is sorted by the point (a stable sort), in descending order for up and left; a waypoint
  that is not continuous is called only as the last one; a disabled one is not called.
\<close>

definition sort_queue :: "direction \<Rightarrow> queue \<Rightarrow> queue" where
  "sort_queue d q = (if d = Up \<or> d = Left then sort_key (\<lambda>w. - point w) q else sort_key point q)"

fun call_queue :: "direction \<Rightarrow> queue \<Rightarrow> (nat \<times> direction) list" where
  "call_queue d [] = []"
| "call_queue d (u # us) =
     (if (wp_continuous u \<or> us = []) \<and> wp_enabled u then [(wp_key u, d)] else []) @ call_queue d us"

definition flush_triggers :: "nat \<Rightarrow> groups \<Rightarrow> (nat \<times> direction) list \<times> groups" where
  "flush_triggers g gs =
     (let q = queues_of g gs in
      (call_queue Up (sort_queue Up (q_up q)) @ call_queue Down (sort_queue Down (q_down q)) @
       call_queue Left (sort_queue Left (q_left q)) @ call_queue Right (sort_queue Right (q_right q)),
       AList.update g empty_queues gs))"

definition crossed :: "rat \<Rightarrow> rat \<Rightarrow> waypoint \<Rightarrow> bool" where
  "crossed old new w =
     (case trigger_point w of
        None \<Rightarrow> False
      | Some p \<Rightarrow>
          let was = old < of_int p; now = new \<ge> of_int p
          in was \<and> now \<or> \<not> was \<and> \<not> now)"

definition queue_axis ::
  "rat \<Rightarrow> rat \<Rightarrow> direction \<Rightarrow> direction \<Rightarrow> waypoint list \<Rightarrow> nat list \<times> groups \<Rightarrow> nat list \<times> groups" where
  "queue_axis old new forward backward ws st =
     (let a = (if new > old then forward else backward) in
      fold (\<lambda>w (t, gs).
        if crossed old new w
        then (if wp_group w \<in> set t then t else t @ [wp_group w], queue_trigger w a gs)
        else (t, gs)) ws st)"

definition flush_all :: "nat list \<Rightarrow> groups \<Rightarrow> (nat \<times> direction) list \<times> groups" where
  "flush_all t gs =
     fold (\<lambda>g (calls, gs). case flush_triggers g gs of (c, gs') \<Rightarrow> (calls @ c, gs')) t ([], gs)"

definition handle_scroll ::
  "rat \<Rightarrow> rat \<Rightarrow> scroll_context \<Rightarrow> groups \<Rightarrow> (nat \<times> direction) list \<times> scroll_context \<times> groups" where
  "handle_scroll x y cx gs =
     (case queue_axis (scroll_y cx) y Down Up (vertical cx)
             (queue_axis (scroll_x cx) x Right Left (horizontal cx) ([], gs)) of
        (t, gs1) \<Rightarrow>
      case flush_all t gs1 of
        (calls, gs2) \<Rightarrow> (calls, cx\<lparr>scroll_x := x, scroll_y := y\<rparr>, gs2))"

text \<open>The neighbours in a group; for a waypoint that is not in it, \<open>next\<close> gives the first one.\<close>

definition group_next :: "nat \<Rightarrow> waypoint list \<Rightarrow> waypoint option" where
  "group_next k ws =
     (let ws = sort_key point ws; i = length (takeWhile (\<lambda>w. wp_key w \<noteq> k) ws)
      in if i = length ws then (if ws = [] then None else Some (hd ws))
         else if i + 1 < length ws then Some (ws ! (i + 1)) else None)"

definition group_previous :: "nat \<Rightarrow> waypoint list \<Rightarrow> waypoint option" where
  "group_previous k ws =
     (let ws = sort_key point ws; i = length (takeWhile (\<lambda>w. wp_key w \<noteq> k) ws)
      in if 0 < i \<and> i < length ws then Some (ws ! (i - 1)) else None)"

section \<open>Scrolling\<close>

definition idle :: "groups \<Rightarrow> bool" where
  "idle gs \<longleftrightarrow> (\<forall>g. queues_of g gs = empty_queues)"

lemma queues_of_update: "queues_of h (AList.update g q gs) = (if h = g then q else queues_of h gs)"
  by (simp add: queues_of_def update_conv')

lemma crossed_same: "\<not> crossed p p w"
  by (auto simp: crossed_def Let_def split: option.splits)

lemma queue_axis_same: "queue_axis p p f b ws st = st"
proof -
  have "fold (\<lambda>w (t, gs). if crossed p p w then (if wp_group w \<in> set t then t else t @ [wp_group w], queue_trigger w a gs)
      else (t, gs)) ws st = st" for a
    by (induction ws) (simp_all add: crossed_same case_prod_beta')
  then show ?thesis by (simp add: queue_axis_def)
qed

text \<open>One group, moving down or up: the queue of that direction receives the crossed waypoints.\<close>

definition set_queue :: "direction \<Rightarrow> queue \<Rightarrow> queues \<Rightarrow> queues" where
  "set_queue d q qs =
     (case d of Up \<Rightarrow> qs\<lparr>q_up := q\<rparr> | Down \<Rightarrow> qs\<lparr>q_down := q\<rparr> | Left \<Rightarrow> qs\<lparr>q_left := q\<rparr> | Right \<Rightarrow> qs\<lparr>q_right := q\<rparr>)"

lemma queue_fold:
  assumes "\<forall>w \<in> set ws. wp_group w = g" "queues_of g gs = set_queue a q empty_queues"
    "\<And>h. h \<noteq> g \<Longrightarrow> queues_of h gs = empty_queues" "t = (if q = [] then [] else [g])"
  shows "\<exists>gs'. fold (\<lambda>w (t, gs). if crossed old new w
        then (if wp_group w \<in> set t then t else t @ [wp_group w], queue_trigger w a gs) else (t, gs)) ws (t, gs)
      = (if q @ filter (crossed old new) ws = [] then [] else [g], gs') \<and>
    queues_of g gs' = set_queue a (q @ filter (crossed old new) ws) empty_queues \<and>
    (\<forall>h. h \<noteq> g \<longrightarrow> queues_of h gs' = empty_queues)"
  using assms
proof (induction ws arbitrary: q gs t)
  case (Cons w ws)
  show ?case
  proof (cases "crossed old new w")
    case True
    let ?gs = "queue_trigger w a gs"
    have g: "wp_group w = g" using Cons.prems(1) by simp
    have "queues_of g ?gs = set_queue a (q @ [w]) empty_queues"
      using Cons.prems(2) g by (cases a) (simp_all add: queue_trigger_def queues_of_update set_queue_def empty_queues_def Let_def)
    moreover have "\<And>h. h \<noteq> g \<Longrightarrow> queues_of h ?gs = empty_queues"
      using Cons.prems(3) g by (simp add: queue_trigger_def queues_of_update Let_def)
    ultimately show ?thesis
      using Cons.IH [of ?gs "q @ [w]" "[g]"] Cons.prems(1,4) True g by auto
  qed (use Cons in auto)
qed auto

lemma flush_one:
  assumes "queues_of g gs = set_queue a q empty_queues" "\<And>h. h \<noteq> g \<Longrightarrow> queues_of h gs = empty_queues"
  shows "\<exists>gs'. flush_all (if q = [] then [] else [g]) gs = (call_queue a (sort_queue a q), gs') \<and> idle gs'"
proof (cases "q = []")
  case True
  then have "queues_of g gs = empty_queues"
    using assms(1) by (cases a) (simp_all add: set_queue_def empty_queues_def)
  then have "idle gs" using assms(2) by (metis idle_def)
  then show ?thesis using True by (simp add: flush_all_def sort_queue_def)
next
  case False
  have none: "call_queue d (sort_queue d []) = []" for d by (simp add: sort_queue_def)
  have "idle (AList.update g empty_queues gs)"
    using assms(2) by (simp add: idle_def queues_of_update)
  moreover have "fst (flush_triggers g gs) = call_queue a (sort_queue a q)"
    using assms(1) none by (cases a) (simp_all add: flush_triggers_def set_queue_def empty_queues_def Let_def)
  moreover have "snd (flush_triggers g gs) = AList.update g empty_queues gs"
    by (simp add: flush_triggers_def Let_def)
  ultimately show ?thesis using False by (cases "flush_triggers g gs") (simp add: flush_all_def)
qed

lemma call_queue_continuous:
  "\<forall>w \<in> set q. wp_continuous w \<Longrightarrow> call_queue d q = map (\<lambda>w. (wp_key w, d)) (filter wp_enabled q)"
  by (induction q) auto

lemma filter_sort_queue: "filter P (sort_queue d q) = sort_queue d (filter P q)"
  by (simp add: sort_queue_def filter_sort)

lemma crossed_down:
  "old < new \<Longrightarrow> crossed old new w = (\<exists>p. trigger_point w = Some p \<and> old < of_int p \<and> of_int p \<le> new)"
  by (auto simp: crossed_def Let_def split: option.splits)

lemma crossed_up:
  "new < old \<Longrightarrow> crossed old new w = (\<exists>p. trigger_point w = Some p \<and> new < of_int p \<and> of_int p \<le> old)"
  by (auto simp: crossed_def Let_def split: option.splits)

section \<open>Properties\<close>

definition between :: "rat \<Rightarrow> rat \<Rightarrow> waypoint \<Rightarrow> bool" where
  "between lo hi w = (case trigger_point w of None \<Rightarrow> False | Some p \<Rightarrow> lo < of_int p \<and> of_int p \<le> hi)"

lemma scroll_vertical:
  assumes "idle gs" "x = scroll_x cx" "\<forall>w \<in> set (vertical cx). wp_group w = g"
  shows "\<exists>gs'. handle_scroll x y cx gs =
    (call_queue (if y > scroll_y cx then Down else Up)
       (sort_queue (if y > scroll_y cx then Down else Up) (filter (crossed (scroll_y cx) y) (vertical cx))),
     cx\<lparr>scroll_y := y\<rparr>, gs') \<and> idle gs'"
proof -
  let ?a = "if y > scroll_y cx then Down else Up" and ?q = "filter (crossed (scroll_y cx) y) (vertical cx)"
  have h: "queue_axis (scroll_x cx) x Right Left (horizontal cx) ([], gs) = ([], gs)"
    by (simp add: assms(2) queue_axis_same)
  obtain gs1 where v: "queue_axis (scroll_y cx) y Down Up (vertical cx) ([], gs) = (if ?q = [] then [] else [g], gs1)"
    "queues_of g gs1 = set_queue ?a ?q empty_queues" "\<forall>h. h \<noteq> g \<longrightarrow> queues_of h gs1 = empty_queues"
    using queue_fold [OF assms(3), of gs ?a "[]" "[]" "scroll_y cx" y] assms(1)
    by (auto simp: idle_def queue_axis_def Let_def set_queue_def empty_queues_def split: direction.splits)
  obtain gs' where "flush_all (if ?q = [] then [] else [g]) gs1 = (call_queue ?a (sort_queue ?a ?q), gs')" "idle gs'"
    using flush_one [OF v(2)] v(3) by blast
  then show ?thesis using h v(1) assms(2) by (simp add: handle_scroll_def)
qed

text \<open>
  C14. Scrolling calls exactly the waypoints that are crossed, in the order in which the movement meets
  them: down from \<open>old\<close> to \<open>new\<close> these are the enabled waypoints with a point in \<open>(old, new]\<close> by
  ascending point, and scrolling back up calls those same waypoints by descending point; afterwards
  no call is left in any queue, so a scroll event without a movement calls nothing.
\<close>

theorem scroll_calls_crossed:
  assumes "idle gs" "\<forall>w \<in> set (vertical cx). wp_group w = g \<and> wp_continuous w" "scroll_y cx < y"
    "handle_scroll (scroll_x cx) y cx gs = (calls, cx1, gs1)"
    "handle_scroll (scroll_x cx) (scroll_y cx) cx1 gs1 = (calls_back, cx2, gs2)"
  defines "met \<equiv> filter (\<lambda>w. wp_enabled w \<and> between (scroll_y cx) y w) (vertical cx)"
  shows "calls = map (\<lambda>w. (wp_key w, Down)) (sort_key point met) \<and>
    calls_back = map (\<lambda>w. (wp_key w, Up)) (sort_key (\<lambda>w. - point w) met) \<and> cx2 = cx \<and> idle gs2"
proof -
  have ws: "\<forall>w \<in> set (vertical cx). wp_group w = g" "\<forall>w \<in> set (vertical cx). wp_continuous w"
    using assms(2) by simp_all
  obtain gs' where 1: "handle_scroll (scroll_x cx) y cx gs =
      (call_queue Down (sort_queue Down (filter (crossed (scroll_y cx) y) (vertical cx))), cx\<lparr>scroll_y := y\<rparr>, gs')" "idle gs'"
    using scroll_vertical [OF assms(1) refl ws(1), of y] assms(3) by auto
  then have cx1: "cx1 = cx\<lparr>scroll_y := y\<rparr>" "gs1 = gs'" using assms(4) by simp_all
  have "\<not> scroll_y cx > scroll_y cx1" using assms(3) cx1 by simp
  then obtain gs'' where 2: "handle_scroll (scroll_x cx) (scroll_y cx) cx1 gs1 =
      (call_queue Up (sort_queue Up (filter (crossed y (scroll_y cx)) (vertical cx))), cx, gs'')" "idle gs''"
    using scroll_vertical [of gs1 "scroll_x cx" cx1 g "scroll_y cx"] 1(2) ws(1) cx1 by auto
  have same: "crossed (scroll_y cx) y = between (scroll_y cx) y" "crossed y (scroll_y cx) = between (scroll_y cx) y"
    using crossed_down [OF assms(3)] crossed_up [OF assms(3)] by (auto simp: fun_eq_iff between_def split: option.splits)
  have "call_queue d (sort_queue d (filter (between (scroll_y cx) y) (vertical cx))) = map (\<lambda>w. (wp_key w, d)) (sort_queue d met)" for d
  proof -
    have "\<forall>w \<in> set (sort_queue d (filter (between (scroll_y cx) y) (vertical cx))). wp_continuous w"
      using ws(2) by (simp add: sort_queue_def)
    then show ?thesis
      by (simp add: call_queue_continuous filter_sort_queue met_def conj_commute)
  qed
  from this [of Down] this [of Up] show ?thesis
    using 1 2 assms(4,5) unfolding same by (auto simp: sort_queue_def)
qed

definition example_waypoint :: "nat \<Rightarrow> int \<Rightarrow> waypoint" where
  "example_waypoint k p = \<lparr>wp_key = k, trigger_point = Some p, wp_enabled = True, wp_continuous = True, wp_group = 0\<rparr>"

definition example_context :: scroll_context where
  "example_context = \<lparr>scroll_x = 0, scroll_y = 0, horizontal = [],
     vertical = [example_waypoint 1 300, example_waypoint 2 100, example_waypoint 3 900]\<rparr>"

theorem scroll_calls_crossed_witness:
  "fst (handle_scroll 0 500 example_context []) = [(2, Down), (1, Down)]"
proof -
  have "idle []" by (simp add: idle_def queues_of_def)
  obtain c cx1 gs1 c' cx2 gs2 where h: "handle_scroll (scroll_x example_context) 500 example_context [] = (c, cx1, gs1)"
    "handle_scroll (scroll_x example_context) (scroll_y example_context) cx1 gs1 = (c', cx2, gs2)"
    by (metis prod_cases3)
  have "c = [(2, Down), (1, Down)]"
    using scroll_calls_crossed [OF \<open>idle []\<close> _ _ h, of 0]
    by (simp add: example_context_def example_waypoint_def between_def point_def)
  then show ?thesis using h by (simp add: example_context_def)
qed

end
