(* ===== verification/Spec2Isabelle.thy ===== *)
theory Spec2Isabelle
  imports Hash Address_Parse Http_Operation Replication Login Smtp_Correct Web_Correct Storage_Faults Storage_Web Storage_Session Chunk_Bounds Admin_Correct Sync_Correct Js_Base64 Js_Background Js_Cookie Js_Modules Js_Ieee754 Js_Scrollspy Js_Waypoints
begin

text \<open>
  A cloud service in C++ and its web pages: storage nodes keep key-value maps of users in memory, in a log and in
  chunk files, and are grouped into primaries and secondaries; a master watches the nodes and tells clients which one serves a
  user; web servers and an SMTP server keep accounts and mailboxes in the store; the pages use a
  bundle of browser scripts.  This library models the program's own logic as HOL
  functions, bytes included, and proves what each part promises and what they promise together.

  \<^bold>\<open>Conventions\<close>
  A byte string is a \<open>char list\<close>; a C++ exception, undefined behaviour or \<open>abort\<close> is a value of \<open>exn\<close> (\<open>Prelude\<close>); code that may
  raise returns \<open>'a res\<close>.  An \<open>unordered_map\<close> is an association list with distinct keys (\<open>cmap\<close>), whose order stands for the
  iteration order that the C++ standard leaves open.  32- and 64-bit integers are words where they can wrap around.  State is
  passed explicitly.  Definitions keep the names of the source.

  \<^bold>\<open>The standard library\<close> (\<open>Cpp_Strings\<close>, \<open>Cpp_Regex\<close>)
  Decimal conversion, \<open>find\<close> and \<open>substr\<close>, input streams with their state bits, and \<open>std::regex\<close> as a backtracking matcher
  in the order of an ECMAScript engine.

  \<^bold>\<open>Common code\<close> (\<open>src/common\<close>)
  \<open>Msg_Operation\<close> (\<open>msg_operation.h\<close>: numbers as bytes, \<open>split\<close>, \<open>replace\<close>), \<open>Hash\<close> (\<open>hash.h\<close>), \<open>Address_Parse\<close>
  (\<open>address_parse.h\<close>), \<open>Tcp_Operation\<close> (\<open>tcp_operation.h\<close>: complete reads and writes, framing), \<open>Http_Operation\<close>
  (\<open>http_operation.h\<close>: form decoding, lines), \<open>File_Operation\<close> (\<open>file_operation.h\<close> over an explicit file system),
  \<open>Kv_Interface\<close> (\<open>kv_interface.h\<close> and \<open>proto.proto\<close>: commands, answers and the calls of a client).  Shown: round trips,
  equivalence of the loops with their specifications, and that what is written is what is read under every segmentation of a stream.

  \<^bold>\<open>The storage node\<close> (\<open>src/backend\<close>)
  \<^item> \<open>Chunk\<close> models \<open>chunk.h\<close> on the bytes of the files: records, metadata, the list of deletions and its lazy
    execution.  \<open>Chunk_Correct\<close>: a well-formed folder represents a map; reading returns it, appending a batch updates it.
  \<^item> \<open>Cache\<close> models \<open>KvCache\<close> of \<open>cache.h\<close>: caches, log, \<open>Gets\<close>, \<open>Puts\<close>, \<open>Cputs\<close>, \<open>Dele\<close>, \<open>Checkpoint\<close>, \<open>ReplayLoggings\<close>.
    \<open>Cache_Replay\<close>: replaying a log restores the logged state; a gap in its numbers is refused.
    \<open>Cache_Correct\<close>: what a cache over a folder shows, and that every operation keeps it.  \<open>Chunk_Bounds\<close>: how large chunks get.
  \<^item> \<open>Sync\<close> models both sides of the synchronisation of a secondary.  \<open>Sync_Correct\<close>: the conversation in which a secondary that comes back replays
    the log of the primary; of the full synchronisation, that it fails for some user names.
  \<^item> \<open>Kvstore\<close> models \<open>kvstore.cpp\<close>, \<open>cluster_interface.h\<close> and \<open>kv_config.h\<close>: the commands of a node, forwarding,
    checkpoints, start-up.  \<open>Kvstore_Correct\<close>: a node in a well-formed state (\<open>node_ok\<close>, \<open>live_node\<close>) executes commands as an atomic map \<open>nval\<close>.
    \<open>Node_Safety\<close>: every well-typed command of a client is executed without an exception and keeps the state well formed.
  \<^item> \<open>Replication\<close>: refinement of the map by sequences of updates, recovery after a crash, replicas, checkpoints, and three
    ways in which the code loses these guarantees.

  \<^bold>\<open>The client interface\<close>
  \<open>Kv_Client\<close> states what a client may rely on as the locale \<open>kv_link\<close> (the calls over a link act on a map
  \<open>val\<close>, in which an absent key has the empty value), and its extension \<open>sized_kv_link\<close>, in which shorter values are as good as longer ones.
  \<open>Kvstore_Correct\<close> interprets both on the model of a node (\<open>kv_node\<close>, \<open>sized_node\<close>).  Accounts, mailboxes and the file storage service are
  proved over the locales; their properties are stated for a node.

  \<^bold>\<open>The master\<close> (\<open>src/master\<close>)
  \<open>Monitor\<close> models \<open>monitor.h\<close>, the requests of \<open>master.cpp\<close>, \<open>master_interface.h\<close> and the choice of \<open>load_balance.h\<close>.
  \<open>Monitor_Correct\<close> defines the transitions of the master (\<open>live_change\<close>, \<open>master_step\<close>, \<open>master_run\<close>) and the
  invariant that its three lists agree; \<open>Cluster\<close> combines master and nodes: one primary per group in every reachable
  state, a primary stays until it leaves, changes are broadcast.  \<open>Admin\<close> (\<open>admin.h\<close>, \<open>master_request.h\<close>): the administration page, from the bytes
  of a request to the tables, the buttons and the raw data of a user; \<open>Admin_Correct\<close>: the buttons act on the server
  next to them, and the raw data of one user can be shown for another.

  \<^bold>\<open>Accounts and mail\<close> (\<open>src/frontend\<close>, \<open>src/email\<close>)
  \<^item> \<open>Login\<close> (\<open>login.h\<close>): a session of signing up, signing in and changing the password, end to end; and that an unknown user gets in.
  \<^item> \<open>Mbox\<close> (\<open>mail/mail.h\<close>, \<open>mail/mbox.h\<close>): the printed mailbox and its parser are inverse; loading, appending, deleting with
    retries.  \<open>Webmail\<close> (\<open>email.h\<close>, \<open>mail/relay.h\<close>): sending, listing, deleting, and the relay to other domains.
    \<open>Webmail_Correct\<close>: sending and deleting from end to end, and the two races of the retries.
  \<^item> \<open>Smtp\<close> (\<open>smtp.cpp\<close>, \<open>server.h\<close>): a connection from its bytes to the mailboxes.  \<open>Smtp_Correct\<close>: an accepted
    transaction is delivered, and also to the recipients of earlier ones.
  \<^item> \<open>Web_Request\<close> (\<open>request.h\<close>: responses, requests from their bytes) and \<open>Web\<close> (\<open>reply.h\<close>, \<open>email_reply.h\<close>): sessions, the pages for
    accounts and mail, the answer in bytes.  \<open>Web_Correct\<close>: private pages need a session, a login opens one, and two inputs that end the server.

  \<^bold>\<open>File storage\<close> (\<open>storage.h\<close>, \<open>storage_interface.h\<close>, \<open>storage_reply.h\<close> in \<open>src/frontend\<close>)
  \<^item> \<open>Storage\<close> models \<open>StorageHandler\<close> on a heap of objects that point to each other, as the code has them: reading, printing and
    parsing the metadata, and every request with its attempts.  A function is a \<open>prog\<close>: it works on the store, can raise, and may not end.
  \<^item> \<open>Storage_Tree\<close> (objects that represent a tree of folders), \<open>Storage_Text\<close> and \<open>Storage_Parse\<close> (printing and parsing are inverse),
    \<open>Storage_Edit\<close> (changes of objects are changes of the tree), \<open>Storage_Service\<close> (each request over \<open>sized_kv_link\<close>).
  \<^item> \<open>Storage_Correct\<close>: each request on a node, for a user whose metadata describe a tree (\<open>drive\<close>), as an operation on the map from paths
    to files and folders (\<open>shown\<close>); \<open>Storage_Movable\<close>: the destinations offered for a move; \<open>Storage_Session\<close>: sequences of
    requests refine an abstract file system; \<open>Storage_Faults\<close>: requests that are accepted although they cannot be served.
  \<^item> \<open>Storage_Pages\<close> models the pages and forms; \<open>Storage_Forms\<close> what is read from the forms that a browser sends; \<open>Storage_Web\<close>: the list of a
    folder, an upload and the download after it, from the forms to the store and back, and an upload that is mistaken for a new folder.

  \<^bold>\<open>Browser scripts\<close> (\<open>src/frontend/html/js/nicepage.js\<close>, a bundle in very long lines)
  \<open>Js_Modules\<close> (the loader, line 1), \<open>Js_Background\<close> (layers of a background, lines 2 to 6), \<open>Js_Base64\<close> (line 6),
  \<open>Js_Ieee754\<close> (line 7), \<open>Js_Waypoints\<close> (lines 22 to 28), \<open>Js_Cookie\<close> (lines 29 to 35), \<open>Js_Scrollspy\<close> (lines 36 to 42).  JavaScript's own
  library (\<open>encodeURIComponent\<close>, \<open>trim\<close>, \<open>split\<close>, bit operators) is modelled where it is used.

  \<^bold>\<open>Bounds and fuel\<close>
  The log numbers its entries with \<open>stoi\<close>, so recovery assumes fewer than 2^31; values are shorter than 2^31 bytes because their
  length is read back with \<open>stoi\<close>.  Loops over streams and files end because they consume input (\<open>termination\<close> with a measure).  The
  loader of the scripts has fuel, and as many nested loads as there are modules are proved to be enough.  The
  retries of a mailbox have fuel; with one writer none is needed, with two writers one is, and the
  properties are stated for every larger bound.  The storage service tries a change 20 times, as the code does; the deletion of a folder has fuel
  (\<open>hd_fuel\<close>), and as much as there are identifiers in the folder is enough; for a sequence of requests, one more than the largest identifier
  and the number of requests.  Identifiers are below 2^31, since they are read with \<open>stoi\<close>; the metadata are a value of the store, and so shorter than that.

  \<^bold>\<open>Parameters\<close>
  Protobuf (\<open>link\<close>, \<open>env\<close>: encoding, decoding and the exchange of messages), the operating system's sockets, resolver, clock and
  random numbers, the iteration order of hash maps, and the document of a page.

  \<^bold>\<open>Not modelled\<close>
  Threads, epoll, heartbeats and option parsing (calls of the operating system around the modelled functions); the widgets of the browser bundle
  and jQuery, which operate on the document; scripts that build and start the program.
\<close>

end
